(* ===== verification/Proteus_Prelude.thy ===== *)
theory Proteus_Prelude
  imports Main "HOL-Library.Word" "HOL-Library.AList"
begin

text \<open>
  Shared vocabulary of the development.

  \<^item> The fixed-width integers of the Rust sources as machine words, byte strings as lists of
    \<open>8 word\<close>, and the result type of a Rust computation: a value, an \<open>Err\<close> of the
    function's own error type, or a panic (failed \<open>assert!\<close>, \<open>expect\<close>, slice index out of
    range).  A panic is a value of the model, so that panic freedom is something to prove.
  \<^item> The operations of the standard library the sources use: slicing, indexing, big-endian
    conversion, saturating arithmetic, hash maps (association lists with distinct keys).
  \<^item> The interfaces (locales) several components share: a self-delimiting codec, a state
    machine with an invariant and one with a bounded store.
\<close>

unbundle bit_operations_syntax

section \<open>Machine integers, bytes and results\<close>

type_synonym u8 = "8 word"
type_synonym u16 = "16 word"
type_synonym u32 = "32 word"
type_synonym u64 = "64 word"
type_synonym u128 = "128 word"
type_synonym bytes = "u8 list"

text \<open>\<open>Result\<close> extended with the outcome of a panicking call.\<close>

datatype ('e, 'a) rust = Ok 'a | Err 'e | Panic

text \<open>The \<open>?\<close> operator: continue with the value, propagate an error or a panic.\<close>

fun rust_bind :: "('e, 'a) rust \<Rightarrow> ('a \<Rightarrow> ('e, 'b) rust) \<Rightarrow> ('e, 'b) rust" where
  "rust_bind (Ok a) f = f a"
| "rust_bind (Err e) f = Err e"
| "rust_bind Panic f = Panic"

text \<open>\<open>map_err\<close>.\<close>

fun rust_map_err :: "('e \<Rightarrow> 'f) \<Rightarrow> ('e, 'a) rust \<Rightarrow> ('f, 'a) rust" where
  "rust_map_err g (Ok a) = Ok a"
| "rust_map_err g (Err e) = Err (g e)"
| "rust_map_err g Panic = Panic"

text \<open>\<open>ok_or\<close> on an \<open>Option\<close>, and \<open>expect\<close>/\<open>unwrap\<close>, which panics on \<open>None\<close>.\<close>

fun ok_or :: "'a option \<Rightarrow> 'e \<Rightarrow> ('e, 'a) rust" where
  "ok_or (Some a) e = Ok a"
| "ok_or None e = Err e"

fun expect_some :: "'a option \<Rightarrow> ('e, 'a) rust" where
  "expect_some (Some a) = Ok a"
| "expect_some None = Panic"

text \<open>\<open>xs.get(a..b)\<close> (an \<open>Option\<close>), \<open>&xs[a..b]\<close> and \<open>xs[i]\<close> (a panic out of range).\<close>

definition slice_get :: "'a list \<Rightarrow> nat \<Rightarrow> nat \<Rightarrow> 'a list option" where
  "slice_get xs a b = (if a \<le> b \<and> b \<le> length xs then Some (take (b - a) (drop a xs)) else None)"

definition slice :: "'a list \<Rightarrow> nat \<Rightarrow> nat \<Rightarrow> ('e, 'a list) rust" where
  "slice xs a b = expect_some (slice_get xs a b)"

definition index_get :: "'a list \<Rightarrow> nat \<Rightarrow> 'a option" where
  "index_get xs i = (if i < length xs then Some (xs ! i) else None)"

definition index :: "'a list \<Rightarrow> nat \<Rightarrow> ('e, 'a) rust" where
  "index xs i = expect_some (index_get xs i)"

text \<open>
  \<open>xs[a..a+len].copy_from_slice(src)\<close>: overwrites the window in place; the lengths of the
  window and of the source have to agree (the call sites below write this out).
\<close>

definition copy_into :: "'a list \<Rightarrow> nat \<Rightarrow> 'a list \<Rightarrow> 'a list" where
  "copy_into xs a src = take a xs @ src @ drop (a + length src) xs"

section \<open>Big-endian byte strings\<close>

text \<open>\<open>to_be_bytes\<close> of an \<open>n\<close>-byte integer and \<open>from_be_bytes\<close>, on the unsigned value.\<close>

primrec be_bytes :: "nat \<Rightarrow> nat \<Rightarrow> bytes" where
  "be_bytes 0 v = []"
| "be_bytes (Suc n) v = be_bytes n (v div 256) @ [word_of_nat v]"

definition be_val :: "bytes \<Rightarrow> nat" where
  "be_val bs = foldl (\<lambda>a b. a * 256 + unat b) 0 bs"

text \<open>Saturating and bounded arithmetic on unsigned values.\<close>

definition sat_sub :: "nat \<Rightarrow> nat \<Rightarrow> nat" where
  "sat_sub a b = (if b \<le> a then a - b else 0)"

definition u64_max :: nat where
  "u64_max = 2 ^ 64 - 1"

definition sat_add64 :: "nat \<Rightarrow> nat \<Rightarrow> nat" where
  "sat_add64 a b = min (a + b) u64_max"

definition sat_mul64 :: "nat \<Rightarrow> nat \<Rightarrow> nat" where
  "sat_mul64 a b = min (a * b) u64_max"

text \<open>\<open>checked_add\<close> at the width whose largest value is \<open>m\<close>.\<close>

definition checked_add :: "nat \<Rightarrow> nat \<Rightarrow> nat \<Rightarrow> nat option" where
  "checked_add m a b = (if a + b \<le> m then Some (a + b) else None)"

definition abs_diff :: "nat \<Rightarrow> nat \<Rightarrow> nat" where
  "abs_diff a b = (if a \<le> b then b - a else a - b)"

section \<open>Hash maps\<close>

text \<open>
  A \<open>HashMap\<close> is an association list with distinct keys (\<open>hm_ok\<close>); the sources only look up,
  insert, remove, count and filter, never rely on the iteration order.
\<close>

type_synonym ('k, 'v) hmap = "('k \<times> 'v) list"

definition hm_ok :: "('k, 'v) hmap \<Rightarrow> bool" where
  "hm_ok m \<longleftrightarrow> distinct (map fst m)"

abbreviation hm_get :: "('k, 'v) hmap \<Rightarrow> 'k \<Rightarrow> 'v option" where
  "hm_get m k \<equiv> map_of m k"

abbreviation hm_len :: "('k, 'v) hmap \<Rightarrow> nat" where
  "hm_len m \<equiv> length m"

definition hm_contains :: "('k, 'v) hmap \<Rightarrow> 'k \<Rightarrow> bool" where
  "hm_contains m k \<longleftrightarrow> map_of m k \<noteq> None"

definition hm_insert :: "'k \<Rightarrow> 'v \<Rightarrow> ('k, 'v) hmap \<Rightarrow> ('k, 'v) hmap" where
  "hm_insert k v m = AList.update k v m"

definition hm_remove :: "'k \<Rightarrow> ('k, 'v) hmap \<Rightarrow> ('k, 'v) hmap" where
  "hm_remove k m = filter (\<lambda>p. fst p \<noteq> k) m"

definition hm_retain :: "('k \<Rightarrow> 'v \<Rightarrow> bool) \<Rightarrow> ('k, 'v) hmap \<Rightarrow> ('k, 'v) hmap" where
  "hm_retain P m = filter (\<lambda>p. P (fst p) (snd p)) m"

section \<open>Lemmas on results, slices and arithmetic\<close>

lemma rust_bind_Ok_iff: "rust_bind m f = Ok b \<longleftrightarrow> (\<exists>a. m = Ok a \<and> f a = Ok b)"
  by (cases m) auto

lemma rust_bind_Panic_iff: "rust_bind m f = Panic \<longleftrightarrow> m = Panic \<or> (\<exists>a. m = Ok a \<and> f a = Panic)"
  by (cases m) auto

lemma rust_map_err_Ok_iff [simp]: "rust_map_err g m = Ok a \<longleftrightarrow> m = Ok a"
  by (cases m) auto

lemma rust_map_err_Panic_iff [simp]: "rust_map_err g m = Panic \<longleftrightarrow> m = Panic"
  by (cases m) auto

lemma ok_or_not_Panic [simp]: "ok_or x e \<noteq> Panic"
  by (cases x) auto

lemma slice_get_Some: "a \<le> b \<Longrightarrow> b \<le> length xs \<Longrightarrow> slice_get xs a b = Some (take (b - a) (drop a xs))"
  by (simp add: slice_get_def)

lemma slice_Ok [simp]: "a \<le> b \<Longrightarrow> b \<le> length xs \<Longrightarrow> slice xs a b = Ok (take (b - a) (drop a xs))"
  by (simp add: slice_def slice_get_def)

lemma slice_append_mid:
  "length a = m \<Longrightarrow> length b = n - m \<Longrightarrow> m \<le> n \<Longrightarrow> slice_get (a @ b @ c) m n = Some b"
  by (simp add: slice_get_def)

lemma index_Ok [simp]: "i < length xs \<Longrightarrow> index xs i = Ok (xs ! i)"
  by (simp add: index_def index_get_def)

lemma length_copy_into [simp]:
  "a + length src \<le> length xs \<Longrightarrow> length (copy_into xs a src) = length xs"
  by (simp add: copy_into_def)

lemma take_copy_into [simp]: "n \<le> a \<Longrightarrow> a \<le> length xs \<Longrightarrow> take n (copy_into xs a src) = take n xs"
  by (simp add: copy_into_def min_absorb1)

lemma copy_into_window:
  "a \<le> length xs \<Longrightarrow> take (length src) (drop a (copy_into xs a src)) = src"
  by (simp add: copy_into_def)

lemma drop_copy_into:
  "a \<le> length xs \<Longrightarrow> drop (a + length src) (copy_into xs a src) = drop (a + length src) xs"
  by (simp add: copy_into_def)

lemma nth_copy_into_before:
  "i < a \<Longrightarrow> a \<le> length xs \<Longrightarrow> copy_into xs a src ! i = xs ! i"
  by (simp add: copy_into_def nth_append min_absorb1)

lemma copy_into_back:
  assumes "a + length src \<le> length xs" and "length src = n"
  shows "copy_into (copy_into xs a src) a (take n (drop a xs)) = xs"
proof -
  have "length (take n (drop a xs)) = n" using assms by simp
  then have "copy_into (copy_into xs a src) a (take n (drop a xs))
      = take a xs @ take n (drop a xs) @ drop (a + n) xs"
    using assms drop_copy_into [of a xs src] by (simp add: copy_into_def)
  then show ?thesis
    by (metis add.commute append_take_drop_id drop_drop)
qed

lemma sat_sub_eq [simp]: "sat_sub a b = a - b"
  by (simp add: sat_sub_def)

lemma abs_diff_le_iff: "abs_diff a b \<le> d \<longleftrightarrow> a \<le> b + d \<and> b \<le> a + d"
  by (auto simp: abs_diff_def)

lemma abs_diff_commute: "abs_diff a b = abs_diff b a"
  by (simp add: abs_diff_def)

lemma unat_u8_less: "unat (b :: u8) < 256"
proof -
  have "unat b < 2 ^ LENGTH(8)" by (rule unsigned_less)
  then show ?thesis by simp
qed

lemma unat_u16_less: "unat (b :: u16) < 65536"
proof -
  have "unat b < 2 ^ LENGTH(16)" by (rule unsigned_less)
  then show ?thesis by simp
qed

lemma unat_u32_less: "unat (b :: u32) < 4294967296"
proof -
  have "unat b < 2 ^ LENGTH(32)" by (rule unsigned_less)
  then show ?thesis by simp
qed

lemma unat_u64_less: "unat (b :: u64) < 18446744073709551616"
proof -
  have "unat b < 2 ^ LENGTH(64)" by (rule unsigned_less)
  then show ?thesis by simp
qed

lemma unat_mod_width [simp]:
  "unat (a :: u8) mod 256 = unat a"
  "unat (b :: u16) mod 65536 = unat b"
  "unat (c :: u32) mod 4294967296 = unat c"
  "unat (d :: u64) mod 18446744073709551616 = unat d"
  using unat_u8_less unat_u16_less unat_u32_less unat_u64_less by simp_all

lemma unat_of_nat_u8: "unat (word_of_nat v :: u8) = v mod 256"
  by (simp add: unat_of_nat)

lemma word_of_nat_unat [simp]: "word_of_nat (unat w) = (w :: 'a::len word)"
  by simp

lemma bit_unat_less: "unat (w :: 'a::len word) < 2 ^ k \<Longrightarrow> bit w n \<Longrightarrow> n < k"
proof -
  assume w: "unat w < 2 ^ k" and b: "bit w n"
  have "unat (take_bit k w) = unat w"
    using w by (simp add: unsigned_take_bit_eq take_bit_nat_eq_self)
  then have "take_bit k w = w" by (rule word_unat_eq_iff [THEN iffD2])
  then have "bit (take_bit k w) n" using b by simp
  then show "n < k" by (simp add: bit_take_bit_iff)
qed

lemma unat_drop_bit: "unat (drop_bit n (w :: 'a::len word)) = unat w div 2 ^ n"
  unfolding unsigned_drop_bit_eq by (simp add: drop_bit_eq_div take_bit_nat_eq_self)

lemma unat_or_high:
  fixes w :: "'a::len word"
  assumes w: "unat w < 2 ^ k" and fit: "unat w + unat c * 2 ^ k < 2 ^ LENGTH('a)"
  shows "unat (w OR push_bit k c) = unat w + unat c * 2 ^ k"
proof -
  have "w AND push_bit k c = 0"
    by (rule bit_eqI) (auto simp: bit_and_iff bit_push_bit_iff dest: bit_unat_less [OF w])
  then have "w OR push_bit k c = w + push_bit k c"
    by (rule disjunctive_add_eq_or [symmetric])
  then have "w OR push_bit k c = word_of_nat (unat w + unat c * 2 ^ k)"
    by (simp add: push_bit_eq_mult)
  then show ?thesis using fit by (simp add: unat_of_nat del: of_nat_add of_nat_mult)
qed

lemma and_not_high:
  fixes w :: "'a::len word"
  assumes w: "unat w < 2 ^ (k + 2)"
  shows "unat (w AND NOT (push_bit k 3)) = unat w mod 2 ^ k"
proof -
  have three: "3 = (mask 2 :: 'a word)" by (simp add: mask_eq_exp_minus_1)
  have "w AND NOT (push_bit k 3) = take_bit k w"
  proof (rule bit_eqI)
    fix n
    assume "possible_bit TYPE('a word) n"
    then show "bit (w AND NOT (push_bit k 3)) n = bit (take_bit k w) n"
      using bit_unat_less [OF w, of n] unfolding three
      by (auto simp: bit_and_iff bit_not_iff bit_push_bit_iff bit_take_bit_iff bit_mask_iff)
  qed
  then show ?thesis by (simp add: unsigned_take_bit_eq flip: take_bit_eq_mod)
qed
section \<open>Lemmas on big-endian byte strings\<close>

lemma be_val_Nil [simp]: "be_val [] = 0"
  by (simp add: be_val_def)

lemma be_val_snoc [simp]: "be_val (bs @ [b]) = be_val bs * 256 + unat b"
  by (simp add: be_val_def)

lemma length_be_bytes [simp]: "length (be_bytes n v) = n"
  by (induction n arbitrary: v) auto

lemma be_val_be_bytes [simp]: "be_val (be_bytes n v) = v mod 256 ^ n"
proof (induction n arbitrary: v)
  case (Suc n)
  have "be_val (be_bytes (Suc n) v) = (v div 256 mod 256 ^ n) * 256 + v mod 256"
    by (simp add: Suc unat_of_nat_u8)
  also have "\<dots> = v mod (256 * 256 ^ n)"
    by (simp add: mod_mult2_eq)
  finally show ?case by simp
qed simp

lemma be_val_less: "be_val bs < 256 ^ length bs"
proof (induction bs rule: rev_induct)
  case (snoc b bs)
  with unat_u8_less [of b] show ?case by simp
qed simp

lemma be_bytes_be_val: "length bs = n \<Longrightarrow> be_bytes n (be_val bs) = bs"
proof (induction bs arbitrary: n rule: rev_induct)
  case (snoc b bs)
  note b = unat_u8_less [of b]
  have "(be_val bs * 256 + unat b) div 256 = be_val bs" using b by simp
  moreover have "unat (word_of_nat (be_val bs * 256 + unat b) :: u8) = unat b"
    unfolding unat_of_nat_u8 using b by simp
  then have "(word_of_nat (be_val bs * 256 + unat b) :: u8) = b"
    by (rule word_unat_eq_iff [THEN iffD2])
  ultimately show ?case using snoc by auto
qed simp

lemma be_bytes_of_word:
  assumes "length bs = n" and "LENGTH('a::len) = 8 * n"
  shows "be_bytes n (unat (word_of_nat (be_val bs) :: 'a word)) = bs"
proof -
  have "be_val bs < 2 ^ LENGTH('a)"
    using be_val_less [of bs] assms by (simp add: power_mult)
  then have "unat (word_of_nat (be_val bs) :: 'a word) = be_val bs"
    by (simp add: unat_of_nat)
  then show ?thesis using assms(1) by (simp add: be_bytes_be_val)
qed

lemma take_drop_glue: "q = p + n \<Longrightarrow> take n (drop p xs) @ drop q xs = drop p xs"
  by (metis add.commute append_take_drop_id drop_drop)

lemma nth_drop_glue: "p < length xs \<Longrightarrow> q = Suc p \<Longrightarrow> xs ! p # drop q xs = drop p xs"
  by (simp add: Cons_nth_drop_Suc)

lemma append_split_cases:
  "xs @ ys = us @ vs \<Longrightarrow> (\<exists>e. xs = us @ e \<and> vs = e @ ys) \<or> (\<exists>l. us = xs @ l \<and> l \<noteq> [] \<and> ys = l @ vs)"
  by (auto simp: append_eq_append_conv2)

lemma be_bytes_inject:
  "be_bytes n a = be_bytes n b \<longleftrightarrow> a mod 256 ^ n = b mod 256 ^ n"
proof
  assume "be_bytes n a = be_bytes n b"
  then have "be_val (be_bytes n a) = be_val (be_bytes n b)" by simp
  then show "a mod 256 ^ n = b mod 256 ^ n" by simp
next
  assume "a mod 256 ^ n = b mod 256 ^ n"
  then have "be_val (be_bytes n a) = be_val (be_bytes n b)" by simp
  then show "be_bytes n a = be_bytes n b"
    by (metis be_bytes_be_val length_be_bytes)
qed

lemma be_val_append: "be_val (xs @ ys) = be_val xs * 256 ^ length ys + be_val ys"
  by (induction ys rule: rev_induct) (auto simp: algebra_simps simp flip: append_assoc)

lemma be_val_replicate_zero [simp]: "be_val (replicate n 0) = 0"
  by (induction n) (auto simp: replicate_append_same [symmetric])

section \<open>Lemmas on hash maps\<close>

named_theorems hmap_simps \<open>lookup, size and well-formedness after each hash-map operation\<close>

lemma hm_ok_Nil [simp]: "hm_ok []"
  by (simp add: hm_ok_def)

lemma hm_get_insert [hmap_simps]: "hm_get (hm_insert k v m) x = (if x = k then Some v else hm_get m x)"
  by (simp add: hm_insert_def update_conv')

lemma hm_get_remove [hmap_simps]: "hm_get (hm_remove k m) x = (if x = k then None else hm_get m x)"
  by (induction m) (auto simp: hm_remove_def)

lemma hm_ok_insert [simp, intro]: "hm_ok m \<Longrightarrow> hm_ok (hm_insert k v m)"
  by (simp add: hm_ok_def hm_insert_def distinct_update)

lemma hm_ok_filter: "hm_ok m \<Longrightarrow> hm_ok (filter P m)"
  by (simp add: hm_ok_def distinct_map_filter)

lemma hm_ok_remove [simp, intro]: "hm_ok m \<Longrightarrow> hm_ok (hm_remove k m)"
  by (simp add: hm_remove_def hm_ok_filter)

lemma hm_ok_retain [simp, intro]: "hm_ok m \<Longrightarrow> hm_ok (hm_retain P m)"
  by (simp add: hm_retain_def hm_ok_filter)

lemma hm_get_retain [hmap_simps]:
  "hm_ok m \<Longrightarrow> hm_get (hm_retain P m) k
     = (case hm_get m k of None \<Rightarrow> None | Some v \<Rightarrow> if P k v then Some v else None)"
proof (induction m)
  case (Cons p m)
  obtain k' v' where p: "p = (k', v')" by fastforce
  have ok: "hm_ok m" and fresh: "k' \<notin> fst ` set m"
    using Cons.prems by (auto simp: hm_ok_def p)
  then have "map_of m k' = None" by (auto simp: map_of_eq_None_iff)
  moreover have "map_of (hm_retain P m) k' = None"
    using fresh by (force simp: hm_retain_def map_of_eq_None_iff)
  ultimately show ?case
    using Cons.IH [OF ok] by (auto simp: hm_retain_def p split: option.splits)
qed (simp add: hm_retain_def)

lemma hm_len_insert:
  "hm_len (hm_insert k v m) = (if hm_contains m k then hm_len m else Suc (hm_len m))"
  by (induction m) (auto simp: hm_insert_def hm_contains_def)

lemma hm_len_insert_le: "hm_len (hm_insert k v m) \<le> Suc (hm_len m)"
  by (simp add: hm_len_insert)

lemma hm_len_remove_le [simp]: "hm_len (hm_remove k m) \<le> hm_len m"
  by (simp add: hm_remove_def)

lemma hm_len_retain_le [simp]: "hm_len (hm_retain P m) \<le> hm_len m"
  by (simp add: hm_retain_def)

lemma hm_ok_entry: "hm_ok m \<Longrightarrow> (k, v) \<in> set m \<longleftrightarrow> hm_get m k = Some v"
  by (simp add: hm_ok_def)

lemma hm_contains_insert [hmap_simps]:
  "hm_contains (hm_insert k v m) x \<longleftrightarrow> x = k \<or> hm_contains m x"
  by (simp add: hm_contains_def hm_get_insert)

lemma hm_contains_remove [hmap_simps]:
  "hm_contains (hm_remove k m) x \<longleftrightarrow> x \<noteq> k \<and> hm_contains m x"
  by (simp add: hm_contains_def hm_get_remove)

lemma hm_contains_iff: "hm_contains m k \<longleftrightarrow> (\<exists>v. hm_get m k = Some v)"
  by (simp add: hm_contains_def)

lemmas hmap_ok = hm_ok_Nil hm_ok_insert hm_ok_remove hm_ok_retain

section \<open>Shared interfaces\<close>

text \<open>
  A self-delimiting codec: decoding the encoding of a legal value, whatever follows it in the
  buffer, gives the value back with the number of bytes it occupied.  Any such codec is
  prefix-free, so a concatenation of encodings has one reading only.
\<close>

locale prefix_codec =
  fixes legal :: "'a \<Rightarrow> bool"
    and enc :: "'a \<Rightarrow> bytes"
    and dec :: "bytes \<Rightarrow> ('e, 'a \<times> nat) rust"
  assumes dec_enc: "legal x \<Longrightarrow> dec (enc x @ rest) = Ok (x, length (enc x))"
    and enc_nonempty: "legal x \<Longrightarrow> enc x \<noteq> []"
begin

lemma enc_prefix_free:
  assumes "legal x" and "legal y" and eq: "enc x @ r = enc y @ s"
  shows "x = y \<and> r = s"
proof -
  have "dec (enc x @ r) = dec (enc y @ s)" using eq by simp
  then have "Ok (x, length (enc x)) = (Ok (y, length (enc y)) :: ('e, 'a \<times> nat) rust)"
    using assms(1,2) by (simp add: dec_enc)
  then have "x = y" by simp
  with eq show ?thesis by simp
qed

lemma stream_unambiguous:
  "list_all legal xs \<Longrightarrow> list_all legal ys \<Longrightarrow>
     concat (map enc xs) = concat (map enc ys) \<Longrightarrow> xs = ys"
proof (induction xs arbitrary: ys)
  case Nil
  then show ?case by (cases ys) (auto simp: enc_nonempty)
next
  case (Cons x xs)
  then obtain y ys' where ys: "ys = y # ys'"
    using enc_nonempty [of x] by (cases ys) auto
  with Cons.prems have "enc x @ concat (map enc xs) = enc y @ concat (map enc ys')" by simp
  then have "x = y \<and> concat (map enc xs) = concat (map enc ys')"
    using Cons.prems ys by (intro enc_prefix_free) auto
  with Cons ys show ?case by auto
qed

end

text \<open>A state machine whose every step keeps an invariant: so does every run.\<close>

locale invariant_machine =
  fixes step :: "'s \<Rightarrow> 'e \<Rightarrow> 's"
    and inv :: "'s \<Rightarrow> bool"
  assumes step_inv: "inv s \<Longrightarrow> inv (step s e)"
begin

lemma run_inv: "inv s \<Longrightarrow> inv (foldl step s es)"
  by (induction es arbitrary: s) (auto simp: step_inv)

end

text \<open>
  A machine with a bounded store: the invariant keeps the store within the capacity, and no
  step changes the capacity.
\<close>

locale bounded_machine = invariant_machine step inv
  for step :: "'s \<Rightarrow> 'e \<Rightarrow> 's" and inv :: "'s \<Rightarrow> bool" +
  fixes size_of :: "'s \<Rightarrow> nat"
    and cap_of :: "'s \<Rightarrow> nat"
  assumes inv_bounded: "inv s \<Longrightarrow> size_of s \<le> cap_of s"
    and step_cap: "cap_of (step s e) = cap_of s"
begin

lemma run_cap: "cap_of (foldl step s es) = cap_of s"
  by (induction es arbitrary: s) (auto simp: step_cap)

lemma run_bounded: "inv s \<Longrightarrow> size_of (foldl step s es) \<le> cap_of s"
  using inv_bounded [OF run_inv, of s es] by (simp add: run_cap)

end

end
