(* ===== verification/Proteus_Spec.thy ===== *)
theory Proteus_Spec
  imports Proteus_Prelude
begin

text \<open>
  The constants crate (\<open>proteus-spec/src/lib.rs\<close>): version and profile codepoints, the field
  lengths of the authentication extension, cell sizes, cover profiles, the inner-packet types
  with their byte decoder, the epoch/sequence split, the replay window and the HKDF labels.
  Lengths are natural numbers (\<open>usize\<close>), codepoints keep their width.
\<close>

section \<open>Codepoints and field lengths\<close>

definition PROTEUS_VERSION_V10 :: u8 where
  "PROTEUS_VERSION_V10 = 0x10"

definition PROFILE_HINT_GAMMA :: u8 where
  "PROFILE_HINT_GAMMA = 0x03"

definition PROFILE_HINT_BETA :: u8 where
  "PROFILE_HINT_BETA = 0x02"

definition PROFILE_HINT_ALPHA :: u8 where
  "PROFILE_HINT_ALPHA = 0x01"

definition AUTH_EXT_TYPE :: u16 where
  "AUTH_EXT_TYPE = 0xfe0d"

definition CLIENT_NONCE_LEN :: nat where
  "CLIENT_NONCE_LEN = 16"

definition X25519_PUB_LEN :: nat where
  "X25519_PUB_LEN = 32"

definition ML_KEM_768_CT_LEN :: nat where
  "ML_KEM_768_CT_LEN = 1088"

definition CLIENT_ID_LEN :: nat where
  "CLIENT_ID_LEN = 24"

definition TIMESTAMP_LEN :: nat where
  "TIMESTAMP_LEN = 8"

definition COVER_PROFILE_ID_LEN :: nat where
  "COVER_PROFILE_ID_LEN = 2"

definition SHAPE_SEED_LEN :: nat where
  "SHAPE_SEED_LEN = 4"

definition ANTI_DOS_SOLUTION_LEN :: nat where
  "ANTI_DOS_SOLUTION_LEN = 7"

definition ED25519_SIG_LEN :: nat where
  "ED25519_SIG_LEN = 64"

definition ML_DSA_65_SIG_TRUNCATED_LEN :: nat where
  "ML_DSA_65_SIG_TRUNCATED_LEN = 96"

definition HMAC_TAG_LEN :: nat where
  "HMAC_TAG_LEN = 32"

definition AUTH_EXT_LEN_V10 :: nat where
  "AUTH_EXT_LEN_V10 = 1 + 1 + 2
     + CLIENT_NONCE_LEN
     + X25519_PUB_LEN
     + ML_KEM_768_CT_LEN
     + CLIENT_ID_LEN
     + TIMESTAMP_LEN
     + COVER_PROFILE_ID_LEN
     + SHAPE_SEED_LEN
     + 1
     + ANTI_DOS_SOLUTION_LEN
     + ED25519_SIG_LEN
     + ML_DSA_65_SIG_TRUNCATED_LEN
     + HMAC_TAG_LEN"

lemmas auth_field_lens =
  CLIENT_NONCE_LEN_def X25519_PUB_LEN_def ML_KEM_768_CT_LEN_def CLIENT_ID_LEN_def
  TIMESTAMP_LEN_def COVER_PROFILE_ID_LEN_def SHAPE_SEED_LEN_def ANTI_DOS_SOLUTION_LEN_def
  ED25519_SIG_LEN_def ML_DSA_65_SIG_TRUNCATED_LEN_def HMAC_TAG_LEN_def

section \<open>Cells and cover profiles\<close>

definition CELL_SIZES_GAMMA :: "u16 list" where
  "CELL_SIZES_GAMMA = [1252, 1280, 1452]"

definition CELL_SIZES_BETA :: "u16 list" where
  "CELL_SIZES_BETA = [1200, 1252, 1280]"

definition CELL_SIZES_ALPHA :: "u16 list" where
  "CELL_SIZES_ALPHA = [1372, 1448]"

definition COVER_PROFILE_STREAMING :: u16 where
  "COVER_PROFILE_STREAMING = 0"

definition COVER_PROFILE_API_POLL :: u16 where
  "COVER_PROFILE_API_POLL = 1"

definition COVER_PROFILE_VIDEO_CALL :: u16 where
  "COVER_PROFILE_VIDEO_CALL = 2"

definition COVER_PROFILE_FILE_DL :: u16 where
  "COVER_PROFILE_FILE_DL = 3"

definition COVER_PROFILE_WEB_BROWSE :: u16 where
  "COVER_PROFILE_WEB_BROWSE = 4"

section \<open>Inner packet types\<close>

datatype InnerPacketType =
    Data | Ack | NewStream | ResetStream | Ping | KeyUpdate | Padding | Close
  | PathChallenge | PathResponse | PathAbandon | ShapeProbe | ShapeAck | FlowBudget | Telemetry

text \<open>The \<open>#[repr(u8)]\<close> discriminant, i.e.\ the cast \<open>t as u8\<close>.\<close>

fun inner_packet_type_as_u8 :: "InnerPacketType \<Rightarrow> u8" where
  "inner_packet_type_as_u8 Data = 0x01"
| "inner_packet_type_as_u8 Ack = 0x02"
| "inner_packet_type_as_u8 NewStream = 0x03"
| "inner_packet_type_as_u8 ResetStream = 0x04"
| "inner_packet_type_as_u8 Ping = 0x05"
| "inner_packet_type_as_u8 KeyUpdate = 0x06"
| "inner_packet_type_as_u8 Padding = 0x07"
| "inner_packet_type_as_u8 Close = 0x08"
| "inner_packet_type_as_u8 PathChallenge = 0x09"
| "inner_packet_type_as_u8 PathResponse = 0x0a"
| "inner_packet_type_as_u8 PathAbandon = 0x0b"
| "inner_packet_type_as_u8 ShapeProbe = 0x0c"
| "inner_packet_type_as_u8 ShapeAck = 0x0d"
| "inner_packet_type_as_u8 FlowBudget = 0x0e"
| "inner_packet_type_as_u8 Telemetry = 0x0f"

definition inner_packet_type_from_u8 :: "u8 \<Rightarrow> InnerPacketType option" where
  "inner_packet_type_from_u8 b =
     (if b = 0x01 then Some Data
      else if b = 0x02 then Some Ack
      else if b = 0x03 then Some NewStream
      else if b = 0x04 then Some ResetStream
      else if b = 0x05 then Some Ping
      else if b = 0x06 then Some KeyUpdate
      else if b = 0x07 then Some Padding
      else if b = 0x08 then Some Close
      else if b = 0x09 then Some PathChallenge
      else if b = 0x0a then Some PathResponse
      else if b = 0x0b then Some PathAbandon
      else if b = 0x0c then Some ShapeProbe
      else if b = 0x0d then Some ShapeAck
      else if b = 0x0e then Some FlowBudget
      else if b = 0x0f then Some Telemetry
      else None)"

definition is_private_extension :: "u8 \<Rightarrow> bool" where
  "is_private_extension b \<longleftrightarrow> b \<ge> 0xf0"

section \<open>Record protection and replay constants\<close>

definition AEAD_NONCE_LEN :: nat where
  "AEAD_NONCE_LEN = 12"

definition AEAD_TAG_LEN :: nat where
  "AEAD_TAG_LEN = 16"

definition AEAD_KEY_LEN :: nat where
  "AEAD_KEY_LEN = 32"

definition EPOCH_BITS :: nat where
  "EPOCH_BITS = 24"

definition SEQNUM_BITS :: nat where
  "SEQNUM_BITS = 40"

definition SEQNUM_MAX :: u64 where
  "SEQNUM_MAX = push_bit SEQNUM_BITS 1 - 1"

definition TIMESTAMP_WINDOW_SECS :: nat where
  "TIMESTAMP_WINDOW_SECS = 90"

section \<open>HKDF labels\<close>

text \<open>A byte-string literal \<open>b"..."\<close>.\<close>

definition ascii :: "string \<Rightarrow> bytes" where
  "ascii s = map of_char s"

definition label_C_AP_TRAFFIC :: bytes where
  "label_C_AP_TRAFFIC = ascii ''c ap traffic''"

definition label_S_AP_TRAFFIC :: bytes where
  "label_S_AP_TRAFFIC = ascii ''s ap traffic''"

definition label_EXPORTER :: bytes where
  "label_EXPORTER = ascii ''exp master''"

definition label_RESUMPTION :: bytes where
  "label_RESUMPTION = ascii ''res master''"

definition label_KEY :: bytes where
  "label_KEY = ascii ''key''"

definition label_IV :: bytes where
  "label_IV = ascii ''iv''"

definition label_DERIVED :: bytes where
  "label_DERIVED = ascii ''derived''"

definition label_C_HS_TRAFFIC :: bytes where
  "label_C_HS_TRAFFIC = ascii ''c hs traffic''"

definition label_S_HS_TRAFFIC :: bytes where
  "label_S_HS_TRAFFIC = ascii ''s hs traffic''"

lemmas hkdf_labels =
  label_C_AP_TRAFFIC_def label_S_AP_TRAFFIC_def label_EXPORTER_def label_RESUMPTION_def
  label_KEY_def label_IV_def label_DERIVED_def label_C_HS_TRAFFIC_def label_S_HS_TRAFFIC_def

section \<open>Facts about the constants\<close>

lemma auth_ext_len_value: "AUTH_EXT_LEN_V10 = 1378"
  by (simp add: AUTH_EXT_LEN_V10_def auth_field_lens)

lemma seqnum_max_value: "SEQNUM_MAX = 0x000000ffffffffff"
  by (simp add: SEQNUM_MAX_def SEQNUM_BITS_def)

lemma epoch_seqnum_fill_word: "EPOCH_BITS + SEQNUM_BITS = 64"
  by (simp add: EPOCH_BITS_def SEQNUM_BITS_def)

lemma length_ascii [simp]: "length (ascii s) = length s"
  by (simp add: ascii_def)

lemma inner_packet_type_from_as: "inner_packet_type_from_u8 (inner_packet_type_as_u8 t) = Some t"
  by (cases t) (simp_all add: inner_packet_type_from_u8_def)

lemma inner_packet_type_from_Some:
  "inner_packet_type_from_u8 b = Some t \<Longrightarrow> b = inner_packet_type_as_u8 t"
  by (auto simp: inner_packet_type_from_u8_def split: if_splits)

lemma inner_packet_type_assigned:
  "list_all (\<lambda>n. inner_packet_type_from_u8 (word_of_nat n) \<noteq> None) [1..<16]"
  by (simp add: upt_rec inner_packet_type_from_u8_def)

lemma inner_packet_type_as_u8_range:
  "inner_packet_type_as_u8 t \<noteq> 0 \<and> inner_packet_type_as_u8 t < 0x10"
  by (cases t) simp_all

lemma inner_packet_type_from_None:
  "inner_packet_type_from_u8 b = None \<longleftrightarrow> b = 0 \<or> 0x10 \<le> b"
proof
  assume none: "inner_packet_type_from_u8 b = None"
  show "b = 0 \<or> 0x10 \<le> b"
  proof (rule ccontr)
    assume "\<not> (b = 0 \<or> 0x10 \<le> b)"
    then have "unat b \<in> set [1..<16]"
      by (simp add: word_le_nat_alt unat_eq_0 Suc_le_eq unat_gt_0)
    then have "inner_packet_type_from_u8 (word_of_nat (unat b)) \<noteq> None"
      using inner_packet_type_assigned unfolding list_all_iff by blast
    with none show False by simp
  qed
next
  assume b: "b = 0 \<or> 0x10 \<le> b"
  show "inner_packet_type_from_u8 b = None"
  proof (cases "inner_packet_type_from_u8 b")
    case (Some t)
    then have "b = inner_packet_type_as_u8 t" by (rule inner_packet_type_from_Some)
    with b inner_packet_type_as_u8_range [of t] show ?thesis by auto
  qed
qed

end
