(* ===== verification/Crypto.thy ===== *)
theory Crypto
  imports Proteus_Spec
begin

text \<open>
  The crypto crate (\<open>proteus-crypto/src\<close>): key derivation, the hybrid key exchange, the key
  schedule, record protection and the ratchet, together with the authentication tag of the
  handshake crate (\<open>proteus-handshake/src/auth_tag.rs\<close>).

  The cipher suites come from third-party crates; they are the fields of the record
  \<open>primitives\<close>, an argument of every definition that calls them.  What the code relies on is
  stated in \<open>prims_ok\<close> (output sizes, decryption inverts encryption, Diffie-Hellman agrees on both
  sides, verification accepts signatures) and \<open>kem_pair\<close> (decapsulation inverts encapsulation for
  a key pair); \<open>toy_prims\<close> shows that these can hold together.
\<close>

section \<open>The third-party primitives\<close>

record primitives =
  p_sha256 :: "bytes \<Rightarrow> bytes"
  p_hmac :: "bytes \<Rightarrow> bytes \<Rightarrow> bytes" \<comment> \<open>key, message\<close>
  p_extract :: "bytes \<Rightarrow> bytes \<Rightarrow> bytes" \<comment> \<open>salt, input key material\<close>
  p_expand :: "bytes \<Rightarrow> bytes \<Rightarrow> nat \<Rightarrow> bytes option" \<comment> \<open>pseudo-random key, info, output length\<close>
  p_xpub :: "bytes \<Rightarrow> bytes" \<comment> \<open>X25519 public share of a secret\<close>
  p_dh :: "bytes \<Rightarrow> bytes \<Rightarrow> bytes" \<comment> \<open>X25519 secret, public share\<close>
  p_encaps :: "bytes \<Rightarrow> bytes \<Rightarrow> (bytes \<times> bytes) option" \<comment> \<open>ML-KEM public key, randomness; ciphertext and secret\<close>
  p_decaps :: "bytes \<Rightarrow> bytes \<Rightarrow> bytes option" \<comment> \<open>ML-KEM secret key, ciphertext\<close>
  p_vk :: "bytes \<Rightarrow> bytes" \<comment> \<open>Ed25519 verifying key of a signing key\<close>
  p_sign :: "bytes \<Rightarrow> bytes \<Rightarrow> bytes" \<comment> \<open>signing key, message\<close>
  p_verify :: "bytes \<Rightarrow> bytes \<Rightarrow> bytes \<Rightarrow> bool" \<comment> \<open>verifying key, message, signature\<close>
  p_encrypt :: "bytes \<Rightarrow> bytes \<Rightarrow> bytes \<Rightarrow> bytes \<Rightarrow> bytes option" \<comment> \<open>key, nonce, associated data, message\<close>
  p_decrypt :: "bytes \<Rightarrow> bytes \<Rightarrow> bytes \<Rightarrow> bytes \<Rightarrow> bytes option" \<comment> \<open>key, nonce, associated data, ciphertext\<close>

text \<open>Documented behaviour of the primitives.\<close>

definition prims_ok :: "primitives \<Rightarrow> bool" where
  "prims_ok P \<longleftrightarrow>
     (\<forall>m. length (p_sha256 P m) = 32)
   \<and> (\<forall>k m. length (p_hmac P k m) = 32)
   \<and> (\<forall>s m. length (p_extract P s m) = 32)
   \<and> (\<forall>k i n. length k = 32 \<longrightarrow> n \<le> 255 * 32 \<longrightarrow> (\<exists>bs. p_expand P k i n = Some bs \<and> length bs = n))
   \<and> (\<forall>a. length (p_xpub P a) = 32)
   \<and> (\<forall>a b. p_dh P a (p_xpub P b) = p_dh P b (p_xpub P a))
   \<and> (\<forall>a b. length (p_dh P a b) = 32)
   \<and> (\<forall>k m. length (p_sign P k m) = 64 \<and> p_verify P (p_vk P k) m (p_sign P k m))
   \<and> (\<forall>k n a m. length m < 2 ^ 38 - 64 \<longrightarrow>
        (\<exists>c. p_encrypt P k n a m = Some c \<and> length c = length m + 16 \<and> p_decrypt P k n a c = Some m))"

definition kem_pair :: "primitives \<Rightarrow> bytes \<Rightarrow> bytes \<Rightarrow> bool" where
  "kem_pair P pk sk \<longleftrightarrow>
     (\<forall>r. \<exists>ct ss. p_encaps P pk r = Some (ct, ss) \<and> length ct = 1088 \<and> length ss = 32
        \<and> p_decaps P sk ct = Some ss)"

lemma prims_okD:
  assumes "prims_ok P"
  shows "length (p_sha256 P m) = 32" "length (p_hmac P k m) = 32" "length (p_extract P s m) = 32"
    "length (p_xpub P a) = 32" "length (p_dh P a b) = 32" "length (p_sign P k m) = 64"
    "p_dh P a (p_xpub P b) = p_dh P b (p_xpub P a)" "p_verify P (p_vk P k) m (p_sign P k m)"
  using assms by (simp_all add: prims_ok_def)

lemma prims_ok_expand:
  assumes "prims_ok P" and "length k = 32" and "n \<le> 8160"
  obtains bs where "p_expand P k i n = Some bs" and "length bs = n"
proof -
  have "\<forall>k i n. length k = 32 \<longrightarrow> n \<le> 255 * 32 \<longrightarrow> (\<exists>bs. p_expand P k i n = Some bs \<and> length bs = n)"
    using assms(1) unfolding prims_ok_def by (elim conjE)
  then have "\<exists>bs. p_expand P k i n = Some bs \<and> length bs = n" using assms(2,3) by simp
  then show ?thesis using that by blast
qed

lemma prims_ok_encrypt:
  assumes "prims_ok P" and "length m < 2 ^ 38 - 64"
  obtains c where "p_encrypt P k n a m = Some c" and "length c = length m + 16" and "p_decrypt P k n a c = Some m"
  using assms unfolding prims_ok_def by blast

section \<open>Model: errors, key derivation\<close>

datatype CryptoError = AeadAuth | AeadLength | X25519ZeroOutput | KemDecap | Ed25519Verify | HkdfError

definition PROTEUS_LABEL_PREFIX :: bytes where
  "PROTEUS_LABEL_PREFIX = ascii ''proteus v1 ''"

definition kdf_extract :: "primitives \<Rightarrow> bytes \<Rightarrow> bytes \<Rightarrow> bytes" where
  "kdf_extract P salt ikm = p_extract P salt ikm"

text \<open>The \<open>info\<close> string \<open>expand_label\<close> builds; every length that does not fit its field is an error.\<close>

definition expand_label_info :: "bytes \<Rightarrow> bytes \<Rightarrow> nat \<Rightarrow> (CryptoError, bytes) rust" where
  "expand_label_info label context out_len =
     (if \<not> out_len < 2 ^ 16 then Err HkdfError
      else
        let full_label_len = length PROTEUS_LABEL_PREFIX + length label in
        if \<not> full_label_len < 2 ^ 8 then Err HkdfError
        else if \<not> length context < 2 ^ 8 then Err HkdfError
        else Ok (be_bytes 2 out_len @ [word_of_nat full_label_len] @ PROTEUS_LABEL_PREFIX @ label
                 @ [word_of_nat (length context)] @ context))"

definition expand_label :: "primitives \<Rightarrow> bytes \<Rightarrow> bytes \<Rightarrow> bytes \<Rightarrow> nat \<Rightarrow> (CryptoError, bytes) rust" where
  "expand_label P secret label context out_len =
     rust_bind (expand_label_info label context out_len) (\<lambda>info.
       ok_or (p_expand P secret info out_len) HkdfError)"

definition derive_secret :: "primitives \<Rightarrow> bytes \<Rightarrow> bytes \<Rightarrow> bytes \<Rightarrow> (CryptoError, bytes) rust" where
  "derive_secret P secret label transcript_hash = expand_label P secret label transcript_hash 32"

section \<open>Model: key schedule\<close>

record DirectionKeys =
  dk_key :: bytes
  dk_iv :: bytes

record HandshakeSecrets =
  c_ap_secret :: bytes
  s_ap_secret :: bytes
  exporter :: bytes
  resumption :: bytes

definition direction_keys_from_secret :: "primitives \<Rightarrow> bytes \<Rightarrow> (CryptoError, DirectionKeys) rust" where
  "direction_keys_from_secret P secret =
     rust_bind (expand_label P secret (ascii ''key'') [] 32) (\<lambda>key.
     rust_bind (expand_label P secret (ascii ''iv'') [] 12) (\<lambda>iv.
     Ok \<lparr>dk_key = key, dk_iv = iv\<rparr>))"

definition direction_keys :: "primitives \<Rightarrow> HandshakeSecrets \<Rightarrow> (CryptoError, DirectionKeys \<times> DirectionKeys) rust" where
  "direction_keys P s =
     rust_bind (direction_keys_from_secret P (c_ap_secret s)) (\<lambda>c.
     rust_bind (direction_keys_from_secret P (s_ap_secret s)) (\<lambda>sv. Ok (c, sv)))"

definition sha256_empty :: "primitives \<Rightarrow> bytes" where
  "sha256_empty P = p_sha256 P []"

definition sha256 :: "primitives \<Rightarrow> bytes \<Rightarrow> bytes" where
  "sha256 P input = p_sha256 P input"

definition derive ::
    "primitives \<Rightarrow> bytes \<Rightarrow> bytes \<Rightarrow> bytes \<Rightarrow> bytes \<Rightarrow> bytes \<Rightarrow> (CryptoError, HandshakeSecrets) rust" where
  "derive P client_nonce hybrid_shared th_ch_sh th_ch_sf th_ch_cf =
     (let es_ikm = copy_into (replicate 32 0) 0 client_nonce;
          es = kdf_extract P (replicate 32 0) es_ikm;
          empty_hash = sha256_empty P in
      rust_bind (derive_secret P es (ascii ''derived'') empty_hash) (\<lambda>derived_es.
      let hs = kdf_extract P derived_es hybrid_shared in
      rust_bind (derive_secret P hs (ascii ''c hs traffic'') th_ch_sh) (\<lambda>c_hs.
      rust_bind (derive_secret P hs (ascii ''s hs traffic'') th_ch_sh) (\<lambda>s_hs.
      rust_bind (derive_secret P hs (ascii ''derived'') empty_hash) (\<lambda>derived_hs.
      let ms = kdf_extract P derived_hs (replicate 32 0) in
      rust_bind (derive_secret P ms (ascii ''c ap traffic'') th_ch_sf) (\<lambda>c_ap.
      rust_bind (derive_secret P ms (ascii ''s ap traffic'') th_ch_sf) (\<lambda>s_ap.
      rust_bind (derive_secret P ms (ascii ''exp master'') th_ch_sf) (\<lambda>ex.
      rust_bind (derive_secret P ms (ascii ''res master'') th_ch_cf) (\<lambda>res.
      Ok \<lparr>c_ap_secret = c_ap, s_ap_secret = s_ap, exporter = ex, resumption = res\<rparr>)))))))))"

text \<open>The transcript accumulator: the bytes absorbed so far; a snapshot is their digest.\<close>

record Transcript =
  tr_absorbed :: bytes

definition transcript_new :: Transcript where
  "transcript_new = \<lparr>tr_absorbed = []\<rparr>"

definition transcript_update :: "bytes \<Rightarrow> Transcript \<Rightarrow> Transcript" where
  "transcript_update bs t = t\<lparr>tr_absorbed := tr_absorbed t @ bs\<rparr>"

definition transcript_snapshot :: "primitives \<Rightarrow> Transcript \<Rightarrow> bytes" where
  "transcript_snapshot P t = p_sha256 P (tr_absorbed t)"

section \<open>Model: hybrid key exchange\<close>

record ClientEphemeral =
  x25519_sk :: bytes
  x25519_pub :: bytes
  mlkem_shared :: bytes
  mlkem_ct :: bytes

text \<open>The randomness of \<open>client_ephemeral\<close> is an argument: the X25519 secret, the coins of the KEM.\<close>

definition client_ephemeral ::
    "primitives \<Rightarrow> bytes \<Rightarrow> bytes \<Rightarrow> bytes \<Rightarrow> (CryptoError, ClientEphemeral) rust" where
  "client_ephemeral P rng_sk rng_kem server_mlkem_pub =
     rust_bind (ok_or (p_encaps P server_mlkem_pub rng_kem) KemDecap) (\<lambda>(ct, shared).
       if length ct \<noteq> 1088 then Err KemDecap
       else Ok \<lparr>x25519_sk = rng_sk, x25519_pub = p_xpub P rng_sk, mlkem_shared = shared, mlkem_ct = ct\<rparr>)"

definition server_combine ::
    "primitives \<Rightarrow> bytes \<Rightarrow> bytes \<Rightarrow> bytes \<Rightarrow> bytes \<Rightarrow> (CryptoError, bytes) rust" where
  "server_combine P server_x25519_sk server_mlkem_sk client_x25519_pub client_mlkem_ct =
     (let k_classic = p_dh P server_x25519_sk client_x25519_pub in
      if k_classic = replicate 32 0 then Err X25519ZeroOutput
      else rust_bind (ok_or (p_decaps P server_mlkem_sk client_mlkem_ct) KemDecap) (\<lambda>k_pq.
        Ok (k_classic @ k_pq)))"

definition client_combine :: "primitives \<Rightarrow> ClientEphemeral \<Rightarrow> bytes \<Rightarrow> (CryptoError, bytes) rust" where
  "client_combine P client_eph server_x25519_pub =
     (let k_classic = p_dh P (x25519_sk client_eph) server_x25519_pub in
      if k_classic = replicate 32 0 then Err X25519ZeroOutput
      else Ok (k_classic @ mlkem_shared client_eph))"

section \<open>Model: record protection\<close>

definition nonce_for :: "bytes \<Rightarrow> u64 \<Rightarrow> bytes" where
  "nonce_for iv combined =
     (let nonce_input = copy_into (replicate AEAD_NONCE_LEN 0) (AEAD_NONCE_LEN - 8) (be_bytes 8 (unat combined))
      in map (\<lambda>i. iv ! i XOR nonce_input ! i) [0..<AEAD_NONCE_LEN])"

definition seal :: "primitives \<Rightarrow> bytes \<Rightarrow> bytes \<Rightarrow> u64 \<Rightarrow> bytes \<Rightarrow> bytes \<Rightarrow> (CryptoError, bytes) rust" where
  "seal P key iv combined aad plaintext =
     ok_or (p_encrypt P key (nonce_for iv combined) aad plaintext) AeadAuth"

definition aead_open :: "primitives \<Rightarrow> bytes \<Rightarrow> bytes \<Rightarrow> u64 \<Rightarrow> bytes \<Rightarrow> bytes \<Rightarrow> (CryptoError, bytes) rust" where
  "aead_open P key iv combined aad ciphertext =
     ok_or (p_decrypt P key (nonce_for iv combined) aad ciphertext) AeadAuth"

record AeadKey =
  ak_cipher :: bytes
  ak_iv :: bytes

definition aead_key_new :: "bytes \<Rightarrow> bytes \<Rightarrow> AeadKey" where
  "aead_key_new key iv = \<lparr>ak_cipher = key, ak_iv = iv\<rparr>"

definition aead_key :: "DirectionKeys \<Rightarrow> AeadKey" where
  "aead_key dk = aead_key_new (dk_key dk) (dk_iv dk)"

definition seal_into :: "primitives \<Rightarrow> AeadKey \<Rightarrow> u64 \<Rightarrow> bytes \<Rightarrow> bytes \<Rightarrow> (CryptoError, bytes) rust" where
  "seal_into P ak combined aad buf =
     ok_or (p_encrypt P (ak_cipher ak) (nonce_for (ak_iv ak) combined) aad buf) AeadAuth"

definition open_in_place :: "primitives \<Rightarrow> AeadKey \<Rightarrow> u64 \<Rightarrow> bytes \<Rightarrow> bytes \<Rightarrow> (CryptoError, bytes) rust" where
  "open_in_place P ak combined aad buf =
     ok_or (p_decrypt P (ak_cipher ak) (nonce_for (ak_iv ak) combined) aad buf) AeadAuth"

section \<open>Model: the ratchet\<close>

record RatchetState =
  rs_epoch :: u32
  current_secret :: bytes
  my_last_dh_sk :: bytes
  peer_last_dh_pk :: bytes

definition ratchet_seed :: "bytes \<Rightarrow> bytes \<Rightarrow> bytes \<Rightarrow> RatchetState" where
  "ratchet_seed initial_secret my_sk peer_pk =
     \<lparr>rs_epoch = 0, current_secret = initial_secret, my_last_dh_sk = my_sk, peer_last_dh_pk = peer_pk\<rparr>"

definition step_send :: "primitives \<Rightarrow> bytes \<Rightarrow> RatchetState \<Rightarrow> (CryptoError, bytes \<times> RatchetState) rust" where
  "step_send P new_sk r =
     (let new_pk = p_xpub P new_sk; shared = p_dh P new_sk (peer_last_dh_pk r) in
      if shared = replicate 32 0 then Err X25519ZeroOutput
      else
        let new_secret = kdf_extract P (current_secret r) shared in
        Ok (new_pk, r\<lparr>rs_epoch := rs_epoch r + 1, current_secret := new_secret, my_last_dh_sk := new_sk\<rparr>))"

definition step_recv :: "primitives \<Rightarrow> bytes \<Rightarrow> RatchetState \<Rightarrow> (CryptoError, RatchetState) rust" where
  "step_recv P peer_new_dh_pk r =
     (let shared = p_dh P (my_last_dh_sk r) peer_new_dh_pk in
      if shared = replicate 32 0 then Err X25519ZeroOutput
      else
        let new_secret = kdf_extract P (current_secret r) shared in
        Ok (r\<lparr>rs_epoch := rs_epoch r + 1, current_secret := new_secret, peer_last_dh_pk := peer_new_dh_pk\<rparr>))"

section \<open>Model: signatures and the authentication tag\<close>

definition sig_sign :: "primitives \<Rightarrow> bytes \<Rightarrow> bytes \<Rightarrow> bytes" where
  "sig_sign P sk msg = p_sign P sk msg"

definition sig_verify :: "primitives \<Rightarrow> bytes \<Rightarrow> bytes \<Rightarrow> bytes \<Rightarrow> (CryptoError, unit) rust" where
  "sig_verify P pk msg sig = (if p_verify P pk msg sig then Ok () else Err Ed25519Verify)"

definition derive_auth_key :: "primitives \<Rightarrow> bytes \<Rightarrow> bytes \<Rightarrow> bytes \<Rightarrow> bytes" where
  "derive_auth_key P server_pq_fingerprint client_x25519_pub client_nonce =
     (let ikm = copy_into (copy_into (replicate 48 0) 0 client_x25519_pub) 32 client_nonce
      in kdf_extract P server_pq_fingerprint ikm)"

definition auth_tag_compute :: "primitives \<Rightarrow> bytes \<Rightarrow> bytes \<Rightarrow> bytes" where
  "auth_tag_compute P auth_key auth_input = p_hmac P auth_key auth_input"

definition auth_tag_verify :: "primitives \<Rightarrow> bytes \<Rightarrow> bytes \<Rightarrow> bytes \<Rightarrow> bool" where
  "auth_tag_verify P auth_key auth_input expected_tag \<longleftrightarrow> auth_tag_compute P auth_key auth_input = expected_tag"

section \<open>Key derivation\<close>

lemma length_label_prefix [simp]: "length PROTEUS_LABEL_PREFIX = 11"
  by (simp add: PROTEUS_LABEL_PREFIX_def)

lemma expand_label_info_Ok:
  "n < 65536 \<Longrightarrow> length label < 245 \<Longrightarrow> length ctx < 256 \<Longrightarrow>
     expand_label_info label ctx n =
       Ok (be_bytes 2 n @ [word_of_nat (11 + length label)] @ PROTEUS_LABEL_PREFIX @ label
           @ [word_of_nat (length ctx)] @ ctx)"
  by (simp add: expand_label_info_def Let_def del: be_bytes.simps)

lemma expand_label_info_Err:
  "\<not> (n < 65536 \<and> length label < 245 \<and> length ctx < 256) \<Longrightarrow>
     expand_label_info label ctx n = Err HkdfError"
  by (auto simp: expand_label_info_def Let_def)

lemma word8_of_nat_inject: "a < 256 \<Longrightarrow> b < 256 \<Longrightarrow> (word_of_nat a :: u8) = word_of_nat b \<Longrightarrow> a = b"
  by (metis mod_less unat_of_nat_u8)

lemma expand_label_info_inject:
  assumes "expand_label_info l c n = Ok i" and "expand_label_info l' c' n' = Ok i"
  shows "l = l' \<and> c = c' \<and> n = n'"
proof -
  have b: "n < 65536" "length l < 245" "length c < 256" "n' < 65536" "length l' < 245" "length c' < 256"
    using assms expand_label_info_Err [of n l c] expand_label_info_Err [of n' l' c'] by auto
  have eq: "be_bytes 2 n @ [word_of_nat (11 + length l)] @ PROTEUS_LABEL_PREFIX @ l @ [word_of_nat (length c)] @ c
      = be_bytes 2 n' @ [word_of_nat (11 + length l')] @ PROTEUS_LABEL_PREFIX @ l' @ [word_of_nat (length c')] @ c'"
    using assms b expand_label_info_Ok by simp
  then have n: "be_bytes 2 n = be_bytes 2 n'"
    and eq1: "(word_of_nat (11 + length l) :: u8) = word_of_nat (11 + length l')"
    and eq2: "l @ [word_of_nat (length c)] @ c = l' @ [word_of_nat (length c')] @ c'"
    by (simp_all del: be_bytes.simps)
  have "11 + length l = 11 + length l'" by (rule word8_of_nat_inject [OF _ _ eq1]) (use b in auto)
  then have "l = l' \<and> c = c'" using eq2 by auto
  moreover have "n = n'" using n b by (simp add: be_bytes_inject del: be_bytes.simps)
  ultimately show ?thesis by blast
qed

lemma expand_label_total:
  assumes "prims_ok P" and "length k = 32" and "length l < 245" and "length c < 256" and "n \<le> 8160"
  obtains bs where "expand_label P k l c n = Ok bs" and "length bs = n"
proof -
  obtain i where "expand_label_info l c n = Ok i" using assms expand_label_info_Ok [of n l c] by simp
  moreover obtain bs where "p_expand P k i n = Some bs" "length bs = n"
    using prims_ok_expand [OF assms(1,2,5)] .
  ultimately show ?thesis using that by (simp add: expand_label_def)
qed

lemma derive_secret_total:
  assumes "prims_ok P" and "length k = 32" and "length l < 245" and "length h = 32"
  obtains s where "derive_secret P k l h = Ok s" and "length s = 32"
proof -
  obtain bs where "expand_label P k l h 32 = Ok bs" "length bs = 32"
    by (rule expand_label_total [OF assms(1-3), of h 32]) (use assms(4) in simp_all)
  then show ?thesis using that by (simp add: derive_secret_def)
qed

lemma direction_keys_total:
  assumes "prims_ok P" and "length (c_ap_secret s) = 32" and "length (s_ap_secret s) = 32"
  obtains c sv where "direction_keys P s = Ok (c, sv)"
    and "length (dk_key c) = 32" "length (dk_iv c) = 12" "length (dk_key sv) = 32" "length (dk_iv sv) = 12"
proof -
  have dk: "\<exists>d. direction_keys_from_secret P k = Ok d \<and> length (dk_key d) = 32 \<and> length (dk_iv d) = 12"
    if k: "length k = 32" for k
  proof -
    obtain a where "expand_label P k (ascii ''key'') [] 32 = Ok a" "length a = 32"
      by (rule expand_label_total [OF assms(1) k, of "ascii ''key''" "[]" 32]) simp_all
    moreover obtain b where "expand_label P k (ascii ''iv'') [] 12 = Ok b" "length b = 12"
      by (rule expand_label_total [OF assms(1) k, of "ascii ''iv''" "[]" 12]) simp_all
    ultimately show ?thesis by (simp add: direction_keys_from_secret_def)
  qed
  from dk [OF assms(2)] dk [OF assms(3)] show ?thesis
    using that by (auto simp: direction_keys_def)
qed

lemma derive_total:
  assumes P: "prims_ok P" and th: "length a = 32" "length b = 32" "length c = 32"
  obtains s where "derive P nonce shared a b c = Ok s"
    and "length (c_ap_secret s) = 32" and "length (s_ap_secret s) = 32"
    and "length (exporter s) = 32" and "length (resumption s) = 32"
proof -
  note ex = prims_okD(3) [OF P, folded kdf_extract_def]
  have eh: "length (sha256_empty P) = 32" by (simp add: sha256_empty_def prims_okD(1) [OF P])
  note tot = derive_secret_total [OF P]
  let ?es = "kdf_extract P (replicate 32 0) (copy_into (replicate 32 0) 0 nonce)"
  obtain d where d: "derive_secret P ?es (ascii ''derived'') (sha256_empty P) = Ok d"
    by (rule tot [OF ex _ eh]) auto
  let ?hs = "kdf_extract P d shared"
  obtain h1 h2 d2 where h: "derive_secret P ?hs (ascii ''c hs traffic'') a = Ok h1"
    "derive_secret P ?hs (ascii ''s hs traffic'') a = Ok h2"
    "derive_secret P ?hs (ascii ''derived'') (sha256_empty P) = Ok d2"
    by (rule tot [OF ex _ th(1), of "ascii ''c hs traffic''"], simp,
        rule tot [OF ex _ th(1), of "ascii ''s hs traffic''"], simp,
        rule tot [OF ex _ eh, of "ascii ''derived''"], auto)
  let ?ms = "kdf_extract P d2 (replicate 32 0)"
  obtain k1 where k1: "derive_secret P ?ms (ascii ''c ap traffic'') b = Ok k1" "length k1 = 32"
    by (rule tot [OF ex _ th(2), of "ascii ''c ap traffic''"]) auto
  obtain k2 where k2: "derive_secret P ?ms (ascii ''s ap traffic'') b = Ok k2" "length k2 = 32"
    by (rule tot [OF ex _ th(2), of "ascii ''s ap traffic''"]) auto
  obtain k3 where k3: "derive_secret P ?ms (ascii ''exp master'') b = Ok k3" "length k3 = 32"
    by (rule tot [OF ex _ th(2), of "ascii ''exp master''"]) auto
  obtain k4 where k4: "derive_secret P ?ms (ascii ''res master'') c = Ok k4" "length k4 = 32"
    by (rule tot [OF ex _ th(3), of "ascii ''res master''"]) auto
  show ?thesis
    by (rule that [of "\<lparr>c_ap_secret = k1, s_ap_secret = k2, exporter = k3, resumption = k4\<rparr>"])
      (simp_all add: derive_def Let_def d h k1 k2 k3 k4)
qed

section \<open>Key exchange\<close>

lemma hybrid_agreement:
  assumes P: "prims_ok P" and kp: "kem_pair P pk sk"
    and eph: "client_ephemeral P rsk rkem pk = Ok e"
  shows "server_combine P ssk sk (x25519_pub e) (mlkem_ct e) = client_combine P e (p_xpub P ssk)"
proof -
  obtain ct ss where enc: "p_encaps P pk rkem = Some (ct, ss)" "length ct = 1088" "p_decaps P sk ct = Some ss"
    using kp unfolding kem_pair_def by blast
  then have e: "e = \<lparr>x25519_sk = rsk, x25519_pub = p_xpub P rsk, mlkem_shared = ss, mlkem_ct = ct\<rparr>"
    using eph by (simp add: client_ephemeral_def)
  show ?thesis
    using enc prims_okD(7) [OF P, of ssk rsk] by (simp add: e server_combine_def client_combine_def Let_def)
qed

lemma client_ephemeral_total:
  assumes "kem_pair P pk sk"
  obtains e where "client_ephemeral P rsk rkem pk = Ok e" and "x25519_sk e = rsk"
    and "x25519_pub e = p_xpub P rsk" and "length (mlkem_ct e) = 1088" and "length (mlkem_shared e) = 32"
proof -
  obtain ct ss where "p_encaps P pk rkem = Some (ct, ss)" "length ct = 1088" "length ss = 32"
    using assms unfolding kem_pair_def by blast
  then show ?thesis using that by (simp add: client_ephemeral_def)
qed

section \<open>Nonces and records\<close>

lemma nonce_input_split:
  "copy_into (replicate AEAD_NONCE_LEN 0) (AEAD_NONCE_LEN - 8) (be_bytes 8 v) = replicate 4 0 @ be_bytes 8 v"
  by (simp add: copy_into_def AEAD_NONCE_LEN_def del: be_bytes.simps)

lemma xor_left_cancel: "(a XOR b = a XOR c) \<longleftrightarrow> (b = (c :: 'a::len word))"
proof
  assume "a XOR b = a XOR c"
  then have "a XOR (a XOR b) = a XOR (a XOR c)" by simp
  then show "b = c" by (simp flip: xor.assoc)
qed simp

lemma nonce_for_inject: "nonce_for iv a = nonce_for iv b \<longleftrightarrow> a = b"
proof
  assume "nonce_for iv a = nonce_for iv b"
  then have "\<forall>i<12. (replicate 4 0 @ be_bytes 8 (unat a)) ! i = (replicate 4 0 @ be_bytes 8 (unat b)) ! i"
    unfolding nonce_for_def Let_def nonce_input_split
    by (auto simp: list_eq_iff_nth_eq AEAD_NONCE_LEN_def xor_left_cancel simp del: be_bytes.simps upt_Suc)
  then have "replicate 4 0 @ be_bytes 8 (unat a) = replicate 4 (0 :: u8) @ be_bytes 8 (unat b)"
    by (intro nth_equalityI) (simp_all del: be_bytes.simps)
  then have "be_bytes 8 (unat a) = be_bytes 8 (unat b)" by (simp del: be_bytes.simps)
  then show "a = b" by (simp add: be_bytes_inject word_unat_eq_iff del: be_bytes.simps)
qed simp

lemma length_nonce_for [simp]: "length (nonce_for iv a) = 12"
  by (simp add: nonce_for_def Let_def AEAD_NONCE_LEN_def del: be_bytes.simps upt_Suc)

lemma open_seal:
  assumes "prims_ok P" and "length m < 2 ^ 38 - 64"
  obtains c where "seal P key iv n aad m = Ok c" and "length c = length m + 16"
    and "aead_open P key iv n aad c = Ok m"
    and "seal_into P (aead_key_new key iv) n aad m = Ok c"
    and "open_in_place P (aead_key_new key iv) n aad c = Ok m"
proof -
  obtain c where "p_encrypt P key (nonce_for iv n) aad m = Some c" "length c = length m + 16"
    "p_decrypt P key (nonce_for iv n) aad c = Some m"
    using prims_ok_encrypt [OF assms] .
  then show ?thesis
    using that by (simp add: seal_def aead_open_def seal_into_def open_in_place_def aead_key_new_def)
qed

section \<open>The two ends of a ratchet\<close>

text \<open>
  One key update, delivered: \<open>True\<close> when the first side sends, with the sender's fresh secret.  A
  failing step leaves both states as they are, as the early returns of the code do.
\<close>

fun ratchet_exchange ::
    "primitives \<Rightarrow> RatchetState \<times> RatchetState \<Rightarrow> bool \<times> bytes \<Rightarrow> RatchetState \<times> RatchetState" where
  "ratchet_exchange P (a, b) (True, sk) =
     (case step_send P sk a of Ok (pk, a') \<Rightarrow> (case step_recv P pk b of Ok b' \<Rightarrow> (a', b') | _ \<Rightarrow> (a', b))
      | _ \<Rightarrow> (a, b))"
| "ratchet_exchange P (a, b) (False, sk) =
     (case step_send P sk b of Ok (pk, b') \<Rightarrow> (case step_recv P pk a of Ok a' \<Rightarrow> (a', b') | _ \<Rightarrow> (a, b'))
      | _ \<Rightarrow> (a, b))"

definition ratchet_synced :: "primitives \<Rightarrow> RatchetState \<times> RatchetState \<Rightarrow> bool" where
  "ratchet_synced P ab \<longleftrightarrow> prims_ok P \<and>
     (case ab of (a, b) \<Rightarrow> rs_epoch a = rs_epoch b \<and> current_secret a = current_secret b
        \<and> peer_last_dh_pk a = p_xpub P (my_last_dh_sk b) \<and> peer_last_dh_pk b = p_xpub P (my_last_dh_sk a))"

lemma ratchet_exchange_synced:
  assumes "ratchet_synced P ab"
  shows "ratchet_synced P (ratchet_exchange P ab ev)"
proof -
  obtain a b where ab: "ab = (a, b)" by (cases ab)
  obtain first sk where ev: "ev = (first, sk)" by (cases ev)
  have comm: "p_dh P (my_last_dh_sk b) (p_xpub P sk) = p_dh P sk (p_xpub P (my_last_dh_sk b))"
    "p_dh P (my_last_dh_sk a) (p_xpub P sk) = p_dh P sk (p_xpub P (my_last_dh_sk a))"
    using assms prims_okD(7) unfolding ratchet_synced_def by blast+
  show ?thesis
    using assms comm unfolding ab ev
    by (cases first) (auto simp: ratchet_synced_def step_send_def step_recv_def Let_def)
qed

interpretation ratchet: invariant_machine "ratchet_exchange P" "ratchet_synced P" for P
  by unfold_locales (rule ratchet_exchange_synced)

section \<open>An instance of the primitives\<close>

definition fit :: "nat \<Rightarrow> bytes \<Rightarrow> bytes" where
  "fit n bs = take n (bs @ replicate n 0)"

lemma length_fit [simp]: "length (fit n bs) = n"
  by (simp add: fit_def)

definition toy_prims :: primitives where
  "toy_prims = \<lparr>
     p_sha256 = fit 32,
     p_hmac = (\<lambda>k m. fit 32 (fit 16 k @ fit 16 m)),
     p_extract = (\<lambda>s m. fit 32 (fit 16 s @ fit 16 m)),
     p_expand = (\<lambda>k i n. Some (fit n (i @ k))),
     p_xpub = fit 32,
     p_dh = (\<lambda>a b. map2 (+) (fit 32 a) (fit 32 b)),
     p_encaps = (\<lambda>pk r. Some (fit 1088 r, fit 32 r)),
     p_decaps = (\<lambda>sk ct. Some (fit 32 ct)),
     p_vk = (\<lambda>k. k),
     p_sign = (\<lambda>k m. fit 64 (k @ m)),
     p_verify = (\<lambda>k m s. s = fit 64 (k @ m)),
     p_encrypt = (\<lambda>k n a m. Some (m @ replicate 16 0)),
     p_decrypt = (\<lambda>k n a c. Some (take (length c - 16) c))\<rparr>"

lemma fit_fit: "m \<le> n \<Longrightarrow> fit m (fit n r) = fit m r"
  by (simp add: fit_def min_def)

lemma map2_plus_commute: "map2 (+) xs ys = map2 (+) ys (xs :: bytes)"
  by (subst zip_commute) (simp add: case_prod_beta' add.commute)

lemma toy_prims_ok: "prims_ok toy_prims"
proof -
  have dh: "map2 (+) (fit 32 a) (fit 32 (fit 32 b)) = map2 (+) (fit 32 b) (fit 32 (fit 32 a))" for a b
    by (simp add: fit_fit map2_plus_commute [of "fit 32 a"])
  show ?thesis
    unfolding prims_ok_def toy_prims_def by (intro conjI allI impI) (simp_all add: dh)
qed

lemma toy_kem_pair: "kem_pair toy_prims pk sk"
  by (simp add: kem_pair_def toy_prims_def fit_fit)

section \<open>Properties\<close>

text \<open>
  Domain separation of the key derivation: the \<open>info\<close> string determines the label, the
  context and the output length, so no two different derivations from one secret share their
  input; it is built exactly when the output is shorter than \<open>2^16\<close>, the label shorter than 245
  and the context shorter than 256 bytes, and is the error \<open>Hkdf\<close> otherwise.
\<close>

theorem expand_label_separates:
  "(expand_label_info l c n = Ok i \<and> expand_label_info l' c' n' = Ok i \<longrightarrow> l = l' \<and> c = c' \<and> n = n')
   \<and> ((\<exists>i. expand_label_info l c n = Ok i) \<longleftrightarrow> n < 65536 \<and> length l < 245 \<and> length c < 256)
   \<and> (\<not> (n < 65536 \<and> length l < 245 \<and> length c < 256) \<longrightarrow> expand_label P k l c n = Err HkdfError)"
proof -
  have "expand_label_info l c n = Ok i \<and> expand_label_info l' c' n' = Ok i \<Longrightarrow> l = l' \<and> c = c' \<and> n = n'"
    using expand_label_info_inject by blast
  moreover have "(\<exists>i. expand_label_info l c n = Ok i) \<longleftrightarrow> n < 65536 \<and> length l < 245 \<and> length c < 256"
    using expand_label_info_Ok [of n l c] expand_label_info_Err [of n l c] by (metis rust.distinct(1))
  moreover have "\<not> (n < 65536 \<and> length l < 245 \<and> length c < 256) \<Longrightarrow> expand_label P k l c n = Err HkdfError"
    using expand_label_info_Err [of n l c] by (simp add: expand_label_def)
  ultimately show ?thesis by blast
qed

theorem expand_label_separates_witness:
  "expand_label_info (ascii ''key'') [] 32 \<noteq> expand_label_info (ascii ''iv'') [] 12
   \<and> (\<exists>i. expand_label_info (ascii ''key'') [] 32 = Ok i)"
proof -
  have ok: "\<exists>i. expand_label_info (ascii ''key'') [] 32 = Ok i"
    using expand_label_separates [of "ascii ''key''" "[]" 32] by simp
  moreover have "32 \<noteq> (12 :: nat)" by simp
  ultimately show ?thesis
    using expand_label_separates [of "ascii ''key''" "[]" 32 _ "ascii ''iv''" "[]" 12] by metis
qed

text \<open>
  The hybrid exchange agrees: whatever the randomness of the client and the ephemeral secret
  of the server, both sides compute the same 64 bytes, classic part first, or both reject an
  all-zero Diffie-Hellman result, given Diffie-Hellman symmetry and a KEM key pair.
\<close>

theorem hybrid_exchange_agrees:
  assumes "prims_ok P" and "kem_pair P pk sk"
  shows "\<exists>e. client_ephemeral P rsk rkem pk = Ok e
    \<and> server_combine P ssk sk (x25519_pub e) (mlkem_ct e) = client_combine P e (p_xpub P ssk)
    \<and> (client_combine P e (p_xpub P ssk) = Err X25519ZeroOutput
       \<or> (\<exists>k. client_combine P e (p_xpub P ssk) = Ok k \<and> length k = 64
            \<and> take 32 k \<noteq> replicate 32 0 \<and> drop 32 k = mlkem_shared e))"
proof -
  obtain e where e: "client_ephemeral P rsk rkem pk = Ok e" "length (mlkem_shared e) = 32"
    using client_ephemeral_total [OF assms(2)] by metis
  have len: "length (p_dh P (x25519_sk e) (p_xpub P ssk)) = 32" by (rule prims_okD(5) [OF assms(1)])
  have "client_combine P e (p_xpub P ssk) = Err X25519ZeroOutput
       \<or> (\<exists>k. client_combine P e (p_xpub P ssk) = Ok k \<and> length k = 64
            \<and> take 32 k \<noteq> replicate 32 0 \<and> drop 32 k = mlkem_shared e)"
    using e(2) len by (auto simp: client_combine_def Let_def)
  then show ?thesis using e(1) hybrid_agreement [OF assms e(1)] by blast
qed

theorem hybrid_exchange_agrees_witness:
  "\<exists>e. client_ephemeral toy_prims [1] [2] [3] = Ok e
    \<and> server_combine toy_prims [4] [5] (x25519_pub e) (mlkem_ct e) = client_combine toy_prims e (p_xpub toy_prims [4])
    \<and> (client_combine toy_prims e (p_xpub toy_prims [4]) = Err X25519ZeroOutput
       \<or> (\<exists>k. client_combine toy_prims e (p_xpub toy_prims [4]) = Ok k \<and> length k = 64
            \<and> take 32 k \<noteq> replicate 32 0 \<and> drop 32 k = mlkem_shared e))"
  by (rule hybrid_exchange_agrees [OF toy_prims_ok toy_kem_pair])

text \<open>
  Nonces do not repeat: under one IV two record counters give the same nonce only when they
  are equal, over all \<open>2^64\<close> values, and every nonce has the 12 bytes the cipher takes.
\<close>

theorem nonce_for_unique:
  "(nonce_for iv a = nonce_for iv b \<longleftrightarrow> a = b) \<and> length (nonce_for iv a) = 12"
  by (simp add: nonce_for_inject)

text \<open>
  The ratchet keeps its two ends in step: after any sequence of delivered key updates, sent
  by either side in any order, with any fresh secrets and including rejected ones (all-zero
  output), the epochs and traffic secrets of both ends agree and each end holds the public share
  of the other's current secret.
\<close>

theorem ratchet_ends_agree:
  assumes "prims_ok P"
    and "foldl (ratchet_exchange P)
      (ratchet_seed s a_sk (p_xpub P b_sk), ratchet_seed s b_sk (p_xpub P a_sk)) evs = (a, b)"
  shows "rs_epoch a = rs_epoch b \<and> current_secret a = current_secret b
    \<and> peer_last_dh_pk a = p_xpub P (my_last_dh_sk b) \<and> peer_last_dh_pk b = p_xpub P (my_last_dh_sk a)"
proof -
  have "ratchet_synced P (ratchet_seed s a_sk (p_xpub P b_sk), ratchet_seed s b_sk (p_xpub P a_sk))"
    using assms(1) by (simp add: ratchet_synced_def ratchet_seed_def)
  then have "ratchet_synced P (a, b)" unfolding assms(2) [symmetric] by (rule ratchet.run_inv)
  then show ?thesis by (simp add: ratchet_synced_def)
qed

theorem ratchet_ends_agree_witness:
  "\<exists>a b. foldl (ratchet_exchange toy_prims)
      (ratchet_seed [9] [1] (p_xpub toy_prims [2]), ratchet_seed [9] [2] (p_xpub toy_prims [1]))
      [(True, [5]), (False, [6])] = (a, b)
    \<and> rs_epoch a = rs_epoch b \<and> current_secret a = current_secret b
    \<and> peer_last_dh_pk a = p_xpub toy_prims (my_last_dh_sk b) \<and> peer_last_dh_pk b = p_xpub toy_prims (my_last_dh_sk a)"
proof -
  obtain a b where r: "foldl (ratchet_exchange toy_prims)
      (ratchet_seed [9] [1] (p_xpub toy_prims [2]), ratchet_seed [9] [2] (p_xpub toy_prims [1]))
      [(True, [5]), (False, [6])] = (a, b)"
    by fastforce
  show ?thesis using r ratchet_ends_agree [OF toy_prims_ok r] by blast
qed

end
