(* ===== verification/Wire_Varint.thy ===== *)
theory Wire_Varint
  imports Proteus_Spec
begin

text \<open>
  The errors of the wire crate (\<open>proteus-wire/src/lib.rs\<close>) and its variable-length integers
  (\<open>proteus-wire/src/varint.rs\<close>, RFC 9000): \<open>varint_encode\<close> appends to the output vector and
  panics above \<open>varint_MAX\<close>; \<open>varint_decode\<close> reads one integer from the front of a buffer.
  The lemmas show that the codec is self-delimiting (an interpretation of \<open>prefix_codec\<close>),
  that encoding uses the shortest of the four forms, and that decoding never panics.
\<close>

section \<open>Model\<close>

datatype WireError =
    Short nat nat \<comment> \<open>needed, have\<close>
  | BadVersion u8
  | BadProfileHint u8
  | ReservedNonZero u16
  | AuthExtLengthMismatch nat nat \<comment> \<open>expected, got\<close>
  | SeqnumOverflow u64
  | EpochOverflow u32
  | MissingPathId
  | VarintError

definition varint_MAX :: u64 where
  "varint_MAX = push_bit 62 1 - 1"

definition varint_encode :: "u64 \<Rightarrow> bytes \<Rightarrow> (WireError, bytes \<times> nat) rust" where
  "varint_encode val out =
     (if \<not> val \<le> varint_MAX then Panic
      else if val < push_bit 6 1 then Ok (out @ [ucast val], 1)
      else if val < push_bit 14 1 then
        (let v = (ucast val :: u16) OR 0x4000 in Ok (out @ be_bytes 2 (unat v), 2))
      else if val < push_bit 30 1 then
        (let v = (ucast val :: u32) OR 0x80000000 in Ok (out @ be_bytes 4 (unat v), 4))
      else
        (let v = val OR 0xc000000000000000 in Ok (out @ be_bytes 8 (unat v), 8)))"

definition varint_decode :: "bytes \<Rightarrow> (WireError, u64 \<times> nat) rust" where
  "varint_decode buf =
     rust_bind (ok_or (index_get buf 0) (Short 1 0)) (\<lambda>first.
       let tag = drop_bit 6 first; len = 2 ^ unat tag in
       if length buf < len then Err (Short len (length buf))
       else
         (let bytes = copy_into (replicate 8 0) (8 - len) (take len buf);
              val = word_of_nat (be_val bytes) :: u64;
              mask = NOT (push_bit (len * 8 - 2) 3)
          in Ok (val AND mask, len)))"

text \<open>The number of bytes of the shortest form, and the bytes themselves.\<close>

definition varint_len :: "u64 \<Rightarrow> nat" where
  "varint_len v =
     (if unat v < 2 ^ 6 then 1 else if unat v < 2 ^ 14 then 2 else if unat v < 2 ^ 30 then 4 else 8)"

definition varint_bytes :: "u64 \<Rightarrow> bytes" where
  "varint_bytes v = (case varint_encode v [] of Ok (out, n) \<Rightarrow> out | _ \<Rightarrow> [])"

abbreviation varint_legal :: "u64 \<Rightarrow> bool" where
  "varint_legal v \<equiv> v \<le> varint_MAX"

section \<open>Encoding\<close>

lemma varint_legal_iff: "v \<le> varint_MAX \<longleftrightarrow> unat v < 2 ^ 62"
  by (simp add: varint_MAX_def word_le_nat_alt) arith

text \<open>The two tag bits put in front of an \<open>n\<close>-byte value.\<close>

definition varint_tag :: "nat \<Rightarrow> nat" where
  "varint_tag n = (if n = 1 then 0 else if n = 2 then 1 else if n = 4 then 2 else 3)"

lemma varint_bounds:
  "(v :: u64) < push_bit 6 1 \<longleftrightarrow> unat v < 2 ^ 6"
  "(v :: u64) < push_bit 14 1 \<longleftrightarrow> unat v < 2 ^ 14"
  "(v :: u64) < push_bit 30 1 \<longleftrightarrow> unat v < 2 ^ 30"
  by (simp_all add: word_less_nat_alt)

lemma varint_tagged_2: "unat (v :: u64) < 2 ^ 14 \<Longrightarrow> unat ((ucast v :: u16) OR 0x4000) = unat v + 1 * 2 ^ 14"
  using unat_or_high [of "ucast v :: u16" 14 1]
  by (simp add: unsigned_ucast_eq take_bit_nat_eq_self)

lemma varint_tagged_4: "unat (v :: u64) < 2 ^ 30 \<Longrightarrow> unat ((ucast v :: u32) OR 0x80000000) = unat v + 2 * 2 ^ 30"
  using unat_or_high [of "ucast v :: u32" 30 2]
  by (simp add: unsigned_ucast_eq take_bit_nat_eq_self)

lemma varint_tagged_8: "unat (v :: u64) < 2 ^ 62 \<Longrightarrow> unat (v OR 0xc000000000000000) = unat v + 3 * 2 ^ 62"
  using unat_or_high [of v 62 3] by simp

lemma varint_encode_form:
  assumes "varint_legal v"
  shows "varint_encode v out =
     Ok (out @ be_bytes (varint_len v) (unat v + varint_tag (varint_len v) * 2 ^ (varint_len v * 8 - 2)),
         varint_len v)"
proof -
  have v: "unat v < 2 ^ 62" using assms by (simp only: varint_legal_iff)
  have b1: "[ucast v] = be_bytes 1 (unat v + 0 * 2 ^ 6)"
    by (simp add: of_nat_unat)
  consider "unat v < 2 ^ 6" | "\<not> unat v < 2 ^ 6" "unat v < 2 ^ 14"
    | "\<not> unat v < 2 ^ 6" "\<not> unat v < 2 ^ 14" "unat v < 2 ^ 30"
    | "\<not> unat v < 2 ^ 6" "\<not> unat v < 2 ^ 14" "\<not> unat v < 2 ^ 30"
    by blast
  then show ?thesis
  proof cases
    case 1
    then show ?thesis using assms
      unfolding varint_encode_def varint_bounds varint_len_def b1 by (simp add: varint_tag_def)
  next
    case 2
    then show ?thesis using assms
      unfolding varint_encode_def varint_bounds varint_len_def Let_def
      by (simp only: varint_tagged_2) (simp add: varint_tag_def)
  next
    case 3
    then show ?thesis using assms
      unfolding varint_encode_def varint_bounds varint_len_def Let_def
      by (simp only: varint_tagged_4) (simp add: varint_tag_def)
  next
    case 4
    then show ?thesis using assms
      unfolding varint_encode_def varint_bounds varint_len_def Let_def
      by (simp only: varint_tagged_8 [OF v]) (simp add: varint_tag_def)
  qed
qed

lemma varint_bytes_form:
  "varint_legal v \<Longrightarrow> varint_bytes v =
     be_bytes (varint_len v) (unat v + varint_tag (varint_len v) * 2 ^ (varint_len v * 8 - 2))"
  by (simp add: varint_bytes_def varint_encode_form)

lemma varint_encode_bytes:
  "varint_legal v \<Longrightarrow> varint_encode v out = Ok (out @ varint_bytes v, varint_len v)"
  by (simp add: varint_encode_form varint_bytes_form)

lemma varint_len_cases: "varint_len v \<in> {1, 2, 4, 8}"
  by (simp add: varint_len_def)

lemma length_varint_bytes: "varint_legal v \<Longrightarrow> length (varint_bytes v) = varint_len v"
  by (simp add: varint_bytes_form)

section \<open>Decoding\<close>

lemma be_val_hd:
  assumes "bs \<noteq> []"
  shows "unat (bs ! 0) = be_val bs div 256 ^ (length bs - 1)"
proof -
  obtain b r where bs: "bs = b # r" using assms by (cases bs) auto
  have "be_val (b # r) = be_val [b] * 256 ^ length r + be_val r"
    using be_val_append [of "[b]" r] by simp
  then show ?thesis
    using be_val_less [of r] by (simp add: bs be_val_def)
qed

lemma varint_tag_range: "varint_tag n < 4"
  by (simp add: varint_tag_def)

lemma varint_first_byte:
  assumes "n \<in> {1, 2, 4, 8}" and v: "v < 2 ^ (n * 8 - 2)"
  shows "unat (drop_bit 6 (be_bytes n (v + varint_tag n * 2 ^ (n * 8 - 2)) ! 0)) = varint_tag n"
proof -
  let ?x = "v + varint_tag n * 2 ^ (n * 8 - 2)"
  have "?x < 256 ^ n"
    using assms by (auto simp: varint_tag_def)
  moreover have "be_bytes n ?x \<noteq> []" using assms(1) by (metis length_be_bytes list.size(3) insertE zero_neq_numeral zero_neq_one empty_iff)
  ultimately have hd: "unat (be_bytes n ?x ! 0) = ?x div 256 ^ (n - 1)"
    using be_val_hd [of "be_bytes n ?x"] by simp
  have "unat (drop_bit 6 (be_bytes n ?x ! 0)) = (?x div 256 ^ (n - 1)) div 2 ^ 6"
    by (simp only: unat_drop_bit hd)
  also have "\<dots> = ?x div (256 ^ (n - 1) * 2 ^ 6)"
    by (simp only: div_mult2_eq)
  also have "256 ^ (n - 1) * 2 ^ 6 = (2 :: nat) ^ (n * 8 - 2)"
    using assms(1) by auto
  also have "?x div 2 ^ (n * 8 - 2) = varint_tag n"
    using v by simp
  finally show ?thesis .
qed

lemma two_pow_varint_tag: "n \<in> {1, 2, 4, 8} \<Longrightarrow> 2 ^ varint_tag n = n"
  by (auto simp: varint_tag_def)

lemma varint_decode_form:
  assumes n: "n \<in> {1, 2, 4, 8}" and v: "v < 2 ^ (n * 8 - 2)"
  shows "varint_decode (be_bytes n (v + varint_tag n * 2 ^ (n * 8 - 2)) @ rest) = Ok (word_of_nat v, n)"
proof -
  let ?x = "v + varint_tag n * 2 ^ (n * 8 - 2)"
  let ?buf = "be_bytes n ?x @ rest"
  have pos: "0 < n" and le: "n \<le> 8" using n by auto
  have first: "index_get ?buf 0 = Some (be_bytes n ?x ! 0)"
    using pos by (simp add: index_get_def nth_append)
  have len: "2 ^ unat (drop_bit 6 (be_bytes n ?x ! 0)) = n"
    using varint_first_byte [OF n v] two_pow_varint_tag [OF n] by simp
  have x: "?x < 2 ^ (n * 8 - 2 + 2)" and x64: "?x < 2 ^ 64"
    using n v by (auto simp: varint_tag_def)
  have padded: "copy_into (replicate 8 0) (8 - n) (be_bytes n ?x) = replicate (8 - n) 0 @ be_bytes n ?x"
    using le by (simp add: copy_into_def)
  have "?x mod 256 ^ n = ?x"
    using n v by (auto simp: varint_tag_def)
  then have bv: "be_val (replicate (8 - n) 0 @ be_bytes n ?x) = ?x"
    by (simp add: be_val_append del: be_bytes.simps)
  have "unat (word_of_nat ?x :: u64) = ?x"
    using x64 by (simp add: unat_of_nat del: of_nat_add of_nat_mult)
  then have "unat ((word_of_nat ?x :: u64) AND NOT (push_bit (n * 8 - 2) 3)) = ?x mod 2 ^ (n * 8 - 2)"
    using and_not_high [of "word_of_nat ?x :: u64" "n * 8 - 2"] x by (simp only:)
  also have "\<dots> = v" using v by simp
  finally have val: "(word_of_nat ?x :: u64) AND NOT (push_bit (n * 8 - 2) 3) = word_of_nat v"
    by (metis word_of_nat_unat)
  show ?thesis
    by (simp add: varint_decode_def first len padded bv val Let_def del: be_bytes.simps of_nat_add)
qed

lemma varint_len_fits: "varint_legal v \<Longrightarrow> unat v < 2 ^ (varint_len v * 8 - 2)"
  by (simp add: varint_legal_iff varint_len_def)

lemma varint_decode_bytes:
  "varint_legal v \<Longrightarrow> varint_decode (varint_bytes v @ rest) = Ok (v, varint_len v)"
  using varint_decode_form [OF varint_len_cases varint_len_fits, of v rest]
  by (simp add: varint_bytes_form)

interpretation varint: prefix_codec varint_legal varint_bytes varint_decode
proof unfold_locales
  show "varint_legal x \<Longrightarrow> varint_decode (varint_bytes x @ rest) = Ok (x, length (varint_bytes x))" for x rest
    by (simp add: varint_decode_bytes length_varint_bytes)
  show "varint_legal x \<Longrightarrow> varint_bytes x \<noteq> []" for x
    using length_varint_bytes [of x] varint_len_cases [of x] by auto
qed

section \<open>Totality and bounds of the decoder\<close>

lemma varint_decode_not_Panic: "varint_decode buf \<noteq> Panic"
  by (auto simp: varint_decode_def Let_def rust_bind_Panic_iff)

lemma varint_decode_Ok_len:
  assumes "varint_decode buf = Ok (v, n)"
  shows "n \<le> length buf" and "n \<in> {1, 2, 4, 8}"
proof -
  let ?first = "buf ! 0"
  from assms have n: "n = 2 ^ unat (drop_bit 6 ?first)" and le: "n \<le> length buf"
    by (auto simp: varint_decode_def rust_bind_Ok_iff Let_def not_less index_get_def split: if_splits)
  have "unat (drop_bit 6 ?first) < 4"
    using unat_u8_less [of ?first] by (simp add: unat_drop_bit)
  then have "unat (drop_bit 6 ?first) \<in> {0, 1, 2, 3}" by auto
  then show "n \<in> {1, 2, 4, 8}" using n by auto
  show "n \<le> length buf" by (rule le)
qed

lemma varint_decode_Ok_bound:
  assumes dec: "varint_decode buf = Ok (v, n)"
  shows "unat v < 2 ^ (n * 8 - 2)"
proof -
  note n = varint_decode_Ok_len [OF dec]
  let ?x = "be_val (copy_into (replicate 8 0) (8 - n) (take n buf))"
  from dec have v: "v = word_of_nat ?x AND NOT (push_bit (n * 8 - 2) 3)"
    by (auto simp: varint_decode_def rust_bind_Ok_iff Let_def split: if_splits)
  have "?x = be_val (take n buf)"
    using n by (auto simp: copy_into_def be_val_append)
  then have "?x < 256 ^ n" using be_val_less [of "take n buf"] n by simp
  also have "(256 :: nat) ^ n = 2 ^ (n * 8 - 2 + 2)" using n(2) by auto
  finally have "?x < 2 ^ (n * 8 - 2 + 2)" .
  moreover have "(2 :: nat) ^ (n * 8 - 2 + 2) \<le> 2 ^ 64" using n(2) by auto
  ultimately have "unat (word_of_nat ?x :: u64) < 2 ^ (n * 8 - 2 + 2)"
    by (simp add: unat_of_nat)
  then have "unat v = unat (word_of_nat ?x :: u64) mod 2 ^ (n * 8 - 2)"
    unfolding v by (rule and_not_high)
  then show ?thesis by simp
qed

lemma varint_decode_Ok_legal: "varint_decode buf = Ok (v, n) \<Longrightarrow> varint_legal v"
  using varint_decode_Ok_bound [of buf v n] varint_decode_Ok_len(2) [of buf v n]
  by (auto simp: varint_legal_iff)

lemma varint_decode_append:
  assumes "varint_decode buf = Ok r"
  shows "varint_decode (buf @ more) = Ok r"
  using assms by (auto simp: varint_decode_def rust_bind_Ok_iff Let_def index_get_def nth_append
      split: if_splits)

lemma varint_decode_Err:
  assumes "varint_decode buf = Err e"
  shows "\<exists>needed. e = Short needed (length buf) \<and> length buf < needed"
proof (cases buf)
  case Nil
  with assms show ?thesis by (auto simp: varint_decode_def index_get_def)
next
  case (Cons b bs)
  with assms show ?thesis by (auto simp: varint_decode_def index_get_def Let_def split: if_splits)
qed

section \<open>Properties\<close>

text \<open>
  Varint round trip.  Every value up to \<open>varint_MAX\<close> is encoded without a panic, in the
  shortest of the four forms, appended to what the output held; decoding the appended bytes,
  whatever follows them, returns the value and exactly the number of bytes written.
\<close>

theorem varint_roundtrip:
  assumes "v \<le> varint_MAX"
  shows "\<exists>enc n. varint_encode v out = Ok (out @ enc, n) \<and> n = length enc \<and> n = varint_len v
      \<and> varint_decode (enc @ rest) = Ok (v, n)"
  using assms by (intro exI [of _ "varint_bytes v"] exI [of _ "varint_len v"])
    (simp add: varint_encode_bytes length_varint_bytes varint_decode_bytes)

theorem varint_roundtrip_witness:
  "\<exists>enc n. varint_encode 16384 [7] = Ok ([7] @ enc, n) \<and> n = length enc \<and> n = varint_len 16384
     \<and> varint_decode (enc @ [1, 2]) = Ok (16384, n)"
  by (rule varint_roundtrip) (simp add: varint_MAX_def)

text \<open>
  The varint decoder is total: it never panics, an error is always \<open>Short\<close> with more bytes
  needed than there are, and a success consumed 1, 2, 4 or 8 bytes of the buffer and produced a
  value that fits the form it was read from.
\<close>

theorem varint_decode_total:
  "varint_decode buf \<noteq> Panic
   \<and> (\<forall>e. varint_decode buf = Err e \<longrightarrow> (\<exists>needed. e = Short needed (length buf) \<and> length buf < needed))
   \<and> (\<forall>v n. varint_decode buf = Ok (v, n) \<longrightarrow>
        n \<in> {1, 2, 4, 8} \<and> n \<le> length buf \<and> unat v < 2 ^ (n * 8 - 2))"
  using varint_decode_not_Panic varint_decode_Err varint_decode_Ok_len varint_decode_Ok_bound
  by blast

theorem varint_decode_total_witness:
  "varint_decode [0x40, 0x40, 9] = Ok (64, 2) \<and> unat (64 :: u64) < 2 ^ (2 * 8 - 2)"
proof -
  have "varint_decode [0x40, 0x40, 9] = Ok (64, 2)"
    by code_simp
  then show ?thesis using varint_decode_total [of "[0x40, 0x40, 9]"] by blast
qed

end
