(* ===== verification/Wire_Frame.thy ===== *)
theory Wire_Frame
  imports Wire_Varint
begin

text \<open>
  Framing of the TLS/TCP profile (\<open>proteus-wire/src/alpha.rs\<close>): a type byte, a varint body
  length and the body, for handshake frames and for protected records alike.  The pointer width
  of the target matters to \<open>decode_frame\<close>, which guards its length arithmetic with
  \<open>usize::try_from\<close> and \<open>checked_add\<close>; the model takes the largest \<open>usize\<close> as its first
  argument, and the lemmas hold for every such bound.
\<close>

section \<open>Model\<close>

definition FRAME_CLIENT_HELLO :: u8 where
  "FRAME_CLIENT_HELLO = 0x01"

definition FRAME_SERVER_HELLO :: u8 where
  "FRAME_SERVER_HELLO = 0x02"

definition FRAME_SERVER_FINISHED :: u8 where
  "FRAME_SERVER_FINISHED = 0x03"

definition FRAME_CLIENT_FINISHED :: u8 where
  "FRAME_CLIENT_FINISHED = 0x04"

definition RECORD_DATA :: u8 where
  "RECORD_DATA = 0x10"

definition RECORD_RATCHET :: u8 where
  "RECORD_RATCHET = 0x11"

definition RECORD_CLOSE :: u8 where
  "RECORD_CLOSE = 0x12"

definition RECORD_DATA_PADDED :: u8 where
  "RECORD_DATA_PADDED = 0x13"

record Frame =
  frame_kind :: u8
  frame_body :: bytes

definition encode_handshake :: "u8 \<Rightarrow> bytes \<Rightarrow> (WireError, bytes) rust" where
  "encode_handshake frame_type body =
     rust_bind (varint_encode (word_of_nat (length body)) [frame_type]) (\<lambda>(out, _). Ok (out @ body))"

definition encode_record :: "u8 \<Rightarrow> bytes \<Rightarrow> (WireError, bytes) rust" where
  "encode_record record_type ciphertext =
     rust_bind (varint_encode (word_of_nat (length ciphertext)) [record_type])
       (\<lambda>(out, _). Ok (out @ ciphertext))"

definition write_record_header_to :: "bytes \<Rightarrow> u8 \<Rightarrow> nat \<Rightarrow> (WireError, bytes) rust" where
  "write_record_header_to out record_type body_len =
     rust_bind (varint_encode (word_of_nat body_len) (out @ [record_type])) (\<lambda>(out', _). Ok out')"

definition decode_frame :: "nat \<Rightarrow> bytes \<Rightarrow> (WireError, Frame \<times> nat) rust" where
  "decode_frame usize_max buf =
     (if buf = [] then Err (Short 1 0)
      else
        rust_bind (index buf 0) (\<lambda>kind.
        rust_bind (slice buf 1 (length buf)) (\<lambda>tail.
        rust_bind (varint_decode tail) (\<lambda>(len, vlen).
        let header_len = 1 + vlen in
        rust_bind (if unat len \<le> usize_max then Ok (unat len) else Err VarintError) (\<lambda>body_len.
        rust_bind (ok_or (checked_add usize_max header_len body_len) VarintError) (\<lambda>total.
        if length buf < total then Err (Short total (length buf))
        else rust_bind (slice buf header_len total) (\<lambda>body.
          Ok (\<lparr>frame_kind = kind, frame_body = body\<rparr>, total))))))))"

text \<open>What a frame looks like on the wire; legal frames have a body a varint can announce.\<close>

definition frame_bytes :: "Frame \<Rightarrow> bytes" where
  "frame_bytes f = frame_kind f # varint_bytes (word_of_nat (length (frame_body f))) @ frame_body f"

definition frame_legal :: "Frame \<Rightarrow> bool" where
  "frame_legal f \<longleftrightarrow> length (frame_body f) < 2 ^ 62"

section \<open>Encoding\<close>

lemma varint_legal_length: "n < 2 ^ 62 \<Longrightarrow> varint_legal (word_of_nat n)"
  by (simp add: varint_legal_iff unat_of_nat)

lemma encode_record_bytes:
  "length body < 2 ^ 62 \<Longrightarrow>
     encode_record k body = Ok (frame_bytes \<lparr>frame_kind = k, frame_body = body\<rparr>)"
  by (simp add: encode_record_def frame_bytes_def varint_encode_bytes varint_legal_length)

lemma encode_handshake_record: "encode_handshake k body = encode_record k body"
  by (simp add: encode_handshake_def encode_record_def)

lemma write_record_header_bytes:
  "n < 2 ^ 62 \<Longrightarrow> write_record_header_to out k n = Ok (out @ k # varint_bytes (word_of_nat n))"
  by (simp add: write_record_header_to_def varint_encode_bytes varint_legal_length)

section \<open>Decoding\<close>

lemma decode_frame_Cons:
  "decode_frame um (k # tail) =
     (case varint_decode tail of Err e \<Rightarrow> Err e | Panic \<Rightarrow> Panic
      | Ok (len, vlen) \<Rightarrow>
          if \<not> unat len \<le> um \<or> \<not> 1 + vlen + unat len \<le> um then Err VarintError
          else if length tail < vlen + unat len then Err (Short (1 + vlen + unat len) (1 + length tail))
          else Ok (\<lparr>frame_kind = k, frame_body = take (unat len) (drop vlen tail)\<rparr>, 1 + vlen + unat len))"
  by (cases "varint_decode tail")
    (auto simp: decode_frame_def Let_def checked_add_def slice_def slice_get_def split: prod.splits)

lemma decode_frame_Nil: "decode_frame um [] = Err (Short 1 0)"
  by (simp add: decode_frame_def)

lemma decode_frame_bytes:
  assumes "frame_legal f" and um: "length (frame_bytes f) \<le> um"
  shows "decode_frame um (frame_bytes f @ rest) = Ok (f, length (frame_bytes f))"
proof -
  let ?n = "length (frame_body f)"
  have n: "unat (word_of_nat ?n :: u64) = ?n" and leg: "varint_legal (word_of_nat ?n)"
    using assms(1) by (simp_all add: frame_legal_def unat_of_nat varint_legal_length)
  have dec: "varint_decode (varint_bytes (word_of_nat ?n) @ frame_body f @ rest)
      = Ok (word_of_nat ?n, varint_len (word_of_nat ?n))"
    using leg by (rule varint_decode_bytes)
  show ?thesis
    using um leg dec by (simp add: frame_bytes_def decode_frame_Cons n length_varint_bytes)
qed

lemma decode_frame_not_Panic: "decode_frame um buf \<noteq> Panic"
  using varint_decode_not_Panic
  by (cases buf) (auto simp: decode_frame_Nil decode_frame_Cons split: rust.splits)

lemma decode_frame_Ok:
  assumes "decode_frame um buf = Ok (f, n)"
  shows "\<exists>hdr. take n buf = hdr @ frame_body f \<and> hd hdr = frame_kind f
      \<and> 2 \<le> length hdr \<and> length hdr \<le> 9 \<and> n \<le> length buf \<and> n \<le> um"
proof (cases buf)
  case (Cons k tail)
  with assms obtain len vlen where dec: "varint_decode tail = Ok (len, vlen)"
    and n: "n = 1 + vlen + unat len" and f: "f = \<lparr>frame_kind = k, frame_body = take (unat len) (drop vlen tail)\<rparr>"
    and le: "vlen + unat len \<le> length tail" and um: "n \<le> um"
    by (auto simp: decode_frame_Cons not_less split: rust.splits if_splits)
  have vlen: "vlen \<in> {1, 2, 4, 8}" using dec by (rule varint_decode_Ok_len(2))
  have "take n buf = (k # take vlen tail) @ frame_body f"
    by (simp add: Cons n f take_add)
  with vlen le um f n Cons show ?thesis
    by (intro exI [of _ "k # take vlen tail"]) auto
qed (use assms in \<open>simp add: decode_frame_Nil\<close>)

lemma decode_frame_append:
  assumes "decode_frame um buf = Ok (f, n)"
  shows "decode_frame um (buf @ later) = Ok (f, n)"
proof (cases buf)
  case (Cons k tail)
  with assms obtain len vlen where dec: "varint_decode tail = Ok (len, vlen)"
    by (auto simp: decode_frame_Cons split: rust.splits)
  then have "varint_decode (tail @ later) = Ok (len, vlen)" by (rule varint_decode_append)
  with dec assms Cons show ?thesis
    using varint_decode_Ok_len(1) [OF dec] by (auto simp: decode_frame_Cons split: if_splits)
qed (use assms in \<open>simp add: decode_frame_Nil\<close>)

lemma decode_frame_Err:
  assumes "decode_frame um buf = Err e"
  shows "e = VarintError \<or> (\<exists>needed have. e = Short needed have \<and> have < needed)"
  using assms varint_decode_Err
  by (cases buf) (fastforce simp: decode_frame_Nil decode_frame_Cons split: rust.splits if_splits)+

text \<open>A proper prefix of a legal frame asks for more bytes.\<close>

lemma decode_prefix_short:
  assumes leg: "frame_legal f" and um: "length (frame_bytes f) \<le> um"
    and pre: "frame_bytes f = buf @ later" "later \<noteq> []"
  shows "\<exists>a b. decode_frame um buf = Err (Short a b)"
proof -
  have full: "decode_frame um (buf @ later) = Ok (f, length (frame_bytes f))"
    using decode_frame_bytes [OF leg um, of "[]"] pre(1) by simp
  show ?thesis
  proof (cases buf)
    case Nil
    then show ?thesis by (simp add: decode_frame_Nil)
  next
    case (Cons k tail)
    have not_ok: "decode_frame um buf \<noteq> Ok x" for x
    proof
      assume "decode_frame um buf = Ok x"
      moreover obtain g n where "x = (g, n)" by fastforce
      ultimately have d: "decode_frame um buf = Ok (g, n)" by simp
      then have "decode_frame um (buf @ later) = Ok (g, n)" by (rule decode_frame_append)
      with full have "n = length (frame_bytes f)" by auto
      moreover have "n \<le> length buf" using decode_frame_Ok [OF d] by blast
      ultimately show False using pre by simp
    qed
    show ?thesis
    proof (cases "varint_decode tail")
      case (Ok x)
      obtain len vlen where x: "x = (len, vlen)" by fastforce
      have "varint_decode (tail @ later) = Ok (len, vlen)"
        using Ok x varint_decode_append by blast
      then have "\<not> (\<not> unat len \<le> um \<or> \<not> 1 + vlen + unat len \<le> um)"
        using full Cons by (auto simp: decode_frame_Cons split: if_splits)
      then have "decode_frame um buf = (if length tail < vlen + unat len
          then Err (Short (1 + vlen + unat len) (1 + length tail))
          else Ok (\<lparr>frame_kind = k, frame_body = take (unat len) (drop vlen tail)\<rparr>, 1 + vlen + unat len))"
        using Ok x Cons by (auto simp: decode_frame_Cons)
      then show ?thesis using not_ok by (auto split: if_splits)
    next
      case (Err e)
      then show ?thesis using varint_decode_Err Cons by (fastforce simp: decode_frame_Cons)
    next
      case Panic
      then show ?thesis using varint_decode_not_Panic by blast
    qed
  qed
qed

text \<open>On a 64-bit target every legal frame fits, so the frame layer is a self-delimiting codec.\<close>

definition usize64 :: nat where
  "usize64 = 2 ^ 64 - 1"

lemma frame_fits_usize64: "frame_legal f \<Longrightarrow> length (frame_bytes f) \<le> usize64"
  using varint_len_cases [of "word_of_nat (length (frame_body f))"]
  by (auto simp: frame_legal_def frame_bytes_def usize64_def length_varint_bytes varint_legal_length)

interpretation frame: prefix_codec frame_legal frame_bytes "decode_frame usize64"
proof unfold_locales
  show "frame_legal f \<Longrightarrow> decode_frame usize64 (frame_bytes f @ rest) = Ok (f, length (frame_bytes f))" for f rest
    by (simp add: decode_frame_bytes frame_fits_usize64)
  show "frame_legal f \<Longrightarrow> frame_bytes f \<noteq> []" for f
    by (simp add: frame_bytes_def)
qed

section \<open>Properties\<close>

text \<open>
  Frame round trip.  A frame or record with a body shorter than \<open>2^62\<close> is encoded without
  a panic (\<open>encode_handshake\<close> and \<open>encode_record\<close> agree), the no-copy path that writes only the
  header produces the same bytes, and decoding returns the kind, the body and the exact number of
  bytes on any target whose \<open>usize\<close> can hold that number, whatever follows in the buffer.
\<close>

theorem frame_roundtrip:
  assumes "length body < 2 ^ 62" and "10 + length body \<le> um"
  shows "\<exists>wire. encode_record k body = Ok wire \<and> encode_handshake k body = Ok wire
      \<and> rust_bind (write_record_header_to [] k (length body)) (\<lambda>hdr. Ok (hdr @ body)) = (Ok wire :: (WireError, bytes) rust)
      \<and> decode_frame um (wire @ rest) = Ok (\<lparr>frame_kind = k, frame_body = body\<rparr>, length wire)"
proof -
  let ?f = "\<lparr>frame_kind = k, frame_body = body\<rparr>"
  have leg: "frame_legal ?f" using assms(1) by (simp add: frame_legal_def)
  have "length (frame_bytes ?f) \<le> um"
    using assms varint_len_cases [of "word_of_nat (length body)"]
    by (auto simp: frame_bytes_def length_varint_bytes varint_legal_length)
  with leg have "decode_frame um (frame_bytes ?f @ rest) = Ok (?f, length (frame_bytes ?f))"
    by (rule decode_frame_bytes)
  then show ?thesis
    using assms(1) by (intro exI [of _ "frame_bytes ?f"])
      (simp add: encode_handshake_record encode_record_bytes write_record_header_bytes frame_bytes_def)
qed

theorem frame_roundtrip_witness:
  "\<exists>wire. encode_record RECORD_DATA [1, 2, 3] = Ok wire \<and> encode_handshake RECORD_DATA [1, 2, 3] = Ok wire
     \<and> rust_bind (write_record_header_to [] RECORD_DATA (length [1, 2, 3 :: u8])) (\<lambda>hdr. Ok (hdr @ [1, 2, 3])) = (Ok wire :: (WireError, bytes) rust)
     \<and> decode_frame (2 ^ 32 - 1) (wire @ [9]) = Ok (\<lparr>frame_kind = RECORD_DATA, frame_body = [1, 2, 3]\<rparr>, length wire)"
  by (rule frame_roundtrip) simp_all

text \<open>
  The frame decoder is safe on hostile input at every pointer width: it never panics, a
  failure is \<open>VarintError\<close> or a \<open>Short\<close> that asks for more than is there, and a success consumed
  a header of 2 to 9 bytes followed by exactly the returned body, within the buffer and within
  \<open>usize\<close>; bytes that arrive later do not change a successful decode.
\<close>

theorem decode_frame_safe:
  "decode_frame um buf \<noteq> Panic
   \<and> (\<forall>e. decode_frame um buf = Err e \<longrightarrow>
        e = VarintError \<or> (\<exists>needed have. e = Short needed have \<and> have < needed))
   \<and> (\<forall>f n. decode_frame um buf = Ok (f, n) \<longrightarrow>
        (\<exists>hdr. take n buf = hdr @ frame_body f \<and> hd hdr = frame_kind f \<and> 2 \<le> length hdr
           \<and> length hdr \<le> 9 \<and> n \<le> length buf \<and> n \<le> um)
        \<and> decode_frame um (buf @ later) = Ok (f, n))"
  using decode_frame_not_Panic decode_frame_Err decode_frame_Ok decode_frame_append by blast

theorem decode_frame_safe_witness:
  "decode_frame (2 ^ 32 - 1) [0x01, 2, 8, 9] = Ok (\<lparr>frame_kind = 0x01, frame_body = [8, 9]\<rparr>, 4)
   \<and> decode_frame (2 ^ 32 - 1) ([0x01, 2, 8, 9] @ [5]) = Ok (\<lparr>frame_kind = 0x01, frame_body = [8, 9]\<rparr>, 4)"
proof -
  have "decode_frame (2 ^ 32 - 1) [0x01, 2, 8, 9] = Ok (\<lparr>frame_kind = 0x01, frame_body = [8, 9]\<rparr>, 4)"
  proof -
    have "varint_decode [2, 8, 9] = Ok (2, 1)" by code_simp
    then show ?thesis by (simp add: decode_frame_Cons)
  qed
  then show ?thesis using decode_frame_safe [of "2 ^ 32 - 1" "[0x01, 2, 8, 9]" "[5]"] by blast
qed

text \<open>
  A stream of frames has one reading: two sequences of legal frames that produce the same
  bytes are the same sequence.
\<close>

theorem frame_stream_unambiguous:
  assumes "list_all frame_legal fs" and "list_all frame_legal gs"
    and "concat (map frame_bytes fs) = concat (map frame_bytes gs)"
  shows "fs = gs"
  using assms by (rule frame.stream_unambiguous)

theorem frame_stream_unambiguous_witness:
  "concat (map frame_bytes [\<lparr>frame_kind = 1, frame_body = [7]\<rparr>]) \<noteq> concat (map frame_bytes [\<lparr>frame_kind = 2, frame_body = [7]\<rparr>])"
proof
  assume eq: "concat (map frame_bytes [\<lparr>frame_kind = 1, frame_body = [7]\<rparr>])
    = concat (map frame_bytes [\<lparr>frame_kind = 2, frame_body = [7]\<rparr>])"
  have "[\<lparr>frame_kind = 1, frame_body = [7]\<rparr>] = [\<lparr>frame_kind = 2, frame_body = [7 :: u8]\<rparr>]"
    by (rule frame_stream_unambiguous [OF _ _ eq]) (simp_all add: frame_legal_def)
  then show False by simp
qed

end
