(* ===== verification/Session_Model.thy ===== *)
theory Session_Model
  imports Crypto Wire_Frame
begin

text \<open>
  The data path of an established session (\<open>proteus-transport-alpha/src/session.rs\<close>): the
  sending half seals records under \<open>(epoch, seqnum)\<close> counters, splits them into cells when padding
  is on, and ratchets to a new epoch; the receiving half reassembles frames from the bytes the
  transport delivers, opens them, and follows the ratchet.

  A call that can fail returns the outcome together with the state it leaves behind, since the
  code has updated part of the state when it returns early.  The socket is the byte string
  written so far (\<open>tx_wire\<close>) on the sending side and the list of chunks successive reads return on
  the receiving side, an exhausted list standing for end of file; errors of the socket itself are
  not modelled.  Debug assertions are assertions.  The scratch buffers, which every call clears
  before use, and the metrics counters are left out.  \<open>tx_log\<close> is a ghost: the epoch and the
  counter of every seal, for the statement that no nonce repeats.
\<close>

section \<open>Errors and state-passing calls\<close>

datatype AlphaError =
    IoError
  | WireErr WireError
  | CryptoErr CryptoError
  | AuthTagInvalid
  | AuthReplay
  | AuthStale
  | BadServerFinished
  | BadClientFinished
  | Closed
  | SeqnumExhausted
  | BadServerKey

type_synonym ('s, 'a) call = "(AlphaError, 'a) rust \<times> 's"

fun st_bind :: "('s, 'a) call \<Rightarrow> ('a \<Rightarrow> 's \<Rightarrow> ('s, 'b) call) \<Rightarrow> ('s, 'b) call" where
  "st_bind (Ok a, s) f = f a s"
| "st_bind (Err e, s) f = (Err e, s)"
| "st_bind (Panic, s) f = (Panic, s)"

section \<open>Constants\<close>

definition DH_RATCHET_LABEL :: bytes where
  "DH_RATCHET_LABEL = ascii ''proteus dh-ratchet v1''"

definition label_RATCHET :: bytes where
  "label_RATCHET = ascii ''proteus ratchet v1''"

definition CONTINUATION_SENTINEL :: nat where
  "CONTINUATION_SENTINEL = 0xffffffff"

definition HEARTBEAT_SENTINEL :: nat where
  "HEARTBEAT_SENTINEL = 0xfffffffe"

definition RATCHET_BYTES :: nat where
  "RATCHET_BYTES = 4 * 1024 * 1024"

definition RATCHET_RECORDS :: nat where
  "RATCHET_RECORDS = 16384"

definition RX_BUF_HARD_CAP :: nat where
  "RX_BUF_HARD_CAP = 16 * 1024 * 1024"

definition RX_COMPACT_THRESHOLD :: nat where
  "RX_COMPACT_THRESHOLD = 64 * 1024"

definition sat_inc32 :: "u32 \<Rightarrow> u32" where
  "sat_inc32 w = (if w = - 1 then w else w + 1)"

definition sat_inc64 :: "u64 \<Rightarrow> u64" where
  "sat_inc64 w = (if w = - 1 then w else w + 1)"

definition pack_counter :: "u32 \<Rightarrow> u64 \<Rightarrow> u64" where
  "pack_counter epoch seqnum = push_bit 40 (ucast epoch) OR seqnum"

definition counter_aad :: "u64 \<Rightarrow> bytes" where
  "counter_aad combined = be_bytes 8 (unat combined)"

section \<open>The sending half\<close>

record AlphaSender =
  tx_wire :: bytes
  tx_keys :: DirectionKeys
  tx_cipher :: AeadKey
  tx_secret :: bytes
  tx_epoch :: u32
  tx_seqnum :: u64
  tx_bytes_in_epoch :: nat
  tx_records_in_epoch :: nat
  tx_pad_quantum :: u16
  tx_dh_sk :: "bytes option"
  tx_peer_dh_pub :: "bytes option"
  tx_log :: "(u32 \<times> u64) list"

definition sender_new :: "DirectionKeys \<Rightarrow> bytes \<Rightarrow> AlphaSender" where
  "sender_new keys secret =
     \<lparr>tx_wire = [], tx_keys = keys, tx_cipher = aead_key keys, tx_secret = secret, tx_epoch = 0,
      tx_seqnum = 0, tx_bytes_in_epoch = 0, tx_records_in_epoch = 0, tx_pad_quantum = 0,
      tx_dh_sk = None, tx_peer_dh_pub = None, tx_log = []\<rparr>"

definition sender_install_dh_ratchet :: "bytes \<Rightarrow> bytes \<Rightarrow> AlphaSender \<Rightarrow> AlphaSender" where
  "sender_install_dh_ratchet my_dh_sk peer_dh_pub s =
     s\<lparr>tx_dh_sk := Some my_dh_sk, tx_peer_dh_pub := Some peer_dh_pub\<rparr>"

definition set_pad_quantum :: "u16 \<Rightarrow> AlphaSender \<Rightarrow> u16 \<times> AlphaSender" where
  "set_pad_quantum quantum s = (tx_pad_quantum s, s\<lparr>tx_pad_quantum := quantum\<rparr>)"

definition sender_derive_subkey :: "primitives \<Rightarrow> AlphaSender \<Rightarrow> bytes \<Rightarrow> nat \<Rightarrow> (AlphaError, bytes) rust" where
  "sender_derive_subkey P s label out_len =
     rust_map_err (\<lambda>_. Closed) (expand_label P (tx_secret s) label [] out_len)"

definition should_ratchet :: "AlphaSender \<Rightarrow> bool" where
  "should_ratchet s \<longleftrightarrow> tx_bytes_in_epoch s \<ge> RATCHET_BYTES \<or> tx_records_in_epoch s \<ge> RATCHET_RECORDS"

definition tx_combined :: "AlphaSender \<Rightarrow> u64" where
  "tx_combined s = pack_counter (tx_epoch s) (tx_seqnum s)"

definition derive_ratchet_secret :: "primitives \<Rightarrow> bytes \<Rightarrow> (AlphaError, bytes) rust" where
  "derive_ratchet_secret P current = rust_map_err CryptoErr (expand_label P current label_RATCHET [] 32)"

text \<open>The local copy of the key derivation of the key schedule.\<close>

definition session_direction_keys :: "primitives \<Rightarrow> bytes \<Rightarrow> (AlphaError, DirectionKeys) rust" where
  "session_direction_keys P secret =
     rust_bind (rust_map_err CryptoErr (expand_label P secret (ascii ''key'') [] 32)) (\<lambda>key.
     rust_bind (rust_map_err CryptoErr (expand_label P secret (ascii ''iv'') [] 12)) (\<lambda>iv.
     Ok \<lparr>dk_key = key, dk_iv = iv\<rparr>))"

text \<open>
  The secret of the next epoch and the body of the RATCHET record.  \<open>rng\<close> is the fresh X25519
  secret; the bootstrap pair is burned once the new secret is derived.
\<close>

definition ratchet_secret_and_body ::
    "primitives \<Rightarrow> bytes \<Rightarrow> u32 \<Rightarrow> AlphaSender \<Rightarrow> (AlphaSender, bytes \<times> bytes) call" where
  "ratchet_secret_and_body P rng new_epoch s =
     (case (tx_dh_sk s, tx_peer_dh_pub s) of
        (Some _, Some peer_pub) \<Rightarrow>
          (let my_dh_pub_new = p_xpub P rng; dh = p_dh P rng peer_pub in
           if list_all (\<lambda>b. b = 0) dh then (Err Closed, s)
           else st_bind (rust_map_err CryptoErr (expand_label P (tx_secret s) DH_RATCHET_LABEL dh 32), s) (\<lambda>next s.
             (Ok (next, be_bytes 4 (unat new_epoch) @ my_dh_pub_new),
              s\<lparr>tx_dh_sk := None, tx_peer_dh_pub := None\<rparr>)))
      | _ \<Rightarrow> st_bind (derive_ratchet_secret P (tx_secret s), s) (\<lambda>next s.
               (Ok (next, be_bytes 4 (unat new_epoch)), s)))"

definition send_ratchet_frame :: "primitives \<Rightarrow> bytes \<Rightarrow> AlphaSender \<Rightarrow> (AlphaSender, unit) call" where
  "send_ratchet_frame P rng s =
     (let new_epoch = sat_inc32 (tx_epoch s) in
      if unat new_epoch \<ge> 2 ^ EPOCH_BITS then (Err Closed, s)
      else
        st_bind (ratchet_secret_and_body P rng new_epoch s) (\<lambda>(new_secret, body) s.
        st_bind (session_direction_keys P new_secret, s) (\<lambda>new_keys s.
        let sentinel = pack_counter (tx_epoch s) SEQNUM_MAX in
        st_bind (rust_map_err CryptoErr (seal P (dk_key (tx_keys s)) (dk_iv (tx_keys s)) sentinel
                   (counter_aad sentinel) body), s) (\<lambda>ct s.
        st_bind (rust_map_err WireErr (encode_record RECORD_RATCHET ct), s) (\<lambda>frame s.
        (Ok (), s\<lparr>tx_wire := tx_wire s @ frame, tx_log := tx_log s @ [(tx_epoch s, sentinel)],
           tx_keys := new_keys, tx_cipher := aead_key new_keys, tx_secret := new_secret,
           tx_epoch := new_epoch, tx_seqnum := 0, tx_bytes_in_epoch := 0, tx_records_in_epoch := 0\<rparr>))))))"

definition ensure_ratchet :: "primitives \<Rightarrow> bytes \<Rightarrow> AlphaSender \<Rightarrow> (AlphaSender, unit) call" where
  "ensure_ratchet P rng s =
     st_bind (if should_ratchet s then send_ratchet_frame P rng s else (Ok (), s)) (\<lambda>_ s.
     if tx_seqnum s > SEQNUM_MAX then send_ratchet_frame P rng s else (Ok (), s))"

text \<open>Seal one plaintext under the current counter and write header and ciphertext.\<close>

definition seal_and_write :: "primitives \<Rightarrow> u8 \<Rightarrow> bytes \<Rightarrow> AlphaSender \<Rightarrow> (AlphaSender, unit) call" where
  "seal_and_write P kind plaintext s =
     (let combined = tx_combined s in
      st_bind (rust_map_err CryptoErr (seal_into P (tx_cipher s) combined (counter_aad combined) plaintext), s) (\<lambda>ct s.
      st_bind (rust_map_err WireErr (write_record_header_to [] kind (length ct)), s) (\<lambda>hdr s.
      (Ok (), s\<lparr>tx_wire := tx_wire s @ hdr @ ct, tx_log := tx_log s @ [(tx_epoch s, combined)]\<rparr>))))"

definition send_cell :: "primitives \<Rightarrow> bytes \<Rightarrow> bytes \<Rightarrow> nat \<Rightarrow> nat \<Rightarrow> AlphaSender \<Rightarrow> (AlphaSender, unit) call" where
  "send_cell P rng payload total_cells cell_idx s0 =
     (let quantum = unat (tx_pad_quantum s0); chunk_max = quantum - 4 in
      st_bind (ensure_ratchet P rng s0) (\<lambda>_ s.
      let offset = cell_idx * chunk_max;
          is_last = (cell_idx + 1 = total_cells) in
      st_bind (if is_last then slice payload offset (length payload)
               else slice payload offset (offset + chunk_max), s) (\<lambda>chunk s.
      let plaintext =
            (if is_last
             then be_bytes 4 (length chunk) @ chunk @ replicate (quantum - (4 + length chunk)) 0
             else be_bytes 4 CONTINUATION_SENTINEL @ chunk) in
      if length plaintext \<noteq> quantum then (Panic, s)
      else st_bind (seal_and_write P RECORD_DATA_PADDED plaintext s) (\<lambda>_ s.
        (Ok (), s\<lparr>tx_seqnum := sat_inc64 (tx_seqnum s),
           tx_records_in_epoch := sat_add64 (tx_records_in_epoch s) 1\<rparr>)))))"

fun send_cells :: "primitives \<Rightarrow> bytes \<Rightarrow> bytes \<Rightarrow> nat \<Rightarrow> nat list \<Rightarrow> AlphaSender \<Rightarrow> (AlphaSender, unit) call" where
  "send_cells P rng payload total_cells [] s = (Ok (), s)"
| "send_cells P rng payload total_cells (cell_idx # rest) s =
     st_bind (send_cell P rng payload total_cells cell_idx s) (\<lambda>_ s.
       send_cells P rng payload total_cells rest s)"

definition div_ceil :: "nat \<Rightarrow> nat \<Rightarrow> nat" where
  "div_ceil a b = (if a mod b = 0 then a div b else a div b + 1)"

definition send_record :: "primitives \<Rightarrow> bytes \<Rightarrow> bytes \<Rightarrow> AlphaSender \<Rightarrow> (AlphaSender, u64) call" where
  "send_record P rng payload s0 =
     (if tx_pad_quantum s0 = 0 then
        st_bind (ensure_ratchet P rng s0) (\<lambda>_ s.
        st_bind (seal_and_write P RECORD_DATA payload s) (\<lambda>_ s.
        (Ok (tx_seqnum s), s\<lparr>tx_seqnum := sat_inc64 (tx_seqnum s),
           tx_bytes_in_epoch := sat_add64 (tx_bytes_in_epoch s) (length payload),
           tx_records_in_epoch := sat_add64 (tx_records_in_epoch s) 1\<rparr>)))
      else
        let quantum = unat (tx_pad_quantum s0) in
        if quantum < 8 then (Panic, s0)
        else
          let chunk_max = quantum - 4;
              first_seqnum = tx_seqnum s0;
              total_cells = max (div_ceil (length payload) chunk_max) 1 in
          st_bind (send_cells P rng payload total_cells [0..<total_cells] s0) (\<lambda>_ s.
          (Ok first_seqnum, s\<lparr>tx_bytes_in_epoch := sat_add64 (tx_bytes_in_epoch s) (length payload)\<rparr>)))"

definition send_heartbeat :: "primitives \<Rightarrow> bytes \<Rightarrow> AlphaSender \<Rightarrow> (AlphaSender, unit) call" where
  "send_heartbeat P rng s0 =
     (if tx_pad_quantum s0 = 0 then (Err Closed, s0)
      else
        st_bind (ensure_ratchet P rng s0) (\<lambda>_ s.
        let quantum = unat (tx_pad_quantum s) in
        if quantum < 4 then (Panic, s)
        else
          let plaintext = copy_into (replicate quantum 0) 0 (be_bytes 4 HEARTBEAT_SENTINEL) in
          st_bind (seal_and_write P RECORD_DATA_PADDED plaintext s) (\<lambda>_ s.
          (Ok (), s\<lparr>tx_seqnum := sat_inc64 (tx_seqnum s),
             tx_records_in_epoch := sat_add64 (tx_records_in_epoch s) 1\<rparr>))))"

definition send_close :: "primitives \<Rightarrow> u8 \<Rightarrow> bytes \<Rightarrow> AlphaSender \<Rightarrow> (AlphaSender, unit) call" where
  "send_close P error_code reason s =
     (let reason_len = min (length reason) 255;
          pt = [error_code, word_of_nat reason_len] @ take reason_len reason;
          combined = tx_combined s in
      st_bind (rust_map_err CryptoErr (seal P (dk_key (tx_keys s)) (dk_iv (tx_keys s)) combined
                 (counter_aad combined) pt), s) (\<lambda>ct s.
      st_bind (rust_map_err WireErr (encode_record RECORD_CLOSE ct), s) (\<lambda>frame s.
      (Ok (), s\<lparr>tx_wire := tx_wire s @ frame, tx_log := tx_log s @ [(tx_epoch s, combined)],
         tx_seqnum := SEQNUM_MAX + 1\<rparr>))))"

section \<open>The receiving half\<close>

record AlphaReceiver =
  rx_keys :: DirectionKeys
  rx_cipher :: AeadKey
  rx_secret :: bytes
  rx_epoch :: u32
  rx_next_seqnum :: u64
  rx_buf :: bytes
  rx_offset :: nat
  rx_close_code :: "u8 option"
  rx_close_reason :: "bytes option"
  rx_dh_sk :: "bytes option"
  rx_pending :: bytes

definition receiver_with_prefix :: "DirectionKeys \<Rightarrow> bytes \<Rightarrow> bytes \<Rightarrow> AlphaReceiver" where
  "receiver_with_prefix keys secret prefix_bytes =
     \<lparr>rx_keys = keys, rx_cipher = aead_key keys, rx_secret = secret, rx_epoch = 0, rx_next_seqnum = 0,
      rx_buf = prefix_bytes, rx_offset = 0, rx_close_code = None, rx_close_reason = None,
      rx_dh_sk = None, rx_pending = []\<rparr>"

definition receiver_install_dh_ratchet :: "bytes \<Rightarrow> AlphaReceiver \<Rightarrow> AlphaReceiver" where
  "receiver_install_dh_ratchet my_dh_sk r = r\<lparr>rx_dh_sk := Some my_dh_sk\<rparr>"

definition receiver_derive_subkey :: "primitives \<Rightarrow> AlphaReceiver \<Rightarrow> bytes \<Rightarrow> nat \<Rightarrow> (AlphaError, bytes) rust" where
  "receiver_derive_subkey P r label out_len =
     rust_map_err (\<lambda>_. Closed) (expand_label P (rx_secret r) label [] out_len)"

text \<open>
  The next secret from the plaintext of a RATCHET record: 36 bytes carry the peer's new share, and
  consume the bootstrap secret (\<open>take\<close>) before anything else can fail.
\<close>

definition recv_ratchet_secret :: "primitives \<Rightarrow> bytes \<Rightarrow> AlphaReceiver \<Rightarrow> (AlphaReceiver, bytes) call" where
  "recv_ratchet_secret P pt r =
     (if length pt = 36 then
        (case rx_dh_sk r of
           None \<Rightarrow> (Err BadServerFinished, r)
         | Some my_sk \<Rightarrow>
             (let r = r\<lparr>rx_dh_sk := None\<rparr>; dh = p_dh P my_sk (take 32 (drop 4 pt)) in
              if list_all (\<lambda>b. b = 0) dh then (Err BadServerFinished, r)
              else (rust_map_err CryptoErr (expand_label P (rx_secret r) DH_RATCHET_LABEL dh 32), r)))
      else (derive_ratchet_secret P (rx_secret r), r))"

definition apply_ratchet :: "primitives \<Rightarrow> bytes \<Rightarrow> AlphaReceiver \<Rightarrow> (AlphaReceiver, unit) call" where
  "apply_ratchet P body r =
     (let combined = pack_counter (rx_epoch r) SEQNUM_MAX in
      st_bind (rust_map_err (\<lambda>_. BadServerFinished)
        (aead_open P (dk_key (rx_keys r)) (dk_iv (rx_keys r)) combined (counter_aad combined) body), r) (\<lambda>pt r.
      if length pt \<noteq> 4 \<and> length pt \<noteq> 36 then (Err BadServerFinished, r)
      else
        let new_epoch = word_of_nat (be_val (take 4 pt)) :: u32 in
        if new_epoch \<noteq> sat_inc32 (rx_epoch r) then (Err BadServerFinished, r)
        else if unat new_epoch \<ge> 2 ^ EPOCH_BITS then (Err BadServerFinished, r)
        else
          st_bind (recv_ratchet_secret P pt r) (\<lambda>new_secret r.
          st_bind (session_direction_keys P new_secret, r) (\<lambda>new_keys r.
          (Ok (), r\<lparr>rx_keys := new_keys, rx_cipher := aead_key new_keys, rx_secret := new_secret,
             rx_epoch := new_epoch, rx_next_seqnum := 0\<rparr>)))))"

text \<open>What the loop of \<open>recv_record_into\<close> does after one frame: read on, return data, return \<open>None\<close>, fail.\<close>

datatype rx_next = RxContinue | RxDeliver bytes | RxClosed | RxErr AlphaError | RxPanic

definition rx_data :: "primitives \<Rightarrow> bytes \<Rightarrow> AlphaReceiver \<Rightarrow> rx_next \<times> AlphaReceiver" where
  "rx_data P body r =
     (let combined = pack_counter (rx_epoch r) (rx_next_seqnum r) in
      case open_in_place P (rx_cipher r) combined (counter_aad combined) body of
        Ok pt \<Rightarrow> (RxDeliver pt, r\<lparr>rx_next_seqnum := sat_inc64 (rx_next_seqnum r)\<rparr>)
      | _ \<Rightarrow> (RxContinue, r))"

definition rx_cell :: "primitives \<Rightarrow> nat \<Rightarrow> bytes \<Rightarrow> AlphaReceiver \<Rightarrow> rx_next \<times> AlphaReceiver" where
  "rx_cell P usize_max body r =
     (let combined = pack_counter (rx_epoch r) (rx_next_seqnum r) in
      case open_in_place P (rx_cipher r) combined (counter_aad combined) body of
        Ok raw \<Rightarrow>
          if length raw < 4 then (RxContinue, r)
          else
            let len_prefix = be_val (take 4 raw);
                r = r\<lparr>rx_next_seqnum := sat_inc64 (rx_next_seqnum r)\<rparr> in
            if len_prefix = HEARTBEAT_SENTINEL then (RxContinue, r)
            else if len_prefix = CONTINUATION_SENTINEL then
              (case checked_add usize_max (length (rx_pending r)) (length raw - 4) of
                 Some p \<Rightarrow>
                   if p \<le> RX_BUF_HARD_CAP then (RxContinue, r\<lparr>rx_pending := rx_pending r @ drop 4 raw\<rparr>)
                   else (RxErr Closed, r)
               | None \<Rightarrow> (RxErr Closed, r))
            else
              (case checked_add usize_max 4 len_prefix of
                 Some e \<Rightarrow>
                   if e \<le> length raw
                   then (RxDeliver (rx_pending r @ take (e - 4) (drop 4 raw)), r\<lparr>rx_pending := []\<rparr>)
                   else (RxContinue, r)
               | None \<Rightarrow> (RxContinue, r))
      | _ \<Rightarrow> (RxContinue, r))"

definition rx_close :: "primitives \<Rightarrow> bytes \<Rightarrow> AlphaReceiver \<Rightarrow> rx_next \<times> AlphaReceiver" where
  "rx_close P body r =
     (let combined = pack_counter (rx_epoch r) (rx_next_seqnum r) in
      case aead_open P (dk_key (rx_keys r)) (dk_iv (rx_keys r)) combined (counter_aad combined) body of
        Ok pt \<Rightarrow>
          (RxClosed,
           if length pt \<ge> 2 then
             let reason_len = unat (pt ! 1); r = r\<lparr>rx_close_code := Some (pt ! 0)\<rparr> in
             if length pt \<ge> 2 + reason_len then r\<lparr>rx_close_reason := Some (take reason_len (drop 2 pt))\<rparr>
             else r
           else r)
      | _ \<Rightarrow> (RxContinue, r))"

definition rx_dispatch :: "primitives \<Rightarrow> nat \<Rightarrow> u8 \<Rightarrow> bytes \<Rightarrow> AlphaReceiver \<Rightarrow> rx_next \<times> AlphaReceiver" where
  "rx_dispatch P usize_max kind body r =
     (if kind = RECORD_DATA then rx_data P body r
      else if kind = RECORD_DATA_PADDED then rx_cell P usize_max body r
      else if kind = RECORD_RATCHET then
        (case apply_ratchet P body r of
           (Ok _, r) \<Rightarrow> (RxContinue, r) | (Err e, r) \<Rightarrow> (RxErr e, r) | (Panic, r) \<Rightarrow> (RxPanic, r))
      else if kind = RECORD_CLOSE then rx_close P body r
      else (RxContinue, r))"

text \<open>Dropping the consumed prefix once the cursor has passed the threshold.\<close>

definition rx_compact :: "AlphaReceiver \<Rightarrow> AlphaReceiver" where
  "rx_compact r =
     (if rx_offset r \<ge> RX_COMPACT_THRESHOLD then r\<lparr>rx_buf := drop (rx_offset r) (rx_buf r), rx_offset := 0\<rparr>
      else r)"

abbreviation rx_live :: "AlphaReceiver \<Rightarrow> bytes" where
  "rx_live r \<equiv> drop (rx_offset r) (rx_buf r)"

text \<open>What holds of the state after every step of a call holds after the call, however it returns.\<close>

lemma st_bind_inv:
  "Q (snd m) \<Longrightarrow> (\<And>a s. Q s \<Longrightarrow> Q (snd (f a s))) \<Longrightarrow> Q (snd (st_bind m f))"
  by (cases "(m, f)" rule: st_bind.cases) auto

definition same_buffer :: "AlphaReceiver \<Rightarrow> AlphaReceiver \<Rightarrow> bool" where
  "same_buffer r r' \<longleftrightarrow> rx_buf r' = rx_buf r \<and> rx_offset r' = rx_offset r"

lemma recv_ratchet_secret_buffer: "same_buffer r r1 \<Longrightarrow> same_buffer r (snd (recv_ratchet_secret P pt r1))"
  by (simp add: recv_ratchet_secret_def same_buffer_def Let_def split: option.split)

lemma apply_ratchet_buffer: "same_buffer r (snd (apply_ratchet P body r))"
proof -
  have inst: "same_buffer r (snd (st_bind (session_direction_keys P sec, r1) (\<lambda>keys r.
      (Ok (), r\<lparr>rx_keys := keys, rx_cipher := aead_key keys, rx_secret := sec, rx_epoch := e, rx_next_seqnum := 0\<rparr>))))"
    if "same_buffer r r1" for sec e r1
    by (rule st_bind_inv) (use that in \<open>simp_all add: same_buffer_def\<close>)
  have tail: "same_buffer r (snd (st_bind (recv_ratchet_secret P pt r1) (\<lambda>sec r. st_bind (session_direction_keys P sec, r) (\<lambda>keys r.
      (Ok (), r\<lparr>rx_keys := keys, rx_cipher := aead_key keys, rx_secret := sec, rx_epoch := e, rx_next_seqnum := 0\<rparr>)))))"
    if "same_buffer r r1" for pt e r1
    by (rule st_bind_inv [where Q = "same_buffer r"]) (rule recv_ratchet_secret_buffer [OF that], rule inst)
  show ?thesis
    unfolding apply_ratchet_def Let_def
    by (rule st_bind_inv [where Q = "same_buffer r"]) (simp_all add: tail same_buffer_def [of r r])
qed

lemma rx_dispatch_buffer: "same_buffer r (snd (rx_dispatch P um kind body r))"
proof -
  have "same_buffer r (snd (rx_data P body r))" "same_buffer r (snd (rx_cell P um body r))"
    "same_buffer r (snd (rx_close P body r))"
    by (auto simp: rx_data_def rx_cell_def rx_close_def same_buffer_def Let_def split: rust.split option.split)
  moreover have "same_buffer r (snd (case apply_ratchet P body r of
           (Ok _, r) \<Rightarrow> (RxContinue, r) | (Err e, r) \<Rightarrow> (RxErr e, r) | (Panic, r) \<Rightarrow> (RxPanic, r)))"
    using apply_ratchet_buffer [of r P body] by (auto split: prod.split rust.split)
  moreover have "same_buffer r r" by (simp add: same_buffer_def)
  ultimately show ?thesis unfolding rx_dispatch_def by simp
qed

section \<open>The receive loop\<close>

function recv_record_into ::
    "primitives \<Rightarrow> nat \<Rightarrow> bytes list \<Rightarrow> AlphaReceiver \<Rightarrow> (AlphaError, bytes option) rust \<times> bytes list \<times> AlphaReceiver" where
  "recv_record_into P usize_max reads r =
     (if rx_offset r > length (rx_buf r) then (Panic, reads, r)
      else
      (case decode_frame usize_max (rx_live r) of
        Ok (frame, consumed) \<Rightarrow>
          (let r = rx_compact (r\<lparr>rx_offset := rx_offset r + consumed\<rparr>) in
           (case rx_dispatch P usize_max (frame_kind frame) (frame_body frame) r of
              (RxContinue, r) \<Rightarrow> recv_record_into P usize_max reads r
            | (RxDeliver out, r) \<Rightarrow> (Ok (Some out), reads, r)
            | (RxClosed, r) \<Rightarrow> (Ok None, reads, r)
            | (RxErr e, r) \<Rightarrow> (Err e, reads, r)
            | (RxPanic, r) \<Rightarrow> (Panic, reads, r)))
      | Panic \<Rightarrow> (Panic, reads, r)
      | Err e \<Rightarrow>
          (case e of
             Short _ _ \<Rightarrow>
               (if length (rx_buf r) - rx_offset r \<ge> RX_BUF_HARD_CAP then (Err Closed, reads, r)
                else
                  let r = rx_compact r in
                  (case reads of
                     [] \<Rightarrow> (Ok None, [], r)
                   | chunk # rest \<Rightarrow>
                       if chunk = [] then (Ok None, rest, r)
                       else recv_record_into P usize_max rest (r\<lparr>rx_buf := rx_buf r @ chunk\<rparr>)))
           | _ \<Rightarrow> (Err (WireErr e), reads, r))))"
  by pat_completeness auto

lemma rx_compact_live: "rx_live (rx_compact r) = rx_live r"
  by (simp add: rx_compact_def)

lemma same_buffer_live: "same_buffer r r' \<Longrightarrow> rx_live r' = rx_live r"
  by (simp add: same_buffer_def)

termination recv_record_into
proof (relation "measures [\<lambda>(_, _, reads, _). length reads, \<lambda>(_, _, _, r). length (rx_live r)]")
  fix P :: primitives and um reads r x frame consumed r1 nx r2
  assume off: "\<not> length (rx_buf r) < rx_offset r"
    and dec: "decode_frame um (rx_live r) = Ok x" "(frame, consumed) = x"
    and r1: "r1 = rx_compact (r\<lparr>rx_offset := rx_offset r + consumed\<rparr>)"
    and out: "(nx, r2) = rx_dispatch P um (frame_kind frame) (frame_body frame) r1" "nx = RxContinue"
  have "rx_live r2 = rx_live r1"
    using rx_dispatch_buffer [of r1 P um "frame_kind frame" "frame_body frame"] out(1) [symmetric]
    by (intro same_buffer_live) simp
  then have "rx_live r2 = drop consumed (rx_live r)" by (simp add: r1 rx_compact_live add.commute)
  moreover obtain hdr where "2 \<le> length hdr" "take consumed (rx_live r) = hdr @ frame_body frame" "consumed \<le> length (rx_live r)"
    using decode_frame_Ok [of um "rx_live r" frame consumed] dec by auto
  moreover from this have "2 \<le> consumed"
    by (metis append_eq_append_conv_if length_append length_take min.absorb2 trans_le_add1)
  ultimately have "length (rx_live r2) < length (rx_live r)" by (simp only: length_drop)
  then show "((P, um, reads, r2), P, um, reads, r)
      \<in> measures [\<lambda>(_, _, reads, _). length reads, \<lambda>(_, _, _, r). length (rx_live r)]"
    by simp
qed auto

declare recv_record_into.simps [simp del]

end
