(* ===== verification/Wire_Auth.thy ===== *)
theory Wire_Auth
  imports Wire_Varint
begin

text \<open>
  The authentication extension and the inner-packet header (\<open>proteus-wire/src/lib.rs\<close>).  The
  decoder reads through a cursor (\<open>Cursor\<close>, buffer and position) whose every read is checked
  against the buffer; the encoder writes the same sixteen fields in order.  Fixed-size arrays
  are byte lists whose lengths \<open>auth_wf\<close> records.  The lemmas give both directions of the
  round trip: decoding an encoding returns the extension, and every buffer the decoder accepts
  is the encoding of what it returned, so that the layout is a bijection.
\<close>

section \<open>Model of the extension\<close>

datatype ProfileHint = Alpha | Beta | Gamma

definition profile_from_byte :: "u8 \<Rightarrow> (WireError, ProfileHint) rust" where
  "profile_from_byte b =
     (if b = PROFILE_HINT_GAMMA then Ok Gamma
      else if b = PROFILE_HINT_BETA then Ok Beta
      else if b = PROFILE_HINT_ALPHA then Ok Alpha
      else Err (BadProfileHint b))"

fun profile_to_byte :: "ProfileHint \<Rightarrow> u8" where
  "profile_to_byte Alpha = PROFILE_HINT_ALPHA"
| "profile_to_byte Beta = PROFILE_HINT_BETA"
| "profile_to_byte Gamma = PROFILE_HINT_GAMMA"

record AuthExtension =
  version :: u8
  profile_hint :: ProfileHint
  client_nonce :: bytes
  client_x25519_pub :: bytes
  client_mlkem768_ct :: bytes
  client_id :: bytes
  timestamp_unix_seconds :: u64
  cover_profile_id :: u16
  shape_seed :: u32
  anti_dos_difficulty :: u8
  anti_dos_solution :: bytes
  client_kex_sig :: bytes
  client_kex_sig_pq :: bytes
  auth_tag :: bytes

text \<open>The array lengths the Rust types enforce.\<close>

definition auth_wf :: "AuthExtension \<Rightarrow> bool" where
  "auth_wf a \<longleftrightarrow>
     length (client_nonce a) = CLIENT_NONCE_LEN
   \<and> length (client_x25519_pub a) = X25519_PUB_LEN
   \<and> length (client_mlkem768_ct a) = ML_KEM_768_CT_LEN
   \<and> length (client_id a) = CLIENT_ID_LEN
   \<and> length (anti_dos_solution a) = ANTI_DOS_SOLUTION_LEN
   \<and> length (client_kex_sig a) = ED25519_SIG_LEN
   \<and> length (client_kex_sig_pq a) = ML_DSA_65_SIG_TRUNCATED_LEN
   \<and> length (auth_tag a) = HMAC_TAG_LEN"

definition zeroize :: "bytes \<Rightarrow> bytes" where
  "zeroize bs = replicate (length bs) 0"

definition zeroize_secrets :: "AuthExtension \<Rightarrow> AuthExtension" where
  "zeroize_secrets a = a\<lparr>
     client_nonce := zeroize (client_nonce a),
     client_x25519_pub := zeroize (client_x25519_pub a),
     client_mlkem768_ct := zeroize (client_mlkem768_ct a),
     client_id := zeroize (client_id a),
     auth_tag := zeroize (auth_tag a)\<rparr>"

definition encode_payload :: "AuthExtension \<Rightarrow> bytes" where
  "encode_payload a =
     [version a] @ [profile_to_byte (profile_hint a)] @ [0, 0]
   @ client_nonce a
   @ client_x25519_pub a
   @ client_mlkem768_ct a
   @ client_id a
   @ be_bytes 8 (unat (timestamp_unix_seconds a))
   @ be_bytes 2 (unat (cover_profile_id a))
   @ be_bytes 4 (unat (shape_seed a))
   @ [anti_dos_difficulty a]
   @ anti_dos_solution a
   @ client_kex_sig a
   @ client_kex_sig_pq a
   @ auth_tag a"

definition encode_with_tls_header :: "AuthExtension \<Rightarrow> (WireError, bytes) rust" where
  "encode_with_tls_header a =
     (let payload = encode_payload a in
      if length payload < 2 ^ 16
      then Ok (be_bytes 2 (unat AUTH_EXT_TYPE) @ be_bytes 2 (length payload) @ payload)
      else Panic)"

definition auth_mac_input :: "AuthExtension \<Rightarrow> bytes" where
  "auth_mac_input a =
     (let full = encode_payload a; cut = length full - HMAC_TAG_LEN in take cut full)"

section \<open>Model of the cursor and the decoder\<close>

record Cursor =
  cur_buf :: bytes
  cur_pos :: nat

definition cursor_new :: "bytes \<Rightarrow> Cursor" where
  "cursor_new buf = \<lparr>cur_buf = buf, cur_pos = 0\<rparr>"

definition read_u8 :: "Cursor \<Rightarrow> (WireError, u8 \<times> Cursor) rust" where
  "read_u8 c =
     rust_bind (ok_or (index_get (cur_buf c) (cur_pos c)) (Short (cur_pos c + 1) (length (cur_buf c))))
       (\<lambda>v. Ok (v, c\<lparr>cur_pos := cur_pos c + 1\<rparr>))"

definition read_array :: "nat \<Rightarrow> Cursor \<Rightarrow> (WireError, bytes \<times> Cursor) rust" where
  "read_array n c =
     (let e = cur_pos c + n in
      rust_bind (ok_or (slice_get (cur_buf c) (cur_pos c) e) (Short e (length (cur_buf c))))
        (\<lambda>bs. Ok (bs, c\<lparr>cur_pos := e\<rparr>)))"

definition read_u16_be :: "Cursor \<Rightarrow> (WireError, u16 \<times> Cursor) rust" where
  "read_u16_be c =
     (let e = cur_pos c + 2 in
      rust_bind (ok_or (slice_get (cur_buf c) (cur_pos c) e) (Short e (length (cur_buf c))))
        (\<lambda>bs. Ok (word_of_nat (be_val bs), c\<lparr>cur_pos := e\<rparr>)))"

definition read_u32_be :: "Cursor \<Rightarrow> (WireError, u32 \<times> Cursor) rust" where
  "read_u32_be c =
     (let e = cur_pos c + 4 in
      rust_bind (ok_or (slice_get (cur_buf c) (cur_pos c) e) (Short e (length (cur_buf c))))
        (\<lambda>bs. Ok (word_of_nat (be_val bs), c\<lparr>cur_pos := e\<rparr>)))"

definition read_u64_be :: "Cursor \<Rightarrow> (WireError, u64 \<times> Cursor) rust" where
  "read_u64_be c =
     (let e = cur_pos c + 8 in
      rust_bind (ok_or (slice_get (cur_buf c) (cur_pos c) e) (Short e (length (cur_buf c))))
        (\<lambda>bs. Ok (word_of_nat (be_val bs), c\<lparr>cur_pos := e\<rparr>)))"

definition decode_payload :: "bytes \<Rightarrow> (WireError, AuthExtension) rust" where
  "decode_payload buf =
     (if length buf \<noteq> AUTH_EXT_LEN_V10 then Err (AuthExtLengthMismatch AUTH_EXT_LEN_V10 (length buf))
      else
        let cur = cursor_new buf in
        rust_bind (read_u8 cur) (\<lambda>(ver, cur).
        if ver \<noteq> PROTEUS_VERSION_V10 then Err (BadVersion ver) else
        rust_bind (read_u8 cur) (\<lambda>(ph, cur).
        rust_bind (profile_from_byte ph) (\<lambda>hint.
        rust_bind (read_u16_be cur) (\<lambda>(reserved, cur).
        if reserved \<noteq> 0 then Err (ReservedNonZero reserved) else
        rust_bind (read_array CLIENT_NONCE_LEN cur) (\<lambda>(nonce, cur).
        rust_bind (read_array X25519_PUB_LEN cur) (\<lambda>(xpub, cur).
        rust_bind (read_array ML_KEM_768_CT_LEN cur) (\<lambda>(ct, cur).
        rust_bind (read_array CLIENT_ID_LEN cur) (\<lambda>(cid, cur).
        rust_bind (read_u64_be cur) (\<lambda>(ts, cur).
        rust_bind (read_u16_be cur) (\<lambda>(cover, cur).
        rust_bind (read_u32_be cur) (\<lambda>(seed, cur).
        rust_bind (read_u8 cur) (\<lambda>(diff, cur).
        rust_bind (read_array ANTI_DOS_SOLUTION_LEN cur) (\<lambda>(sol, cur).
        rust_bind (read_array ED25519_SIG_LEN cur) (\<lambda>(sig, cur).
        rust_bind (read_array ML_DSA_65_SIG_TRUNCATED_LEN cur) (\<lambda>(sigpq, cur).
        rust_bind (read_array HMAC_TAG_LEN cur) (\<lambda>(tag, cur).
        Ok \<lparr>version = ver, profile_hint = hint, client_nonce = nonce, client_x25519_pub = xpub,
            client_mlkem768_ct = ct, client_id = cid, timestamp_unix_seconds = ts,
            cover_profile_id = cover, shape_seed = seed, anti_dos_difficulty = diff,
            anti_dos_solution = sol, client_kex_sig = sig, client_kex_sig_pq = sigpq,
            auth_tag = tag\<rparr>)))))))))))))))))"

section \<open>Model of the inner-packet header\<close>

record InnerHeader =
  ih_type :: u8
  ih_flags :: u8
  ih_epoch :: u32
  ih_seqnum :: u64

definition inner_header_new :: "u8 \<Rightarrow> u8 \<Rightarrow> u32 \<Rightarrow> u64 \<Rightarrow> (WireError, InnerHeader) rust" where
  "inner_header_new ty flags epoch seqnum =
     (if epoch \<ge> push_bit EPOCH_BITS 1 then Err (EpochOverflow epoch)
      else if seqnum > SEQNUM_MAX then Err (SeqnumOverflow seqnum)
      else Ok \<lparr>ih_type = ty, ih_flags = flags, ih_epoch = epoch, ih_seqnum = seqnum\<rparr>)"

definition inner_header_encode :: "InnerHeader \<Rightarrow> bytes" where
  "inner_header_encode h =
     (let combined = push_bit SEQNUM_BITS (ucast (ih_epoch h) :: u64) OR ih_seqnum h
      in [ih_type h, ih_flags h] @ be_bytes 8 (unat combined))"

definition inner_header_decode :: "bytes \<Rightarrow> (WireError, InnerHeader) rust" where
  "inner_header_decode buf =
     (if length buf < 10 then Err (Short 10 (length buf))
      else
        rust_bind (index buf 0) (\<lambda>ty.
        rust_bind (index buf 1) (\<lambda>flags.
        rust_bind (slice buf 2 10) (\<lambda>bs.
        let combined = word_of_nat (be_val bs) :: u64; hi = drop_bit SEQNUM_BITS combined in
        rust_bind (if unat hi < 2 ^ 32 then Ok (ucast hi :: u32) else Panic) (\<lambda>epoch.
        let seqnum = combined AND SEQNUM_MAX in
        inner_header_new ty flags epoch seqnum)))))"

section \<open>Cursor reads\<close>

text \<open>Every read inside the buffer succeeds and advances by its width; the rest follows by evaluation.\<close>

lemma read_u8_at: "p < length buf \<Longrightarrow>
    read_u8 \<lparr>cur_buf = buf, cur_pos = p\<rparr> = Ok (buf ! p, \<lparr>cur_buf = buf, cur_pos = p + 1\<rparr>)"
  by (simp add: read_u8_def index_get_def)

lemma read_array_at: "p + n \<le> length buf \<Longrightarrow>
    read_array n \<lparr>cur_buf = buf, cur_pos = p\<rparr> = Ok (take n (drop p buf), \<lparr>cur_buf = buf, cur_pos = p + n\<rparr>)"
  by (simp add: read_array_def slice_get_def Let_def)

lemma read_u16_at: "p + 2 \<le> length buf \<Longrightarrow>
    read_u16_be \<lparr>cur_buf = buf, cur_pos = p\<rparr>
      = Ok (word_of_nat (be_val (take 2 (drop p buf))), \<lparr>cur_buf = buf, cur_pos = p + 2\<rparr>)"
  by (simp add: read_u16_be_def slice_get_def Let_def)

lemma read_u32_at: "p + 4 \<le> length buf \<Longrightarrow>
    read_u32_be \<lparr>cur_buf = buf, cur_pos = p\<rparr>
      = Ok (word_of_nat (be_val (take 4 (drop p buf))), \<lparr>cur_buf = buf, cur_pos = p + 4\<rparr>)"
  by (simp add: read_u32_be_def slice_get_def Let_def)

lemma read_u64_at: "p + 8 \<le> length buf \<Longrightarrow>
    read_u64_be \<lparr>cur_buf = buf, cur_pos = p\<rparr>
      = Ok (word_of_nat (be_val (take 8 (drop p buf))), \<lparr>cur_buf = buf, cur_pos = p + 8\<rparr>)"
  by (simp add: read_u64_be_def slice_get_def Let_def)

lemmas cursor_reads = read_u8_at read_array_at read_u16_at read_u32_at read_u64_at

lemma decode_payload_eval:
  assumes "length buf = AUTH_EXT_LEN_V10"
  shows "decode_payload buf =
    (if buf ! 0 \<noteq> PROTEUS_VERSION_V10 then Err (BadVersion (buf ! 0))
     else rust_bind (profile_from_byte (buf ! 1)) (\<lambda>hint.
       let reserved = word_of_nat (be_val (take 2 (drop 2 buf))) :: u16 in
       if reserved \<noteq> 0 then Err (ReservedNonZero reserved)
       else Ok \<lparr>version = buf ! 0, profile_hint = hint,
         client_nonce = take 16 (drop 4 buf),
         client_x25519_pub = take 32 (drop 20 buf),
         client_mlkem768_ct = take 1088 (drop 52 buf),
         client_id = take 24 (drop 1140 buf),
         timestamp_unix_seconds = word_of_nat (be_val (take 8 (drop 1164 buf))),
         cover_profile_id = word_of_nat (be_val (take 2 (drop 1172 buf))),
         shape_seed = word_of_nat (be_val (take 4 (drop 1174 buf))),
         anti_dos_difficulty = buf ! 1178,
         anti_dos_solution = take 7 (drop 1179 buf),
         client_kex_sig = take 64 (drop 1186 buf),
         client_kex_sig_pq = take 96 (drop 1250 buf),
         auth_tag = take 32 (drop 1346 buf)\<rparr>))"
proof -
  have "length buf = 1378" using assms by (simp add: auth_ext_len_value)
  then show ?thesis
    by (cases "profile_from_byte (buf ! 1)")
      (simp_all add: decode_payload_def assms cursor_new_def cursor_reads auth_field_lens Let_def
        del: One_nat_def)
qed

section \<open>Round trip of the extension\<close>

lemma profile_roundtrip [simp]: "profile_from_byte (profile_to_byte h) = Ok h"
  by (cases h) (simp_all add: profile_from_byte_def PROFILE_HINT_GAMMA_def PROFILE_HINT_BETA_def
      PROFILE_HINT_ALPHA_def)

lemma profile_from_byte_Ok: "profile_from_byte b = Ok h \<Longrightarrow> profile_to_byte h = b"
  by (auto simp: profile_from_byte_def split: if_splits)

lemma profile_from_byte_not_Panic: "profile_from_byte b \<noteq> Panic"
  by (simp add: profile_from_byte_def)

lemma decode_payload_not_Panic: "decode_payload buf \<noteq> Panic"
proof (cases "length buf = AUTH_EXT_LEN_V10")
  case True
  then show ?thesis
    using profile_from_byte_not_Panic [of "buf ! 1"] by (cases "profile_from_byte (buf ! 1)") (auto simp: decode_payload_eval Let_def)
qed (simp add: decode_payload_def)

lemma length_encode_payload: "auth_wf a \<Longrightarrow> length (encode_payload a) = AUTH_EXT_LEN_V10"
  by (simp add: auth_wf_def encode_payload_def AUTH_EXT_LEN_V10_def TIMESTAMP_LEN_def
      COVER_PROFILE_ID_LEN_def SHAPE_SEED_LEN_def)

lemma decode_encode_payload:
  assumes wf: "auth_wf a" and ver: "version a = PROTEUS_VERSION_V10"
  shows "decode_payload (encode_payload a) = Ok a"
proof -
  note lens = wf [unfolded auth_wf_def auth_field_lens]
  have "be_val [0, 0] = 0" by (simp add: be_val_def)
  then show ?thesis
    unfolding decode_payload_eval [OF length_encode_payload [OF wf]]
    using lens ver
    by (cases a) (simp add: encode_payload_def nth_append numeral_2_eq_2 Let_def del: be_bytes.simps)
qed

lemma encode_decode_payload:
  assumes dec: "decode_payload buf = Ok a"
  shows "encode_payload a = buf" and "auth_wf a" and "version a = PROTEUS_VERSION_V10"
proof -
  have len: "length buf = AUTH_EXT_LEN_V10"
    using dec by (simp add: decode_payload_def split: if_splits)
  then have n: "length buf = 1378" by (simp add: auth_ext_len_value)
  note eval = dec [unfolded decode_payload_eval [OF len]]
  let ?res = "word_of_nat (be_val (take 2 (drop 2 buf))) :: u16"
  from eval obtain hint where hint: "profile_from_byte (buf ! 1) = Ok hint"
    and ver: "buf ! 0 = PROTEUS_VERSION_V10" and res: "?res = 0"
    by (auto simp: rust_bind_Ok_iff Let_def split: if_splits)
  note a = eval [simplified hint ver res Let_def, simplified, symmetric]
  show "version a = PROTEUS_VERSION_V10" by (simp add: a)
  show "auth_wf a" using n by (simp add: a auth_wf_def auth_field_lens)
  have words: "be_bytes 8 (unat (word_of_nat (be_val (take 8 (drop 1164 buf))) :: u64)) = take 8 (drop 1164 buf)"
    "be_bytes 2 (unat (word_of_nat (be_val (take 2 (drop 1172 buf))) :: u16)) = take 2 (drop 1172 buf)"
    "be_bytes 4 (unat (word_of_nat (be_val (take 4 (drop 1174 buf))) :: u32)) = take 4 (drop 1174 buf)"
    by (rule be_bytes_of_word; simp add: n)+
  have zero: "[0, 0] = take 2 (drop 2 buf)"
    using be_bytes_of_word [where ?'a = 16 and bs = "take 2 (drop 2 buf)" and n = 2] n res
    by (simp add: numeral_2_eq_2)
  have "encode_payload a = buf ! 0 # buf ! 1 # take 2 (drop 2 buf) @ take 16 (drop 4 buf)
      @ take 32 (drop 20 buf) @ take 1088 (drop 52 buf) @ take 24 (drop 1140 buf)
      @ take 8 (drop 1164 buf) @ take 2 (drop 1172 buf) @ take 4 (drop 1174 buf) @ buf ! 1178
      # take 7 (drop 1179 buf) @ take 64 (drop 1186 buf) @ take 96 (drop 1250 buf)
      @ drop 1346 buf"
    unfolding encode_payload_def zero
    using n by (simp add: a words ver profile_from_byte_Ok [OF hint] del: be_bytes.simps)
  also have "\<dots> = buf"
    using n by (simp add: take_drop_glue nth_drop_glue)
  finally show "encode_payload a = buf" .
qed

section \<open>Round trip of the inner header\<close>

definition inner_header_wf :: "InnerHeader \<Rightarrow> bool" where
  "inner_header_wf h \<longleftrightarrow> unat (ih_epoch h) < 2 ^ 24 \<and> unat (ih_seqnum h) < 2 ^ 40"

lemma inner_header_new_wf:
  "unat e < 2 ^ 24 \<Longrightarrow> unat s < 2 ^ 40 \<Longrightarrow>
     inner_header_new ty fl e s = Ok \<lparr>ih_type = ty, ih_flags = fl, ih_epoch = e, ih_seqnum = s\<rparr>"
  by (simp add: inner_header_new_def EPOCH_BITS_def seqnum_max_value word_le_nat_alt
      word_less_nat_alt)

lemma inner_header_new_Ok:
  assumes "inner_header_new ty fl e s = Ok h"
  shows "inner_header_wf h"
    and "h = \<lparr>ih_type = ty, ih_flags = fl, ih_epoch = e, ih_seqnum = s\<rparr>"
  using assms
  by (auto simp: inner_header_new_def inner_header_wf_def EPOCH_BITS_def seqnum_max_value
      word_le_nat_alt word_less_nat_alt split: if_splits)

lemma unat_combined:
  "inner_header_wf h \<Longrightarrow>
     unat (push_bit SEQNUM_BITS (ucast (ih_epoch h) :: u64) OR ih_seqnum h)
       = unat (ih_epoch h) * 2 ^ 40 + unat (ih_seqnum h)"
proof -
  assume wf: "inner_header_wf h"
  let ?e = "ucast (ih_epoch h) :: u64"
  have e: "unat ?e = unat (ih_epoch h)"
    using unat_u32_less [of "ih_epoch h"] by (simp add: unsigned_ucast_eq take_bit_nat_eq_self)
  have "unat (ih_seqnum h OR push_bit 40 ?e) = unat (ih_seqnum h) + unat ?e * 2 ^ 40"
    using wf unfolding inner_header_wf_def by (intro unat_or_high) (auto simp: e)
  then show ?thesis
    unfolding SEQNUM_BITS_def or.commute [of "push_bit 40 ?e"] by (simp only: e add.commute)
qed

lemma unat_and_seqnum_max: "unat (w AND SEQNUM_MAX) = unat w mod 2 ^ 40"
proof -
  have "SEQNUM_MAX = mask 40" by (simp add: seqnum_max_value mask_eq_exp_minus_1)
  then have "w AND SEQNUM_MAX = take_bit 40 w" by (simp add: take_bit_eq_mask)
  then have "unat (w AND SEQNUM_MAX) = take_bit 40 (unat w)"
    by (simp only: unsigned_take_bit_eq)
  then show ?thesis by (simp only: take_bit_eq_mod)
qed

lemma inner_header_decode_eval:
  assumes "10 \<le> length buf"
  shows "\<exists>e s. inner_header_decode buf = Ok \<lparr>ih_type = buf ! 0, ih_flags = buf ! 1, ih_epoch = e, ih_seqnum = s\<rparr>
      \<and> unat e = be_val (take 8 (drop 2 buf)) div 2 ^ 40 \<and> unat s = be_val (take 8 (drop 2 buf)) mod 2 ^ 40"
proof -
  let ?x = "be_val (take 8 (drop 2 buf))"
  let ?c = "word_of_nat ?x :: u64"
  have "?x < 2 ^ 64" using be_val_less [of "take 8 (drop 2 buf)"] assms by simp
  then have c: "unat ?c = ?x" by (simp add: unat_of_nat)
  have hi: "unat (drop_bit SEQNUM_BITS ?c) = ?x div 2 ^ 40"
    by (simp only: unat_drop_bit c SEQNUM_BITS_def)
  have hi24: "?x div 2 ^ 40 < 2 ^ 24"
    using \<open>?x < 2 ^ 64\<close> by (simp add: less_mult_imp_div_less)
  define e where "e = (ucast (drop_bit SEQNUM_BITS ?c) :: u32)"
  define s where "s = ?c AND SEQNUM_MAX"
  have e: "unat e = ?x div 2 ^ 40"
    unfolding e_def using hi hi24 by (simp add: unsigned_ucast_eq take_bit_nat_eq_self)
  have s: "unat s = ?x mod 2 ^ 40" unfolding s_def by (simp only: unat_and_seqnum_max c)
  have "inner_header_decode buf = inner_header_new (buf ! 0) (buf ! 1) e s"
  proof -
    have i: "index buf 0 = Ok (buf ! 0)" "index buf 1 = Ok (buf ! 1)"
      using assms by (intro index_Ok; linarith)+
    have sl: "slice buf 2 10 = Ok (take 8 (drop 2 buf))"
      using assms by (simp add: slice_def slice_get_def)
    have small: "unat (drop_bit SEQNUM_BITS ?c) < 2 ^ 32" 
      unfolding hi by (rule order_less_le_trans [OF hi24]) simp
    have "\<not> length buf < 10" using assms by simp
    then show ?thesis
      unfolding e_def s_def inner_header_decode_def i sl rust_bind.simps Let_def if_P [OF small]
      by (rule if_not_P)
  qed
  then show ?thesis using e s hi24 by (auto simp: inner_header_new_wf)
qed

lemma inner_header_decode_encode:
  assumes wf: "inner_header_wf h"
  shows "inner_header_decode (inner_header_encode h @ rest) = Ok h"
proof -
  let ?x = "unat (ih_epoch h) * 2 ^ 40 + unat (ih_seqnum h)"
  have x: "?x < 2 ^ 64" using wf by (simp add: inner_header_wf_def)
  have enc: "inner_header_encode h @ rest = [ih_type h, ih_flags h] @ be_bytes 8 ?x @ rest"
    by (simp add: inner_header_encode_def unat_combined [OF wf] Let_def del: be_bytes.simps)
  have bv: "be_val (take 8 (drop 2 (inner_header_encode h @ rest))) = ?x"
    using x by (simp add: enc del: be_bytes.simps)
  obtain e s where dec: "inner_header_decode (inner_header_encode h @ rest)
      = Ok \<lparr>ih_type = ih_type h, ih_flags = ih_flags h, ih_epoch = e, ih_seqnum = s\<rparr>"
    and e: "unat e = ?x div 2 ^ 40" and s: "unat s = ?x mod 2 ^ 40"
    using inner_header_decode_eval [of "inner_header_encode h @ rest"] bv
    by (simp add: enc del: be_bytes.simps) blast
  have "unat e = unat (ih_epoch h)" and "unat s = unat (ih_seqnum h)"
    using e s wf by (auto simp: inner_header_wf_def)
  then have "e = ih_epoch h" and "s = ih_seqnum h"
    by (simp_all add: word_unat_eq_iff)
  with dec show ?thesis by simp
qed

lemma inner_header_encode_decode:
  assumes dec: "inner_header_decode buf = Ok h"
  shows "inner_header_encode h = take 10 buf" and "inner_header_wf h"
proof -
  have len: "10 \<le> length buf" using dec by (simp add: inner_header_decode_def split: if_splits)
  let ?x = "be_val (take 8 (drop 2 buf))"
  obtain e s where h: "h = \<lparr>ih_type = buf ! 0, ih_flags = buf ! 1, ih_epoch = e, ih_seqnum = s\<rparr>"
    and e: "unat e = ?x div 2 ^ 40" and s: "unat s = ?x mod 2 ^ 40"
    using inner_header_decode_eval [OF len] dec by auto
  have "?x < 2 ^ 64" using be_val_less [of "take 8 (drop 2 buf)"] len by simp
  then show wf: "inner_header_wf h"
    using e s by (simp add: h inner_header_wf_def less_mult_imp_div_less)
  have "unat e * 2 ^ 40 + unat s = ?x" by (simp only: e s div_mult_mod_eq)
  then have "inner_header_encode h = [buf ! 0, buf ! 1] @ be_bytes 8 ?x"
    using unat_combined [OF wf] by (simp add: inner_header_encode_def h Let_def del: be_bytes.simps)
  also have "\<dots> = buf ! 0 # buf ! 1 # take 8 (drop 2 buf)"
    using len by (simp add: be_bytes_be_val del: be_bytes.simps)
  also have "\<dots> = take 10 buf"
  proof -
    obtain a b tl where "buf = a # b # tl"
      using len by (cases buf; cases "tl buf") auto
    then show ?thesis by simp
  qed
  finally show "inner_header_encode h = take 10 buf" .
qed

section \<open>Properties\<close>

lemma inner_header_decode_short: "length buf < 10 \<Longrightarrow> inner_header_decode buf = Err (Short 10 (length buf))"
  by (simp add: inner_header_decode_def)

lemma reserved_zero_iff:
  "length buf = 1378 \<Longrightarrow>
     (word_of_nat (be_val (take 2 (drop 2 buf))) :: u16) = 0 \<longleftrightarrow> take 2 (drop 2 buf) = [0, 0]"
  using be_bytes_of_word [where ?'a = 16 and bs = "take 2 (drop 2 buf)" and n = 2]
  by (auto simp: numeral_2_eq_2 be_val_def)

lemma encode_payload_split:
  assumes "auth_wf a"
  shows "encode_payload a = auth_mac_input a @ auth_tag a" and "length (auth_mac_input a) = 1346"
    and "auth_mac_input (a\<lparr>auth_tag := t\<rparr>) = auth_mac_input a \<or> length t \<noteq> HMAC_TAG_LEN"
  using assms
  by (auto simp: auth_mac_input_def Let_def encode_payload_def auth_wf_def auth_field_lens
      simp del: be_bytes.simps)

text \<open>The rules of the layout in the order in which the decoder applies them.\<close>

definition auth_violation :: "bytes \<Rightarrow> WireError option" where
  "auth_violation buf =
     (if length buf \<noteq> 1378 then Some (AuthExtLengthMismatch 1378 (length buf))
      else if buf ! 0 \<noteq> PROTEUS_VERSION_V10 then Some (BadVersion (buf ! 0))
      else if buf ! 1 \<notin> {PROFILE_HINT_ALPHA, PROFILE_HINT_BETA, PROFILE_HINT_GAMMA}
        then Some (BadProfileHint (buf ! 1))
      else if take 2 (drop 2 buf) \<noteq> [0, 0]
        then Some (ReservedNonZero (word_of_nat (be_val (take 2 (drop 2 buf)))))
      else None)"

lemma length_inner_header_encode [simp]: "length (inner_header_encode h) = 10"
  by (simp add: inner_header_encode_def Let_def del: be_bytes.simps)

text \<open>
  The authentication extension is laid out as a bijection: a buffer decodes to an extension
  exactly when it is the encoding of a well-formed extension of version 1.0, so nothing is lost
  on encoding, nothing but canonical encodings is accepted, and every encoding has the 1378
  bytes the protocol fixes.
\<close>

theorem auth_extension_bijection:
  "decode_payload buf = Ok a \<longleftrightarrow>
     auth_wf a \<and> version a = PROTEUS_VERSION_V10 \<and> encode_payload a = buf \<and> length buf = 1378"
proof
  assume "decode_payload buf = Ok a"
  note enc = encode_decode_payload [OF this]
  moreover have "length buf = 1378"
    using length_encode_payload [OF enc(2)] enc(1) auth_ext_len_value by simp
  ultimately show "auth_wf a \<and> version a = PROTEUS_VERSION_V10 \<and> encode_payload a = buf \<and> length buf = 1378"
    by simp
qed (auto simp: decode_encode_payload)

text \<open>
  The extension decoder is total and reports the first violated rule in the order of the
  layout: a wrong length before anything else, then the version byte, then the profile hint, then
  the reserved field; with these four satisfied it succeeds.  It never panics.
\<close>

theorem decode_payload_errors:
  "case auth_violation buf of
     Some e \<Rightarrow> decode_payload buf = Err e
   | None \<Rightarrow> \<exists>a. decode_payload buf = Ok a"
proof (cases "length buf = 1378")
  case True
  then have len: "length buf = AUTH_EXT_LEN_V10" by (simp add: auth_ext_len_value)
  show ?thesis
    using True reserved_zero_iff [of buf]
    by (auto simp: auth_violation_def decode_payload_eval [OF len] profile_from_byte_def Let_def)
qed (simp add: auth_violation_def decode_payload_def auth_ext_len_value)

text \<open>
  What the authentication tag covers: the MAC input is the encoding without the trailing
  tag, 1346 bytes that do not depend on the tag, and two well-formed extensions with the same MAC
  input agree in every field but the tag.
\<close>

theorem auth_mac_input_binds:
  assumes "auth_wf a" and "auth_wf b"
    and "version a = PROTEUS_VERSION_V10" and "version b = PROTEUS_VERSION_V10"
  shows "encode_payload a = auth_mac_input a @ auth_tag a \<and> length (auth_mac_input a) = 1346
    \<and> (auth_mac_input a = auth_mac_input b \<longleftrightarrow> a\<lparr>auth_tag := auth_tag b\<rparr> = b)"
proof -
  let ?a = "a\<lparr>auth_tag := auth_tag b\<rparr>"
  have wf: "auth_wf ?a" and t: "length (auth_tag b) = HMAC_TAG_LEN"
    using assms(1,2) by (simp_all add: auth_wf_def)
  have mac: "auth_mac_input ?a = auth_mac_input a"
    using encode_payload_split(3) [OF assms(1), of "auth_tag b"] t by simp
  have "auth_mac_input a = auth_mac_input b \<longleftrightarrow> encode_payload ?a = encode_payload b"
    by (simp add: encode_payload_split(1) [OF wf] encode_payload_split(1) [OF assms(2)] mac)
  also have "\<dots> \<longleftrightarrow> ?a = b"
    using decode_encode_payload [OF wf] decode_encode_payload [OF assms(2)] assms(3,4) by auto
  finally show ?thesis using encode_payload_split(1,2) [OF assms(1)] by simp
qed

definition sample_auth :: AuthExtension where
  "sample_auth = \<lparr>version = PROTEUS_VERSION_V10, profile_hint = Alpha,
     client_nonce = replicate CLIENT_NONCE_LEN 1, client_x25519_pub = replicate X25519_PUB_LEN 2,
     client_mlkem768_ct = replicate ML_KEM_768_CT_LEN 3, client_id = replicate CLIENT_ID_LEN 4,
     timestamp_unix_seconds = 1700000000, cover_profile_id = 7, shape_seed = 9,
     anti_dos_difficulty = 0, anti_dos_solution = replicate ANTI_DOS_SOLUTION_LEN 0,
     client_kex_sig = replicate ED25519_SIG_LEN 5,
     client_kex_sig_pq = replicate ML_DSA_65_SIG_TRUNCATED_LEN 6,
     auth_tag = replicate HMAC_TAG_LEN 7\<rparr>"

lemma sample_auth_wf: "auth_wf sample_auth" "version sample_auth = PROTEUS_VERSION_V10"
  by (simp_all add: sample_auth_def auth_wf_def)

theorem auth_mac_input_binds_witness:
  "length (auth_mac_input sample_auth) = 1346
   \<and> auth_mac_input sample_auth \<noteq> auth_mac_input (sample_auth\<lparr>shape_seed := 8\<rparr>)"
proof -
  let ?b = "sample_auth\<lparr>shape_seed := 8\<rparr>"
  have "auth_wf ?b" "version ?b = PROTEUS_VERSION_V10"
    by (simp_all add: sample_auth_def auth_wf_def)
  moreover have "sample_auth\<lparr>auth_tag := auth_tag ?b\<rparr> \<noteq> ?b"
    by (simp add: sample_auth_def)
  ultimately show ?thesis
    using auth_mac_input_binds [OF sample_auth_wf(1) _ sample_auth_wf(2)] by blast
qed

text \<open>
  The inner-packet header: a header \<open>new\<close> accepts (epoch below \<open>2^24\<close>, sequence number below
  \<open>2^40\<close>) occupies ten bytes and decodes to itself whatever follows; the decoder never panics,
  fails only on fewer than ten bytes, and what it returns encodes to the ten bytes it read.
\<close>

theorem inner_header_codec:
  "(inner_header_new ty fl e s = Ok h \<longrightarrow> inner_header_decode (inner_header_encode h @ rest) = Ok h)
   \<and> (inner_header_decode buf = Err err \<longleftrightarrow> length buf < 10 \<and> err = Short 10 (length buf))
   \<and> inner_header_decode buf \<noteq> Panic
   \<and> (inner_header_decode buf = Ok g \<longrightarrow>
        inner_header_encode g = take 10 buf \<and> unat (ih_epoch g) < 2 ^ 24 \<and> unat (ih_seqnum g) < 2 ^ 40)"
proof -
  have "inner_header_decode buf = Err err \<longleftrightarrow> length buf < 10 \<and> err = Short 10 (length buf)"
    and "inner_header_decode buf \<noteq> Panic"
    using inner_header_decode_eval [of buf] inner_header_decode_short [of buf]
    by (cases "length buf < 10"; fastforce)+
  moreover have "inner_header_new ty fl e s = Ok h \<Longrightarrow> inner_header_decode (inner_header_encode h @ rest) = Ok h"
    using inner_header_new_Ok(1) inner_header_decode_encode by blast
  ultimately show ?thesis
    using inner_header_encode_decode [of buf g] by (auto simp: inner_header_wf_def)
qed

theorem inner_header_codec_witness:
  "inner_header_new 1 0 5 7 = Ok \<lparr>ih_type = 1, ih_flags = 0, ih_epoch = 5, ih_seqnum = 7\<rparr>
   \<and> inner_header_decode (inner_header_encode \<lparr>ih_type = 1, ih_flags = 0, ih_epoch = 5, ih_seqnum = 7\<rparr> @ [9])
     = Ok \<lparr>ih_type = 1, ih_flags = 0, ih_epoch = 5, ih_seqnum = 7\<rparr>"
proof -
  have "inner_header_new 1 0 5 7 = Ok \<lparr>ih_type = 1, ih_flags = 0, ih_epoch = 5, ih_seqnum = 7\<rparr>"
    by (simp add: inner_header_new_wf)
  then show ?thesis using inner_header_codec by blast
qed

end
