(* ===== verification/Handshake_State.thy ===== *)
theory Handshake_State
  imports Proteus_Prelude
begin

text \<open>
  The handshake state machine of the server (\<open>proteus-handshake/src/state.rs\<close>): fifteen states,
  twenty-two events, and the transition function \<open>step\<close>, whose undefined entries are the error
  \<open>Illegal\<close>.  The reachable states carry the trace of events that led to them
  (\<open>hs_trace\<close>); rule induction over it shows what must have happened before data can flow,
  that a connection handed to the cover site never comes back, and that exactly the terminal
  states are stuck.
\<close>

section \<open>Model\<close>

datatype HsState =
    Init | AuthParsed | AuthVerified | DecapsDone | SecretsDerived | ServerHelloSent
  | WaitClientFinished | Connected | Ratcheting | MultipathProbing | ShapeTransitioning
  | Closing | Fallback | FallbackForwarding | FatalClose

datatype HsEvent =
    RecvClientHelloWithAuthExt | AuthExtMalformed | AuthTagOk | AuthTagBad | DecapsOk | DecapsFail
  | SecretsReady | ServerSendDone | RecvClientFinishedOk | RecvClientFinishedBad | SendKeyUpdate
  | RecvKeyUpdate | KeyUpdateConfirmed | NewPathInitiated | PathChallengeAnswered
  | ShapeTickStarted | ShapeTickComplete | RecvClose | IdleTimeout | AeadFailureInData
  | CoverForwardOpened | CoverConnectionClosed

datatype TransitionError = Illegal HsState HsEvent

definition hs_step :: "HsState \<Rightarrow> HsEvent \<Rightarrow> (TransitionError, HsState) rust" where
  "hs_step s e =
     (case s of
        Init \<Rightarrow>
          (case e of RecvClientHelloWithAuthExt \<Rightarrow> Ok AuthParsed | AuthExtMalformed \<Rightarrow> Ok Fallback
           | _ \<Rightarrow> Err (Illegal s e))
      | AuthParsed \<Rightarrow>
          (case e of AuthTagOk \<Rightarrow> Ok AuthVerified | AuthTagBad \<Rightarrow> Ok Fallback | _ \<Rightarrow> Err (Illegal s e))
      | AuthVerified \<Rightarrow>
          (case e of DecapsOk \<Rightarrow> Ok DecapsDone | DecapsFail \<Rightarrow> Ok Fallback | _ \<Rightarrow> Err (Illegal s e))
      | DecapsDone \<Rightarrow> (case e of SecretsReady \<Rightarrow> Ok SecretsDerived | _ \<Rightarrow> Err (Illegal s e))
      | SecretsDerived \<Rightarrow> (case e of ServerSendDone \<Rightarrow> Ok ServerHelloSent | _ \<Rightarrow> Err (Illegal s e))
      | ServerHelloSent \<Rightarrow> Ok WaitClientFinished
      | WaitClientFinished \<Rightarrow>
          (case e of RecvClientFinishedOk \<Rightarrow> Ok Connected | RecvClientFinishedBad \<Rightarrow> Ok FatalClose
           | _ \<Rightarrow> Err (Illegal s e))
      | Connected \<Rightarrow>
          (case e of SendKeyUpdate \<Rightarrow> Ok Ratcheting | RecvKeyUpdate \<Rightarrow> Ok Ratcheting
           | NewPathInitiated \<Rightarrow> Ok MultipathProbing | ShapeTickStarted \<Rightarrow> Ok ShapeTransitioning
           | RecvClose \<Rightarrow> Ok Closing | IdleTimeout \<Rightarrow> Ok Closing | AeadFailureInData \<Rightarrow> Ok Connected
           | _ \<Rightarrow> Err (Illegal s e))
      | Ratcheting \<Rightarrow> (case e of KeyUpdateConfirmed \<Rightarrow> Ok Connected | _ \<Rightarrow> Err (Illegal s e))
      | MultipathProbing \<Rightarrow> (case e of PathChallengeAnswered \<Rightarrow> Ok Connected | _ \<Rightarrow> Err (Illegal s e))
      | ShapeTransitioning \<Rightarrow> (case e of ShapeTickComplete \<Rightarrow> Ok Connected | _ \<Rightarrow> Err (Illegal s e))
      | Fallback \<Rightarrow> (case e of CoverForwardOpened \<Rightarrow> Ok FallbackForwarding | _ \<Rightarrow> Err (Illegal s e))
      | FallbackForwarding \<Rightarrow> (case e of CoverConnectionClosed \<Rightarrow> Ok Closing | _ \<Rightarrow> Err (Illegal s e))
      | Closing \<Rightarrow> Err (Illegal s e)
      | FatalClose \<Rightarrow> Err (Illegal s e))"

fun is_terminal :: "HsState \<Rightarrow> bool" where
  "is_terminal Closing = True"
| "is_terminal FatalClose = True"
| "is_terminal _ = False"

text \<open>Feeding a list of events; the first illegal one stops the run.\<close>

fun hs_run :: "HsState \<Rightarrow> HsEvent list \<Rightarrow> (TransitionError, HsState) rust" where
  "hs_run s [] = Ok s"
| "hs_run s (e # es) = rust_bind (hs_step s e) (\<lambda>s'. hs_run s' es)"

text \<open>States reachable from \<open>Init\<close>, with the trace of events, latest last.\<close>

inductive hs_trace :: "HsEvent list \<Rightarrow> HsState \<Rightarrow> bool" where
  start: "hs_trace [] Init"
| event: "hs_trace tr s \<Longrightarrow> hs_step s e = Ok s' \<Longrightarrow> hs_trace (tr @ [e]) s'"

inductive_cases hs_traceE: "hs_trace tr s"

section \<open>Lemmas\<close>

lemma hs_run_append: "hs_run s (xs @ ys) = rust_bind (hs_run s xs) (\<lambda>s'. hs_run s' ys)"
proof (induction xs arbitrary: s)
  case (Cons x xs)
  then show ?case by (cases "hs_step s x") simp_all
qed simp

lemma hs_trace_iff_run: "hs_trace tr s \<longleftrightarrow> hs_run Init tr = Ok s"
proof
  show "hs_trace tr s \<Longrightarrow> hs_run Init tr = Ok s"
    by (induction rule: hs_trace.induct) (simp_all add: hs_run_append)
next
  show "hs_run Init tr = Ok s \<Longrightarrow> hs_trace tr s"
  proof (induction tr arbitrary: s rule: rev_induct)
    case (snoc e tr)
    then obtain s0 where "hs_run Init tr = Ok s0" "hs_step s0 e = Ok s"
      by (auto simp: hs_run_append rust_bind_Ok_iff)
    with snoc.IH show ?case by (blast intro: hs_trace.event)
  qed (auto intro: hs_trace.start)
qed

lemma hs_step_not_Panic: "hs_step s e \<noteq> Panic"
  by (simp add: hs_step_def split: HsState.split HsEvent.split)

text \<open>The events a server has seen when it first sends application data.\<close>

definition hs_prefix :: "HsEvent list" where
  "hs_prefix = [RecvClientHelloWithAuthExt, AuthTagOk, DecapsOk, SecretsReady, ServerSendDone]"

definition data_state :: "HsState \<Rightarrow> bool" where
  "data_state s \<longleftrightarrow> s \<in> {Connected, Ratcheting, MultipathProbing, ShapeTransitioning}"

definition cover_state :: "HsState \<Rightarrow> bool" where
  "cover_state s \<longleftrightarrow> s \<in> {Fallback, FallbackForwarding, Closing}"

text \<open>What the trace looks like in each state: the invariant of the machine.\<close>

definition hs_shape :: "HsEvent list \<Rightarrow> HsState \<Rightarrow> bool" where
  "hs_shape tr s \<longleftrightarrow>
     (case s of
        Init \<Rightarrow> tr = []
      | AuthParsed \<Rightarrow> tr = take 1 hs_prefix
      | AuthVerified \<Rightarrow> tr = take 2 hs_prefix
      | DecapsDone \<Rightarrow> tr = take 3 hs_prefix
      | SecretsDerived \<Rightarrow> tr = take 4 hs_prefix
      | ServerHelloSent \<Rightarrow> tr = hs_prefix
      | WaitClientFinished \<Rightarrow> (\<exists>x. tr = hs_prefix @ [x])
      | FatalClose \<Rightarrow> (\<exists>x. tr = hs_prefix @ [x, RecvClientFinishedBad])
      | Fallback \<Rightarrow> AuthTagBad \<in> set tr \<or> AuthExtMalformed \<in> set tr \<or> DecapsFail \<in> set tr
      | FallbackForwarding \<Rightarrow> AuthTagBad \<in> set tr \<or> AuthExtMalformed \<in> set tr \<or> DecapsFail \<in> set tr
      | Closing \<Rightarrow> True
      | _ \<Rightarrow> (\<exists>x rest. tr = hs_prefix @ [x, RecvClientFinishedOk] @ rest))"

lemma hs_trace_shape: "hs_trace tr s \<Longrightarrow> hs_shape tr s"
proof (induction rule: hs_trace.induct)
  case (event tr s e s')
  from event.hyps(2) event.IH show ?case
    unfolding hs_step_def
    by (simp split: HsState.splits; simp split: HsEvent.splits;
        auto simp: hs_shape_def hs_prefix_def)
qed (simp add: hs_shape_def)

lemma cover_step: "cover_state s \<Longrightarrow> hs_step s e = Ok s' \<Longrightarrow> cover_state s'"
  by (auto simp: cover_state_def hs_step_def split: HsEvent.splits)

lemma cover_run: "cover_state s \<Longrightarrow> hs_run s es = Ok s' \<Longrightarrow> cover_state s'"
  by (induction es arbitrary: s) (auto simp: rust_bind_Ok_iff dest: cover_step)

lemma terminal_iff_stuck: "is_terminal s \<longleftrightarrow> (\<forall>e. hs_step s e = Err (Illegal s e))"
proof
  assume "\<forall>e. hs_step s e = Err (Illegal s e)"
  then have "hs_step s RecvClientHelloWithAuthExt = Err (Illegal s RecvClientHelloWithAuthExt)"
    "hs_step s AuthTagOk = Err (Illegal s AuthTagOk)"
    "hs_step s DecapsOk = Err (Illegal s DecapsOk)"
    "hs_step s SecretsReady = Err (Illegal s SecretsReady)"
    "hs_step s ServerSendDone = Err (Illegal s ServerSendDone)"
    "hs_step s RecvClientFinishedOk = Err (Illegal s RecvClientFinishedOk)"
    "hs_step s RecvClose = Err (Illegal s RecvClose)"
    "hs_step s KeyUpdateConfirmed = Err (Illegal s KeyUpdateConfirmed)"
    "hs_step s PathChallengeAnswered = Err (Illegal s PathChallengeAnswered)"
    "hs_step s ShapeTickComplete = Err (Illegal s ShapeTickComplete)"
    "hs_step s CoverForwardOpened = Err (Illegal s CoverForwardOpened)"
    "hs_step s CoverConnectionClosed = Err (Illegal s CoverConnectionClosed)"
    by blast+
  then show "is_terminal s" by (cases s) (simp_all add: hs_step_def)
qed (cases s; simp add: hs_step_def)

text \<open>A shortest run from each state to a terminal one.\<close>

fun hs_way_out :: "HsState \<Rightarrow> HsEvent list" where
  "hs_way_out Init = [AuthExtMalformed, CoverForwardOpened, CoverConnectionClosed]"
| "hs_way_out AuthParsed = [AuthTagBad, CoverForwardOpened, CoverConnectionClosed]"
| "hs_way_out AuthVerified = [DecapsFail, CoverForwardOpened, CoverConnectionClosed]"
| "hs_way_out DecapsDone = [SecretsReady, ServerSendDone, IdleTimeout, RecvClientFinishedBad]"
| "hs_way_out SecretsDerived = [ServerSendDone, IdleTimeout, RecvClientFinishedBad]"
| "hs_way_out ServerHelloSent = [IdleTimeout, RecvClientFinishedBad]"
| "hs_way_out WaitClientFinished = [RecvClientFinishedBad]"
| "hs_way_out Connected = [IdleTimeout]"
| "hs_way_out Ratcheting = [KeyUpdateConfirmed, IdleTimeout]"
| "hs_way_out MultipathProbing = [PathChallengeAnswered, IdleTimeout]"
| "hs_way_out ShapeTransitioning = [ShapeTickComplete, IdleTimeout]"
| "hs_way_out Fallback = [CoverForwardOpened, CoverConnectionClosed]"
| "hs_way_out FallbackForwarding = [CoverConnectionClosed]"
| "hs_way_out _ = []"

lemma hs_way_out_terminal: "\<exists>s'. hs_run s (hs_way_out s) = Ok s' \<and> is_terminal s'"
  by (cases s) (simp_all add: hs_step_def)

section \<open>Properties\<close>

text \<open>
  C32. No data before authentication.  A run of the machine that stands in a state where
  application data flows (\<open>Connected\<close> and the three states it alternates with) began with the
  parsed extension, the verified tag, the decapsulation, the derived secrets and the sent server
  flight, in this order and with nothing between, then the implicit advance on an arbitrary event,
  then a valid client \<open>Finished\<close>; conversely these seven events lead to \<open>Connected\<close>.
\<close>

theorem hs_data_only_after_auth:
  "(hs_run Init tr = Ok s \<and> data_state s \<longrightarrow>
      (\<exists>x rest. tr = [RecvClientHelloWithAuthExt, AuthTagOk, DecapsOk, SecretsReady, ServerSendDone, x,
         RecvClientFinishedOk] @ rest))
   \<and> hs_run Init [RecvClientHelloWithAuthExt, AuthTagOk, DecapsOk, SecretsReady, ServerSendDone, y,
       RecvClientFinishedOk] = Ok Connected"
proof -
  have "\<exists>x rest. tr = [RecvClientHelloWithAuthExt, AuthTagOk, DecapsOk, SecretsReady, ServerSendDone, x,
         RecvClientFinishedOk] @ rest" if "hs_run Init tr = Ok s" "data_state s"
    using hs_trace_shape [of tr s] that
    by (auto simp: hs_trace_iff_run data_state_def hs_shape_def hs_prefix_def)
  then show ?thesis by (auto simp: hs_step_def)
qed

theorem hs_data_only_after_auth_witness:
  "hs_run Init [RecvClientHelloWithAuthExt, AuthTagOk, DecapsOk, SecretsReady, ServerSendDone, IdleTimeout,
     RecvClientFinishedOk, SendKeyUpdate] = Ok Ratcheting \<and> data_state Ratcheting
   \<and> (\<exists>x rest. [RecvClientHelloWithAuthExt, AuthTagOk, DecapsOk, SecretsReady, ServerSendDone, IdleTimeout,
     RecvClientFinishedOk, SendKeyUpdate] = [RecvClientHelloWithAuthExt, AuthTagOk, DecapsOk,
     SecretsReady, ServerSendDone, x, RecvClientFinishedOk] @ rest)"
proof -
  let ?tr = "[RecvClientHelloWithAuthExt, AuthTagOk, DecapsOk, SecretsReady, ServerSendDone, IdleTimeout,
     RecvClientFinishedOk, SendKeyUpdate]"
  have "hs_run Init ?tr = Ok Ratcheting" "data_state Ratcheting"
    by (simp_all add: hs_step_def data_state_def)
  then show ?thesis using hs_data_only_after_auth [of ?tr Ratcheting] by blast
qed

text \<open>
  Fallback is one-way and runs end.  A failed parse, tag or decapsulation always leads to
  \<open>Fallback\<close>; from the cover states no event sequence reaches a state outside them, in particular
  none where application data flows; the terminal states are exactly the states every event is
  illegal in; from every state some sequence of legal events ends in a terminal one; and the
  machine never panics.
\<close>

theorem hs_fallback_isolated:
  "hs_step Init AuthExtMalformed = Ok Fallback \<and> hs_step AuthParsed AuthTagBad = Ok Fallback
   \<and> hs_step AuthVerified DecapsFail = Ok Fallback
   \<and> (cover_state s \<and> hs_run s es = Ok s' \<longrightarrow> cover_state s' \<and> \<not> data_state s')
   \<and> (is_terminal t \<longleftrightarrow> (\<forall>e. hs_step t e = Err (Illegal t e)))
   \<and> (\<exists>out t'. hs_run t out = Ok t' \<and> is_terminal t')
   \<and> hs_step t e \<noteq> Panic"
proof -
  have "cover_state s \<and> hs_run s es = Ok s' \<Longrightarrow> cover_state s' \<and> \<not> data_state s'"
    using cover_run [of s es s'] by (auto simp: cover_state_def data_state_def)
  moreover have "hs_step Init AuthExtMalformed = Ok Fallback \<and> hs_step AuthParsed AuthTagBad = Ok Fallback
     \<and> hs_step AuthVerified DecapsFail = Ok Fallback"
    by (simp add: hs_step_def)
  ultimately show ?thesis
    using terminal_iff_stuck [of t] hs_way_out_terminal [of t] hs_step_not_Panic [of t e] by blast
qed

theorem hs_fallback_isolated_witness:
  "cover_state Fallback \<and> hs_run Fallback [CoverForwardOpened, CoverConnectionClosed] = Ok Closing
   \<and> cover_state Closing \<and> \<not> data_state Closing"
proof -
  have "cover_state Fallback" "hs_run Fallback [CoverForwardOpened, CoverConnectionClosed] = Ok Closing"
    by (simp_all add: hs_step_def cover_state_def)
  then show ?thesis
    using hs_fallback_isolated [of Fallback "[CoverForwardOpened, CoverConnectionClosed]" Closing] by blast
qed

end
