(* ===== verification/Replay_Window.thy ===== *)
theory Replay_Window
  imports Proteus_Spec
begin

text \<open>
  The anti-replay window of the server (\<open>proteus-handshake/src/replay.rs\<close>): a hash set for
  membership and a queue in insertion order for eviction, kept in step.  The lemmas show that
  the pair of structures implements one bounded queue (\<open>rw_abs\<close>), and that an accepted pair
  stays rejected until as many other pairs have been accepted as the window holds.
\<close>

section \<open>Model\<close>

definition REFERENCE_SET_CAPACITY :: nat where
  "REFERENCE_SET_CAPACITY = 2 ^ 16"

datatype Verdict = Accept | Replay | Stale

type_synonym replay_key = "bytes \<times> nat"

record ReplayWindow =
  rw_seen :: "replay_key set"
  rw_order :: "replay_key list"
  rw_capacity :: nat

definition replay_new :: ReplayWindow where
  "replay_new = \<lparr>rw_seen = {}, rw_order = [], rw_capacity = REFERENCE_SET_CAPACITY\<rparr>"

definition replay_check :: "ReplayWindow \<Rightarrow> nat \<Rightarrow> bytes \<Rightarrow> nat \<Rightarrow> Verdict \<times> ReplayWindow" where
  "replay_check w now nonce ts =
     (let skew = abs_diff now ts in
      if skew > TIMESTAMP_WINDOW_SECS then (Stale, w)
      else
        let key = (nonce, ts) in
        if key \<in> rw_seen w then (Replay, w)
        else
          let w1 =
            (if card (rw_seen w) \<ge> rw_capacity w then
               (case rw_order w of
                  [] \<Rightarrow> w
                | oldest # rest \<Rightarrow> w\<lparr>rw_order := rest, rw_seen := rw_seen w - {oldest}\<rparr>)
             else w)
          in (Accept, w1\<lparr>rw_seen := insert key (rw_seen w1), rw_order := rw_order w1 @ [key]\<rparr>))"

definition replay_len :: "ReplayWindow \<Rightarrow> nat" where
  "replay_len w = card (rw_seen w)"

definition replay_is_empty :: "ReplayWindow \<Rightarrow> bool" where
  "replay_is_empty w \<longleftrightarrow> rw_seen w = {}"

text \<open>One check as an event: the clock, the nonce and the timestamp of the attempt.\<close>

type_synonym replay_attempt = "nat \<times> bytes \<times> nat"

fun replay_verdict :: "ReplayWindow \<Rightarrow> replay_attempt \<Rightarrow> Verdict" where
  "replay_verdict w (now, nonce, ts) = fst (replay_check w now nonce ts)"

fun replay_step :: "ReplayWindow \<Rightarrow> replay_attempt \<Rightarrow> ReplayWindow" where
  "replay_step w (now, nonce, ts) = snd (replay_check w now nonce ts)"

fun replay_accepts :: "ReplayWindow \<Rightarrow> replay_attempt list \<Rightarrow> nat" where
  "replay_accepts w [] = 0"
| "replay_accepts w (a # as) =
     (if replay_verdict w a = Accept then 1 else 0) + replay_accepts (replay_step w a) as"

section \<open>Invariant\<close>

definition replay_inv :: "ReplayWindow \<Rightarrow> bool" where
  "replay_inv w \<longleftrightarrow> rw_seen w = set (rw_order w) \<and> distinct (rw_order w)
     \<and> length (rw_order w) \<le> rw_capacity w \<and> 0 < rw_capacity w"

lemma replay_new_inv: "replay_inv replay_new"
  by (simp add: replay_inv_def replay_new_def REFERENCE_SET_CAPACITY_def)

lemma replay_inv_card: "replay_inv w \<Longrightarrow> card (rw_seen w) = length (rw_order w)"
  by (simp add: replay_inv_def distinct_card)

text \<open>The contract: one queue that keeps the last \<open>capacity\<close> accepted pairs.\<close>

definition rw_abs :: "ReplayWindow \<Rightarrow> nat \<times> replay_key list" where
  "rw_abs w = (rw_capacity w, rw_order w)"

fun abs_check :: "nat \<times> replay_key list \<Rightarrow> replay_attempt \<Rightarrow> Verdict \<times> nat \<times> replay_key list" where
  "abs_check (cap, q) (now, nonce, ts) =
     (if abs_diff now ts > TIMESTAMP_WINDOW_SECS then (Stale, cap, q)
      else if (nonce, ts) \<in> set q then (Replay, cap, q)
      else (Accept, cap, drop (Suc (length q) - cap) (q @ [(nonce, ts)])))"

lemma replay_check_refines:
  assumes "replay_inv w"
  shows "(replay_verdict w a, rw_abs (replay_step w a)) = abs_check (rw_abs w) a"
    and "replay_inv (replay_step w a)"
proof -
  obtain now nonce ts where a: "a = (now, nonce, ts)" by (cases a) auto
  note c = replay_inv_card [OF assms]
  show "(replay_verdict w a, rw_abs (replay_step w a)) = abs_check (rw_abs w) a"
    using assms c
    by (cases "rw_order w") (auto simp: a replay_inv_def replay_check_def rw_abs_def Let_def Suc_diff_le)
  show "replay_inv (replay_step w a)"
    using assms c
    by (cases "rw_order w") (auto simp: a replay_inv_def replay_check_def Let_def)
qed

lemma replay_step_capacity: "rw_capacity (replay_step w a) = rw_capacity w"
  by (cases a) (auto simp: replay_check_def Let_def split: list.splits)

interpretation replay: bounded_machine replay_step replay_inv replay_len rw_capacity
proof unfold_locales
  show "replay_inv w \<Longrightarrow> replay_inv (replay_step w a)" for w a
    by (rule replay_check_refines(2))
  show "replay_inv w \<Longrightarrow> replay_len w \<le> rw_capacity w" for w
    by (simp add: replay_len_def replay_inv_card) (simp add: replay_inv_def)
  show "rw_capacity (replay_step w a) = rw_capacity w" for w a
    by (rule replay_step_capacity)
qed

section \<open>How long a pair stays in the window\<close>

text \<open>The place of a pair in the queue, counted from the newest.\<close>

definition rw_pos :: "replay_key \<Rightarrow> ReplayWindow \<Rightarrow> nat \<Rightarrow> bool" where
  "rw_pos k w n \<longleftrightarrow> (\<exists>xs ys. rw_order w = xs @ k # ys \<and> length ys = n)"

lemma rw_pos_seen:
  assumes "replay_inv w" and "rw_pos k w n"
  shows "k \<in> rw_seen w"
proof -
  obtain xs ys where "rw_order w = xs @ k # ys" using assms(2) by (auto simp: rw_pos_def)
  then have "k \<in> set (rw_order w)" by simp
  then show ?thesis using assms(1) by (simp only: replay_inv_def)
qed

lemma replay_order_step:
  assumes "replay_inv w"
  shows "rw_order (replay_step w (now, k)) =
    (if replay_verdict w (now, k) = Accept
     then drop (Suc (length (rw_order w)) - rw_capacity w) (rw_order w @ [k]) else rw_order w)"
proof -
  obtain nonce ts where k: "k = (nonce, ts)" by (cases k)
  have "(replay_verdict w (now, nonce, ts), rw_abs (replay_step w (now, nonce, ts)))
      = abs_check (rw_capacity w, rw_order w) (now, nonce, ts)"
    using replay_check_refines(1) [OF assms] by (simp only: rw_abs_def)
  then show ?thesis
    by (auto simp only: k rw_abs_def abs_check.simps prod.inject split: if_splits)
qed

lemma rw_pos_newest:
  assumes "replay_inv w" and "replay_verdict w (now, k) = Accept"
  shows "rw_pos k (replay_step w (now, k)) 0"
proof -
  have "Suc (length (rw_order w)) - rw_capacity w \<le> length (rw_order w)"
    using assms(1) by (auto simp: replay_inv_def)
  then show ?thesis
    unfolding rw_pos_def replay_order_step [OF assms(1)] by (simp add: assms(2))
qed

lemma rw_pos_step:
  assumes inv: "replay_inv w" and pos: "rw_pos k w n" and room: "Suc n < rw_capacity w"
  shows "rw_pos k (replay_step w a) (if replay_verdict w a = Accept then Suc n else n)"
proof -
  obtain now k' where a: "a = (now, k')" by (cases a) auto
  obtain xs ys where o: "rw_order w = xs @ k # ys" "length ys = n" using pos by (auto simp: rw_pos_def)
  let ?d = "Suc (length (rw_order w)) - rw_capacity w"
  have "drop ?d (rw_order w @ [k']) = drop ?d xs @ k # (ys @ [k'])"
    using room o by simp
  then have "\<exists>xs ys. drop ?d (rw_order w @ [k']) = xs @ k # ys \<and> length ys = Suc n"
    using o(2) by (metis length_append_singleton)
  then show ?thesis
    using pos unfolding rw_pos_def a replay_order_step [OF inv] by (simp only: split: if_split) blast
qed

lemma rw_pos_run:
  "replay_inv w \<Longrightarrow> rw_pos k w n \<Longrightarrow> n + replay_accepts w as < rw_capacity w \<Longrightarrow>
     rw_pos k (foldl replay_step w as) (n + replay_accepts w as)"
proof (induction as arbitrary: w n)
  case (Cons a as)
  let ?n = "if replay_verdict w a = Accept then Suc n else n"
  have "rw_pos k (replay_step w a) ?n"
  proof (cases "Suc n < rw_capacity w")
    case True
    then show ?thesis using Cons.prems by (intro rw_pos_step) auto
  next
    case False
    then have no: "replay_verdict w a \<noteq> Accept" using Cons.prems(3) by auto
    then have "rw_order (replay_step w a) = rw_order w"
      using replay_order_step [OF Cons.prems(1)] by (cases a) (auto simp del: replay_verdict.simps replay_step.simps)
    then show ?thesis using no Cons.prems(2) by (simp add: rw_pos_def)
  qed
  moreover have "n + replay_accepts w (a # as) = ?n + replay_accepts (replay_step w a) as" by simp
  ultimately show ?case
    using Cons.IH [of "replay_step w a" ?n] Cons.prems(1,3) replay_check_refines(2)
    by (simp only: foldl_Cons replay_step_capacity)
qed simp

lemma seen_not_accepted: "(nonce, ts) \<in> rw_seen w \<Longrightarrow> fst (replay_check w now nonce ts) \<noteq> Accept"
  by (simp add: replay_check_def Let_def)

lemma accepted_stays_seen:
  assumes inv: "replay_inv w" and acc: "replay_verdict w (now, nonce, ts) = Accept"
    and few: "replay_accepts (replay_step w (now, nonce, ts)) attempts < rw_capacity w"
  shows "(nonce, ts) \<in> rw_seen (foldl replay_step w ((now, nonce, ts) # attempts))"
proof -
  let ?w = "replay_step w (now, nonce, ts)"
  have inv': "replay_inv ?w" using inv by (rule replay.step_inv)
  have "rw_pos (nonce, ts) ?w 0" using inv acc by (rule rw_pos_newest)
  then have "rw_pos (nonce, ts) (foldl replay_step ?w attempts) (0 + replay_accepts ?w attempts)"
    using inv' few by (intro rw_pos_run) (simp_all only: replay_step_capacity add_0)
  then have "(nonce, ts) \<in> rw_seen (foldl replay_step ?w attempts)"
    by (rule rw_pos_seen [OF replay.run_inv [OF inv']])
  then show ?thesis by simp
qed

section \<open>Properties\<close>

text \<open>
  The set and the queue of the replay window implement one bounded queue: on every state the
  invariant allows, a check answers and changes the state exactly as the queue that rejects stale
  timestamps, then pairs it holds, and otherwise appends the pair and keeps the newest
  \<open>capacity\<close> ones (first in, first out).  The invariant holds initially and is kept.
\<close>

theorem replay_window_refines_fifo:
  assumes "replay_inv w"
  shows "(replay_verdict w a, rw_abs (replay_step w a)) = abs_check (rw_abs w) a
    \<and> replay_inv (replay_step w a) \<and> replay_inv replay_new"
  using replay_check_refines [OF assms] replay_new_inv by blast

theorem replay_window_refines_fifo_witness:
  "(replay_verdict replay_new (100, [1], 50), rw_abs (replay_step replay_new (100, [1], 50)))
     = abs_check (rw_abs replay_new) (100, [1], 50)
   \<and> replay_inv (replay_step replay_new (100, [1], 50)) \<and> replay_inv replay_new"
  by (rule replay_window_refines_fifo [OF replay_new_inv])

text \<open>
  C33. No replay within the window.  After a pair was accepted, whatever other attempts follow
  (chosen by an attacker, at any clock readings), the pair is not accepted again as long as fewer
  pairs than the capacity have been accepted since; and the window never holds more pairs than
  its capacity.
\<close>

theorem replay_rejected:
  assumes "replay_inv w" and "replay_verdict w (now, nonce, ts) = Accept"
    and "replay_accepts (replay_step w (now, nonce, ts)) attempts < rw_capacity w"
  shows "replay_verdict (foldl replay_step w ((now, nonce, ts) # attempts)) (now', nonce, ts) \<noteq> Accept
    \<and> replay_len (foldl replay_step w ((now, nonce, ts) # attempts)) \<le> rw_capacity w"
  using seen_not_accepted [OF accepted_stays_seen [OF assms]]
    replay.run_bounded [OF assms(1), of "(now, nonce, ts) # attempts"] by simp

theorem replay_rejected_witness:
  "replay_verdict (foldl replay_step replay_new ((100, [1], 50) # [(101, [2], 60)])) (102, [1], 50) \<noteq> Accept
   \<and> replay_len (foldl replay_step replay_new ((100, [1], 50) # [(101, [2], 60)])) \<le> rw_capacity replay_new"
  by (rule replay_rejected [OF replay_new_inv])
    (simp_all add: replay_check_def replay_new_def REFERENCE_SET_CAPACITY_def
      TIMESTAMP_WINDOW_SECS_def abs_diff_def Let_def)

end
