(* ===== verification/Pow.thy ===== *)
theory Pow
  imports Crypto
begin

text \<open>
  The anti-DoS puzzle (\<open>proteus-transport-alpha/src/pow.rs\<close>): the check of a solution, and the
  client's search, a loop over a 56-bit counter with a wall-clock deadline.  The clock is a
  parameter: whether the deadline has passed when the loop looks at it for a given counter value.
  The lemmas relate the leading-zero count to a bound on the digest read as a number, and show
  that the search ends, returns only solutions, and finds one whenever one exists and the
  deadline does not cut it short.
\<close>

section \<open>Model\<close>

definition leading_zeros_u8 :: "u8 \<Rightarrow> nat" where
  "leading_zeros_u8 b =
     (if 128 \<le> b then 0 else if 64 \<le> b then 1 else if 32 \<le> b then 2 else if 16 \<le> b then 3
      else if 8 \<le> b then 4 else if 4 \<le> b then 5 else if 2 \<le> b then 6 else if 1 \<le> b then 7 else 8)"

fun leading_zero_bits :: "bytes \<Rightarrow> nat" where
  "leading_zero_bits [] = 0"
| "leading_zero_bits (b # bs) = (if b = 0 then 8 + leading_zero_bits bs else leading_zeros_u8 b)"

definition pow_verify :: "primitives \<Rightarrow> bytes \<Rightarrow> bytes \<Rightarrow> u8 \<Rightarrow> bytes \<Rightarrow> bool" where
  "pow_verify P server_pq_fingerprint client_nonce difficulty solution =
     (if difficulty = 0 then True
      else
        let digest = p_sha256 P (server_pq_fingerprint @ client_nonce @ solution)
        in unat difficulty \<le> leading_zero_bits digest)"

definition CHECK_INTERVAL :: nat where
  "CHECK_INTERVAL = 4096"

function pow_search :: "primitives \<Rightarrow> bytes \<Rightarrow> bytes \<Rightarrow> u8 \<Rightarrow> (nat \<Rightarrow> bool) \<Rightarrow> nat \<Rightarrow> bytes option" where
  "pow_search P fp nonce d expired counter =
     (let sol = drop 1 (be_bytes 8 counter) in
      if pow_verify P fp nonce d sol then Some sol
      else
        let counter' = counter + 1 in
        if counter' > u64_max then None
        else if counter' > 2 ^ 56 then None
        else if counter' mod CHECK_INTERVAL = 0 \<and> expired counter' then None
        else pow_search P fp nonce d expired counter')"
  by pat_completeness auto

termination pow_search
  by (relation "measure (\<lambda>(_, _, _, _, _, counter). 2 ^ 56 + 1 - counter)") auto

definition solve_with_deadline :: "primitives \<Rightarrow> bytes \<Rightarrow> bytes \<Rightarrow> u8 \<Rightarrow> (nat \<Rightarrow> bool) \<Rightarrow> bytes option" where
  "solve_with_deadline P fp nonce d expired =
     (if d = 0 then Some (replicate 7 0) else pow_search P fp nonce d expired 0)"

declare pow_search.simps [simp del]

section \<open>Leading zeros\<close>

lemma leading_zeros_u8_iff:
  assumes "k \<le> 8"
  shows "k \<le> leading_zeros_u8 b \<longleftrightarrow> unat b < 2 ^ (8 - k)"
proof -
  have "k \<in> {0, 1, 2, 3, 4, 5, 6, 7, 8}" using assms by auto
  then show ?thesis
    using unat_u8_less [of b] by (elim insertE) (auto simp: leading_zeros_u8_def word_le_nat_alt)
qed

lemma be_val_Cons: "be_val (b # bs) = unat b * 256 ^ length bs + be_val bs"
  using be_val_append [of "[b]" bs] by (simp add: be_val_def)

lemma leading_zero_bits_iff:
  "d \<le> 8 * length bs \<Longrightarrow> d \<le> leading_zero_bits bs \<longleftrightarrow> be_val bs < 2 ^ (8 * length bs - d)"
proof (induction bs arbitrary: d)
  case (Cons b bs)
  have p: "(256 :: nat) ^ length bs = 2 ^ (8 * length bs)" by (simp add: power_mult)
  note lt = be_val_less [of bs, unfolded p]
  show ?case
  proof (cases "b = 0")
    case b: True
    show ?thesis
    proof (cases "d \<le> 8")
      case True
      have "be_val bs < 2 ^ (8 * length bs)" by (rule lt)
      also have "\<dots> \<le> 2 ^ (8 * length (b # bs) - d)" using True by (intro power_increasing) auto
      finally show ?thesis using True b by (simp add: be_val_Cons)
    next
      case False
      then have "8 * length (b # bs) - d = 8 * length bs - (d - 8)" by simp
      then show ?thesis using Cons.IH [of "d - 8"] Cons.prems False b by (simp add: be_val_Cons le_diff_conv add.commute)
    qed
  next
    case False
    have ge: "2 ^ (8 * length bs) \<le> be_val (b # bs)"
    proof -
      have "1 \<le> unat b" using False by (simp add: unat_gt_0 Suc_le_eq word_neq_0_conv)
      then have "1 * 2 ^ (8 * length bs) \<le> unat b * 2 ^ (8 * length bs)" by (rule mult_le_mono1)
      then show ?thesis unfolding be_val_Cons p by linarith
    qed
    show ?thesis
    proof (cases "d \<le> 8")
      case True
      have "be_val (b # bs) < 2 ^ (8 * length (b # bs) - d) \<longleftrightarrow> unat b < 2 ^ (8 - d)"
      proof -
        have e: "8 * length (b # bs) - d = (8 - d) + 8 * length bs" using True by simp
        have "unat b * 2 ^ (8 * length bs) + be_val bs < 2 ^ (8 - d) * 2 ^ (8 * length bs) \<longleftrightarrow> unat b < 2 ^ (8 - d)"
        proof
          assume "unat b * 2 ^ (8 * length bs) + be_val bs < 2 ^ (8 - d) * 2 ^ (8 * length bs)"
          then have "unat b * 2 ^ (8 * length bs) < 2 ^ (8 - d) * 2 ^ (8 * length bs)" by linarith
          then show "unat b < 2 ^ (8 - d)" by simp
        next
          assume "unat b < 2 ^ (8 - d)"
          then have "Suc (unat b) * 2 ^ (8 * length bs) \<le> 2 ^ (8 - d) * 2 ^ (8 * length bs)"
            by (intro mult_le_mono1) simp
          then show "unat b * 2 ^ (8 * length bs) + be_val bs < 2 ^ (8 - d) * 2 ^ (8 * length bs)"
            using lt by simp
        qed
        then show ?thesis unfolding be_val_Cons p e power_add .
      qed
      then show ?thesis using False leading_zeros_u8_iff [OF True, of b] by simp
    next
      case d: False
      have "2 ^ (8 * length (b # bs) - d) \<le> (2 :: nat) ^ (8 * length bs)"
        using d by (intro power_increasing) auto
      then have "\<not> be_val (b # bs) < 2 ^ (8 * length (b # bs) - d)" using ge by linarith
      moreover have "leading_zeros_u8 b \<le> 8" by (simp add: leading_zeros_u8_def)
      ultimately show ?thesis using False d by simp
    qed
  qed
qed simp

section \<open>The search\<close>

lemma pow_search_sound: "pow_search P fp nonce d expired c = Some s \<Longrightarrow> pow_verify P fp nonce d s \<and> length s = 7"
proof (induction P fp nonce d expired c rule: pow_search.induct)
  case (1 P fp nonce d expired c)
  show ?case
  proof (cases "pow_verify P fp nonce d (drop 1 (be_bytes 8 c))")
    case True
    then show ?thesis using 1(2) by (subst (asm) pow_search.simps) (auto simp: Let_def simp del: be_bytes.simps)
  next
    case False
    then show ?thesis
      using 1(1) [OF refl False refl] 1(2)
      by (subst (asm) (2) pow_search.simps) (auto simp: Let_def split: if_splits simp del: be_bytes.simps)
  qed
qed

lemma pow_search_complete:
  assumes "\<And>n. \<not> expired n" and "pow_verify P fp nonce d (drop 1 (be_bytes 8 k))" and "c \<le> k" and "k < 2 ^ 56"
  shows "pow_search P fp nonce d expired c \<noteq> None"
  using assms(3)
proof (induction "k - c" arbitrary: c)
  case 0
  then have "c = k" by simp
  then show ?case using assms(2) by (subst pow_search.simps) (simp add: Let_def del: be_bytes.simps)
next
  case (Suc n)
  have u: "(2 :: nat) ^ 56 \<le> u64_max" by (simp add: u64_max_def)
  have "\<not> c + 1 > u64_max" "\<not> c + 1 > 2 ^ 56" using Suc assms(4) u by linarith+
  moreover have "pow_search P fp nonce d expired (c + 1) \<noteq> None" using Suc by auto
  ultimately show ?case
    using assms(1) by (subst pow_search.simps) (simp add: Let_def del: be_bytes.simps)
qed

lemma seven_bytes: "length s = 7 \<Longrightarrow> be_val s < 2 ^ 56 \<and> drop 1 (be_bytes 8 (be_val s)) = s"
proof -
  assume s: "length s = 7"
  have "be_bytes 8 (be_val (0 # s)) = 0 # s" using s by (intro be_bytes_be_val) simp
  then have "drop 1 (be_bytes 8 (be_val s)) = s" by (simp add: be_val_Cons del: be_bytes.simps)
  then show ?thesis using be_val_less [of s] s by simp
qed

lemma pow_verify_iff:
  assumes len: "length (p_sha256 P (fp @ nonce @ sol)) = 32"
  shows "pow_verify P fp nonce d sol \<longleftrightarrow> be_val (p_sha256 P (fp @ nonce @ sol)) < 2 ^ (256 - unat d)"
proof -
  have "unat d \<le> 8 * 32" using unat_u8_less [of d] by simp
  then have iff: "unat d \<le> leading_zero_bits (p_sha256 P (fp @ nonce @ sol))
      \<longleftrightarrow> be_val (p_sha256 P (fp @ nonce @ sol)) < 2 ^ (256 - unat d)"
    using leading_zero_bits_iff [of "unat d" "p_sha256 P (fp @ nonce @ sol)"] len by simp
  show ?thesis
  proof (cases "d = 0")
    case True
    have "be_val (p_sha256 P (fp @ nonce @ sol)) < 256 ^ 32" using be_val_less len by metis
    then show ?thesis using True by (simp add: pow_verify_def)
  qed (use iff in \<open>simp add: pow_verify_def Let_def\<close>)
qed

section \<open>Properties\<close>

text \<open>
  The puzzle check is a bound on the digest: a solution is accepted at difficulty \<open>d\<close> exactly
  when the digest of fingerprint, nonce and solution, read as a 256-bit number, is below
  \<open>2^(256 - d)\<close>; difficulty 0 accepts everything.
\<close>

theorem pow_verify_bound:
  assumes "prims_ok P"
  shows "pow_verify P fp nonce d sol \<longleftrightarrow> be_val (p_sha256 P (fp @ nonce @ sol)) < 2 ^ (256 - unat d)"
  by (rule pow_verify_iff) (rule prims_okD(1) [OF assms])

theorem pow_verify_bound_witness:
  "pow_verify toy_prims (replicate 32 0) (replicate 16 0) 8 (replicate 7 0)
     \<longleftrightarrow> be_val (p_sha256 toy_prims (replicate 32 0 @ replicate 16 0 @ replicate 7 0)) < 2 ^ (256 - unat (8 :: u8))"
  by (rule pow_verify_bound [OF toy_prims_ok])

text \<open>
  The client's search is sound and complete: it always ends; what it returns is a 7-byte
  solution the server's check accepts; and when the deadline never passes it returns one whenever
  any 7-byte solution exists.
\<close>

theorem pow_solve_correct:
  "(solve_with_deadline P fp nonce d expired = Some s \<longrightarrow> pow_verify P fp nonce d s \<and> length s = 7)
   \<and> ((\<forall>n. \<not> expired n) \<and> length t = 7 \<and> pow_verify P fp nonce d t \<longrightarrow>
        (\<exists>s. solve_with_deadline P fp nonce d expired = Some s))"
proof -
  have "solve_with_deadline P fp nonce d expired = Some s \<Longrightarrow> pow_verify P fp nonce d s \<and> length s = 7"
    using pow_search_sound [of P fp nonce d expired 0 s]
    by (auto simp: solve_with_deadline_def pow_verify_def split: if_splits)
  moreover have "\<exists>s. solve_with_deadline P fp nonce d expired = Some s"
    if "\<forall>n. \<not> expired n" "length t = 7" "pow_verify P fp nonce d t"
    using pow_search_complete [of expired P fp nonce d "be_val t" 0] seven_bytes [of t] that
    by (auto simp: solve_with_deadline_def)
  ultimately show ?thesis by blast
qed

theorem pow_solve_correct_witness:
  "\<exists>s. solve_with_deadline toy_prims [] [] 8 (\<lambda>_. False) = Some s"
proof -
  have "pow_verify toy_prims [] [] 8 (replicate 7 0)"
    by (subst pow_verify_iff) (simp_all add: toy_prims_def fit_def flip: replicate_add)
  then show ?thesis using pow_solve_correct [of toy_prims "[]" "[]" 8 "\<lambda>_. False" undefined "replicate 7 0"] by simp
qed

end
