(* ===== verification/Shape.thy ===== *)
theory Shape
  imports Crypto
begin

text \<open>
  Traffic shaping (\<open>proteus-shape/src/cell.rs\<close>, \<open>shift.rs\<close>): the cell size of a session and
  the schedule of cover shapes both ends derive from the \<open>shape_seed\<close>.  The schedule redraws a
  shape until it differs from the previous one, a loop that depends on the digests and has no
  bound of its own: \<open>pick_shape\<close> is a partial function with value \<open>None\<close> when it does not return,
  and the schedule is shown to return when the pseudo-random words never settle on one shape.
\<close>

section \<open>Model\<close>

datatype Profile = PAlpha | PBeta | PGamma

fun cell_sizes :: "Profile \<Rightarrow> u16 list" where
  "cell_sizes PAlpha = CELL_SIZES_ALPHA"
| "cell_sizes PBeta = CELL_SIZES_BETA"
| "cell_sizes PGamma = CELL_SIZES_GAMMA"

definition pick_cell_size :: "Profile \<Rightarrow> u32 \<Rightarrow> ('e, u16) rust" where
  "pick_cell_size p shape_seed =
     (let sizes = cell_sizes p in index sizes (unat shape_seed mod length sizes))"

definition padding_needed :: "u16 \<Rightarrow> u16 \<Rightarrow> u16" where
  "padding_needed current_len cell_size = (if current_len \<le> cell_size then cell_size - current_len else 0)"

definition SHAPES :: "u16 list" where
  "SHAPES = [COVER_PROFILE_STREAMING, COVER_PROFILE_API_POLL, COVER_PROFILE_VIDEO_CALL,
     COVER_PROFILE_FILE_DL, COVER_PROFILE_WEB_BROWSE]"

definition SHIFT_INTERVAL_MS :: nat where
  "SHIFT_INTERVAL_MS = 30 * 60 * 1000"

definition SHIFT_JITTER_MS :: nat where
  "SHIFT_JITTER_MS = 10 * 60 * 1000"

record ShapePrg =
  prg_seed :: u32
  prg_counter :: u64
  prg_buf :: bytes
  prg_pos :: nat

definition prg_refill :: "primitives \<Rightarrow> ShapePrg \<Rightarrow> ShapePrg" where
  "prg_refill P g =
     (let digest = p_sha256 P (ascii ''proteus-shape-prg-v1'' @ be_bytes 4 (unat (prg_seed g))
                               @ be_bytes 8 (unat (prg_counter g)))
      in g\<lparr>prg_buf := digest, prg_pos := 0, prg_counter := prg_counter g + 1\<rparr>)"

definition prg_new :: "primitives \<Rightarrow> u32 \<Rightarrow> ShapePrg" where
  "prg_new P seed =
     prg_refill P \<lparr>prg_seed = seed, prg_counter = 0, prg_buf = replicate 32 0, prg_pos = 32\<rparr>"

definition next_u32 :: "primitives \<Rightarrow> ShapePrg \<Rightarrow> u32 \<times> ShapePrg" where
  "next_u32 P g0 =
     (let g = (if prg_pos g0 + 4 > 32 then prg_refill P g0 else g0);
          v = word_of_nat (be_val [prg_buf g ! prg_pos g, prg_buf g ! (prg_pos g + 1),
                prg_buf g ! (prg_pos g + 2), prg_buf g ! (prg_pos g + 3)])
      in (v, g\<lparr>prg_pos := prg_pos g + 4\<rparr>))"

record ShiftEvent =
  t_ms :: nat
  shape_id :: u16

definition shape_of_word :: "u32 \<Rightarrow> u16" where
  "shape_of_word w = SHAPES ! (unat w mod length SHAPES)"

partial_function (option) pick_shape ::
    "primitives \<Rightarrow> u16 option \<Rightarrow> ShapePrg \<Rightarrow> (u16 \<times> ShapePrg) option" where
  "pick_shape P prev_shape g =
     (let (w, g') = next_u32 P g; shape = shape_of_word w in
      if prev_shape \<noteq> Some shape then Some (shape, g') else pick_shape P prev_shape g')"

fun schedule_loop ::
    "primitives \<Rightarrow> nat \<Rightarrow> ShapePrg \<Rightarrow> nat \<Rightarrow> u16 option \<Rightarrow> ShiftEvent list option" where
  "schedule_loop P 0 g t prev_shape = Some []"
| "schedule_loop P (Suc n) g t prev_shape =
     (case pick_shape P prev_shape g of
        None \<Rightarrow> None
      | Some (shape, g1) \<Rightarrow>
          let (jitter_raw, g2) = next_u32 P g1;
              jitter = int (unat jitter_raw mod (2 * SHIFT_JITTER_MS)) - int SHIFT_JITTER_MS;
              next_t = int SHIFT_INTERVAL_MS + jitter
          in (case schedule_loop P n g2 (t + nat next_t) (Some shape) of
                None \<Rightarrow> None
              | Some rest \<Rightarrow> Some (\<lparr>t_ms = t, shape_id = shape\<rparr> # rest)))"

definition schedule :: "primitives \<Rightarrow> u32 \<Rightarrow> nat \<Rightarrow> ShiftEvent list option" where
  "schedule P shape_seed n = schedule_loop P n (prg_new P shape_seed) 0 None"

section \<open>The stream of words\<close>

text \<open>The generator after \<open>k\<close> draws and the \<open>k\<close>-th word it yields.\<close>

primrec prg_after :: "primitives \<Rightarrow> nat \<Rightarrow> ShapePrg \<Rightarrow> ShapePrg" where
  "prg_after P 0 g = g"
| "prg_after P (Suc k) g = snd (next_u32 P (prg_after P k g))"

definition prg_word :: "primitives \<Rightarrow> u32 \<Rightarrow> nat \<Rightarrow> u32" where
  "prg_word P seed k = fst (next_u32 P (prg_after P k (prg_new P seed)))"

definition shapes_vary :: "primitives \<Rightarrow> u32 \<Rightarrow> bool" where
  "shapes_vary P seed \<longleftrightarrow>
     (\<forall>i. \<exists>j\<ge>i + 2. shape_of_word (prg_word P seed j) \<noteq> shape_of_word (prg_word P seed i))"

lemma shape_of_word_in: "shape_of_word w \<in> set SHAPES"
  unfolding shape_of_word_def by (rule nth_mem) (simp add: SHAPES_def)

text \<open>From the \<open>i\<close>-th position, the loop stops at the first word of another shape.\<close>

lemma pick_shape_stops:
  assumes "prev \<noteq> Some (shape_of_word (prg_word P seed j))" and "i \<le> j"
  shows "\<exists>k\<ge>i. prev \<noteq> Some (shape_of_word (prg_word P seed k)) \<and>
    pick_shape P prev (prg_after P i (prg_new P seed))
      = Some (shape_of_word (prg_word P seed k), prg_after P (Suc k) (prg_new P seed))"
  using assms(2)
proof (induction "j - i" arbitrary: i)
  case 0
  then have "i = j" by simp
  then show ?case using assms(1)
    by (intro exI [of _ j]) (simp add: pick_shape.simps [of _ _ "prg_after P j (prg_new P seed)"] prg_word_def case_prod_beta Let_def)
next
  case (Suc n)
  show ?case
  proof (cases "prev \<noteq> Some (shape_of_word (prg_word P seed i))")
    case True
    then show ?thesis
      by (intro exI [of _ i]) (simp add: pick_shape.simps [of _ _ "prg_after P i (prg_new P seed)"] prg_word_def case_prod_beta Let_def)
  next
    case False
    then have "pick_shape P prev (prg_after P i (prg_new P seed)) = pick_shape P prev (prg_after P (Suc i) (prg_new P seed))"
      by (simp add: pick_shape.simps [of _ _ "prg_after P i (prg_new P seed)"] prg_word_def case_prod_beta Let_def)
    then show ?thesis using Suc(1) [of "Suc i"] Suc(2,3) by (metis Suc_leD Suc_leI diff_Suc_Suc Suc_diff_Suc diff_is_0_eq' le_neq_implies_less nat.distinct(1) old.nat.inject)
  qed
qed

lemma pick_shape_Some:
  assumes "pick_shape P prev g = Some r"
  shows "prev \<noteq> Some (fst r) \<and> fst r \<in> set SHAPES"
proof -
  have "case ((P, prev), g) of ((P, prev), g) \<Rightarrow> prev \<noteq> Some (fst r) \<and> fst r \<in> set SHAPES"
    using assms
    by (rule pick_shape.raw_induct
        [of "\<lambda>x r. case x of ((P, prev), g) \<Rightarrow> prev \<noteq> Some (fst r) \<and> fst r \<in> set SHAPES", rotated])
      (fastforce simp: Let_def case_prod_beta shape_of_word_in split: if_splits)
  then show ?thesis by simp
qed

section \<open>The schedule\<close>

text \<open>The gap to the next transition, in milliseconds.\<close>

definition shift_gap :: "u32 \<Rightarrow> nat" where
  "shift_gap w = nat (int SHIFT_INTERVAL_MS + (int (unat w mod (2 * SHIFT_JITTER_MS)) - int SHIFT_JITTER_MS))"

lemma shift_gap_bounds: "20 * 60 * 1000 \<le> shift_gap w \<and> shift_gap w < 40 * 60 * 1000"
proof -
  have "unat w mod 1200000 < 1200000" by simp
  then show ?thesis
    unfolding shift_gap_def SHIFT_INTERVAL_MS_def SHIFT_JITTER_MS_def by simp linarith
qed

text \<open>What the entries of a schedule satisfy, from a start time and a previous shape.\<close>

fun schedule_ok :: "nat \<Rightarrow> u16 option \<Rightarrow> ShiftEvent list \<Rightarrow> bool" where
  "schedule_ok t prev [] = True"
| "schedule_ok t prev (e # es) =
     (t_ms e = t \<and> prev \<noteq> Some (shape_id e) \<and> shape_id e \<in> set SHAPES
      \<and> (case es of [] \<Rightarrow> True
         | e' # _ \<Rightarrow> 20 * 60 * 1000 \<le> t_ms e' - t \<and> t_ms e' - t < 40 * 60 * 1000 \<and> t < t_ms e')
      \<and> schedule_ok (case es of [] \<Rightarrow> t | e' # _ \<Rightarrow> t_ms e') (Some (shape_id e)) es)"

lemma schedule_ok_start: "schedule_ok t prev es \<Longrightarrow> es \<noteq> [] \<Longrightarrow> t_ms (hd es) = t"
  by (cases es) auto

lemma schedule_loop_ok:
  "schedule_loop P n g t prev = Some es \<Longrightarrow> length es = n \<and> schedule_ok t prev es"
proof (induction n arbitrary: g t prev es)
  case (Suc n)
  obtain shape g1 where pick: "pick_shape P prev g = Some (shape, g1)"
    using Suc.prems by (auto split: option.splits)
  let ?w = "fst (next_u32 P g1)" and ?g2 = "snd (next_u32 P g1)"
  obtain rest where rest: "schedule_loop P n ?g2 (t + shift_gap ?w) (Some shape) = Some rest"
    and es: "es = \<lparr>t_ms = t, shape_id = shape\<rparr> # rest"
    using Suc.prems pick
    by (auto simp: Let_def case_prod_beta shift_gap_def split: option.splits)
  have ok: "length rest = n" "schedule_ok (t + shift_gap ?w) (Some shape) rest"
    using Suc.IH [OF rest] by auto
  have "prev \<noteq> Some shape" "shape \<in> set SHAPES" using pick_shape_Some [OF pick] by auto
  then show ?case
    using ok shift_gap_bounds [of ?w] by (cases rest) (auto simp: es)
qed simp

lemma schedule_loop_returns:
  assumes vary: "shapes_vary P seed"
    and prev: "prev = None \<or> (\<exists>k. k + 2 \<le> i \<and> prev = Some (shape_of_word (prg_word P seed k)))"
  shows "\<exists>es. schedule_loop P n (prg_after P i (prg_new P seed)) t prev = Some es"
  using prev
proof (induction n arbitrary: i t prev)
  case (Suc n)
  have "\<exists>j\<ge>i. prev \<noteq> Some (shape_of_word (prg_word P seed j))"
  proof (cases prev)
    case None
    then show ?thesis by (intro exI [of _ i]) simp
  next
    case (Some x)
    obtain a where a: "a \<ge> i + 2" "shape_of_word (prg_word P seed a) \<noteq> shape_of_word (prg_word P seed i)"
      using vary unfolding shapes_vary_def by blast
    then have "x \<noteq> shape_of_word (prg_word P seed a) \<or> x \<noteq> shape_of_word (prg_word P seed i)" by auto
    then show ?thesis using a(1) Some by (metis add_leD1 option.inject order_refl)
  qed
  then obtain j where "i \<le> j" "prev \<noteq> Some (shape_of_word (prg_word P seed j))" by blast
  then obtain k where k: "k \<ge> i"
    "pick_shape P prev (prg_after P i (prg_new P seed))
      = Some (shape_of_word (prg_word P seed k), prg_after P (Suc k) (prg_new P seed))"
    using pick_shape_stops by metis
  have "\<exists>es. schedule_loop P n (prg_after P (Suc (Suc k)) (prg_new P seed)) t' (Some (shape_of_word (prg_word P seed k))) = Some es" for t'
    by (rule Suc.IH) auto
  then show ?case
    using k(2) by (auto simp: Let_def case_prod_beta split: option.splits)
qed simp

section \<open>Cells\<close>

lemma pick_cell_size_in: "\<exists>s. pick_cell_size p seed = Ok s \<and> s \<in> set (cell_sizes p)"
proof -
  have "cell_sizes p \<noteq> []"
    by (cases p) (simp_all add: CELL_SIZES_ALPHA_def CELL_SIZES_BETA_def CELL_SIZES_GAMMA_def)
  then have "unat seed mod length (cell_sizes p) < length (cell_sizes p)" by simp
  then show ?thesis by (simp add: pick_cell_size_def Let_def)
qed

lemma padding_needed_fills:
  "unat len \<le> unat cell \<Longrightarrow> unat len + unat (padding_needed len cell) = unat cell"
  by (simp add: padding_needed_def word_le_nat_alt unat_sub)

section \<open>A generator that varies\<close>

definition count_prims :: primitives where
  "count_prims = toy_prims\<lparr>p_sha256 := (\<lambda>_. [0,0,0,0, 0,0,0,1, 0,0,0,2, 0,0,0,3, 0,0,0,4, 0,0,0,5, 0,0,0,6, 0,0,0,7])\<rparr>"

lemma count_sha256: "p_sha256 count_prims m =
    [0,0,0,0, 0,0,0,1, 0,0,0,2, 0,0,0,3, 0,0,0,4, 0,0,0,5, 0,0,0,6, 0,0,0,7]"
  by (simp add: count_prims_def)

lemma count_prg_after:
  "\<exists>m\<le>8. prg_pos (prg_after count_prims k (prg_new count_prims seed)) = 4 * m \<and> m mod 8 = k mod 8
     \<and> prg_buf (prg_after count_prims k (prg_new count_prims seed)) = p_sha256 count_prims []"
proof (induction k)
  case 0
  then show ?case by (simp add: prg_new_def prg_refill_def count_sha256 Let_def)
next
  case (Suc k)
  then obtain m where m: "m \<le> 8" "prg_pos (prg_after count_prims k (prg_new count_prims seed)) = 4 * m"
    "m mod 8 = k mod 8" "prg_buf (prg_after count_prims k (prg_new count_prims seed)) = p_sha256 count_prims []"
    by blast
  show ?case
  proof (cases "m = 8")
    case True
    then have "Suc k mod 8 = 1" using m(3) by (simp add: mod_Suc)
    then show ?thesis using m True
      by (intro exI [of _ 1]) (simp add: next_u32_def prg_refill_def count_sha256 Let_def)
  next
    case False
    then have "Suc m \<le> 8" "Suc m mod 8 = Suc k mod 8" using m by (auto simp: mod_Suc)
    moreover have "\<not> 7 < k mod 8" by (simp add: not_less flip: less_Suc_eq_le)
    ultimately show ?thesis using m False
      by (intro exI [of _ "Suc m"]) (simp add: next_u32_def Let_def)
  qed
qed

lemma count_prg_word: "prg_word count_prims seed k = word_of_nat (k mod 8)"
proof -
  obtain m where m: "m \<le> 8" "prg_pos (prg_after count_prims k (prg_new count_prims seed)) = 4 * m"
    "m mod 8 = k mod 8" "prg_buf (prg_after count_prims k (prg_new count_prims seed)) = p_sha256 count_prims []"
    using count_prg_after by blast
  have "m \<in> {0, 1, 2, 3, 4, 5, 6, 7, 8}" using m(1) by auto
  then show ?thesis unfolding m(3) [symmetric] prg_word_def
    by (elim insertE) (simp_all add: next_u32_def prg_refill_def m(2,4) count_sha256 Let_def be_val_def)
qed

lemma count_shapes_vary: "shapes_vary count_prims seed"
proof -
  have "shape_of_word (word_of_nat ((i + 2) mod 8)) \<noteq> shape_of_word (word_of_nat (i mod 8))" for i
  proof -
    have "i mod 8 \<in> {0, 1, 2, 3, 4, 5, 6, 7}" by auto
    moreover have "(i + 2) mod 8 = (i mod 8 + 2) mod 8" by (simp add: mod_simps)
    ultimately show ?thesis
      by (elim insertE) (simp_all add: shape_of_word_def SHAPES_def COVER_PROFILE_STREAMING_def
          COVER_PROFILE_API_POLL_def COVER_PROFILE_VIDEO_CALL_def COVER_PROFILE_FILE_DL_def
          COVER_PROFILE_WEB_BROWSE_def)
  qed
  then show ?thesis unfolding shapes_vary_def count_prg_word by blast
qed

section \<open>Properties\<close>

text \<open>
  The shape schedule: whenever it is returned it has the requested number of entries, starts
  at time 0, only uses shapes of the catalogue, never repeats the current shape, and its
  transitions are between 20 and 40 minutes apart; and it is returned for every length when the
  pseudo-random words keep varying in shape.
\<close>

theorem shape_schedule_correct:
  "(schedule P seed n = Some es \<longrightarrow> length es = n \<and> schedule_ok 0 None es)
   \<and> (shapes_vary P seed \<longrightarrow> (\<exists>es. schedule P seed n = Some es))"
proof -
  have "shapes_vary P seed \<Longrightarrow> \<exists>es. schedule P seed n = Some es"
    using schedule_loop_returns [of P seed None 0 n 0] by (simp add: schedule_def)
  then show ?thesis using schedule_loop_ok [of P n "prg_new P seed" 0 None es] by (auto simp: schedule_def)
qed

theorem shape_schedule_correct_witness:
  "\<exists>es. schedule count_prims 7 3 = Some es \<and> length es = 3 \<and> schedule_ok 0 None es"
proof -
  obtain es where es: "schedule count_prims 7 3 = Some es"
    using shape_schedule_correct [of count_prims 7 3] count_shapes_vary by blast
  then show ?thesis using shape_schedule_correct [of count_prims 7 3 es] by blast
qed

text \<open>
  Cells: the cell size is always one of the sizes of the profile (the index never runs out of
  the table), the padding of a packet that fits brings it exactly to the cell size, and a packet
  that is already larger gets none.
\<close>

theorem cell_padding_exact:
  "(\<exists>s. (pick_cell_size p seed :: ('e, u16) rust) = Ok s \<and> s \<in> set (cell_sizes p))
   \<and> (if unat len \<le> unat cell then unat len + unat (padding_needed len cell) = unat cell
      else padding_needed len cell = 0)"
  using pick_cell_size_in [of p seed] padding_needed_fills [of len cell]
  by (auto simp: padding_needed_def word_le_nat_alt)

end
