(* ===== verification/Handshake_Model.thy ===== *)
theory Handshake_Model
  imports Session_Model Wire_Auth Handshake_State Replay_Window Pow Shape
begin

text \<open>
  The handshake of the alpha profile as both ends run it: the client of
  \<open>proteus-transport-alpha/src/client.rs\<close> and the two server entry points of \<open>server.rs\<close>
  (\<open>handshake_over_split_bound\<close>, and \<open>handshake_buffered\<close> with \<open>handshake_with_prefix\<close>).

  The connection is a record: the chunks successive reads return (an exhausted list is end of
  file), the bytes read and not yet parsed, the bytes written.  Randomness, the clock and the
  deadline of the puzzle search are arguments.  Writes succeed; the timeouts around the handshake
  are outside the model.
\<close>

section \<open>The connection\<close>

record hs_io =
  io_reads :: "bytes list"
  io_buf :: bytes
  io_out :: bytes

definition HANDSHAKE_RX_HARD_CAP :: nat where
  "HANDSHAKE_RX_HARD_CAP = 64 * 1024"

definition CHANNEL_BINDING_LEN :: nat where
  "CHANNEL_BINDING_LEN = 32"

text \<open>
  One turn of the loop of \<open>read_frame\<close> before it reads: \<open>None\<close> when more bytes are needed,
  otherwise what the call returns and the bytes left in the buffer.
\<close>

definition read_attempt :: "nat \<Rightarrow> bytes \<Rightarrow> ((AlphaError, Frame) rust \<times> bytes) option" where
  "read_attempt usize_max buf =
     (let more_needed = (if length buf \<ge> HANDSHAKE_RX_HARD_CAP then Some (Err Closed, buf) else None) in
      if buf = [] then more_needed
      else
        (case decode_frame usize_max buf of
           Ok (frame, consumed) \<Rightarrow> Some (Ok frame, drop consumed buf)
         | Err e \<Rightarrow> (case e of Short _ _ \<Rightarrow> more_needed | _ \<Rightarrow> Some (Err (WireErr e), buf))
         | Panic \<Rightarrow> Some (Panic, buf)))"

fun read_frame_loop :: "nat \<Rightarrow> bytes list \<Rightarrow> bytes \<Rightarrow> (AlphaError, Frame) rust \<times> bytes list \<times> bytes" where
  "read_frame_loop usize_max [] buf =
     (case read_attempt usize_max buf of
        Some (v, buf) \<Rightarrow> (v, [], buf)
      | None \<Rightarrow> (Err Closed, [], buf))"
| "read_frame_loop usize_max (chunk # reads) buf =
     (case read_attempt usize_max buf of
        Some (v, buf) \<Rightarrow> (v, chunk # reads, buf)
      | None \<Rightarrow>
          if chunk = [] then (Err Closed, reads, buf)
          else read_frame_loop usize_max reads (buf @ chunk))"

definition read_frame :: "nat \<Rightarrow> 'z hs_io_scheme \<Rightarrow> ('z hs_io_scheme, Frame) call" where
  "read_frame usize_max s =
     (case read_frame_loop usize_max (io_reads s) (io_buf s) of
        (v, reads, buf) \<Rightarrow> (v, s\<lparr>io_reads := reads, io_buf := buf\<rparr>))"

definition write_all :: "bytes \<Rightarrow> 'z hs_io_scheme \<Rightarrow> 'z hs_io_scheme" where
  "write_all bs s = s\<lparr>io_out := io_out s @ bs\<rparr>"

text \<open>Encoding and writing one handshake frame.\<close>

definition write_frame :: "u8 \<Rightarrow> bytes \<Rightarrow> 'z hs_io_scheme \<Rightarrow> ('z hs_io_scheme, unit) call" where
  "write_frame kind body s =
     st_bind (rust_map_err WireErr (encode_handshake kind body), s) (\<lambda>frame s. (Ok (), write_all frame s))"

definition hmac_sha256 :: "primitives \<Rightarrow> bytes \<Rightarrow> bytes \<Rightarrow> bytes" where
  "hmac_sha256 P key data = p_hmac P key data"

text \<open>The MAC of a Finished message: the key derived from a traffic secret, over a transcript hash.\<close>

definition finished_mac :: "primitives \<Rightarrow> bytes \<Rightarrow> bytes \<Rightarrow> (AlphaError, bytes) rust" where
  "finished_mac P secret th =
     rust_bind (rust_map_err CryptoErr (expand_label P secret (ascii ''finished'') [] 32)) (\<lambda>key.
     Ok (hmac_sha256 P key th))"

text \<open>The transcript before the first message: empty, or the labelled TLS channel binding.\<close>

definition bound_transcript :: "bytes option \<Rightarrow> Transcript" where
  "bound_transcript channel_binding =
     (case channel_binding of
        None \<Rightarrow> transcript_new
      | Some binding \<Rightarrow> transcript_update (ascii ''cb'' @ binding) transcript_new)"

section \<open>Sessions\<close>

text \<open>The two halves and what the handshake attests; metrics, peer address and duration are left out.\<close>

record AlphaSession =
  sess_sender :: AlphaSender
  sess_receiver :: AlphaReceiver
  sess_user_id :: "bytes option"
  sess_shape_seed :: "u32 option"
  sess_cover_profile_id :: "u16 option"

definition session_with_prefix ::
    "DirectionKeys \<Rightarrow> DirectionKeys \<Rightarrow> bytes \<Rightarrow> bytes \<Rightarrow> bytes \<Rightarrow> AlphaSession" where
  "session_with_prefix send_keys recv_keys send_secret recv_secret rx_prefix =
     \<lparr>sess_sender = sender_new send_keys send_secret,
      sess_receiver = receiver_with_prefix recv_keys recv_secret rx_prefix,
      sess_user_id = None, sess_shape_seed = None, sess_cover_profile_id = None\<rparr>"

definition with_user_id :: "bytes \<Rightarrow> AlphaSession \<Rightarrow> AlphaSession" where
  "with_user_id user_id s = s\<lparr>sess_user_id := Some user_id\<rparr>"

definition with_shape :: "u32 \<Rightarrow> u16 \<Rightarrow> AlphaSession \<Rightarrow> AlphaSession" where
  "with_shape seed cover s = s\<lparr>sess_shape_seed := Some seed, sess_cover_profile_id := Some cover\<rparr>"

definition with_dh_ratchet :: "bytes \<Rightarrow> bytes \<Rightarrow> AlphaSession \<Rightarrow> AlphaSession" where
  "with_dh_ratchet my_dh_sk peer_dh_pub s =
     s\<lparr>sess_sender := sender_install_dh_ratchet my_dh_sk peer_dh_pub (sess_sender s),
       sess_receiver := receiver_install_dh_ratchet my_dh_sk (sess_receiver s)\<rparr>"

section \<open>Client\<close>

record ClientConfig =
  cfg_server_mlkem_pk_bytes :: bytes
  cfg_server_x25519_pub :: bytes
  cfg_server_pq_fingerprint :: bytes
  cfg_client_id_sk :: bytes
  cfg_user_id :: bytes
  cfg_pow_difficulty :: u8
  cfg_profile_hint :: ProfileHint

definition client_config_new :: "bytes \<Rightarrow> bytes \<Rightarrow> bytes \<Rightarrow> bytes \<Rightarrow> bytes \<Rightarrow> ClientConfig" where
  "client_config_new mlkem_pk x25519 fingerprint id_sk user_id =
     \<lparr>cfg_server_mlkem_pk_bytes = mlkem_pk, cfg_server_x25519_pub = x25519, cfg_server_pq_fingerprint = fingerprint, cfg_client_id_sk = id_sk,
      cfg_user_id = user_id, cfg_pow_difficulty = 0, cfg_profile_hint = Alpha\<rparr>"

text \<open>What the client draws at random, in the order of the calls.\<close>

record client_coins =
  co_x25519 :: bytes
  co_kem :: bytes
  co_nonce :: bytes
  co_seed :: bytes
  co_cover :: u8

definition fresh_shape_params :: "client_coins \<Rightarrow> u32 \<times> u16" where
  "fresh_shape_params co = (word_of_nat (be_val (co_seed co)), SHAPES ! (unat (co_cover co) mod 5))"

definition kex_sig_msg :: "u8 \<Rightarrow> bytes \<Rightarrow> bytes \<Rightarrow> bytes \<Rightarrow> bytes" where
  "kex_sig_msg ver nonce x_pub ct = [ver] @ nonce @ x_pub @ ct"

text \<open>The user id, encrypted under a key derived from the fingerprint of the server.\<close>

definition encrypt_client_id :: "primitives \<Rightarrow> ClientConfig \<Rightarrow> bytes \<Rightarrow> (AlphaError, bytes) rust" where
  "encrypt_client_id P cfg nonce =
     rust_bind (rust_map_err CryptoErr
       (expand_label P (cfg_server_pq_fingerprint cfg) (ascii ''proteus-cid-key-v1'') [] 32)) (\<lambda>cid_key.
     rust_bind (rust_map_err CryptoErr
       (seal P cid_key (take 12 nonce) 0 (ascii ''proteus-cid-v1'') (cfg_user_id cfg))) (\<lambda>cid_ct.
     if length cid_ct \<noteq> CLIENT_ID_LEN then Err IoError else Ok cid_ct))"

definition client_extension ::
    "primitives \<Rightarrow> ClientConfig \<Rightarrow> client_coins \<Rightarrow> (nat \<Rightarrow> bool) \<Rightarrow> u64 \<Rightarrow> ClientEphemeral \<Rightarrow> (AlphaError, AuthExtension) rust" where
  "client_extension P cfg co expired now eph =
     (let nonce = co_nonce co; fp = cfg_server_pq_fingerprint cfg in
      rust_bind (encrypt_client_id P cfg nonce) (\<lambda>cid.
      let sig_bytes = sig_sign P (cfg_client_id_sk cfg)
            (kex_sig_msg PROTEUS_VERSION_V10 nonce (x25519_pub eph) (mlkem_ct eph)) in
      rust_bind (if cfg_pow_difficulty cfg = 0 then Ok (replicate 7 0)
                 else ok_or (solve_with_deadline P fp nonce (cfg_pow_difficulty cfg) expired) IoError) (\<lambda>pow_solution.
      let (seed, cover) = fresh_shape_params co;
          ext = \<lparr>version = PROTEUS_VERSION_V10, profile_hint = cfg_profile_hint cfg, client_nonce = nonce,
                 client_x25519_pub = x25519_pub eph, client_mlkem768_ct = mlkem_ct eph, client_id = cid,
                 timestamp_unix_seconds = now, cover_profile_id = cover, shape_seed = seed,
                 anti_dos_difficulty = cfg_pow_difficulty cfg, anti_dos_solution = pow_solution,
                 client_kex_sig = sig_bytes, client_kex_sig_pq = replicate 96 0,
                 auth_tag = replicate HMAC_TAG_LEN 0\<rparr>;
          auth_key = derive_auth_key P fp (client_x25519_pub ext) (client_nonce ext)
      in Ok (ext\<lparr>auth_tag := auth_tag_compute P auth_key (auth_mac_input ext)\<rparr>))))"

text \<open>After the ClientHello: check the server's two messages, answer with Finished, derive the session.\<close>

definition client_finish ::
    "primitives \<Rightarrow> ClientEphemeral \<Rightarrow> bytes \<Rightarrow> bytes \<Rightarrow> bytes \<Rightarrow> bytes \<Rightarrow> bytes \<Rightarrow> bytes
     \<Rightarrow> 'z hs_io_scheme \<Rightarrow> ('z hs_io_scheme, AlphaSession) call" where
  "client_finish P eph nonce ch_payload sh_body sf_body th_ch_sh combined_dh s =
     (let th_ch_sf = sha256 P (ch_payload @ sh_body @ sf_body) in
      st_bind (rust_map_err CryptoErr (derive P nonce combined_dh th_ch_sh th_ch_sh th_ch_sh), s) (\<lambda>provisional s.
      st_bind (finished_mac P (s_ap_secret provisional) th_ch_sh, s) (\<lambda>expected_sf s.
      if expected_sf \<noteq> sf_body then (Err BadServerFinished, s)
      else
        st_bind (finished_mac P (c_ap_secret provisional) th_ch_sf, s) (\<lambda>cf_mac s.
        st_bind (write_frame FRAME_CLIENT_FINISHED cf_mac s) (\<lambda>_ s.
        let th_ch_cf = sha256 P (ch_payload @ sh_body @ sf_body @ cf_mac) in
        st_bind (rust_map_err CryptoErr (derive P nonce combined_dh th_ch_sh th_ch_sf th_ch_cf), s) (\<lambda>final s.
        st_bind (rust_map_err CryptoErr (direction_keys P final), s) (\<lambda>(c_keys, s_keys) s.
        (Ok (with_dh_ratchet (x25519_sk eph) sh_body
               (session_with_prefix c_keys s_keys (c_ap_secret final) (s_ap_secret final) (io_buf s))), s))))))))"

definition client_await ::
    "primitives \<Rightarrow> nat \<Rightarrow> ClientEphemeral \<Rightarrow> bytes \<Rightarrow> bytes option \<Rightarrow> bytes
     \<Rightarrow> 'z hs_io_scheme \<Rightarrow> ('z hs_io_scheme, AlphaSession) call" where
  "client_await P usize_max eph nonce channel_binding ch_payload s =
     (let transcript = transcript_update ch_payload (bound_transcript channel_binding) in
      st_bind (read_frame usize_max s) (\<lambda>sh s.
      if frame_kind sh \<noteq> FRAME_SERVER_HELLO then (Err Closed, s)
      else if length (frame_body sh) \<noteq> 32 then (Err Closed, s)
      else
        let th_ch_sh = transcript_snapshot P (transcript_update (frame_body sh) transcript) in
        st_bind (rust_map_err CryptoErr (client_combine P eph (frame_body sh)), s) (\<lambda>combined_dh s.
        st_bind (read_frame usize_max s) (\<lambda>sf s.
        if frame_kind sf \<noteq> FRAME_SERVER_FINISHED then (Err Closed, s)
        else if length (frame_body sf) \<noteq> 32 then (Err BadServerFinished, s)
        else client_finish P eph nonce ch_payload (frame_body sh) (frame_body sf) th_ch_sh combined_dh s))))"

definition client_handshake ::
    "primitives \<Rightarrow> nat \<Rightarrow> ClientConfig \<Rightarrow> client_coins \<Rightarrow> (nat \<Rightarrow> bool) \<Rightarrow> u64 \<Rightarrow> bytes option
     \<Rightarrow> 'z hs_io_scheme \<Rightarrow> ('z hs_io_scheme, AlphaSession) call" where
  "client_handshake P usize_max cfg co expired now channel_binding s =
     (if length (cfg_server_mlkem_pk_bytes cfg) \<noteq> 1184 then (Err BadServerKey, s)
      else
        st_bind (rust_map_err CryptoErr (client_ephemeral P (co_x25519 co) (co_kem co) (cfg_server_mlkem_pk_bytes cfg)), s) (\<lambda>eph s.
        st_bind (client_extension P cfg co expired now eph, s) (\<lambda>ext s.
        st_bind (write_frame FRAME_CLIENT_HELLO (encode_payload ext) s) (\<lambda>_ s.
        client_await P usize_max eph (co_nonce co) channel_binding (encode_payload ext) s))))"

section \<open>Server\<close>

record ServerKeys =
  sk_mlkem_sk :: bytes
  sk_mlkem_pk_bytes :: bytes
  sk_pq_fingerprint :: bytes
  sk_x25519_sk :: bytes
  sk_x25519_pub :: bytes
  sk_client_allowlist :: "(bytes \<times> bytes) list"
  sk_client_id_aead_key :: bytes

text \<open>The ML-KEM key pair and the X25519 secret are what the generators returned.\<close>

definition server_keys_generate :: "primitives \<Rightarrow> bytes \<Rightarrow> bytes \<Rightarrow> bytes \<Rightarrow> (CryptoError, ServerKeys) rust" where
  "server_keys_generate P mlkem_sk mlkem_pk xsk =
     (let fp = sha256 P mlkem_pk in
      case expand_label P fp (ascii ''proteus-cid-key-v1'') [] 32 of
        Ok cid_key \<Rightarrow> Ok \<lparr>sk_mlkem_sk = mlkem_sk, sk_mlkem_pk_bytes = mlkem_pk, sk_pq_fingerprint = fp,
                        sk_x25519_sk = xsk, sk_x25519_pub = p_xpub P xsk,
                        sk_client_allowlist = [], sk_client_id_aead_key = cid_key\<rparr>
      | _ \<Rightarrow> Panic)"

definition server_allow :: "bytes \<Rightarrow> bytes \<Rightarrow> ServerKeys \<Rightarrow> ServerKeys" where
  "server_allow user_id pk k = k\<lparr>sk_client_allowlist := sk_client_allowlist k @ [(user_id, pk)]\<rparr>"

record ServerCtx =
  ctx_keys :: ServerKeys
  ctx_pow_difficulty :: u8

definition with_pow_difficulty :: "u8 \<Rightarrow> ServerCtx \<Rightarrow> ServerCtx" where
  "with_pow_difficulty d ctx = ctx\<lparr>ctx_pow_difficulty := min d 24\<rparr>"

text \<open>The connection of a server task with the replay window it shares with the others.\<close>

record srv_io = hs_io +
  srv_replay :: ReplayWindow

definition step_expect :: "HsState \<Rightarrow> HsEvent \<Rightarrow> (AlphaError, HsState) rust" where
  "step_expect st ev = (case hs_step st ev of Ok st' \<Rightarrow> Ok st' | _ \<Rightarrow> Panic)"

definition server_tag_ok :: "primitives \<Rightarrow> ServerCtx \<Rightarrow> AuthExtension \<Rightarrow> bool" where
  "server_tag_ok P ctx ext \<longleftrightarrow>
     (let auth_key = derive_auth_key P (sk_pq_fingerprint (ctx_keys ctx)) (client_x25519_pub ext) (client_nonce ext)
      in auth_tag_verify P auth_key (auth_mac_input ext) (auth_tag ext))"

definition server_pow_ok :: "primitives \<Rightarrow> ServerCtx \<Rightarrow> AuthExtension \<Rightarrow> bool" where
  "server_pow_ok P ctx ext \<longleftrightarrow>
     \<not> (ctx_pow_difficulty ctx > 0
        \<and> \<not> pow_verify P (sk_pq_fingerprint (ctx_keys ctx)) (client_nonce ext) (ctx_pow_difficulty ctx) (anti_dos_solution ext))"

definition server_replay_check :: "u64 \<Rightarrow> AuthExtension \<Rightarrow> 'z srv_io_scheme \<Rightarrow> Verdict \<times> 'z srv_io_scheme" where
  "server_replay_check now ext s =
     (case replay_check (srv_replay s) (unat now) (client_nonce ext) (unat (timestamp_unix_seconds ext)) of
        (v, w) \<Rightarrow> (v, s\<lparr>srv_replay := w\<rparr>))"

text \<open>The first checks: profile, authentication tag, puzzle, replay window.\<close>

definition server_authenticate ::
    "primitives \<Rightarrow> ServerCtx \<Rightarrow> u64 \<Rightarrow> bytes \<Rightarrow> 'z srv_io_scheme \<Rightarrow> ('z srv_io_scheme, AuthExtension \<times> HsState) call" where
  "server_authenticate P ctx now ch_body s =
     st_bind (rust_map_err WireErr (decode_payload ch_body), s) (\<lambda>ext s.
     st_bind (step_expect Init RecvClientHelloWithAuthExt, s) (\<lambda>state s.
     if profile_hint ext = Gamma then (Err (WireErr (BadProfileHint (profile_to_byte (profile_hint ext)))), s)
     else if \<not> server_tag_ok P ctx ext then (Err AuthTagInvalid, s)
     else
       st_bind (step_expect state AuthTagOk, s) (\<lambda>state s.
       if \<not> server_pow_ok P ctx ext then (Err AuthTagInvalid, s)
       else
         (case server_replay_check now ext s of
            (Accept, s) \<Rightarrow> (Ok (ext, state), s)
          | (Stale, s) \<Rightarrow> (Err AuthStale, s)
          | (Replay, s) \<Rightarrow> (Err AuthReplay, s)))))"

text \<open>
  Who the client is: the user id under the AEAD, and with an allowlist the first entry of that id,
  whose key has to verify the signature of the key exchange.
\<close>

definition server_open_uid :: "primitives \<Rightarrow> ServerCtx \<Rightarrow> AuthExtension \<Rightarrow> bytes option" where
  "server_open_uid P ctx ext =
     (case aead_open P (sk_client_id_aead_key (ctx_keys ctx)) (take 12 (client_nonce ext)) 0
             (ascii ''proteus-cid-v1'') (client_id ext) of
        Ok pt \<Rightarrow> if length pt \<noteq> 8 then None else Some pt
      | _ \<Rightarrow> None)"

definition server_match_user :: "primitives \<Rightarrow> ServerCtx \<Rightarrow> AuthExtension \<Rightarrow> bytes \<Rightarrow> bytes option" where
  "server_match_user P ctx ext claimed_uid =
     (if sk_client_allowlist (ctx_keys ctx) \<noteq> [] then
        (case find (\<lambda>(uid, _). uid = claimed_uid) (sk_client_allowlist (ctx_keys ctx)) of
           Some (uid, vk) \<Rightarrow>
             (case sig_verify P vk (kex_sig_msg (version ext) (client_nonce ext) (client_x25519_pub ext)
                     (client_mlkem768_ct ext)) (client_kex_sig ext) of
                Ok _ \<Rightarrow> Some uid | _ \<Rightarrow> None)
         | None \<Rightarrow> None)
      else Some claimed_uid)"

text \<open>ServerHello and Finished, the client's Finished, the session.\<close>

definition server_session ::
    "AuthExtension \<Rightarrow> bytes option \<Rightarrow> bytes \<Rightarrow> HandshakeSecrets \<Rightarrow> DirectionKeys \<times> DirectionKeys \<Rightarrow> bytes \<Rightarrow> AlphaSession" where
  "server_session ext matched_user_id eph_sk final keys rx_prefix =
     (case keys of (c_keys, s_keys) \<Rightarrow>
        let session = with_dh_ratchet eph_sk (client_x25519_pub ext)
              (with_shape (shape_seed ext) (cover_profile_id ext)
                (session_with_prefix s_keys c_keys (s_ap_secret final) (c_ap_secret final) rx_prefix))
        in (case matched_user_id of Some uid \<Rightarrow> with_user_id uid session | None \<Rightarrow> session))"

definition server_finish ::
    "primitives \<Rightarrow> nat \<Rightarrow> bytes option \<Rightarrow> bytes \<Rightarrow> bytes \<Rightarrow> AuthExtension \<Rightarrow> bytes option \<Rightarrow> bytes \<Rightarrow> HsState
     \<Rightarrow> 'z srv_io_scheme \<Rightarrow> ('z srv_io_scheme, AlphaSession) call" where
  "server_finish P usize_max channel_binding ch_body eph_sk ext matched_user_id combined state s =
     (let sh_body = p_xpub P eph_sk;
          th_ch_sh = transcript_snapshot P (transcript_update sh_body (transcript_update ch_body (bound_transcript channel_binding))) in
      st_bind (write_frame FRAME_SERVER_HELLO sh_body s) (\<lambda>_ s.
      st_bind (rust_map_err CryptoErr (derive P (client_nonce ext) combined th_ch_sh th_ch_sh th_ch_sh), s) (\<lambda>provisional s.
      st_bind (finished_mac P (s_ap_secret provisional) th_ch_sh, s) (\<lambda>sf_mac s.
      st_bind (write_frame FRAME_SERVER_FINISHED sf_mac s) (\<lambda>_ s.
      st_bind (step_expect state SecretsReady, s) (\<lambda>state s.
      st_bind (step_expect state ServerSendDone, s) (\<lambda>state s.
      st_bind (read_frame usize_max s) (\<lambda>cf s.
      if frame_kind cf \<noteq> FRAME_CLIENT_FINISHED then (Err Closed, s)
      else if length (frame_body cf) \<noteq> 32 then (Err BadClientFinished, s)
      else
        let th_ch_sf = sha256 P (ch_body @ sh_body @ sf_mac) in
        st_bind (finished_mac P (c_ap_secret provisional) th_ch_sf, s) (\<lambda>expected_cf s.
        if expected_cf \<noteq> frame_body cf then (Err BadClientFinished, s)
        else
          let th_ch_cf = sha256 P (ch_body @ sh_body @ sf_mac @ expected_cf) in
          st_bind (rust_map_err CryptoErr (derive P (client_nonce ext) combined th_ch_sh th_ch_sf th_ch_cf), s) (\<lambda>final s.
          st_bind (rust_map_err CryptoErr (direction_keys P final), s) (\<lambda>keys s.
          (Ok (server_session ext matched_user_id eph_sk final keys (io_buf s)), s))))))))))))"

definition server_handshake ::
    "primitives \<Rightarrow> nat \<Rightarrow> ServerCtx \<Rightarrow> bytes \<Rightarrow> u64 \<Rightarrow> bytes option \<Rightarrow> 'z srv_io_scheme \<Rightarrow> ('z srv_io_scheme, AlphaSession) call" where
  "server_handshake P usize_max ctx eph_sk now channel_binding s =
     st_bind (read_frame usize_max s) (\<lambda>ch s.
     if frame_kind ch \<noteq> FRAME_CLIENT_HELLO then (Err Closed, s)
     else
       st_bind (server_authenticate P ctx now (frame_body ch) s) (\<lambda>(ext, state) s.
       st_bind (rust_map_err CryptoErr (server_combine P eph_sk (sk_mlkem_sk (ctx_keys ctx)) (client_x25519_pub ext)
                  (client_mlkem768_ct ext)), s) (\<lambda>combined s.
       st_bind (step_expect state DecapsOk, s) (\<lambda>state s.
       (case server_open_uid P ctx ext of
          None \<Rightarrow> (Err AuthTagInvalid, s)
        | Some claimed_uid \<Rightarrow>
            (case server_match_user P ctx ext claimed_uid of
               None \<Rightarrow> (Err AuthTagInvalid, s)
             | Some uid \<Rightarrow> server_finish P usize_max channel_binding (frame_body ch) eph_sk ext (Some uid) combined state s))))))"

section \<open>The buffered server path\<close>

text \<open>
  The accept loop for plain TCP reads a ClientHello into a buffer first, so that on failure the
  caller could forward the bytes to the cover server.  A failure carries that buffer and the
  stream, if it is still in one piece (\<open>hf_stream\<close>).
\<close>

record HandshakeFailure =
  hf_buffer :: bytes
  hf_stream :: bool

type_synonym ('s, 'a) hf_call = "(HandshakeFailure, 'a) rust \<times> 's"

text \<open>\<open>match ... { Ok(x) => ..., Err(_) => return Err(failure) }\<close>.\<close>

fun or_fail :: "('e, 'a) rust \<times> 's \<Rightarrow> HandshakeFailure \<Rightarrow> ('a \<Rightarrow> 's \<Rightarrow> ('s, 'b) hf_call) \<Rightarrow> ('s, 'b) hf_call" where
  "or_fail (Ok a, s) h f = f a s"
| "or_fail (Err e, s) h f = (Err h, s)"
| "or_fail (Panic, s) h f = (Panic, s)"

definition lost_stream :: HandshakeFailure where
  "lost_stream = \<lparr>hf_buffer = [], hf_stream = False\<rparr>"

text \<open>The failure that carries the hello encoded again and what followed it.\<close>

definition fail_original :: "bytes \<Rightarrow> bytes \<Rightarrow> 's \<Rightarrow> ('s, 'a) hf_call" where
  "fail_original ch_body tail s =
     (case encode_handshake FRAME_CLIENT_HELLO ch_body of
        Ok original \<Rightarrow> (Err \<lparr>hf_buffer = original @ tail, hf_stream = False\<rparr>, s)
      | _ \<Rightarrow> (Panic, s))"

definition read_frame_drain :: "nat \<Rightarrow> 'z hs_io_scheme \<Rightarrow> ('z hs_io_scheme, Frame) call" where
  "read_frame_drain usize_max s = apfst (rust_map_err (\<lambda>_. IoError)) (read_frame usize_max s)"

definition prefix_finish ::
    "primitives \<Rightarrow> nat \<Rightarrow> bytes \<Rightarrow> bytes \<Rightarrow> AuthExtension \<Rightarrow> bytes \<Rightarrow> bytes
     \<Rightarrow> 'z srv_io_scheme \<Rightarrow> ('z srv_io_scheme, AlphaSession) hf_call" where
  "prefix_finish P usize_max ch_body eph_sk ext uid combined s =
     (let sh_body = p_xpub P eph_sk;
          th_ch_sh = transcript_snapshot P (transcript_update sh_body (transcript_update ch_body transcript_new)) in
      or_fail (write_frame FRAME_SERVER_HELLO sh_body s) lost_stream (\<lambda>_ s.
      or_fail (derive P (client_nonce ext) combined th_ch_sh th_ch_sh th_ch_sh, s) lost_stream (\<lambda>provisional s.
      or_fail (finished_mac P (s_ap_secret provisional) th_ch_sh, s) lost_stream (\<lambda>sf_mac s.
      or_fail (write_frame FRAME_SERVER_FINISHED sf_mac s) lost_stream (\<lambda>_ s.
      or_fail (read_frame_drain usize_max s) lost_stream (\<lambda>cf s.
      if frame_kind cf \<noteq> FRAME_CLIENT_FINISHED \<or> length (frame_body cf) \<noteq> 32 then (Err lost_stream, s)
      else
        let th_ch_sf = sha256 P (ch_body @ sh_body @ sf_mac) in
        or_fail (finished_mac P (c_ap_secret provisional) th_ch_sf, s) lost_stream (\<lambda>expected_cf s.
        if expected_cf \<noteq> frame_body cf then (Err lost_stream, s)
        else
          let th_ch_cf = sha256 P (ch_body @ sh_body @ sf_mac @ expected_cf) in
          or_fail (derive P (client_nonce ext) combined th_ch_sh th_ch_sf th_ch_cf, s) lost_stream (\<lambda>final s.
          or_fail (direction_keys P final, s) lost_stream (\<lambda>keys s.
          (Ok (server_session ext (Some uid) eph_sk final keys (io_buf s)), s))))))))))"

definition handshake_with_prefix ::
    "primitives \<Rightarrow> nat \<Rightarrow> ServerCtx \<Rightarrow> bytes \<Rightarrow> u64 \<Rightarrow> bytes \<Rightarrow> 'z srv_io_scheme \<Rightarrow> ('z srv_io_scheme, AlphaSession) hf_call" where
  "handshake_with_prefix P usize_max ctx eph_sk now prefix s =
     or_fail (decode_frame usize_max prefix, s) \<lparr>hf_buffer = prefix, hf_stream = False\<rparr> (\<lambda>(frame, consumed) s.
     let ch_body = frame_body frame; tail = drop consumed prefix in
     (case decode_payload ch_body of
        Err _ \<Rightarrow> fail_original ch_body tail s
      | Panic \<Rightarrow> (Panic, s)
      | Ok ext \<Rightarrow>
          if profile_hint ext = Gamma then fail_original ch_body tail s
          else if \<not> server_tag_ok P ctx ext then fail_original ch_body tail s
          else if \<not> server_pow_ok P ctx ext then fail_original ch_body tail s
          else
            (case server_replay_check now ext s of (verdict, s) \<Rightarrow>
               if verdict \<noteq> Accept then (Err lost_stream, s)
               else
                 or_fail (server_combine P eph_sk (sk_mlkem_sk (ctx_keys ctx)) (client_x25519_pub ext) (client_mlkem768_ct ext), s)
                   lost_stream (\<lambda>combined s.
                 (case server_open_uid P ctx ext of
                    None \<Rightarrow> fail_original ch_body tail s
                  | Some claimed_uid \<Rightarrow>
                      (case server_match_user P ctx ext claimed_uid of
                         None \<Rightarrow> (Err lost_stream, s)
                       | Some uid \<Rightarrow> prefix_finish P usize_max ch_body eph_sk ext uid combined (s\<lparr>io_buf := tail\<rparr>)))))))"

text \<open>Reading until a ClientHello is complete.\<close>

fun buffer_hello :: "nat \<Rightarrow> bytes list \<Rightarrow> bytes \<Rightarrow> (HandshakeFailure, bytes) rust \<times> bytes list" where
  "buffer_hello usize_max reads buf =
     (case decode_frame usize_max buf of
        Ok (frame, _) \<Rightarrow>
          (if frame_kind frame \<noteq> FRAME_CLIENT_HELLO then Err \<lparr>hf_buffer = buf, hf_stream = True\<rparr> else Ok buf, reads)
      | Panic \<Rightarrow> (Panic, reads)
      | Err e \<Rightarrow>
          (case e of
             Short _ _ \<Rightarrow>
               if length buf \<ge> HANDSHAKE_RX_HARD_CAP then (Err \<lparr>hf_buffer = buf, hf_stream = True\<rparr>, reads)
               else
                 (case reads of
                    [] \<Rightarrow> (Err \<lparr>hf_buffer = buf, hf_stream = False\<rparr>, [])
                  | chunk # reads \<Rightarrow>
                      if chunk = [] then (Err \<lparr>hf_buffer = buf, hf_stream = False\<rparr>, reads)
                      else buffer_hello usize_max reads (buf @ chunk))
           | _ \<Rightarrow> (Err \<lparr>hf_buffer = buf, hf_stream = True\<rparr>, reads)))"

declare buffer_hello.simps [simp del]

definition handshake_buffered ::
    "primitives \<Rightarrow> nat \<Rightarrow> ServerCtx \<Rightarrow> bytes \<Rightarrow> u64 \<Rightarrow> 'z srv_io_scheme \<Rightarrow> ('z srv_io_scheme, AlphaSession) hf_call" where
  "handshake_buffered P usize_max ctx eph_sk now s =
     (case buffer_hello usize_max (io_reads s) [] of
        (Ok buf, reads) \<Rightarrow> handshake_with_prefix P usize_max ctx eph_sk now buf (s\<lparr>io_reads := reads\<rparr>)
      | (Err h, reads) \<Rightarrow> (Err h, s\<lparr>io_reads := reads\<rparr>)
      | (Panic, reads) \<Rightarrow> (Panic, s\<lparr>io_reads := reads\<rparr>))"

end
