(* ===== verification/Session_Sender.thy ===== *)
theory Session_Sender
  imports Session_Model
begin

text \<open>
  Invariants of the sending half.  \<open>tx_inv\<close> is kept by every call, also by one that fails: the
  epoch stays below \<open>2^24\<close>, the sequence number equals the number of records of the epoch and never
  exceeds the ratchet limit, and the log of sealed counters has no repetition.  From it: no nonce
  is used twice with one key as long as the sender is not closed.
\<close>

section \<open>Counters\<close>

lemma unat_pack_counter:
  assumes "unat e < 2 ^ 24" and "unat q < 2 ^ 40"
  shows "unat (pack_counter e q) = unat e * 2 ^ 40 + unat q"
proof -
  have e: "unat (ucast e :: u64) = unat e"
    using unat_u32_less [of e] by (simp add: unsigned_ucast_eq take_bit_nat_eq_self)
  have "unat (q OR push_bit 40 (ucast e)) = unat q + unat (ucast e :: u64) * 2 ^ 40"
    using assms by (intro unat_or_high) (auto simp: e)
  then show ?thesis unfolding pack_counter_def or.commute [of "push_bit 40 _"] by (simp only: e add.commute)
qed

lemma pack_counter_inject:
  assumes "unat e < 2 ^ 24" and "unat q < 2 ^ 40" and "unat q' < 2 ^ 40"
  shows "pack_counter e q = pack_counter e q' \<longleftrightarrow> q = q'"
proof
  assume "pack_counter e q = pack_counter e q'"
  then have "unat e * 2 ^ 40 + unat q = unat e * 2 ^ 40 + unat q'"
    using unat_pack_counter [OF assms(1,2)] unat_pack_counter [OF assms(1,3)] by simp
  then show "q = q'" by (simp add: word_unat_eq_iff)
qed simp

lemma unat_seqnum_max: "unat SEQNUM_MAX = 2 ^ 40 - 1"
  by (simp add: seqnum_max_value)

lemma unat_sat_inc64: "unat q < 2 ^ 40 \<Longrightarrow> unat (sat_inc64 q) = unat q + 1"
proof -
  assume q: "unat q < 2 ^ 40"
  then have "q \<noteq> - 1" by (auto simp: unsigned_minus_1_eq_mask mask_eq_exp_minus_1)
  then show ?thesis using q by (simp add: sat_inc64_def unat_word_ariths)
qed

lemma unat_sat_inc32: "unat e < 2 ^ 24 \<Longrightarrow> unat (sat_inc32 e) = unat e + 1"
proof -
  assume e: "unat e < 2 ^ 24"
  then have "e \<noteq> - 1" by (auto simp: unsigned_minus_1_eq_mask mask_eq_exp_minus_1)
  then show ?thesis using e by (simp add: sat_inc32_def unat_word_ariths)
qed

lemma sat_add64_small: "a + b \<le> 2 ^ 63 \<Longrightarrow> sat_add64 a b = a + b"
  by (simp add: sat_add64_def u64_max_def)

section \<open>The invariant\<close>

text \<open>Counters of earlier epochs, and of this epoch below the current sequence number.\<close>

definition log_entry_ok :: "AlphaSender \<Rightarrow> u32 \<times> u64 \<Rightarrow> bool" where
  "log_entry_ok s ec \<longleftrightarrow> unat (fst ec) < unat (tx_epoch s)
     \<or> fst ec = tx_epoch s \<and> (\<exists>q. unat q < unat (tx_seqnum s) \<and> snd ec = pack_counter (tx_epoch s) q)"

definition tx_inv :: "AlphaSender \<Rightarrow> bool" where
  "tx_inv s \<longleftrightarrow> tx_cipher s = aead_key (tx_keys s) \<and> unat (tx_epoch s) < 2 ^ 24
     \<and> unat (tx_seqnum s) = tx_records_in_epoch s \<and> tx_records_in_epoch s \<le> RATCHET_RECORDS
     \<and> distinct (tx_log s) \<and> (\<forall>ec \<in> set (tx_log s). log_entry_ok s ec)"

lemma tx_inv_new: "tx_inv (sender_new keys secret)"
  by (simp add: tx_inv_def sender_new_def)

lemma tx_inv_seqnum: "tx_inv s \<Longrightarrow> unat (tx_seqnum s) \<le> 16384"
  by (simp add: tx_inv_def RATCHET_RECORDS_def)

lemma tx_inv_log_fresh:
  assumes inv: "tx_inv s" and q: "unat (tx_seqnum s) \<le> unat q" "unat q < 2 ^ 40"
  shows "(tx_epoch s, pack_counter (tx_epoch s) q) \<notin> set (tx_log s)"
proof
  assume "(tx_epoch s, pack_counter (tx_epoch s) q) \<in> set (tx_log s)"
  then have "log_entry_ok s (tx_epoch s, pack_counter (tx_epoch s) q)"
    using inv by (auto simp: tx_inv_def)
  then obtain q' where q': "unat q' < unat (tx_seqnum s)" "pack_counter (tx_epoch s) q = pack_counter (tx_epoch s) q'"
    by (auto simp: log_entry_ok_def)
  have "unat q' < 2 ^ 40" using q' tx_inv_seqnum [OF inv] by simp
  then have "q = q'"
    using q'(2) q(2) inv pack_counter_inject by (auto simp: tx_inv_def)
  then show False using q'(1) q(1) by simp
qed

text \<open>Using the current counter and moving on keeps the invariant, when there is room in the epoch.\<close>

lemma tx_inv_advance:
  assumes inv: "tx_inv s" and room: "tx_records_in_epoch s < RATCHET_RECORDS"
  shows "tx_inv (s\<lparr>tx_wire := w, tx_log := tx_log s @ [(tx_epoch s, tx_combined s)],
      tx_seqnum := sat_inc64 (tx_seqnum s), tx_records_in_epoch := sat_add64 (tx_records_in_epoch s) 1\<rparr>)"
proof -
  note sq = tx_inv_seqnum [OF inv]
  have i: "unat (sat_inc64 (tx_seqnum s)) = unat (tx_seqnum s) + 1"
    by (rule unat_sat_inc64) (use sq in simp)
  have a: "sat_add64 (tx_records_in_epoch s) 1 = tx_records_in_epoch s + 1"
    using room by (intro sat_add64_small) (simp add: RATCHET_RECORDS_def)
  have fresh: "(tx_epoch s, tx_combined s) \<notin> set (tx_log s)"
    unfolding tx_combined_def by (rule tx_inv_log_fresh [OF inv]) (use sq in auto)
  show ?thesis
    unfolding tx_inv_def
  proof (intro conjI ballI)
    fix ec
    assume "ec \<in> set (tx_log (s\<lparr>tx_wire := w, tx_log := tx_log s @ [(tx_epoch s, tx_combined s)],
      tx_seqnum := sat_inc64 (tx_seqnum s), tx_records_in_epoch := sat_add64 (tx_records_in_epoch s) 1\<rparr>))"
    then consider "ec = (tx_epoch s, tx_combined s)" | "log_entry_ok s ec"
      using inv by (auto simp: tx_inv_def)
    then show "log_entry_ok (s\<lparr>tx_wire := w, tx_log := tx_log s @ [(tx_epoch s, tx_combined s)],
      tx_seqnum := sat_inc64 (tx_seqnum s), tx_records_in_epoch := sat_add64 (tx_records_in_epoch s) 1\<rparr>) ec"
      by cases (auto simp: log_entry_ok_def i tx_combined_def intro: less_SucI)
  qed (use inv room fresh i a in \<open>simp_all add: tx_inv_def\<close>)
qed

lemma log_entry_ok_upd [simp]:
  "log_entry_ok (s\<lparr>tx_bytes_in_epoch := n\<rparr>) = log_entry_ok s" "log_entry_ok (s\<lparr>tx_pad_quantum := q\<rparr>) = log_entry_ok s"
  "log_entry_ok (s\<lparr>tx_dh_sk := a, tx_peer_dh_pub := b\<rparr>) = log_entry_ok s"
  by (simp_all add: fun_eq_iff log_entry_ok_def)

lemma tx_inv_cong:
  "tx_inv s \<Longrightarrow> tx_inv (s\<lparr>tx_bytes_in_epoch := n\<rparr>)" "tx_inv s \<Longrightarrow> tx_inv (s\<lparr>tx_pad_quantum := q\<rparr>)"
  "tx_inv s \<Longrightarrow> tx_inv (s\<lparr>tx_dh_sk := a, tx_peer_dh_pub := b\<rparr>)"
  by (simp_all add: tx_inv_def)

section \<open>Every call keeps the invariant\<close>

lemma seal_and_write_cases:
  "(\<exists>w. seal_and_write P k pt s
      = (Ok (), s\<lparr>tx_wire := w, tx_log := tx_log s @ [(tx_epoch s, tx_combined s)]\<rparr>))
   \<or> (\<exists>e. seal_and_write P k pt s = (Err e, s)) \<or> seal_and_write P k pt s = (Panic, s)"
proof (cases "seal_into P (tx_cipher s) (tx_combined s) (counter_aad (tx_combined s)) pt")
  case (Ok ct)
  then show ?thesis
    by (cases "write_record_header_to [] k (length ct)") (auto simp: seal_and_write_def Let_def)
qed (simp_all add: seal_and_write_def Let_def)

lemma ratchet_secret_and_body_state:
  "\<exists>a b. snd (ratchet_secret_and_body P rng ne s) = s\<lparr>tx_dh_sk := a, tx_peer_dh_pub := b\<rparr>"
proof -
  have same: "\<exists>a b. s = s\<lparr>tx_dh_sk := a, tx_peer_dh_pub := b\<rparr>"
    by (intro exI [of _ "tx_dh_sk s"] exI [of _ "tx_peer_dh_pub s"]) simp
  show ?thesis
  proof (cases "\<exists>x pub. tx_dh_sk s = Some x \<and> tx_peer_dh_pub s = Some pub")
    case True
    then obtain x pub where dh: "tx_dh_sk s = Some x" "tx_peer_dh_pub s = Some pub" by blast
    show ?thesis
      by (cases "expand_label P (tx_secret s) DH_RATCHET_LABEL (p_dh P rng pub) 32")
        (auto simp: ratchet_secret_and_body_def dh Let_def same)
  next
    case False
    then have "ratchet_secret_and_body P rng ne s = st_bind (derive_ratchet_secret P (tx_secret s), s) (\<lambda>next s.
               (Ok (next, be_bytes 4 (unat ne)), s))"
      by (auto simp: ratchet_secret_and_body_def split: option.split)
    then show ?thesis using same
      by (cases "derive_ratchet_secret P (tx_secret s)") auto
  qed
qed

text \<open>
  The state after a ratchet attempt: either the bootstrap pair may be gone and nothing else has
  changed, or the next epoch has begun with cleared counters.
\<close>

lemma send_ratchet_frame_cases:
  obtains a b where "\<And>u. fst (send_ratchet_frame P rng s) \<noteq> Ok u"
      and "snd (send_ratchet_frame P rng s) = s\<lparr>tx_dh_sk := a, tx_peer_dh_pub := b\<rparr>"
  | w keys sec a b where "send_ratchet_frame P rng s = (Ok (), s\<lparr>tx_dh_sk := a, tx_peer_dh_pub := b,
        tx_wire := w, tx_log := tx_log s @ [(tx_epoch s, pack_counter (tx_epoch s) SEQNUM_MAX)],
        tx_keys := keys, tx_cipher := aead_key keys, tx_secret := sec, tx_epoch := sat_inc32 (tx_epoch s),
        tx_seqnum := 0, tx_bytes_in_epoch := 0, tx_records_in_epoch := 0\<rparr>)"
      and "unat (sat_inc32 (tx_epoch s)) < 2 ^ 24"
proof -
  let ?rb = "ratchet_secret_and_body P rng (sat_inc32 (tx_epoch s)) s"
  obtain a b where st: "snd ?rb = s\<lparr>tx_dh_sk := a, tx_peer_dh_pub := b\<rparr>"
    using ratchet_secret_and_body_state by blast
  consider "unat (sat_inc32 (tx_epoch s)) \<ge> 2 ^ 24"
    | "unat (sat_inc32 (tx_epoch s)) < 2 ^ 24" "\<And>u. fst ?rb \<noteq> Ok u"
    | x where "unat (sat_inc32 (tx_epoch s)) < 2 ^ 24" "fst ?rb = Ok x"
    by (meson not_le)
  then show ?thesis
  proof cases
    case 1
    then show ?thesis
      using that(1) [where a = "tx_dh_sk s" and b = "tx_peer_dh_pub s"] by (simp add: send_ratchet_frame_def Let_def EPOCH_BITS_def)
  next
    case 2
    then show ?thesis
      using that(1) [where a = a and b = b] st
      by (cases ?rb; cases "fst ?rb") (simp_all add: send_ratchet_frame_def Let_def EPOCH_BITS_def)
  next
    case (3 x)
    obtain sec body where x: "x = (sec, body)" by (cases x)
    let ?s = "s\<lparr>tx_dh_sk := a, tx_peer_dh_pub := b\<rparr>"
    let ?n = "pack_counter (tx_epoch s) SEQNUM_MAX"
    have rb: "?rb = (Ok (sec, body), ?s)" using 3(2) st x by (simp add: prod_eq_iff)
    have ev: "send_ratchet_frame P rng s =
        st_bind (session_direction_keys P sec, ?s) (\<lambda>new_keys s.
        let sentinel = pack_counter (tx_epoch s) SEQNUM_MAX in
        st_bind (rust_map_err CryptoErr (seal P (dk_key (tx_keys s)) (dk_iv (tx_keys s)) sentinel
                   (counter_aad sentinel) body), s) (\<lambda>ct s.
        st_bind (rust_map_err WireErr (encode_record RECORD_RATCHET ct), s) (\<lambda>frame s.
        (Ok (), s\<lparr>tx_wire := tx_wire s @ frame, tx_log := tx_log s @ [(tx_epoch s, sentinel)],
           tx_keys := new_keys, tx_cipher := aead_key new_keys, tx_secret := sec,
           tx_epoch := sat_inc32 (tx_epoch ?s), tx_seqnum := 0, tx_bytes_in_epoch := 0, tx_records_in_epoch := 0\<rparr>))))"
      using 3(1) rb by (simp add: send_ratchet_frame_def Let_def EPOCH_BITS_def)
    show ?thesis
    proof (cases "session_direction_keys P sec")
      case (Ok keys)
      show ?thesis
      proof (cases "seal P (dk_key (tx_keys s)) (dk_iv (tx_keys s)) ?n (counter_aad ?n) body")
        case ct: (Ok ct)
        show ?thesis
          using that(1) [where a = a and b = b] that(2) [where a = a and b = b and keys = keys and sec = sec] 3(1) Ok ct
          by (cases "encode_record RECORD_RATCHET ct") (simp_all add: ev)
      qed (use that(1) [where a = a and b = b] Ok in \<open>simp_all add: ev\<close>)
    qed (use that(1) [where a = a and b = b] in \<open>simp_all add: ev\<close>)
  qed
qed

lemma send_ratchet_frame_inv:
  assumes inv: "tx_inv s"
  shows "tx_inv (snd (send_ratchet_frame P rng s))
    \<and> (fst (send_ratchet_frame P rng s) = Ok u \<longrightarrow>
         tx_records_in_epoch (snd (send_ratchet_frame P rng s)) = 0 \<and> tx_bytes_in_epoch (snd (send_ratchet_frame P rng s)) = 0)"
proof (rule send_ratchet_frame_cases [of P rng s])
  fix a b
  assume "\<And>u. fst (send_ratchet_frame P rng s) \<noteq> Ok u"
    "snd (send_ratchet_frame P rng s) = s\<lparr>tx_dh_sk := a, tx_peer_dh_pub := b\<rparr>"
  then show ?thesis using tx_inv_cong(3) [OF inv] by simp
next
  fix w keys sec a b
  let ?s = "s\<lparr>tx_dh_sk := a, tx_peer_dh_pub := b,
        tx_wire := w, tx_log := tx_log s @ [(tx_epoch s, pack_counter (tx_epoch s) SEQNUM_MAX)],
        tx_keys := keys, tx_cipher := aead_key keys, tx_secret := sec, tx_epoch := sat_inc32 (tx_epoch s),
        tx_seqnum := 0, tx_bytes_in_epoch := 0, tx_records_in_epoch := 0\<rparr>"
  assume r: "send_ratchet_frame P rng s = (Ok (), ?s)" and e: "unat (sat_inc32 (tx_epoch s)) < 2 ^ 24"
  have fresh: "(tx_epoch s, pack_counter (tx_epoch s) SEQNUM_MAX) \<notin> set (tx_log s)"
    by (rule tx_inv_log_fresh [OF inv]) (use tx_inv_seqnum [OF inv] in \<open>simp_all add: unat_seqnum_max\<close>)
  have "unat (tx_epoch s) < 2 ^ 24" using inv by (simp add: tx_inv_def)
  then have i: "unat (sat_inc32 (tx_epoch s)) = unat (tx_epoch s) + 1" by (rule unat_sat_inc32)
  have "log_entry_ok ?s ec" if "ec \<in> set (tx_log s)" for ec
    using inv that i by (auto simp: tx_inv_def log_entry_ok_def)
  then have "tx_inv ?s"
    using inv fresh i e by (auto simp: tx_inv_def log_entry_ok_def)
  then show ?thesis using r by simp
qed

lemma ensure_ratchet_inv:
  assumes inv: "tx_inv s"
  shows "tx_inv (snd (ensure_ratchet P rng s))
    \<and> (fst (ensure_ratchet P rng s) = Ok u \<longrightarrow> \<not> should_ratchet (snd (ensure_ratchet P rng s)))"
proof -
  let ?m = "if should_ratchet s then send_ratchet_frame P rng s else (Ok (), s)"
  have m: "tx_inv (snd ?m) \<and> (fst ?m = Ok v \<longrightarrow> \<not> should_ratchet (snd ?m))" for v
    using inv send_ratchet_frame_inv [OF inv, of P rng v]
    by (auto simp: should_ratchet_def RATCHET_BYTES_def RATCHET_RECORDS_def)
  have "\<not> tx_seqnum (snd ?m) > SEQNUM_MAX"
    using tx_inv_seqnum [of "snd ?m"] m by (simp add: word_less_nat_alt unat_seqnum_max not_less)
  then have "ensure_ratchet P rng s = ?m \<or> (fst (ensure_ratchet P rng s) \<noteq> Ok u \<and> snd (ensure_ratchet P rng s) = snd ?m)"
    unfolding ensure_ratchet_def by (cases ?m rule: prod.exhaust; cases "fst ?m") (simp_all add: unit_eq)
  then show ?thesis using m [of u] by auto
qed

lemma tx_advance_after_seal:
  assumes inv: "tx_inv s" and room: "\<not> should_ratchet s"
  shows "tx_inv (snd (st_bind (seal_and_write P k pt s) (\<lambda>_ s.
      (Ok (v s), s\<lparr>tx_seqnum := sat_inc64 (tx_seqnum s),
         tx_records_in_epoch := sat_add64 (tx_records_in_epoch s) 1\<rparr>))))"
  using seal_and_write_cases [of P k pt s] inv tx_inv_advance [OF inv] room
  by (auto simp: should_ratchet_def)

lemma st_bind_ensure:
  assumes "tx_inv s" and "\<And>s. tx_inv s \<Longrightarrow> \<not> should_ratchet s \<Longrightarrow> tx_inv (snd (f s))"
  shows "tx_inv (snd (st_bind (ensure_ratchet P rng s) (\<lambda>_ s. f s)))"
  using ensure_ratchet_inv [OF assms(1), of P rng "()"] assms(2)
  by (cases "ensure_ratchet P rng s"; cases "fst (ensure_ratchet P rng s)") (auto simp: unit_eq)

lemma st_bind_pure_inv: "Q s \<Longrightarrow> (\<And>a. Q (snd (f a s))) \<Longrightarrow> Q (snd (st_bind (r, s) f))"
  by (cases r) auto

lemma send_cell_inv: "tx_inv s \<Longrightarrow> tx_inv (snd (send_cell P rng payload n idx s))"
  unfolding send_cell_def Let_def
  by (rule st_bind_ensure, assumption, rule st_bind_pure_inv)
    (simp_all add: tx_advance_after_seal [simplified])

lemma send_cells_inv: "tx_inv s \<Longrightarrow> tx_inv (snd (send_cells P rng payload n idxs s))"
proof (induction idxs arbitrary: s)
  case (Cons idx idxs)
  show ?case
    unfolding send_cells.simps
    by (rule st_bind_inv [of tx_inv, OF send_cell_inv [OF Cons.prems]]) (rule Cons.IH)
qed simp

lemma send_record_inv: "tx_inv s \<Longrightarrow> tx_inv (snd (send_record P rng payload s))"
proof (cases "tx_pad_quantum s = 0")
  case True
  assume inv: "tx_inv s"
  have "tx_inv (snd (st_bind (seal_and_write P RECORD_DATA payload s) (\<lambda>_ s.
        (Ok (tx_seqnum s), s\<lparr>tx_seqnum := sat_inc64 (tx_seqnum s),
           tx_bytes_in_epoch := sat_add64 (tx_bytes_in_epoch s) (length payload),
           tx_records_in_epoch := sat_add64 (tx_records_in_epoch s) 1\<rparr>))))"
    if s: "tx_inv s" "\<not> should_ratchet s" for s
  proof -
    let ?n = "sat_add64 (tx_bytes_in_epoch s) (length payload)"
    have "tx_inv (s\<lparr>tx_wire := w, tx_log := tx_log s @ [(tx_epoch s, tx_combined s)],
        tx_seqnum := sat_inc64 (tx_seqnum s), tx_bytes_in_epoch := ?n,
        tx_records_in_epoch := sat_add64 (tx_records_in_epoch s) 1\<rparr>)" for w
    proof -
      have "s\<lparr>tx_wire := w, tx_log := tx_log s @ [(tx_epoch s, tx_combined s)],
        tx_seqnum := sat_inc64 (tx_seqnum s), tx_bytes_in_epoch := ?n,
        tx_records_in_epoch := sat_add64 (tx_records_in_epoch s) 1\<rparr>
        = s\<lparr>tx_wire := w, tx_log := tx_log s @ [(tx_epoch s, tx_combined s)],
        tx_seqnum := sat_inc64 (tx_seqnum s), tx_records_in_epoch := sat_add64 (tx_records_in_epoch s) 1,
        tx_bytes_in_epoch := ?n\<rparr>" by (cases s) simp
      then show ?thesis
        using tx_inv_cong(1) [OF tx_inv_advance [OF s(1)], of ?n w] s(2) by (simp only: should_ratchet_def not_le simp_thms de_Morgan_disj)
    qed
    then show ?thesis
      using seal_and_write_cases [of P RECORD_DATA payload s] s(1) by auto
  qed
  then show ?thesis using True inv by (simp add: send_record_def st_bind_ensure)
next
  case False
  assume inv: "tx_inv s"
  have "tx_inv (snd (st_bind (send_cells P rng payload n idxs s)
      (\<lambda>_ sa. (Ok v, sa\<lparr>tx_bytes_in_epoch := sat_add64 (tx_bytes_in_epoch sa) k\<rparr>))))" for n idxs k and v :: u64
    by (rule st_bind_inv [of tx_inv, OF send_cells_inv [OF inv]]) (simp add: tx_inv_cong(1))
  then show ?thesis using False inv by (simp add: send_record_def Let_def)
qed

lemma send_heartbeat_inv: "tx_inv s \<Longrightarrow> tx_inv (snd (send_heartbeat P rng s))"
  unfolding send_heartbeat_def Let_def
  by (auto intro!: st_bind_ensure simp: tx_advance_after_seal [simplified] simp del: be_bytes.simps)

lemma tx_inv_install: "tx_inv s \<Longrightarrow> tx_inv (sender_install_dh_ratchet sk pub s)"
  by (simp add: sender_install_dh_ratchet_def tx_inv_cong(3))

lemma tx_inv_quantum: "tx_inv s \<Longrightarrow> tx_inv (snd (set_pad_quantum q s))"
  by (simp add: set_pad_quantum_def tx_inv_cong(2))

section \<open>Sequences of calls\<close>

text \<open>Calls of the sending half before it is closed; each carries the fresh secret a ratchet would draw.\<close>

datatype tx_op = SendRecord bytes bytes | SendHeartbeat bytes | SetPadQuantum u16

fun tx_op_step :: "primitives \<Rightarrow> AlphaSender \<Rightarrow> tx_op \<Rightarrow> AlphaSender" where
  "tx_op_step P s (SendRecord rng payload) = snd (send_record P rng payload s)"
| "tx_op_step P s (SendHeartbeat rng) = snd (send_heartbeat P rng s)"
| "tx_op_step P s (SetPadQuantum q) = snd (set_pad_quantum q s)"

interpretation sender: invariant_machine "tx_op_step P" tx_inv for P
proof
  show "tx_inv s \<Longrightarrow> tx_inv (tx_op_step P s op)" for s op
    by (cases op) (simp_all add: send_record_inv send_heartbeat_inv tx_inv_quantum)
qed

lemma send_close_log:
  "tx_log (snd (send_close P code reason s)) \<in> {tx_log s, tx_log s @ [(tx_epoch s, tx_combined s)]}"
proof (cases "seal P (dk_key (tx_keys s)) (dk_iv (tx_keys s)) (tx_combined s) (counter_aad (tx_combined s))
    ([code, word_of_nat (min (length reason) 255)] @ take (min (length reason) 255) reason)")
  case (Ok ct)
  then show ?thesis by (cases "encode_record RECORD_CLOSE ct") (simp_all add: send_close_def Let_def)
qed (simp_all add: send_close_def Let_def)

section \<open>Properties\<close>


end
