(* ===== verification/Session_Delivery.thy ===== *)
theory Session_Delivery
  imports Session_Sender
begin

text \<open>
  The two halves together.  \<open>synced\<close> relates a sender and the receiver at the other end: same
  keys, secret, epoch and counter, and matching bootstrap secrets.  Each call of the sender
  \<open>emits\<close> frames which the receiver, frame by frame, turns into exactly the payloads sent, staying
  synced across ratchets; the receive loop does the same on the bytes, however the transport
  splits them.
\<close>

section \<open>Synchronised ends\<close>

definition synced :: "primitives \<Rightarrow> AlphaSender \<Rightarrow> AlphaReceiver \<Rightarrow> bool" where
  "synced P s r \<longleftrightarrow> rx_keys r = tx_keys s \<and> rx_cipher r = aead_key (tx_keys s) \<and> tx_cipher s = aead_key (tx_keys s)
     \<and> rx_secret r = tx_secret s \<and> rx_epoch r = tx_epoch s \<and> rx_next_seqnum r = tx_seqnum s
     \<and> unat (tx_epoch s) < 2 ^ 24
     \<and> (\<forall>x pub. tx_dh_sk s = Some x \<longrightarrow> tx_peer_dh_pub s = Some pub \<longrightarrow>
          (\<exists>sk. rx_dh_sk r = Some sk \<and> pub = p_xpub P sk))"

fun rx_feed :: "primitives \<Rightarrow> nat \<Rightarrow> Frame list \<Rightarrow> AlphaReceiver \<Rightarrow> (bytes list \<times> AlphaReceiver) option" where
  "rx_feed P um [] r = Some ([], r)"
| "rx_feed P um (f # fs) r =
     (case rx_dispatch P um (frame_kind f) (frame_body f) r of
        (RxContinue, r') \<Rightarrow> rx_feed P um fs r'
      | (RxDeliver b, r') \<Rightarrow>
          (case rx_feed P um fs r' of None \<Rightarrow> None | Some (bs, r'') \<Rightarrow> Some (b # bs, r''))
      | _ \<Rightarrow> None)"

lemma rx_feed_append:
  "rx_feed P um fs r = Some (bs, r1) \<Longrightarrow> rx_feed P um gs r1 = Some (cs, r2) \<Longrightarrow>
     rx_feed P um (fs @ gs) r = Some (bs @ cs, r2)"
proof (induction fs arbitrary: r bs)
  case (Cons f fs)
  obtain nx r' where d: "rx_dispatch P um (frame_kind f) (frame_body f) r = (nx, r')" by fastforce
  show ?case
    using Cons.prems Cons.IH [of r'] d
    by (cases nx) (auto split: option.splits)
qed simp

definition small_frame :: "Frame \<Rightarrow> bool" where
  "small_frame f \<longleftrightarrow> length (frame_bytes f) \<le> RX_BUF_HARD_CAP"

text \<open>
  Between \<open>s\<close> and \<open>s'\<close> the sender wrote frames that make a synced receiver, holding \<open>p\<close> of an
  unfinished record, deliver \<open>outs\<close> and hold \<open>p'\<close>.
\<close>

definition emits ::
    "primitives \<Rightarrow> nat \<Rightarrow> bytes \<Rightarrow> AlphaSender \<Rightarrow> AlphaSender \<Rightarrow> bytes list \<Rightarrow> bytes \<Rightarrow> bool" where
  "emits P um p s s' outs p' \<longleftrightarrow> tx_pad_quantum s' = tx_pad_quantum s \<and>
     (\<exists>fs. tx_wire s' = tx_wire s @ concat (map frame_bytes fs) \<and> list_all small_frame fs
        \<and> (\<forall>r. synced P s r \<longrightarrow> rx_pending r = p \<longrightarrow>
             (\<exists>r'. rx_feed P um fs r = Some (outs, r') \<and> synced P s' r' \<and> rx_pending r' = p')))"

lemma emits_refl: "emits P um p s s [] p"
  unfolding emits_def by (intro conjI refl exI [of _ "[]"]) simp_all

lemma emits_trans:
  assumes "emits P um p s s1 o1 p1" and "emits P um p1 s1 s2 o2 p2"
  shows "emits P um p s s2 (o1 @ o2) p2"
proof -
  obtain fs where fs: "tx_wire s1 = tx_wire s @ concat (map frame_bytes fs)" "list_all small_frame fs"
    "\<And>r. synced P s r \<Longrightarrow> rx_pending r = p \<Longrightarrow> \<exists>r'. rx_feed P um fs r = Some (o1, r') \<and> synced P s1 r' \<and> rx_pending r' = p1"
    using assms(1) unfolding emits_def by blast
  obtain gs where gs: "tx_wire s2 = tx_wire s1 @ concat (map frame_bytes gs)" "list_all small_frame gs"
    "\<And>r. synced P s1 r \<Longrightarrow> rx_pending r = p1 \<Longrightarrow> \<exists>r'. rx_feed P um gs r = Some (o2, r') \<and> synced P s2 r' \<and> rx_pending r' = p2"
    using assms(2) unfolding emits_def by blast
  have "\<exists>r'. rx_feed P um (fs @ gs) r = Some (o1 @ o2, r') \<and> synced P s2 r' \<and> rx_pending r' = p2"
    if "synced P s r" "rx_pending r = p" for r
    using fs(3) [OF that] gs(3) rx_feed_append by blast
  then show ?thesis
    using assms fs(1,2) gs(1,2) unfolding emits_def by (intro conjI exI [of _ "fs @ gs"]) auto
qed

lemma emits_one:
  assumes "tx_pad_quantum s' = tx_pad_quantum s" and "tx_wire s' = tx_wire s @ frame_bytes f" and "small_frame f"
    and "\<And>r. synced P s r \<Longrightarrow> rx_pending r = p \<Longrightarrow>
      \<exists>r'. rx_feed P um [f] r = Some (outs, r') \<and> synced P s' r' \<and> rx_pending r' = p'"
  shows "emits P um p s s' outs p'"
  using assms unfolding emits_def by (intro conjI exI [of _ "[f]"]) auto

section \<open>Sizes\<close>

lemma length_frame_bytes_le:
  "length (frame_body f) < 2 ^ 62 \<Longrightarrow> length (frame_bytes f) \<le> 9 + length (frame_body f)"
  using varint_len_cases [of "word_of_nat (length (frame_body f))"]
  by (auto simp: frame_bytes_def length_varint_bytes varint_legal_length)

lemma small_frameI: "length (frame_body f) \<le> RX_BUF_HARD_CAP - 9 \<Longrightarrow> small_frame f"
  using length_frame_bytes_le [of f] by (simp add: small_frame_def RX_BUF_HARD_CAP_def)

section \<open>Sealed records\<close>

lemma seal_and_write_Ok:
  assumes P: "prims_ok P" and w: "seal_and_write P k pt s = (Ok (), s')" and len: "length pt < 2 ^ 37"
  obtains ct where "s' = s\<lparr>tx_wire := tx_wire s @ frame_bytes \<lparr>frame_kind = k, frame_body = ct\<rparr>,
      tx_log := tx_log s @ [(tx_epoch s, tx_combined s)]\<rparr>"
    and "length ct = length pt + 16"
    and "open_in_place P (tx_cipher s) (tx_combined s) (counter_aad (tx_combined s)) ct = Ok pt"
proof -
  have "length pt < 2 ^ 38 - 64" using len by simp
  then obtain ct where ct: "p_encrypt P (ak_cipher (tx_cipher s)) (nonce_for (ak_iv (tx_cipher s)) (tx_combined s))
      (counter_aad (tx_combined s)) pt = Some ct" "length ct = length pt + 16"
    "p_decrypt P (ak_cipher (tx_cipher s)) (nonce_for (ak_iv (tx_cipher s)) (tx_combined s))
      (counter_aad (tx_combined s)) ct = Some pt"
    using prims_ok_encrypt [OF P] by blast
  have "length ct < 2 ^ 62" using ct(2) len by simp
  then have "write_record_header_to [] k (length ct) = Ok ([] @ k # varint_bytes (word_of_nat (length ct)))"
    by (rule write_record_header_bytes)
  then show ?thesis
    using that [of ct] ct w by (simp add: seal_and_write_def seal_into_def open_in_place_def frame_bytes_def Let_def)
qed

lemma synced_open:
  assumes "synced P s r"
  shows "pack_counter (rx_epoch r) (rx_next_seqnum r) = tx_combined s" and "rx_cipher r = tx_cipher s"
  using assms by (simp_all add: synced_def tx_combined_def)

text \<open>The receiver's state after a record under the current counter.\<close>

lemma synced_advance:
  assumes "synced P s r"
  shows "synced P (s\<lparr>tx_wire := w, tx_log := l, tx_seqnum := sat_inc64 (tx_seqnum s), tx_records_in_epoch := n\<rparr>)
      (r\<lparr>rx_next_seqnum := sat_inc64 (rx_next_seqnum r)\<rparr>)"
    and "synced P (s\<lparr>tx_bytes_in_epoch := m\<rparr>) r" and "synced P s (r\<lparr>rx_pending := p\<rparr>)"
  using assms by (simp_all add: synced_def)

lemma synced_bytes: "synced P (s\<lparr>tx_bytes_in_epoch := m\<rparr>) r \<longleftrightarrow> synced P s r"
  by (simp add: synced_def)

lemma emits_bytes: "emits P um p s (s'\<lparr>tx_bytes_in_epoch := m\<rparr>) outs p' \<longleftrightarrow> emits P um p s s' outs p'"
  by (simp add: emits_def synced_bytes)

section \<open>Ratchets\<close>

lemma counter_body4: "word_of_nat (be_val (take 4 (be_bytes 4 (unat e) @ x))) = (e :: u32)"
  using unat_u32_less [of e] by (simp del: be_bytes.simps)

lemma ratchet_body_agrees:
  assumes P: "prims_ok P" and sy: "synced P s r"
    and rb: "ratchet_secret_and_body P rng e s = (Ok (sec, body), s1)"
  shows "length body = 4 \<or> length body = 36"
    and "(word_of_nat (be_val (take 4 body)) :: u32) = e"
    and "recv_ratchet_secret P body r = (Ok sec, if length body = 36 then r\<lparr>rx_dh_sk := None\<rparr> else r)"
    and "length body = 36 \<longrightarrow> tx_dh_sk s1 = None"
    and "length body \<noteq> 36 \<longrightarrow> s1 = s"
    and "\<exists>a b. s1 = s\<lparr>tx_dh_sk := a, tx_peer_dh_pub := b\<rparr>"
proof -
  have sec: "rx_secret r = tx_secret s" using sy by (simp add: synced_def)
  show "\<exists>a b. s1 = s\<lparr>tx_dh_sk := a, tx_peer_dh_pub := b\<rparr>"
    using ratchet_secret_and_body_state [of P rng e s] rb by simp
  consider x pub where "tx_dh_sk s = Some x" "tx_peer_dh_pub s = Some pub"
    | "tx_dh_sk s = None \<or> tx_peer_dh_pub s = None" by (cases "tx_dh_sk s"; cases "tx_peer_dh_pub s") auto
  then have "(length body = 4 \<or> length body = 36) \<and> (word_of_nat (be_val (take 4 body)) :: u32) = e
    \<and> recv_ratchet_secret P body r = (Ok sec, if length body = 36 then r\<lparr>rx_dh_sk := None\<rparr> else r)
    \<and> (length body = 36 \<longrightarrow> tx_dh_sk s1 = None) \<and> (length body \<noteq> 36 \<longrightarrow> s1 = s)"
  proof cases
    case 1
    then obtain sk where sk: "rx_dh_sk r = Some sk" "pub = p_xpub P sk"
      using sy by (auto simp: synced_def)
    have dh: "p_dh P sk (p_xpub P rng) = p_dh P rng pub" using prims_okD(7) [OF P] sk(2) by simp
    have nz: "\<not> list_all (\<lambda>b. b = 0) (p_dh P rng pub)" using rb 1 by (auto simp: ratchet_secret_and_body_def Let_def)
    then have ex: "expand_label P (tx_secret s) DH_RATCHET_LABEL (p_dh P rng pub) 32 = Ok sec"
      and b: "body = be_bytes 4 (unat e) @ p_xpub P rng" and s1: "s1 = s\<lparr>tx_dh_sk := None, tx_peer_dh_pub := None\<rparr>"
      using rb 1 by (cases "expand_label P (tx_secret s) DH_RATCHET_LABEL (p_dh P rng pub) 32";
          simp add: ratchet_secret_and_body_def Let_def del: be_bytes.simps)+
    have lb: "length body = 36" "take 32 (drop 4 body) = p_xpub P rng"
      using prims_okD(4) [OF P, of rng] by (simp_all add: b del: be_bytes.simps)
    show ?thesis using nz ex dh counter_body4 [of e "p_xpub P rng"] by (simp add: recv_ratchet_secret_def lb sk sec Let_def s1) (simp add: b)
  next
    case 2
    then have ev: "ratchet_secret_and_body P rng e s = st_bind (derive_ratchet_secret P (tx_secret s), s) (\<lambda>next s.
               (Ok (next, be_bytes 4 (unat e)), s))"
      by (auto simp: ratchet_secret_and_body_def split: option.split)
    then have ex: "derive_ratchet_secret P (tx_secret s) = Ok sec" and b: "body = be_bytes 4 (unat e)" and s1: "s1 = s"
      using rb by (cases "derive_ratchet_secret P (tx_secret s)"; simp)+
    show ?thesis using counter_body4 [of e "[]"] ex by (simp add: recv_ratchet_secret_def b sec s1 del: be_bytes.simps)
  qed
  then show "length body = 4 \<or> length body = 36" "(word_of_nat (be_val (take 4 body)) :: u32) = e"
    "recv_ratchet_secret P body r = (Ok sec, if length body = 36 then r\<lparr>rx_dh_sk := None\<rparr> else r)"
    "length body = 36 \<longrightarrow> tx_dh_sk s1 = None" "length body \<noteq> 36 \<longrightarrow> s1 = s" by blast+
qed

lemma send_ratchet_frame_Ok:
  assumes "send_ratchet_frame P rng s = (Ok (), s')"
  obtains sec body a b keys ct frame where "unat (sat_inc32 (tx_epoch s)) < 2 ^ 24"
    and "ratchet_secret_and_body P rng (sat_inc32 (tx_epoch s)) s = (Ok (sec, body), s\<lparr>tx_dh_sk := a, tx_peer_dh_pub := b\<rparr>)"
    and "session_direction_keys P sec = Ok keys"
    and "seal P (dk_key (tx_keys s)) (dk_iv (tx_keys s)) (pack_counter (tx_epoch s) SEQNUM_MAX)
           (counter_aad (pack_counter (tx_epoch s) SEQNUM_MAX)) body = Ok ct"
    and "encode_record RECORD_RATCHET ct = Ok frame"
    and "s' = s\<lparr>tx_dh_sk := a, tx_peer_dh_pub := b, tx_wire := tx_wire s @ frame,
        tx_log := tx_log s @ [(tx_epoch s, pack_counter (tx_epoch s) SEQNUM_MAX)],
        tx_keys := keys, tx_cipher := aead_key keys, tx_secret := sec, tx_epoch := sat_inc32 (tx_epoch s),
        tx_seqnum := 0, tx_bytes_in_epoch := 0, tx_records_in_epoch := 0\<rparr>"
proof -
  let ?rb = "ratchet_secret_and_body P rng (sat_inc32 (tx_epoch s)) s"
  let ?n = "pack_counter (tx_epoch s) SEQNUM_MAX"
  have e: "unat (sat_inc32 (tx_epoch s)) < 2 ^ 24"
    using assms by (auto simp: send_ratchet_frame_def EPOCH_BITS_def Let_def split: if_splits)
  obtain a b where st: "snd ?rb = s\<lparr>tx_dh_sk := a, tx_peer_dh_pub := b\<rparr>"
    using ratchet_secret_and_body_state by blast
  have "\<exists>x. fst ?rb = Ok x"
    using assms e by (cases ?rb; cases "fst ?rb") (simp_all add: send_ratchet_frame_def EPOCH_BITS_def Let_def)
  then obtain sec body where rb: "?rb = (Ok (sec, body), s\<lparr>tx_dh_sk := a, tx_peer_dh_pub := b\<rparr>)"
    using st by (metis prod.collapse surj_pair)
  note ev = assms [unfolded send_ratchet_frame_def Let_def EPOCH_BITS_def if_not_P [OF e [folded not_le]] rb st_bind.simps prod.case]
  obtain keys where keys: "session_direction_keys P sec = Ok keys"
    using ev by (cases "session_direction_keys P sec") simp_all
  obtain ct where ct: "seal P (dk_key (tx_keys s)) (dk_iv (tx_keys s)) ?n (counter_aad ?n) body = Ok ct"
    using ev keys by (cases "seal P (dk_key (tx_keys s)) (dk_iv (tx_keys s)) ?n (counter_aad ?n) body") simp_all
  obtain frame where fr: "encode_record RECORD_RATCHET ct = Ok frame"
    using ev keys ct by (cases "encode_record RECORD_RATCHET ct") simp_all
  show ?thesis
    by (rule that [OF e rb keys ct fr]) (use ev keys ct fr in simp)
qed

lemma ratchet_emits:
  assumes P: "prims_ok P" and ok: "send_ratchet_frame P rng s = (Ok (), s')" and ep: "unat (tx_epoch s) < 2 ^ 24"
  shows "emits P um p s s' [] p"
proof -
  let ?n = "pack_counter (tx_epoch s) SEQNUM_MAX"
  obtain sec body a b keys ct frame where e: "unat (sat_inc32 (tx_epoch s)) < 2 ^ 24"
    and rb: "ratchet_secret_and_body P rng (sat_inc32 (tx_epoch s)) s = (Ok (sec, body), s\<lparr>tx_dh_sk := a, tx_peer_dh_pub := b\<rparr>)"
    and keys: "session_direction_keys P sec = Ok keys"
    and ct: "seal P (dk_key (tx_keys s)) (dk_iv (tx_keys s)) ?n (counter_aad ?n) body = Ok ct"
    and fr: "encode_record RECORD_RATCHET ct = Ok frame"
    and s': "s' = s\<lparr>tx_dh_sk := a, tx_peer_dh_pub := b, tx_wire := tx_wire s @ frame,
        tx_log := tx_log s @ [(tx_epoch s, ?n)],
        tx_keys := keys, tx_cipher := aead_key keys, tx_secret := sec, tx_epoch := sat_inc32 (tx_epoch s),
        tx_seqnum := 0, tx_bytes_in_epoch := 0, tx_records_in_epoch := 0\<rparr>"
    using send_ratchet_frame_Ok [OF ok] .
  have lb: "length body \<le> 36"
    using rb prims_okD(4) [OF P, of rng]
    by (auto simp: ratchet_secret_and_body_def Let_def derive_ratchet_secret_def split: option.splits if_splits
        elim!: st_bind.elims simp del: be_bytes.simps)
  then have "length body < 2 ^ 38 - 64" by simp
  then obtain c where "p_encrypt P (dk_key (tx_keys s)) (nonce_for (dk_iv (tx_keys s)) ?n) (counter_aad ?n) body = Some c"
    "length c = length body + 16" "p_decrypt P (dk_key (tx_keys s)) (nonce_for (dk_iv (tx_keys s)) ?n) (counter_aad ?n) c = Some body"
    using prims_ok_encrypt [OF P] by blast
  then have lct: "length ct = length body + 16"
    and op: "aead_open P (dk_key (tx_keys s)) (dk_iv (tx_keys s)) ?n (counter_aad ?n) ct = Ok body"
    using ct by (auto simp: seal_def aead_open_def)
  let ?f = "\<lparr>frame_kind = RECORD_RATCHET, frame_body = ct\<rparr>"
  have frame: "frame = frame_bytes ?f"
    using fr encode_record_bytes [of ct RECORD_RATCHET] lct lb by simp
  show ?thesis
  proof (rule emits_one)
    show "tx_pad_quantum s' = tx_pad_quantum s" "tx_wire s' = tx_wire s @ frame_bytes ?f" by (simp_all add: s' frame)
    show "small_frame ?f" by (rule small_frameI) (use lct lb in \<open>simp add: RX_BUF_HARD_CAP_def\<close>)
    fix r
    assume sy: "synced P s r" and pend: "rx_pending r = p"
    note agree = ratchet_body_agrees [OF P sy rb]
    let ?r = "(if length body = 36 then r\<lparr>rx_dh_sk := None\<rparr> else r)\<lparr>rx_keys := keys, rx_cipher := aead_key keys,
        rx_secret := sec, rx_epoch := sat_inc32 (tx_epoch s), rx_next_seqnum := 0\<rparr>"
    have n: "pack_counter (rx_epoch r) SEQNUM_MAX = ?n" "rx_keys r = tx_keys s" "rx_epoch r = tx_epoch s"
      using sy by (simp_all add: synced_def)
    have "apply_ratchet P ct r = (Ok (), ?r)"
      unfolding apply_ratchet_def Let_def n op rust_map_err.simps st_bind.simps agree(2)
      using agree(1) e keys agree(3) by (simp add: EPOCH_BITS_def)
    then have "rx_feed P um [?f] r = Some ([], ?r)"
      by (simp add: rx_dispatch_def RECORD_DATA_def RECORD_DATA_PADDED_def RECORD_RATCHET_def)
    moreover have "synced P s' ?r"
    proof (cases "length body = 36")
      case True
      then show ?thesis using sy e agree(4) by (simp add: synced_def s')
    next
      case False
      then have eq: "s\<lparr>tx_dh_sk := a, tx_peer_dh_pub := b\<rparr> = s" using agree(5) by simp
      have "a = tx_dh_sk s" "b = tx_peer_dh_pub s"
        using arg_cong [OF eq, of tx_dh_sk] arg_cong [OF eq, of tx_peer_dh_pub] by simp_all
      then show ?thesis using sy e False by (simp add: synced_def s')
    qed
    moreover have "rx_pending ?r = p" using pend by simp
    ultimately show "\<exists>r'. rx_feed P um [?f] r = Some ([], r') \<and> synced P s' r' \<and> rx_pending r' = p" by blast
  qed
qed

lemma send_ratchet_frame_epoch:
  "send_ratchet_frame P rng s = (Ok (), s') \<Longrightarrow> unat (tx_epoch s') < 2 ^ 24"
  by (erule send_ratchet_frame_Ok) simp

lemma ensure_ratchet_emits:
  assumes P: "prims_ok P" and ok: "ensure_ratchet P rng s = (Ok (), s')" and ep: "unat (tx_epoch s) < 2 ^ 24"
  shows "emits P um p s s' [] p \<and> unat (tx_epoch s') < 2 ^ 24"
proof -
  let ?m = "if should_ratchet s then send_ratchet_frame P rng s else (Ok (), s)"
  obtain s1 where m: "?m = (Ok (), s1)"
    using ok by (cases ?m; cases "fst ?m") (simp_all add: ensure_ratchet_def)
  have 1: "emits P um p s s1 [] p \<and> unat (tx_epoch s1) < 2 ^ 24"
    using m ep ratchet_emits [OF P _ ep] send_ratchet_frame_epoch emits_refl by (auto split: if_splits)
  have "(if tx_seqnum s1 > SEQNUM_MAX then send_ratchet_frame P rng s1 else (Ok (), s1)) = (Ok (), s')"
    using ok m by (simp add: ensure_ratchet_def)
  then have 2: "emits P um p s1 s' [] p \<and> unat (tx_epoch s') < 2 ^ 24"
    using 1 ratchet_emits [OF P, of rng s1] send_ratchet_frame_epoch emits_refl by (auto split: if_splits)
  show ?thesis using emits_trans [of P um p s s1 "[]" p s' "[]" p] 1 2 by simp
qed

section \<open>Records and cells\<close>

abbreviation tx_advance :: "AlphaSender \<Rightarrow> AlphaSender" where
  "tx_advance s \<equiv> s\<lparr>tx_seqnum := sat_inc64 (tx_seqnum s), tx_records_in_epoch := sat_add64 (tx_records_in_epoch s) 1\<rparr>"

lemma data_emits:
  assumes P: "prims_ok P" and w: "seal_and_write P RECORD_DATA payload s = (Ok (), s1)"
    and len: "length payload + 25 \<le> RX_BUF_HARD_CAP"
  shows "emits P um p s (tx_advance s1) [payload] p"
proof -
  have "length payload < 2 ^ 37" using len by (simp add: RX_BUF_HARD_CAP_def)
  then obtain ct where s1: "s1 = s\<lparr>tx_wire := tx_wire s @ frame_bytes \<lparr>frame_kind = RECORD_DATA, frame_body = ct\<rparr>,
      tx_log := tx_log s @ [(tx_epoch s, tx_combined s)]\<rparr>"
    and ct: "length ct = length payload + 16"
    and op: "open_in_place P (tx_cipher s) (tx_combined s) (counter_aad (tx_combined s)) ct = Ok payload"
    using seal_and_write_Ok [OF P w] by blast
  let ?f = "\<lparr>frame_kind = RECORD_DATA, frame_body = ct\<rparr>"
  show ?thesis
  proof (rule emits_one [where f = ?f])
    show "small_frame ?f" by (rule small_frameI) (use ct len in simp)
    fix r
    assume sy: "synced P s r" and pend: "rx_pending r = p"
    have "rx_feed P um [?f] r = Some ([payload], r\<lparr>rx_next_seqnum := sat_inc64 (rx_next_seqnum r)\<rparr>)"
      by (simp add: rx_dispatch_def rx_data_def synced_open [OF sy] op Let_def)
    moreover have "synced P (tx_advance s1) (r\<lparr>rx_next_seqnum := sat_inc64 (rx_next_seqnum r)\<rparr>)"
      using synced_advance(1) [OF sy] by (simp add: s1)
    ultimately show "\<exists>r'. rx_feed P um [?f] r = Some ([payload], r') \<and> synced P (tx_advance s1) r' \<and> rx_pending r' = p"
      using pend by auto
  qed (simp_all add: s1)
qed

text \<open>What the receiver makes of the plaintext of a cell, holding \<open>p\<close>.\<close>

definition cell_outcome :: "nat \<Rightarrow> bytes \<Rightarrow> bytes \<Rightarrow> bytes list \<Rightarrow> bytes \<Rightarrow> bool" where
  "cell_outcome um p pt outs p' \<longleftrightarrow>
     (\<exists>chunk. pt = be_bytes 4 CONTINUATION_SENTINEL @ chunk \<and> length p + length chunk \<le> min um RX_BUF_HARD_CAP
        \<and> outs = [] \<and> p' = p @ chunk)
   \<or> (\<exists>zeros. pt = be_bytes 4 HEARTBEAT_SENTINEL @ zeros \<and> outs = [] \<and> p' = p)
   \<or> (\<exists>chunk zeros. pt = be_bytes 4 (length chunk) @ chunk @ zeros \<and> length chunk < 2 ^ 16 \<and> 2 ^ 16 + 4 \<le> um
        \<and> outs = [p @ chunk] \<and> p' = [])"

lemma be_val_prefix4: "v < 2 ^ 32 \<Longrightarrow> be_val (take 4 (be_bytes 4 v @ x)) = v"
  by (simp del: be_bytes.simps)

lemma rx_cell_outcome:
  assumes sy: "synced P s r" and pend: "rx_pending r = p" and out: "cell_outcome um p pt outs p'"
    and op: "open_in_place P (tx_cipher s) (tx_combined s) (counter_aad (tx_combined s)) ct = Ok pt"
  shows "\<exists>nx. rx_cell P um ct r = (nx, r\<lparr>rx_next_seqnum := sat_inc64 (rx_next_seqnum r), rx_pending := p'\<rparr>)
    \<and> (nx = RxContinue \<and> outs = [] \<or> (\<exists>b. nx = RxDeliver b \<and> outs = [b]))"
proof -
  have same: "r\<lparr>rx_next_seqnum := q, rx_pending := p\<rparr> = r\<lparr>rx_next_seqnum := q\<rparr>" for q
    using pend by (cases r) simp
  consider (cont) chunk where "pt = be_bytes 4 CONTINUATION_SENTINEL @ chunk" "length p + length chunk \<le> min um RX_BUF_HARD_CAP"
      "outs = []" "p' = p @ chunk"
    | (beat) zeros where "pt = be_bytes 4 HEARTBEAT_SENTINEL @ zeros" "outs = []" "p' = p"
    | (last) chunk zeros where "pt = be_bytes 4 (length chunk) @ chunk @ zeros" "length chunk < 2 ^ 16" "2 ^ 16 + 4 \<le> um"
      "outs = [p @ chunk]" "p' = []"
    using out unfolding cell_outcome_def by blast
  then show ?thesis
  proof cases
    case cont
    have v: "be_val (take 4 pt) = CONTINUATION_SENTINEL" unfolding cont(1)
      by (rule be_val_prefix4) (simp add: CONTINUATION_SENTINEL_def)
    have "drop 4 pt = chunk" "length pt = 4 + length chunk" by (simp_all add: cont(1) del: be_bytes.simps)
    then show ?thesis
      using cont(2-4) pend
      by (simp add: rx_cell_def synced_open [OF sy] op Let_def v CONTINUATION_SENTINEL_def HEARTBEAT_SENTINEL_def checked_add_def)
  next
    case beat
    have v: "be_val (take 4 pt) = HEARTBEAT_SENTINEL" unfolding beat(1)
      by (rule be_val_prefix4) (simp add: HEARTBEAT_SENTINEL_def)
    have "length pt = 4 + length zeros" by (simp add: beat(1) del: be_bytes.simps)
    then show ?thesis
      using beat(2,3) by (simp add: rx_cell_def synced_open [OF sy] op Let_def v same)
  next
    case last
    have v: "be_val (take 4 pt) = length chunk" unfolding last(1)
      by (rule be_val_prefix4) (use last(2) in simp)
    have "take (length chunk) (drop 4 pt) = chunk" "length pt = 4 + length chunk + length zeros"
      by (simp_all add: last(1) del: be_bytes.simps)
    then show ?thesis
      using last(2-5) pend
      by (simp add: rx_cell_def synced_open [OF sy] op Let_def v CONTINUATION_SENTINEL_def HEARTBEAT_SENTINEL_def checked_add_def)
  qed
qed

lemma cell_emits:
  assumes P: "prims_ok P" and w: "seal_and_write P RECORD_DATA_PADDED pt s = (Ok (), s1)"
    and len: "length pt < 2 ^ 16" and out: "cell_outcome um p pt outs p'"
  shows "emits P um p s (tx_advance s1) outs p'"
proof -
  have "length pt < 2 ^ 37" using len by simp
  then obtain ct where s1: "s1 = s\<lparr>tx_wire := tx_wire s @ frame_bytes \<lparr>frame_kind = RECORD_DATA_PADDED, frame_body = ct\<rparr>,
      tx_log := tx_log s @ [(tx_epoch s, tx_combined s)]\<rparr>"
    and ct: "length ct = length pt + 16"
    and op: "open_in_place P (tx_cipher s) (tx_combined s) (counter_aad (tx_combined s)) ct = Ok pt"
    using seal_and_write_Ok [OF P w] by blast
  let ?f = "\<lparr>frame_kind = RECORD_DATA_PADDED, frame_body = ct\<rparr>"
  show ?thesis
  proof (rule emits_one [where f = ?f])
    show "small_frame ?f" by (rule small_frameI) (use ct len in \<open>simp add: RX_BUF_HARD_CAP_def\<close>)
    fix r
    assume sy: "synced P s r" and pend: "rx_pending r = p"
    let ?r = "r\<lparr>rx_next_seqnum := sat_inc64 (rx_next_seqnum r), rx_pending := p'\<rparr>"
    obtain nx where c: "rx_cell P um ct r = (nx, ?r)" "nx = RxContinue \<and> outs = [] \<or> (\<exists>b. nx = RxDeliver b \<and> outs = [b])"
      using rx_cell_outcome [OF sy pend out op] by blast
    have "rx_feed P um [?f] r = Some (outs, ?r)"
      using c by (auto simp: rx_dispatch_def RECORD_DATA_def RECORD_DATA_PADDED_def)
    moreover have "synced P (tx_advance s1) ?r"
      using synced_advance(3) [OF synced_advance(1) [OF sy]] by (simp add: s1)
    ultimately show "\<exists>r'. rx_feed P um [?f] r = Some (outs, r') \<and> synced P (tx_advance s1) r' \<and> rx_pending r' = p'"
      by auto
  qed (simp_all add: s1)
qed

lemma st_bind_Ok_iff: "st_bind m f = (Ok b, s') \<longleftrightarrow> (\<exists>a s. m = (Ok a, s) \<and> f a s = (Ok b, s'))"
  by (cases "(m, f)" rule: st_bind.cases) auto

lemma ensure_quantum: "emits P um p s s' outs p' \<Longrightarrow> tx_pad_quantum s' = tx_pad_quantum s"
  by (simp add: emits_def)

lemma seal_and_write_epoch:
  "seal_and_write P k pt s = (Ok (), s1) \<Longrightarrow> tx_epoch s1 = tx_epoch s"
  using seal_and_write_cases [of P k pt s] by auto

lemma send_heartbeat_emits:
  assumes P: "prims_ok P" and ok: "send_heartbeat P rng s = (Ok (), s')" and ep: "unat (tx_epoch s) < 2 ^ 24"
  shows "emits P um p s s' [] p \<and> unat (tx_epoch s') < 2 ^ 24"
proof -
  obtain s1 where e: "ensure_ratchet P rng s = (Ok (), s1)"
    and r: "(let quantum = unat (tx_pad_quantum s1) in
        if quantum < 4 then (Panic, s1)
        else
          let plaintext = copy_into (replicate quantum 0) 0 (be_bytes 4 HEARTBEAT_SENTINEL) in
          st_bind (seal_and_write P RECORD_DATA_PADDED plaintext s1) (\<lambda>_ s. (Ok (), tx_advance s))) = (Ok (), s')"
    using ok by (auto simp: send_heartbeat_def st_bind_Ok_iff split: if_splits)
  note em = ensure_ratchet_emits [OF P e ep, of um p]
  let ?q = "unat (tx_pad_quantum s1)"
  let ?pt = "copy_into (replicate ?q 0) 0 (be_bytes 4 HEARTBEAT_SENTINEL)"
  obtain s2 where w: "seal_and_write P RECORD_DATA_PADDED ?pt s1 = (Ok (), s2)" and s': "s' = tx_advance s2" and q: "4 \<le> ?q"
    using r by (auto simp: Let_def st_bind_Ok_iff split: if_splits)
  have pt: "?pt = be_bytes 4 HEARTBEAT_SENTINEL @ replicate (?q - 4) 0"
    by (simp add: copy_into_def del: be_bytes.simps)
  have "cell_outcome um p ?pt [] p" unfolding cell_outcome_def pt by blast
  moreover have "length ?pt < 2 ^ 16" using q unat_u16_less [of "tx_pad_quantum s1"] by (simp add: pt del: be_bytes.simps)
  ultimately have "emits P um p s1 s' [] p" unfolding s' using cell_emits [OF P w] by blast
  then show ?thesis
    using em emits_trans [of P um p s s1 "[]" p s' "[]" p] seal_and_write_epoch [OF w] by (simp add: s')
qed

text \<open>Where the cells of a record of length \<open>L\<close> lie.\<close>

lemma cells_cover:
  assumes "0 < c" and "n = max (div_ceil L c) 1" and "i < n"
  shows "Suc i = n \<Longrightarrow> i * c \<le> L \<and> L - i * c \<le> c" and "Suc i \<noteq> n \<Longrightarrow> i * c + c \<le> L"
proof -
  have L: "L = L div c * c + L mod c" by (rule div_mult_mod_eq [symmetric])
  have m: "L mod c < c" using assms(1) by simp
  have "L mod c = 0 \<Longrightarrow> L \<noteq> 0 \<Longrightarrow> 1 \<le> L div c" using L by (cases "L div c") auto
  then have n: "n = (if L mod c = 0 \<and> L \<noteq> 0 then L div c else L div c + 1)"
    using assms(1,2) by (auto simp: div_ceil_def)
  show "Suc i = n \<Longrightarrow> i * c \<le> L \<and> L - i * c \<le> c"
  proof -
    assume i: "Suc i = n"
    show ?thesis
    proof (cases "L mod c = 0 \<and> L \<noteq> 0")
      case True
      then have "L = i * c + c" using i n L by (metis add.commute add.right_neutral mult_Suc)
      then show ?thesis by simp
    next
      case False
      then have "n = L div c + 1" using n by (auto split: if_splits)
      then have "i = L div c" using i by simp
      then have "L = i * c + L mod c" using L by metis
      then show ?thesis using m by linarith
    qed
  qed
  show "Suc i \<noteq> n \<Longrightarrow> i * c + c \<le> L"
  proof -
    assume "Suc i \<noteq> n"
    then have "Suc i \<le> L div c" using assms(3) n by (auto split: if_splits)
    then have "Suc i * c \<le> L div c * c" by (rule mult_le_mono1)
    then have "i * c + c \<le> L div c * c" by simp
    then show ?thesis using L by linarith
  qed
qed

lemma send_cell_emits:
  assumes P: "prims_ok P" and ok: "send_cell P rng payload n i s = (Ok (), s')"
    and ep: "unat (tx_epoch s) < 2 ^ 24" and q: "8 \<le> unat (tx_pad_quantum s)"
    and c: "c = unat (tx_pad_quantum s) - 4" and n: "n = max (div_ceil (length payload) c) 1" and i: "i < n"
    and cap: "length payload \<le> RX_BUF_HARD_CAP" "RX_BUF_HARD_CAP \<le> um"
  shows "emits P um (take (i * c) payload) s s' (if Suc i = n then [payload] else [])
      (if Suc i = n then [] else take (Suc i * c) payload) \<and> unat (tx_epoch s') < 2 ^ 24"
proof -
  let ?q = "unat (tx_pad_quantum s)" and ?p = "take (i * c) payload"
  have c0: "0 < c" using q c by simp
  note cover = cells_cover [OF c0 n i]
  define chunk where "chunk = (if Suc i = n then drop (i * c) payload else take c (drop (i * c) payload))"
  define pt where "pt = (if Suc i = n then be_bytes 4 (length chunk) @ chunk @ replicate (?q - (4 + length chunk)) 0
             else be_bytes 4 CONTINUATION_SENTINEL @ chunk)"
  have sl: "Suc i = n \<Longrightarrow> slice payload (i * c) (length payload) = (Ok chunk :: (AlphaError, bytes) rust)"
    "Suc i \<noteq> n \<Longrightarrow> slice payload (i * c) (i * c + c) = (Ok chunk :: (AlphaError, bytes) rust)"
    using cover by (simp_all add: slice_def slice_get_def chunk_def)
  have ev: "send_cell P rng payload n i s = st_bind (ensure_ratchet P rng s) (\<lambda>_ s1.
      if length pt \<noteq> ?q then (Panic, s1)
      else st_bind (seal_and_write P RECORD_DATA_PADDED pt s1) (\<lambda>_ s. (Ok (), tx_advance s)))"
    unfolding send_cell_def Let_def c [symmetric] pt_def
    using sl by (cases "Suc i = n") (simp_all del: be_bytes.simps)
  obtain s1 where e: "ensure_ratchet P rng s = (Ok (), s1)"
    and r: "(if length pt \<noteq> ?q then (Panic, s1)
      else st_bind (seal_and_write P RECORD_DATA_PADDED pt s1) (\<lambda>_ s. (Ok (), tx_advance s))) = (Ok (), s')"
    using ok unfolding ev st_bind_Ok_iff by auto
  note em = ensure_ratchet_emits [OF P e ep, of um ?p]
  obtain s2 where w: "seal_and_write P RECORD_DATA_PADDED pt s1 = (Ok (), s2)" and s': "s' = tx_advance s2"
    and lp: "length pt = ?q"
    using r by (auto simp: st_bind_Ok_iff split: if_splits simp del: be_bytes.simps)
  have len: "length pt < 2 ^ 16" using lp unat_u16_less [of "tx_pad_quantum s"] by simp
  have "cell_outcome um ?p pt (if Suc i = n then [payload] else []) (if Suc i = n then [] else take (Suc i * c) payload)"
  proof (cases "Suc i = n")
    case True
    have "length (drop (i * c) payload) < 2 ^ 16"
    proof -
      have "length payload - i * c \<le> c" using cover(1) [OF True] by simp
      then show ?thesis using c unat_u16_less [of "tx_pad_quantum s"] by simp
    qed
    moreover have "?p @ drop (i * c) payload = payload" by simp
    moreover have "2 ^ 16 + 4 \<le> um" using cap(2) by (simp add: RX_BUF_HARD_CAP_def)
    ultimately show ?thesis
      using True unfolding cell_outcome_def pt_def chunk_def
      by (intro disjI2 exI [of _ "drop (i * c) payload"]
          exI [of _ "replicate (?q - (4 + length (drop (i * c) payload))) 0"]) simp
  next
    case False
    have "Suc i * c = i * c + c" by simp
    then have "take (Suc i * c) payload = ?p @ take c (drop (i * c) payload)"
      by (simp only: take_add)
    moreover have "length ?p + length (take c (drop (i * c) payload)) \<le> min um RX_BUF_HARD_CAP"
      using cover(2) [OF False] cap by simp
    ultimately show ?thesis using False unfolding cell_outcome_def pt_def chunk_def by auto
  qed
  then have "emits P um ?p s1 s' (if Suc i = n then [payload] else []) (if Suc i = n then [] else take (Suc i * c) payload)"
    unfolding s' using cell_emits [OF P w len] by blast
  then show ?thesis
    using em emits_trans [of P um ?p s s1 "[]" ?p s'] seal_and_write_epoch [OF w] by (simp add: s')
qed

lemma send_cells_emits:
  assumes P: "prims_ok P" and "8 \<le> unat (tx_pad_quantum s)" and "c = unat (tx_pad_quantum s) - 4"
    and n: "n = max (div_ceil (length payload) c) 1"
    and cap: "length payload \<le> RX_BUF_HARD_CAP" "RX_BUF_HARD_CAP \<le> um"
    and "i < n" and "send_cells P rng payload n [i..<n] s = (Ok (), s')" and "unat (tx_epoch s) < 2 ^ 24"
  shows "emits P um (take (i * c) payload) s s' [payload] [] \<and> unat (tx_epoch s') < 2 ^ 24"
  using assms(2,3,7-)
proof (induction "n - i" arbitrary: i s)
  case (Suc k)
  have "[i..<n] = i # [Suc i..<n]" using Suc.prems(3) by (simp add: upt_rec)
  then obtain s1 where one: "send_cell P rng payload n i s = (Ok (), s1)"
    and rest: "send_cells P rng payload n [Suc i..<n] s1 = (Ok (), s')"
    using Suc.prems(4) by (auto simp: st_bind_Ok_iff)
  note em = send_cell_emits [OF P one Suc.prems(5,1,2) n Suc.prems(3) cap]
  show ?case
  proof (cases "Suc i = n")
    case True
    then show ?thesis using em rest by simp
  next
    case False
    then have em1: "emits P um (take (i * c) payload) s s1 [] (take (Suc i * c) payload)" using em by simp
    have "emits P um (take (Suc i * c) payload) s1 s' [payload] [] \<and> unat (tx_epoch s') < 2 ^ 24"
      using Suc.hyps(2) Suc.prems False em rest ensure_quantum [OF em1] by (intro Suc.hyps(1)) auto
    then show ?thesis using emits_trans [OF em1] by auto
  qed
qed simp

lemma send_record_emits:
  assumes P: "prims_ok P" and ok: "send_record P rng payload s = (Ok v, s')" and ep: "unat (tx_epoch s) < 2 ^ 24"
    and len: "length payload + 25 \<le> RX_BUF_HARD_CAP" and um: "RX_BUF_HARD_CAP \<le> um"
  shows "emits P um [] s s' [payload] [] \<and> unat (tx_epoch s') < 2 ^ 24"
proof (cases "tx_pad_quantum s = 0")
  case True
  then obtain s1 s2 where e: "ensure_ratchet P rng s = (Ok (), s1)"
    and w: "seal_and_write P RECORD_DATA payload s1 = (Ok (), s2)"
    and s': "s' = s2\<lparr>tx_seqnum := sat_inc64 (tx_seqnum s2),
           tx_bytes_in_epoch := sat_add64 (tx_bytes_in_epoch s2) (length payload),
           tx_records_in_epoch := sat_add64 (tx_records_in_epoch s2) 1\<rparr>"
    using ok by (auto simp: send_record_def st_bind_Ok_iff)
  have s'': "s' = (tx_advance s2)\<lparr>tx_bytes_in_epoch := sat_add64 (tx_bytes_in_epoch s2) (length payload)\<rparr>"
    unfolding s' by (cases s2) simp
  note em = ensure_ratchet_emits [OF P e ep, of um "[]"]
  have "emits P um [] s1 s' [payload] []"
    unfolding s'' emits_bytes by (rule data_emits [OF P w len])
  then show ?thesis
    using em emits_trans [of P um "[]" s s1 "[]" "[]" s'] seal_and_write_epoch [OF w] by (simp add: s')
next
  case False
  define c where "c = unat (tx_pad_quantum s) - 4"
  define n where "n = max (div_ceil (length payload) c) 1"
  have q: "8 \<le> unat (tx_pad_quantum s)"
    using ok False by (auto simp: send_record_def Let_def split: if_splits)
  then obtain s1 where cells: "send_cells P rng payload n [0..<n] s = (Ok (), s1)"
    and s': "s' = s1\<lparr>tx_bytes_in_epoch := sat_add64 (tx_bytes_in_epoch s1) (length payload)\<rparr>"
    using ok False by (auto simp: send_record_def Let_def st_bind_Ok_iff c_def n_def)
  have "emits P um (take (0 * c) payload) s s1 [payload] [] \<and> unat (tx_epoch s1) < 2 ^ 24"
    by (rule send_cells_emits [OF P q c_def n_def _ um _ cells ep]) (use len in \<open>simp_all add: n_def\<close>)
  then show ?thesis by (simp add: s' emits_bytes)
qed

section \<open>Sequences of calls\<close>

text \<open>Running calls until one fails, and the payloads a run hands to the application.\<close>

fun tx_run :: "primitives \<Rightarrow> tx_op list \<Rightarrow> AlphaSender \<Rightarrow> (AlphaSender, unit) call" where
  "tx_run P [] s = (Ok (), s)"
| "tx_run P (SendRecord rng payload # ops) s = st_bind (send_record P rng payload s) (\<lambda>_ s. tx_run P ops s)"
| "tx_run P (SendHeartbeat rng # ops) s = st_bind (send_heartbeat P rng s) (\<lambda>_ s. tx_run P ops s)"
| "tx_run P (SetPadQuantum q # ops) s = tx_run P ops (snd (set_pad_quantum q s))"

fun payloads :: "tx_op list \<Rightarrow> bytes list" where
  "payloads [] = []"
| "payloads (SendRecord rng payload # ops) = payload # payloads ops"
| "payloads (_ # ops) = payloads ops"

text \<open>As \<open>emits\<close>, without the padding quantum, which the calls may change.\<close>

definition emits_all :: "primitives \<Rightarrow> nat \<Rightarrow> AlphaSender \<Rightarrow> AlphaSender \<Rightarrow> bytes list \<Rightarrow> bool" where
  "emits_all P um s s' outs \<longleftrightarrow>
     (\<exists>fs. tx_wire s' = tx_wire s @ concat (map frame_bytes fs) \<and> list_all small_frame fs
        \<and> (\<forall>r. synced P s r \<longrightarrow> rx_pending r = [] \<longrightarrow>
             (\<exists>r'. rx_feed P um fs r = Some (outs, r') \<and> synced P s' r' \<and> rx_pending r' = [])))"

lemma emits_all_step:
  assumes "emits P um [] s s1 o1 []" and "emits_all P um s1 s2 o2"
  shows "emits_all P um s s2 (o1 @ o2)"
proof -
  obtain fs where fs: "tx_wire s1 = tx_wire s @ concat (map frame_bytes fs)" "list_all small_frame fs"
    "\<And>r. synced P s r \<Longrightarrow> rx_pending r = [] \<Longrightarrow> \<exists>r'. rx_feed P um fs r = Some (o1, r') \<and> synced P s1 r' \<and> rx_pending r' = []"
    using assms(1) unfolding emits_def by blast
  obtain gs where gs: "tx_wire s2 = tx_wire s1 @ concat (map frame_bytes gs)" "list_all small_frame gs"
    "\<And>r. synced P s1 r \<Longrightarrow> rx_pending r = [] \<Longrightarrow> \<exists>r'. rx_feed P um gs r = Some (o2, r') \<and> synced P s2 r' \<and> rx_pending r' = []"
    using assms(2) unfolding emits_all_def by blast
  have "\<exists>r'. rx_feed P um (fs @ gs) r = Some (o1 @ o2, r') \<and> synced P s2 r' \<and> rx_pending r' = []"
    if "synced P s r" "rx_pending r = []" for r
    using fs(3) [OF that] gs(3) rx_feed_append by blast
  then show ?thesis
    using fs(1,2) gs(1,2) unfolding emits_all_def by (intro exI [of _ "fs @ gs"]) auto
qed

lemma tx_run_emits:
  assumes um: "RX_BUF_HARD_CAP \<le> um"
  shows "tx_run P ops s = (Ok (), s') \<Longrightarrow> unat (tx_epoch s) < 2 ^ 24 \<Longrightarrow>
    list_all (\<lambda>b. length b + 25 \<le> RX_BUF_HARD_CAP) (payloads ops) \<Longrightarrow> prims_ok P \<Longrightarrow>
    emits_all P um s s' (payloads ops)"
proof (induction P ops s rule: tx_run.induct)
  case (1 P s)
  then show ?case unfolding emits_all_def by (intro exI [of _ "[]"]) simp
next
  case (2 P rng payload ops s)
  then obtain v s1 where r: "send_record P rng payload s = (Ok v, s1)" and rest: "tx_run P ops s1 = (Ok (), s')"
    by (auto simp: st_bind_Ok_iff)
  have em: "emits P um [] s s1 [payload] [] \<and> unat (tx_epoch s1) < 2 ^ 24"
    by (rule send_record_emits [OF 2(5) r 2(3) _ um]) (use 2(4) in simp)
  then have "emits_all P um s1 s' (payloads ops)" using 2(1) [OF rest _ _ 2(5)] 2(4) by simp
  then show ?case using emits_all_step em by fastforce
next
  case (3 P rng ops s)
  then obtain s1 where r: "send_heartbeat P rng s = (Ok (), s1)" and rest: "tx_run P ops s1 = (Ok (), s')"
    by (auto simp: st_bind_Ok_iff)
  have em: "emits P um [] s s1 [] [] \<and> unat (tx_epoch s1) < 2 ^ 24"
    by (rule send_heartbeat_emits [OF 3(5) r 3(3)])
  then have "emits_all P um s1 s' (payloads ops)" using 3(1) [OF rest _ _ 3(5)] 3(4) by simp
  then show ?case using emits_all_step em by fastforce
next
  case (4 P q ops s)
  then have "emits_all P um (s\<lparr>tx_pad_quantum := q\<rparr>) s' (payloads ops)" by (simp add: set_pad_quantum_def)
  then show ?case by (simp add: emits_all_def synced_def)
qed

end
