(* ===== verification/Session_Receive.thy ===== *)
theory Session_Receive
  imports Session_Delivery
begin

text \<open>
  The receive loop on bytes: the outcome of a call does not depend on how the transport splits the
  stream, nor on the cursor and the compaction of the buffer.  With the emission lemmas this gives
  the delivery theorem of a session.
\<close>

section \<open>The buffer does not influence what a frame means\<close>

definition rebuf :: "bytes \<Rightarrow> nat \<Rightarrow> AlphaReceiver \<Rightarrow> AlphaReceiver" where
  "rebuf b off r = r\<lparr>rx_buf := b, rx_offset := off\<rparr>"

lemma rebuf_simps [simp]:
  "rx_keys (rebuf b off r) = rx_keys r" "rx_cipher (rebuf b off r) = rx_cipher r"
  "rx_secret (rebuf b off r) = rx_secret r" "rx_epoch (rebuf b off r) = rx_epoch r"
  "rx_next_seqnum (rebuf b off r) = rx_next_seqnum r" "rx_dh_sk (rebuf b off r) = rx_dh_sk r"
  "rx_pending (rebuf b off r) = rx_pending r" "rx_buf (rebuf b off r) = b" "rx_offset (rebuf b off r) = off"
  "rebuf b off (rebuf b' off' r) = rebuf b off r"
  by (simp_all add: rebuf_def)

lemma rebuf_upd:
  "(rebuf b off r)\<lparr>rx_next_seqnum := q\<rparr> = rebuf b off (r\<lparr>rx_next_seqnum := q\<rparr>)"
  "(rebuf b off r)\<lparr>rx_pending := p\<rparr> = rebuf b off (r\<lparr>rx_pending := p\<rparr>)"
  "(rebuf b off r)\<lparr>rx_dh_sk := d\<rparr> = rebuf b off (r\<lparr>rx_dh_sk := d\<rparr>)"
  "(rebuf b off r)\<lparr>rx_close_code := c\<rparr> = rebuf b off (r\<lparr>rx_close_code := c\<rparr>)"
  "(rebuf b off r)\<lparr>rx_close_reason := cr\<rparr> = rebuf b off (r\<lparr>rx_close_reason := cr\<rparr>)"
  "(rebuf b off r)\<lparr>rx_keys := k, rx_cipher := ci, rx_secret := s, rx_epoch := e, rx_next_seqnum := q\<rparr>
     = rebuf b off (r\<lparr>rx_keys := k, rx_cipher := ci, rx_secret := s, rx_epoch := e, rx_next_seqnum := q\<rparr>)"
  by (cases r; simp add: rebuf_def)+

lemma rebuf_self: "rebuf (rx_buf r) (rx_offset r) r = r"
  by (cases r) (simp add: rebuf_def)

lemma rebuf_append: "(rebuf b off r)\<lparr>rx_buf := rx_buf (rebuf b off r) @ chunk\<rparr> = rebuf (b @ chunk) off r"
  by (cases r) (simp add: rebuf_def)

lemma st_bind_rebuf:
  assumes "\<And>a s. f a (h s) = apsnd h (g a s)"
  shows "st_bind (apsnd h m) f = apsnd h (st_bind m g)"
  by (cases "(m, g)" rule: st_bind.cases) (simp_all add: assms)

lemma recv_ratchet_secret_rebuf:
  "recv_ratchet_secret P pt (rebuf b off r) = apsnd (rebuf b off) (recv_ratchet_secret P pt r)"
  by (simp add: recv_ratchet_secret_def Let_def rebuf_upd split: option.split)

lemma apply_ratchet_rebuf:
  "apply_ratchet P body (rebuf b off r) = apsnd (rebuf b off) (apply_ratchet P body r)"
proof -
  let ?h = "rebuf b off"
  have inst: "st_bind (session_direction_keys P sec, ?h s) (\<lambda>keys r.
      (Ok (), r\<lparr>rx_keys := keys, rx_cipher := aead_key keys, rx_secret := sec, rx_epoch := e, rx_next_seqnum := 0\<rparr>))
    = apsnd ?h (st_bind (session_direction_keys P sec, s) (\<lambda>keys r.
      (Ok (), r\<lparr>rx_keys := keys, rx_cipher := aead_key keys, rx_secret := sec, rx_epoch := e, rx_next_seqnum := 0\<rparr>)))" for sec s e
    by (cases "session_direction_keys P sec") (simp_all add: rebuf_upd)
  have tail: "st_bind (recv_ratchet_secret P pt (?h s)) (\<lambda>sec r. st_bind (session_direction_keys P sec, r) (\<lambda>keys r.
      (Ok (), r\<lparr>rx_keys := keys, rx_cipher := aead_key keys, rx_secret := sec, rx_epoch := e, rx_next_seqnum := 0\<rparr>)))
    = apsnd ?h (st_bind (recv_ratchet_secret P pt s) (\<lambda>sec r. st_bind (session_direction_keys P sec, r) (\<lambda>keys r.
      (Ok (), r\<lparr>rx_keys := keys, rx_cipher := aead_key keys, rx_secret := sec, rx_epoch := e, rx_next_seqnum := 0\<rparr>))))" for pt s e
    unfolding recv_ratchet_secret_rebuf by (rule st_bind_rebuf) (rule inst)
  show ?thesis
    unfolding apply_ratchet_def Let_def rebuf_simps
    by (cases "aead_open P (dk_key (rx_keys r)) (dk_iv (rx_keys r)) (pack_counter (rx_epoch r) SEQNUM_MAX)
        (counter_aad (pack_counter (rx_epoch r) SEQNUM_MAX)) body") (simp_all add: tail)
qed

lemma rx_dispatch_rebuf:
  "rx_dispatch P um k body (rebuf b off r) = apsnd (rebuf b off) (rx_dispatch P um k body r)"
proof -
  have "rx_data P body (rebuf b off r) = apsnd (rebuf b off) (rx_data P body r)"
    by (simp add: rx_data_def Let_def rebuf_upd split: rust.split)
  moreover have "rx_cell P um body (rebuf b off r) = apsnd (rebuf b off) (rx_cell P um body r)"
    by (simp add: rx_cell_def Let_def rebuf_upd split: rust.split option.split)
  moreover have "rx_close P body (rebuf b off r) = apsnd (rebuf b off) (rx_close P body r)"
    by (simp add: rx_close_def Let_def rebuf_upd split: rust.split)
  moreover have "(case apply_ratchet P body (rebuf b off r) of
           (Ok _, r) \<Rightarrow> (RxContinue, r) | (Err e, r) \<Rightarrow> (RxErr e, r) | (Panic, r) \<Rightarrow> (RxPanic, r))
      = apsnd (rebuf b off) (case apply_ratchet P body r of
           (Ok _, r) \<Rightarrow> (RxContinue, r) | (Err e, r) \<Rightarrow> (RxErr e, r) | (Panic, r) \<Rightarrow> (RxPanic, r))"
    unfolding apply_ratchet_rebuf by (simp split: prod.split rust.split)
  ultimately show ?thesis by (simp add: rx_dispatch_def)
qed

lemma rx_feed_rebuf:
  "rx_feed P um fs r = Some (outs, r') \<Longrightarrow> rx_feed P um fs (rebuf b off r) = Some (outs, rebuf b off r')"
proof (induction fs arbitrary: r outs)
  case (Cons f fs)
  obtain nx r1 where d: "rx_dispatch P um (frame_kind f) (frame_body f) r = (nx, r1)" by fastforce
  then have "rx_dispatch P um (frame_kind f) (frame_body f) (rebuf b off r) = (nx, rebuf b off r1)"
    by (simp add: rx_dispatch_rebuf)
  then show ?case using Cons.prems Cons.IH [of r1] d by (cases nx) (auto split: option.splits)
qed simp

section \<open>One frame, however it arrives\<close>

lemma rx_compact_rebuf: "\<exists>b off. rx_compact r = rebuf b off r \<and> drop off b = rx_live r \<and> (rx_offset r \<le> length (rx_buf r) \<longrightarrow> off \<le> length b)"
proof (cases "rx_offset r \<ge> RX_COMPACT_THRESHOLD")
  case True
  then show ?thesis
    by (intro exI [of _ "rx_live r"] exI [of _ 0]) (simp add: rx_compact_def rebuf_def)
next
  case False
  then show ?thesis
    by (intro exI [of _ "rx_buf r"] exI [of _ "rx_offset r"]) (simp add: rx_compact_def rebuf_self)
qed

text \<open>What a call of the receive loop does once the frame is decoded.\<close>

fun recv_after :: "primitives \<Rightarrow> nat \<Rightarrow> bytes list \<Rightarrow> rx_next \<times> AlphaReceiver \<Rightarrow>
    (AlphaError, bytes option) rust \<times> bytes list \<times> AlphaReceiver" where
  "recv_after P um reads (RxContinue, r) = recv_record_into P um reads r"
| "recv_after P um reads (RxDeliver out, r) = (Ok (Some out), reads, r)"
| "recv_after P um reads (RxClosed, r) = (Ok None, reads, r)"
| "recv_after P um reads (RxErr e, r) = (Err e, reads, r)"
| "recv_after P um reads (RxPanic, r) = (Panic, reads, r)"

lemma recv_decoded:
  assumes "rx_offset r \<le> length (rx_buf r)" and "decode_frame um (rx_live r) = Ok (f, n)"
  shows "recv_record_into P um reads r = recv_after P um reads
      (rx_dispatch P um (frame_kind f) (frame_body f) (rx_compact (r\<lparr>rx_offset := rx_offset r + n\<rparr>)))"
  using assms by (subst recv_record_into.simps) (simp add: Let_def split: prod.split rx_next.split)

lemma recv_short:
  assumes "rx_offset r \<le> length (rx_buf r)" and "decode_frame um (rx_live r) = Err (Short a b)"
    and "length (rx_live r) < RX_BUF_HARD_CAP"
  shows "recv_record_into P um [] r = (Ok None, [], rx_compact r)"
    and "chunk \<noteq> [] \<Longrightarrow> recv_record_into P um (chunk # reads) r
      = recv_record_into P um reads ((rx_compact r)\<lparr>rx_buf := rx_buf (rx_compact r) @ chunk\<rparr>)"
  using assms by (subst recv_record_into.simps; simp add: Let_def)+

lemma recv_frame_ready:
  assumes leg: "frame_legal f" and small: "small_frame f" and um: "RX_BUF_HARD_CAP \<le> um"
    and off: "rx_offset r \<le> length (rx_buf r)" and live: "rx_live r = frame_bytes f @ extra"
    and rest: "extra @ concat reads = rest" "[] \<notin> set reads"
  shows "\<exists>b off reads'. off \<le> length b \<and> drop off b @ concat reads' = rest \<and> [] \<notin> set reads'
      \<and> recv_record_into P um reads r = recv_after P um reads' (rx_dispatch P um (frame_kind f) (frame_body f) (rebuf b off r))"
proof -
  let ?n = "length (frame_bytes f)"
  have fits: "?n \<le> um" using small um by (simp add: small_frame_def)
  have dec: "decode_frame um (rx_live r) = Ok (f, ?n)"
    unfolding live by (rule decode_frame_bytes [OF leg fits])
  have n: "rx_offset r + ?n \<le> length (rx_buf r)"
    using arg_cong [OF live, of length] off by simp
  let ?r = "r\<lparr>rx_offset := rx_offset r + ?n\<rparr>"
  obtain b off where c: "rx_compact ?r = rebuf b off ?r" "drop off b = rx_live ?r" "off \<le> length b"
    using rx_compact_rebuf [of ?r] n by auto
  have "rx_live ?r = drop ?n (rx_live r)" by (simp add: add.commute)
  then have "drop off b = extra" using c(2) live by simp
  moreover have "rx_compact ?r = rebuf b off r" using c(1) by (simp add: rebuf_def)
  ultimately show ?thesis
    using recv_decoded [OF off dec, of P reads] c(3) rest by (intro exI [of _ b] exI [of _ off] exI [of _ reads]) simp
qed

lemma recv_frame:
  assumes leg: "frame_legal f" and small: "small_frame f" and um: "RX_BUF_HARD_CAP \<le> um"
  shows "rx_offset r \<le> length (rx_buf r) \<Longrightarrow> rx_live r @ concat reads = frame_bytes f @ rest \<Longrightarrow> [] \<notin> set reads \<Longrightarrow>
    \<exists>b off reads'. off \<le> length b \<and> drop off b @ concat reads' = rest \<and> [] \<notin> set reads'
      \<and> recv_record_into P um reads r = recv_after P um reads' (rx_dispatch P um (frame_kind f) (frame_body f) (rebuf b off r))"
proof (induction reads arbitrary: r)
  case reads: Nil
  then have live: "rx_live r = frame_bytes f @ rest" by simp
  show ?case by (rule recv_frame_ready [OF leg small um reads(1) live]) (use reads in simp_all)
next
  case (Cons chunk reads)
  consider extra where "rx_live r = frame_bytes f @ extra" "rest = extra @ concat (chunk # reads)"
    | later where "frame_bytes f = rx_live r @ later" "later \<noteq> []" "concat (chunk # reads) = later @ rest"
    using append_split_cases [OF Cons.prems(2)] by blast
  then show ?case
  proof cases
    case 1
    show ?thesis by (rule recv_frame_ready [OF leg small um Cons.prems(1) 1(1)]) (use 1(2) Cons.prems(3) in simp_all)
  next
    case 2
    have fits: "length (frame_bytes f) \<le> um" using small um by (simp add: small_frame_def)
    have "length (rx_live r) < length (frame_bytes f)" using 2(2) unfolding 2(1) by simp
    then have len: "length (rx_live r) < RX_BUF_HARD_CAP" using small by (simp add: small_frame_def)
    obtain x y where sh: "decode_frame um (rx_live r) = Err (Short x y)"
      using decode_prefix_short [OF leg fits 2(1,2)] by blast
    obtain b off where c: "rx_compact r = rebuf b off r" "drop off b = rx_live r" "off \<le> length b"
      using rx_compact_rebuf [of r] Cons.prems(1) by blast
    let ?r = "rebuf (b @ chunk) off r"
    have step: "recv_record_into P um (chunk # reads) r = recv_record_into P um reads ?r"
      using recv_short(2) [OF Cons.prems(1) sh len, of chunk P reads] Cons.prems(3)
      unfolding c(1) rebuf_append by auto
    have "\<exists>b off reads'. off \<le> length b \<and> drop off b @ concat reads' = rest \<and> [] \<notin> set reads'
      \<and> recv_record_into P um reads ?r = recv_after P um reads' (rx_dispatch P um (frame_kind f) (frame_body f) (rebuf b off ?r))"
      by (rule Cons.IH) (use c Cons.prems in auto)
    then show ?thesis by (simp add: step)
  qed
qed

section \<open>Successive calls\<close>

text \<open>The results of \<open>n\<close> successive calls of \<open>recv_record\<close>.\<close>

fun recv_calls :: "primitives \<Rightarrow> nat \<Rightarrow> nat \<Rightarrow> bytes list \<Rightarrow> AlphaReceiver \<Rightarrow>
    (AlphaError, bytes option) rust list \<times> bytes list \<times> AlphaReceiver" where
  "recv_calls P um 0 reads r = ([], reads, r)"
| "recv_calls P um (Suc n) reads r =
     (case recv_record_into P um reads r of (v, reads, r) \<Rightarrow>
        (case recv_calls P um n reads r of (vs, rest) \<Rightarrow> (v # vs, rest)))"

lemma small_frame_legal: "small_frame f \<Longrightarrow> frame_legal f"
  by (simp add: small_frame_def frame_legal_def frame_bytes_def RX_BUF_HARD_CAP_def)

lemma recv_calls_feed:
  assumes um: "RX_BUF_HARD_CAP \<le> um"
  shows "rx_feed P um fs r = Some (outs, r') \<Longrightarrow> list_all small_frame fs \<Longrightarrow> rx_offset r \<le> length (rx_buf r) \<Longrightarrow>
    rx_live r @ concat reads = concat (map frame_bytes fs) \<Longrightarrow> [] \<notin> set reads \<Longrightarrow>
    \<exists>b off. recv_calls P um (Suc (length outs)) reads r = (map (\<lambda>x. Ok (Some x)) outs @ [Ok None], [], rebuf b off r')
      \<and> drop off b = []"
proof (induction fs arbitrary: r reads outs r')
  case Nil
  have reads: "reads = []" "rx_live r = []" using Nil.prems(4,5) by (cases reads; auto)+
  then have "decode_frame um (rx_live r) = Err (Short 1 0)" by (simp only: decode_frame_Nil)
  then have "recv_record_into P um [] r = (Ok None, [], rx_compact r)"
    by (rule recv_short(1) [OF Nil.prems(3)]) (simp add: reads RX_BUF_HARD_CAP_def)
  moreover obtain b off where "rx_compact r = rebuf b off r" "drop off b = rx_live r"
    using rx_compact_rebuf [of r] by blast
  ultimately show ?case using Nil.prems(1) reads by auto
next
  case (Cons f fs)
  have small: "small_frame f" "list_all small_frame fs" using Cons.prems(2) by simp_all
  obtain b off reads' where b: "off \<le> length b" "drop off b @ concat reads' = concat (map frame_bytes fs)" "[] \<notin> set reads'"
    and rec: "recv_record_into P um reads r = recv_after P um reads' (rx_dispatch P um (frame_kind f) (frame_body f) (rebuf b off r))"
    using recv_frame [OF small_frame_legal [OF small(1)] small(1) um Cons.prems(3), of reads "concat (map frame_bytes fs)" P]
      Cons.prems(4,5) by auto
  obtain nx r1 where d: "rx_dispatch P um (frame_kind f) (frame_body f) r = (nx, r1)" by fastforce
  then have rec: "recv_record_into P um reads r = recv_after P um reads' (nx, rebuf b off r1)"
    using rec by (simp add: rx_dispatch_rebuf)
  have IH: "\<exists>b2 off2. recv_calls P um (Suc (length os)) reads' (rebuf b off r1)
      = (map (\<lambda>x. Ok (Some x)) os @ [Ok None], [], rebuf b2 off2 r') \<and> drop off2 b2 = []"
    if "rx_feed P um fs r1 = Some (os, r')" for os
    using Cons.IH [OF rx_feed_rebuf [OF that] small(2), of b off reads'] b by simp
  consider "nx = RxContinue" "rx_feed P um fs r1 = Some (outs, r')"
    | x os where "nx = RxDeliver x" "outs = x # os" "rx_feed P um fs r1 = Some (os, r')"
    using Cons.prems(1) d by (cases nx) (auto split: option.splits)
  then show ?case
  proof cases
    case 1
    then show ?thesis using IH [OF 1(2)] rec by simp
  next
    case 2
    obtain b2 off2 where "recv_calls P um (Suc (length os)) reads' (rebuf b off r1)
      = (map (\<lambda>x. Ok (Some x)) os @ [Ok None], [], rebuf b2 off2 r')" "drop off2 b2 = []"
      using IH [OF 2(3)] by blast
    then show ?thesis using rec 2(1,2)
      by (intro exI [of _ b2] exI [of _ off2]) (simp del: recv_calls.simps(2) add: recv_calls.simps(2) [of _ _ "Suc (length os)"])
  qed
qed

end
