(* ===== verification/Session_Guarantees.thy ===== *)
theory Session_Guarantees
  imports Session_Receive
begin

text \<open>
  What an established session promises: delivery of exactly the records sent, in order, whatever
  the chunking of the transport; bounded memory and no panic on hostile bytes; records that do not
  authenticate leave no trace; a call that finds room in the epoch space succeeds; and what happens
  around CLOSE.
\<close>

section \<open>Hostile bytes\<close>

lemma expand_label_not_Panic: "expand_label P k l c n \<noteq> Panic"
  by (auto simp: expand_label_def expand_label_info_def rust_bind_Panic_iff Let_def)

lemma session_direction_keys_not_Panic: "session_direction_keys P sec \<noteq> Panic"
  by (auto simp: session_direction_keys_def rust_bind_Panic_iff expand_label_not_Panic)

lemma st_bind_not_Panic:
  "fst m \<noteq> Panic \<Longrightarrow> (\<And>a s. fst (f a s) \<noteq> Panic) \<Longrightarrow> fst (st_bind m f) \<noteq> Panic"
  by (cases "(m, f)" rule: st_bind.cases) auto

lemma recv_ratchet_secret_not_Panic: "fst (recv_ratchet_secret P pt r) \<noteq> Panic"
  by (simp add: recv_ratchet_secret_def derive_ratchet_secret_def expand_label_not_Panic Let_def split: option.split)

lemma apply_ratchet_not_Panic: "fst (apply_ratchet P body r) \<noteq> Panic"
proof -
  have tail: "fst (st_bind (recv_ratchet_secret P pt r1) (\<lambda>sec r. st_bind (session_direction_keys P sec, r) (\<lambda>keys r.
      (Ok (), r\<lparr>rx_keys := keys, rx_cipher := aead_key keys, rx_secret := sec, rx_epoch := e, rx_next_seqnum := 0\<rparr>)))) \<noteq> Panic"
    for pt e r1
    by (rule st_bind_not_Panic [OF recv_ratchet_secret_not_Panic], rule st_bind_not_Panic)
      (simp_all add: session_direction_keys_not_Panic)
  show ?thesis
    unfolding apply_ratchet_def Let_def
    by (rule st_bind_not_Panic) (simp_all add: tail aead_open_def split: option.split)
qed

lemma rx_dispatch_not_Panic: "fst (rx_dispatch P um k body r) \<noteq> RxPanic"
proof -
  have "fst (rx_data P body r) \<noteq> RxPanic" by (simp add: rx_data_def Let_def split: rust.split)
  moreover have "fst (rx_cell P um body r) \<noteq> RxPanic" by (simp add: rx_cell_def Let_def split: rust.split option.split)
  moreover have "fst (rx_close P body r) \<noteq> RxPanic" by (simp add: rx_close_def Let_def split: rust.split)
  moreover have "fst (case apply_ratchet P body r of
           (Ok _, r) \<Rightarrow> (RxContinue, r) | (Err e, r) \<Rightarrow> (RxErr e, r) | (Panic, r) \<Rightarrow> (RxPanic, r)) \<noteq> RxPanic"
    using apply_ratchet_not_Panic [of P body r] by (auto split: prod.split rust.split)
  ultimately show ?thesis unfolding rx_dispatch_def by simp
qed

lemma rx_dispatch_offset:
  "rx_offset r \<le> length (rx_buf r) \<Longrightarrow> rx_dispatch P um k body r = (nx, r') \<Longrightarrow> rx_offset r' \<le> length (rx_buf r')"
  using rx_dispatch_buffer [of r P um k body] by (simp add: same_buffer_def)

lemma rx_compact_offset: "rx_offset r \<le> length (rx_buf r) \<Longrightarrow> rx_offset (rx_compact r) \<le> length (rx_buf (rx_compact r))"
  by (simp add: rx_compact_def)

lemma rx_compact_small: "rx_offset (rx_compact r) < RX_COMPACT_THRESHOLD"
  by (simp add: rx_compact_def RX_COMPACT_THRESHOLD_def)

lemma rx_dispatch_rejects:
  assumes "k = RECORD_DATA \<or> k = RECORD_DATA_PADDED \<or> k = RECORD_CLOSE"
    and "p_decrypt P (ak_cipher (rx_cipher r)) (nonce_for (ak_iv (rx_cipher r)) (pack_counter (rx_epoch r) (rx_next_seqnum r)))
          (counter_aad (pack_counter (rx_epoch r) (rx_next_seqnum r))) body = None"
    and "rx_cipher r = aead_key (rx_keys r)"
  shows "rx_dispatch P um k body r = (RxContinue, r)"
  using assms by (auto simp: rx_dispatch_def rx_data_def rx_cell_def rx_close_def open_in_place_def aead_open_def
      aead_key_def aead_key_new_def Let_def RECORD_CLOSE_def RECORD_DATA_def RECORD_DATA_PADDED_def RECORD_RATCHET_def)

text \<open>
  The memory of the receiving half: the cursor stays below the compaction threshold, the unread
  bytes below the hard cap plus one read, the unfinished record below the hard cap.
\<close>

definition rx_inv :: "nat \<Rightarrow> AlphaReceiver \<Rightarrow> bool" where
  "rx_inv K r \<longleftrightarrow> rx_offset r \<le> length (rx_buf r) \<and> rx_offset r < RX_COMPACT_THRESHOLD
     \<and> length (rx_live r) < RX_BUF_HARD_CAP + K \<and> length (rx_pending r) \<le> RX_BUF_HARD_CAP"

lemma rx_dispatch_pending:
  "length (rx_pending r) \<le> RX_BUF_HARD_CAP \<Longrightarrow> length (rx_pending (snd (rx_dispatch P um k body r))) \<le> RX_BUF_HARD_CAP"
proof -
  assume r: "length (rx_pending r) \<le> RX_BUF_HARD_CAP"
  have sec: "rx_pending (snd (recv_ratchet_secret P pt r1)) = rx_pending r1" for pt r1
    by (simp add: recv_ratchet_secret_def Let_def split: option.split)
  have inst: "rx_pending (snd (st_bind (session_direction_keys P sec, r1) (\<lambda>keys r.
      (Ok (), r\<lparr>rx_keys := keys, rx_cipher := aead_key keys, rx_secret := sec, rx_epoch := e, rx_next_seqnum := 0\<rparr>)))) = rx_pending r1"
    for sec e r1
    by (cases "session_direction_keys P sec") simp_all
  have tail: "rx_pending (snd (st_bind (recv_ratchet_secret P pt r1) (\<lambda>sec r. st_bind (session_direction_keys P sec, r) (\<lambda>keys r.
      (Ok (), r\<lparr>rx_keys := keys, rx_cipher := aead_key keys, rx_secret := sec, rx_epoch := e, rx_next_seqnum := 0\<rparr>))))) = rx_pending r1"
    for pt e r1
    by (rule st_bind_inv [where Q = "\<lambda>s. rx_pending s = rx_pending r1"]) (simp_all add: sec inst)
  have "rx_pending (snd (apply_ratchet P body r)) = rx_pending r"
    unfolding apply_ratchet_def Let_def
    by (rule st_bind_inv [where Q = "\<lambda>s. rx_pending s = rx_pending r"]) (simp_all add: tail)
  then have "length (rx_pending (snd (case apply_ratchet P body r of
           (Ok _, r) \<Rightarrow> (RxContinue, r) | (Err e, r) \<Rightarrow> (RxErr e, r) | (Panic, r) \<Rightarrow> (RxPanic, r)))) \<le> RX_BUF_HARD_CAP"
    using r by (auto split: prod.split rust.split)
  moreover have "length (rx_pending (snd (rx_cell P um body r))) \<le> RX_BUF_HARD_CAP"
    using r by (auto simp: rx_cell_def checked_add_def Let_def split: rust.split option.split)
  ultimately show ?thesis
    using r by (simp add: rx_dispatch_def rx_data_def rx_close_def Let_def split: rust.split)
qed

lemma recv_after_dispatch_inv:
  assumes inv: "rx_inv K r" and dec: "decode_frame um (rx_live r) = Ok (f, n)"
  shows "rx_inv K (snd (rx_dispatch P um (frame_kind f) (frame_body f) (rx_compact (r\<lparr>rx_offset := rx_offset r + n\<rparr>))))"
proof -
  let ?r = "r\<lparr>rx_offset := rx_offset r + n\<rparr>"
  have "n \<le> length (rx_live r)" using decode_frame_Ok [OF dec] by blast
  then have "rx_inv K (rx_compact ?r)"
    using inv rx_compact_small [of ?r] rx_compact_offset [of ?r] rx_compact_live [of ?r]
    by (auto simp: rx_inv_def rx_compact_def)
  then show ?thesis
    using rx_dispatch_buffer [of "rx_compact ?r" P um "frame_kind f" "frame_body f"]
      rx_dispatch_pending [of "rx_compact ?r" P um "frame_kind f" "frame_body f"]
    by (simp add: rx_inv_def same_buffer_def)
qed

lemma recv_inv:
  "rx_inv K r \<Longrightarrow> list_all (\<lambda>c. length c \<le> K) reads \<Longrightarrow>
     fst (recv_record_into P um reads r) \<noteq> Panic \<and> rx_inv K (snd (snd (recv_record_into P um reads r)))"
proof (induction P um reads r rule: recv_record_into.induct)
  case (1 P um reads r)
  have off: "rx_offset r \<le> length (rx_buf r)" "\<not> length (rx_buf r) < rx_offset r" using 1(3) by (simp_all add: rx_inv_def)
  show ?case
  proof (cases "decode_frame um (rx_live r)")
    case (Ok x)
    obtain f n where x: "x = (f, n)" by fastforce
    let ?r = "rx_compact (r\<lparr>rx_offset := rx_offset r + n\<rparr>)"
    obtain nx r2 where d: "rx_dispatch P um (frame_kind f) (frame_body f) ?r = (nx, r2)" by fastforce
    have inv: "rx_inv K r2" using recv_after_dispatch_inv [OF 1(3) Ok [unfolded x], of P] d by simp
    have np: "nx \<noteq> RxPanic" using rx_dispatch_not_Panic [of P um "frame_kind f" "frame_body f" ?r] d by simp
    have IH: "fst (recv_record_into P um reads r2) \<noteq> Panic \<and> rx_inv K (snd (snd (recv_record_into P um reads r2)))"
      if "nx = RxContinue"
      using 1(1) [OF off(2) Ok x [symmetric] refl d [symmetric] that inv 1(4)] .
    show ?thesis
      unfolding recv_decoded [OF off(1) Ok [unfolded x]] d using np inv IH by (cases nx) simp_all
  next
    case Panic
    then show ?thesis using decode_frame_not_Panic by blast
  next
    case (Err e)
    have cinv: "rx_inv K (rx_compact r)"
      using 1(3) rx_compact_small [of r] rx_compact_offset [of r] rx_compact_live [of r]
      by (auto simp: rx_inv_def rx_compact_def)
    note ev = recv_record_into.simps [of P um _ r] Err off(2)
    show ?thesis
    proof (cases "\<exists>a b. e = Short a b \<and> length (rx_live r) < RX_BUF_HARD_CAP")
      case True
      then obtain a b where e: "e = Short a b" and len: "length (rx_live r) < RX_BUF_HARD_CAP" by blast
      show ?thesis
      proof (cases "reads = [] \<or> hd reads = []")
        case True
        then show ?thesis using cinv len e by (cases reads) (simp_all add: ev Let_def)
      next
        case False
        then obtain c rest where reads: "reads = c # rest" "c \<noteq> []" by (cases reads) auto
        let ?r = "(rx_compact r)\<lparr>rx_buf := rx_buf (rx_compact r) @ c\<rparr>"
        have "length (rx_live (rx_compact r)) < RX_BUF_HARD_CAP" using len by (simp only: rx_compact_live)
        then have "rx_inv K ?r" using cinv 1(4) reads(1) by (auto simp: rx_inv_def)
        moreover have "\<not> length (rx_buf r) - rx_offset r \<ge> RX_BUF_HARD_CAP" using len by simp
        ultimately have "fst (recv_record_into P um rest ?r) \<noteq> Panic \<and> rx_inv K (snd (snd (recv_record_into P um rest ?r)))"
          using 1(2) [OF off(2) Err e _ refl reads] 1(4) reads(1) by simp
        then show ?thesis using len e reads by (simp add: ev Let_def)
      qed
    next
      case False
      then show ?thesis using 1(3) by (cases e) (simp_all add: ev)
    qed
  qed
qed

section \<open>Calls that succeed\<close>

text \<open>
  A sender that can ratchet: the secret has its length and the Diffie-Hellman result with the
  bootstrap share, where there is one, is not the all-zero string.
\<close>

definition ratchet_ready :: "primitives \<Rightarrow> bytes \<Rightarrow> AlphaSender \<Rightarrow> bool" where
  "ratchet_ready P rng s \<longleftrightarrow> length (tx_secret s) = 32
     \<and> (\<forall>pub. tx_peer_dh_pub s = Some pub \<longrightarrow> \<not> list_all (\<lambda>b. b = 0) (p_dh P rng pub))"

lemma session_direction_keys_total:
  assumes "prims_ok P" and "length sec = 32"
  obtains keys where "session_direction_keys P sec = Ok keys"
proof -
  obtain k where k: "expand_label P sec (ascii ''key'') [] 32 = Ok k"
    by (rule expand_label_total [OF assms, of "ascii ''key''" "[]" 32]) simp_all
  obtain iv where iv: "expand_label P sec (ascii ''iv'') [] 12 = Ok iv"
    by (rule expand_label_total [OF assms, of "ascii ''iv''" "[]" 12]) simp_all
  show ?thesis by (rule that) (simp add: session_direction_keys_def k iv)
qed

lemma ratchet_secret_and_body_total:
  assumes P: "prims_ok P" and rdy: "ratchet_ready P rng s"
  obtains sec body a b where "ratchet_secret_and_body P rng e s = (Ok (sec, body), s\<lparr>tx_dh_sk := a, tx_peer_dh_pub := b\<rparr>)"
    and "length sec = 32" and "length body \<le> 36" and "b = None \<or> b = tx_peer_dh_pub s"
proof (cases "\<exists>x pub. tx_dh_sk s = Some x \<and> tx_peer_dh_pub s = Some pub")
  case True
  then obtain x pub where dh: "tx_dh_sk s = Some x" "tx_peer_dh_pub s = Some pub" by blast
  have l: "length DH_RATCHET_LABEL < 245" "length (p_dh P rng pub) < 256"
    using prims_okD(5) [OF P] by (simp_all add: DH_RATCHET_LABEL_def)
  obtain sec where "expand_label P (tx_secret s) DH_RATCHET_LABEL (p_dh P rng pub) 32 = Ok sec" "length sec = 32"
    by (rule expand_label_total [OF P _ l, of "tx_secret s" 32]) (use rdy in \<open>simp_all add: ratchet_ready_def\<close>)
  then show ?thesis
    using dh rdy prims_okD(4) [OF P, of rng]
    by (intro that [of sec "be_bytes 4 (unat e) @ p_xpub P rng" None None])
      (simp_all add: ratchet_secret_and_body_def ratchet_ready_def Let_def del: be_bytes.simps)
next
  case False
  have l: "length label_RATCHET < 245" by (simp add: label_RATCHET_def)
  obtain sec where "expand_label P (tx_secret s) label_RATCHET [] 32 = Ok sec" "length sec = 32"
    by (rule expand_label_total [OF P _ l, of "tx_secret s" "[]" 32]) (use rdy in \<open>simp_all add: ratchet_ready_def\<close>)
  moreover have "ratchet_secret_and_body P rng e s = st_bind (derive_ratchet_secret P (tx_secret s), s) (\<lambda>next s.
               (Ok (next, be_bytes 4 (unat e)), s))"
    using False by (auto simp: ratchet_secret_and_body_def split: option.split)
  ultimately show ?thesis
    by (intro that [of sec "be_bytes 4 (unat e)" "tx_peer_dh_pub s" "tx_dh_sk s"])
      (simp_all add: derive_ratchet_secret_def del: be_bytes.simps)
qed

lemma send_ratchet_frame_total:
  assumes P: "prims_ok P" and rdy: "ratchet_ready P rng s" and ep: "unat (tx_epoch s) + 1 < 2 ^ 24"
  obtains s' where "send_ratchet_frame P rng s = (Ok (), s')" and "ratchet_ready P rng s'"
    and "unat (tx_epoch s') = unat (tx_epoch s) + 1" and "tx_pad_quantum s' = tx_pad_quantum s"
    and "tx_seqnum s' = 0"
proof -
  let ?n = "pack_counter (tx_epoch s) SEQNUM_MAX"
  have i: "unat (sat_inc32 (tx_epoch s)) = unat (tx_epoch s) + 1" by (rule unat_sat_inc32) (use ep in simp)
  obtain sec body a b where rb: "ratchet_secret_and_body P rng (sat_inc32 (tx_epoch s)) s
      = (Ok (sec, body), s\<lparr>tx_dh_sk := a, tx_peer_dh_pub := b\<rparr>)"
    and sec: "length sec = 32" and body: "length body \<le> 36" and b: "b = None \<or> b = tx_peer_dh_pub s"
    using ratchet_secret_and_body_total [OF P rdy] .
  obtain keys where keys: "session_direction_keys P sec = Ok keys" using session_direction_keys_total [OF P sec] .
  have "length body < 2 ^ 38 - 64" using body by simp
  then obtain ct where ct: "p_encrypt P (dk_key (tx_keys s)) (nonce_for (dk_iv (tx_keys s)) ?n) (counter_aad ?n) body = Some ct"
    "length ct = length body + 16"
    using prims_ok_encrypt [OF P] by blast
  then obtain frame where "encode_record RECORD_RATCHET ct = Ok frame"
    using encode_record_bytes [of ct RECORD_RATCHET] body by simp
  then show ?thesis
    using rb keys ct i ep b rdy sec
    by (intro that) (simp add: send_ratchet_frame_def Let_def EPOCH_BITS_def seal_def, auto simp: ratchet_ready_def)
qed

lemma ensure_ratchet_total:
  assumes P: "prims_ok P" and inv: "tx_inv s" and rdy: "ratchet_ready P rng s" and ep: "unat (tx_epoch s) + 1 < 2 ^ 24"
  obtains s' where "ensure_ratchet P rng s = (Ok (), s')" and "ratchet_ready P rng s'" and "tx_inv s'"
    and "unat (tx_epoch s') \<le> unat (tx_epoch s) + 1" and "tx_pad_quantum s' = tx_pad_quantum s"
proof (cases "should_ratchet s")
  case True
  obtain s' where s': "send_ratchet_frame P rng s = (Ok (), s')" "ratchet_ready P rng s'"
    "unat (tx_epoch s') = unat (tx_epoch s) + 1" "tx_pad_quantum s' = tx_pad_quantum s" "tx_seqnum s' = 0"
    using send_ratchet_frame_total [OF P rdy ep] .
  then have "ensure_ratchet P rng s = (Ok (), s')" using True by (simp add: ensure_ratchet_def)
  then show ?thesis using that [of s'] s' ensure_ratchet_inv [OF inv, of P rng "()"] by simp
next
  case False
  have "\<not> tx_seqnum s > SEQNUM_MAX"
    using tx_inv_seqnum [OF inv] by (simp add: word_less_nat_alt unat_seqnum_max not_less)
  then show ?thesis using that [of s] False inv rdy by (simp add: ensure_ratchet_def)
qed

lemma seal_and_write_total:
  assumes P: "prims_ok P" and len: "length pt < 2 ^ 37"
  obtains w l where "seal_and_write P k pt s = (Ok (), s\<lparr>tx_wire := w, tx_log := l\<rparr>)"
proof -
  have "length pt < 2 ^ 38 - 64" using len by simp
  then obtain ct where "p_encrypt P (ak_cipher (tx_cipher s)) (nonce_for (ak_iv (tx_cipher s)) (tx_combined s))
      (counter_aad (tx_combined s)) pt = Some ct" "length ct = length pt + 16"
    using prims_ok_encrypt [OF P] by blast
  then show ?thesis
    using that len write_record_header_bytes [of "length ct" "[]" k] by (simp add: seal_and_write_def seal_into_def Let_def)
qed

lemma send_cell_total:
  assumes P: "prims_ok P" and inv: "tx_inv s" and rdy: "ratchet_ready P rng s" and ep: "unat (tx_epoch s) + 1 < 2 ^ 24"
    and q: "8 \<le> unat (tx_pad_quantum s)" and c: "c = unat (tx_pad_quantum s) - 4"
    and n: "n = max (div_ceil (length payload) c) 1" and i: "i < n"
  obtains s' where "send_cell P rng payload n i s = (Ok (), s')" and "ratchet_ready P rng s'" and "tx_inv s'"
    and "unat (tx_epoch s') \<le> unat (tx_epoch s) + 1" and "tx_pad_quantum s' = tx_pad_quantum s"
proof -
  let ?q = "unat (tx_pad_quantum s)"
  have c0: "0 < c" using q c by simp
  note cover = cells_cover [OF c0 n i]
  define chunk where "chunk = (if Suc i = n then drop (i * c) payload else take c (drop (i * c) payload))"
  define pt where "pt = (if Suc i = n then be_bytes 4 (length chunk) @ chunk @ replicate (?q - (4 + length chunk)) 0
             else be_bytes 4 CONTINUATION_SENTINEL @ chunk)"
  have sl: "Suc i = n \<Longrightarrow> slice payload (i * c) (length payload) = (Ok chunk :: (AlphaError, bytes) rust)"
    "Suc i \<noteq> n \<Longrightarrow> slice payload (i * c) (i * c + c) = (Ok chunk :: (AlphaError, bytes) rust)"
    using cover by (simp_all add: slice_def slice_get_def chunk_def)
  have lp: "length pt = ?q"
    using cover q c by (auto simp: pt_def chunk_def simp del: be_bytes.simps)
  obtain s1 where e: "ensure_ratchet P rng s = (Ok (), s1)" "ratchet_ready P rng s1" "tx_inv s1"
    "unat (tx_epoch s1) \<le> unat (tx_epoch s) + 1" "tx_pad_quantum s1 = tx_pad_quantum s"
    using ensure_ratchet_total [OF P inv rdy ep] .
  have "length pt < 2 ^ 37" using lp unat_u16_less [of "tx_pad_quantum s"] by simp
  then obtain w l where w: "seal_and_write P RECORD_DATA_PADDED pt s1 = (Ok (), s1\<lparr>tx_wire := w, tx_log := l\<rparr>)"
    using seal_and_write_total [OF P] by blast
  have ev: "send_cell P rng payload n i s = (Ok (), tx_advance (s1\<lparr>tx_wire := w, tx_log := l\<rparr>))"
    unfolding send_cell_def Let_def c [symmetric] e(1) st_bind.simps
    using sl lp w by (cases "Suc i = n") (simp_all add: pt_def del: be_bytes.simps)
  show ?thesis
    by (rule that [OF ev]) (use e send_cell_inv [OF inv, of P rng payload n i] in \<open>simp_all add: ev ratchet_ready_def\<close>)
qed

lemma send_cells_total:
  assumes P: "prims_ok P" and "8 \<le> unat (tx_pad_quantum s)" and "c = unat (tx_pad_quantum s) - 4"
    and n: "n = max (div_ceil (length payload) c) 1" and "tx_inv s" and "ratchet_ready P rng s"
    and "unat (tx_epoch s) + (n - i) < 2 ^ 24" and "i \<le> n"
  shows "\<exists>s'. send_cells P rng payload n [i..<n] s = (Ok (), s')"
  using assms(2,3,5-)
proof (induction "n - i" arbitrary: i s)
  case (Suc k)
  then have i: "i < n" and ep: "unat (tx_epoch s) + 1 < 2 ^ 24" by simp_all
  have l: "[i..<n] = i # [Suc i..<n]" using i by (simp add: upt_rec)
  obtain s1 where s1: "send_cell P rng payload n i s = (Ok (), s1)" "ratchet_ready P rng s1" "tx_inv s1"
    "unat (tx_epoch s1) \<le> unat (tx_epoch s) + 1" "tx_pad_quantum s1 = tx_pad_quantum s"
    using send_cell_total [OF P Suc.prems(3,4) ep Suc.prems(1,2) n i] .
  have "\<exists>s'. send_cells P rng payload n [Suc i..<n] s1 = (Ok (), s')"
    using Suc.hyps(2) Suc.prems s1 by (intro Suc.hyps(1)) auto
  then show ?case using s1(1) l by auto
qed simp

section \<open>Around CLOSE\<close>

lemma send_close_total:
  assumes P: "prims_ok P"
  obtains w where "send_close P code reason s = (Ok (), s\<lparr>tx_wire := tx_wire s @ w,
      tx_log := tx_log s @ [(tx_epoch s, tx_combined s)], tx_seqnum := SEQNUM_MAX + 1\<rparr>)"
proof -
  let ?pt = "[code, word_of_nat (min (length reason) 255)] @ take (min (length reason) 255) reason"
  have "length ?pt < 2 ^ 38 - 64" by simp
  then obtain ct where "p_encrypt P (dk_key (tx_keys s)) (nonce_for (dk_iv (tx_keys s)) (tx_combined s))
      (counter_aad (tx_combined s)) ?pt = Some ct" "length ct = length ?pt + 16"
    using prims_ok_encrypt [OF P] by blast
  moreover have "length ct < 2 ^ 62" using calculation(2) by simp
  ultimately show ?thesis
    using that encode_record_bytes [of ct RECORD_CLOSE] by (simp add: send_close_def seal_def Let_def)
qed

lemma pack_counter_overflow:
  assumes "odd (unat e)"
  shows "pack_counter e (SEQNUM_MAX + 1) = pack_counter e 0"
proof -
  have "bit (unat e) 0" using assms by (simp add: bit_0)
  then have "bit (ucast e :: u64) 0" by (simp add: bit_unsigned_iff)
  then have "odd (ucast e :: u64)" by (simp add: bit_0)
  then have "ucast e OR 1 = (ucast e :: u64)" by (simp add: or_one_eq)
  moreover have "push_bit 40 (ucast e OR 1) = push_bit 40 (ucast e) OR (SEQNUM_MAX + 1)"
    by (simp add: push_bit_or seqnum_max_value)
  ultimately show ?thesis by (simp add: pack_counter_def)
qed

lemma ensure_ratchet_closed:
  assumes P: "prims_ok P" and rdy: "ratchet_ready P rng s" and ep: "unat (tx_epoch s) + 1 < 2 ^ 24"
    and q: "tx_seqnum s = SEQNUM_MAX + 1"
  obtains s' where "ensure_ratchet P rng s = (Ok (), s')" and "unat (tx_epoch s') = unat (tx_epoch s) + 1"
    and "tx_pad_quantum s' = tx_pad_quantum s" and "tx_seqnum s' = 0"
proof -
  obtain s' where s': "send_ratchet_frame P rng s = (Ok (), s')" "unat (tx_epoch s') = unat (tx_epoch s) + 1"
    "tx_pad_quantum s' = tx_pad_quantum s" "tx_seqnum s' = 0"
    using send_ratchet_frame_total [OF P rdy ep] .
  have "tx_seqnum s > SEQNUM_MAX" by (simp add: q seqnum_max_value)
  then have "ensure_ratchet P rng s = (Ok (), s')" using s'(1,4) by (simp add: ensure_ratchet_def)
  then show ?thesis using that s' by blast
qed

section \<open>Delivery\<close>

lemma session_delivers:
  assumes "prims_ok P" and "RX_BUF_HARD_CAP \<le> um" and "synced P s r" and "rx_pending r = []"
    and "rx_offset r \<le> length (rx_buf r)"
    and "tx_run P ops s = (Ok (), s')" and "list_all (\<lambda>b. length b + 25 \<le> RX_BUF_HARD_CAP) (payloads ops)"
    and "tx_wire s' = tx_wire s @ rx_live r @ concat reads" and "[] \<notin> set reads"
  shows "\<exists>r'. recv_calls P um (Suc (length (payloads ops))) reads r
      = (map (\<lambda>x. Ok (Some x)) (payloads ops) @ [Ok None], [], r') \<and> synced P s' r' \<and> rx_live r' = []"
proof -
  have "emits_all P um s s' (payloads ops)"
    by (rule tx_run_emits [OF assms(2,6) _ assms(7,1)]) (use assms(3) in \<open>simp add: synced_def\<close>)
  then obtain fs r1 where fs: "tx_wire s' = tx_wire s @ concat (map frame_bytes fs)" "list_all small_frame fs"
    "rx_feed P um fs r = Some (payloads ops, r1)" "synced P s' r1"
    unfolding emits_all_def using assms(3,4) by blast
  have "rx_live r @ concat reads = concat (map frame_bytes fs)" using fs(1) assms(8) by simp
  then obtain b off where "recv_calls P um (Suc (length (payloads ops))) reads r
      = (map (\<lambda>x. Ok (Some x)) (payloads ops) @ [Ok None], [], rebuf b off r1)" "drop off b = []"
    using recv_calls_feed [OF assms(2) fs(3,2) assms(5) _ assms(9)] by blast
  moreover have "synced P s' (rebuf b off r1)" using fs(4) by (simp add: synced_def)
  ultimately show ?thesis by auto
qed

section \<open>Properties\<close>

text \<open>
  C1. Delivery.  Take two synchronised ends, the receiver holding no unfinished record.  If the
  sender makes any sequence of successful calls (records with or without padding, heartbeats,
  changes of the padding quantum, with all the ratchets these cause) and the transport delivers
  the bytes written, split into reads in any way, then successive calls of \<open>recv_record\<close> return
  exactly the payloads sent, in order, then end of stream, and the two ends are synchronised again.
\<close>

theorem session_delivery:
  assumes "prims_ok P" and "RX_BUF_HARD_CAP \<le> um" and "synced P s r" and "rx_pending r = []"
    and "rx_offset r \<le> length (rx_buf r)"
    and "tx_run P ops s = (Ok (), s')" and "list_all (\<lambda>b. length b + 25 \<le> RX_BUF_HARD_CAP) (payloads ops)"
    and "tx_wire s' = tx_wire s @ rx_live r @ concat reads" and "[] \<notin> set reads"
  shows "\<exists>r'. recv_calls P um (Suc (length (payloads ops))) reads r
      = (map (\<lambda>x. Ok (Some x)) (payloads ops) @ [Ok None], [], r') \<and> synced P s' r' \<and> rx_live r' = []"
  using assms by (rule session_delivers)

definition toy_keys :: DirectionKeys where
  "toy_keys = \<lparr>dk_key = replicate 32 1, dk_iv = replicate 12 2\<rparr>"

lemma toy_send:
  "tx_run toy_prims [SendRecord [1] [7, 8]] (sender_new toy_keys (replicate 32 9)) =
     (Ok (), (sender_new toy_keys (replicate 32 9))\<lparr>tx_wire := RECORD_DATA # 18 # 7 # 8 # replicate 16 0,
        tx_log := [(0, tx_combined (sender_new toy_keys (replicate 32 9)))], tx_seqnum := 1,
        tx_bytes_in_epoch := 2, tx_records_in_epoch := 1\<rparr>)"
proof -
  have "varint_encode 18 [RECORD_DATA] = Ok ([RECORD_DATA, 18], 1)" by code_simp
  then show ?thesis
    by (simp add: send_record_def ensure_ratchet_def should_ratchet_def RATCHET_BYTES_def RATCHET_RECORDS_def
        sender_new_def seal_and_write_def seal_into_def toy_prims_def write_record_header_to_def Let_def
        sat_inc64_def sat_add64_def u64_max_def)
qed

theorem session_delivery_witness:
  "\<exists>r'. recv_calls toy_prims usize64 2 [[RECORD_DATA, 18, 7], 8 # replicate 16 0]
      (receiver_with_prefix toy_keys (replicate 32 9) []) = ([Ok (Some [7, 8]), Ok None], [], r')"
proof -
  let ?r = "receiver_with_prefix toy_keys (replicate 32 9) []" and ?ops = "[SendRecord [1] [7, 8]]"
    and ?s = "sender_new toy_keys (replicate 32 9)" and ?reads = "[[RECORD_DATA, 18, 7], 8 # replicate 16 0]"
  define s' where "s' = snd (tx_run toy_prims ?ops ?s)"
  have run: "tx_run toy_prims ?ops ?s = (Ok (), s')" by (simp add: s'_def toy_send del: tx_run.simps)
  have wire: "tx_wire s' = tx_wire ?s @ rx_live ?r @ concat ?reads"
    unfolding s'_def toy_send by (simp add: sender_new_def receiver_with_prefix_def)
  have "\<exists>r'. recv_calls toy_prims usize64 (Suc (length (payloads ?ops))) ?reads ?r
    = (map (\<lambda>x. Ok (Some x)) (payloads ?ops) @ [Ok None], [], r') \<and> synced toy_prims s' r' \<and> rx_live r' = []"
    by (rule session_delivery [OF toy_prims_ok _ _ _ _ run _ wire])
      (simp_all add: RX_BUF_HARD_CAP_def usize64_def synced_def sender_new_def receiver_with_prefix_def)
  then show ?thesis by (auto simp: numeral_2_eq_2)
qed





text \<open>
  C39. CLOSE does not end the sending direction.  A record sent after a successful CLOSE is not
  refused: the burnt sequence number makes \<open>ensure_ratchet\<close> move to the next epoch and the record
  goes out there as number 0.  A second CLOSE in an epoch with an odd number is sealed under the
  counter of the first record of that epoch.
\<close>

theorem send_after_close:
  assumes "prims_ok P" and "ratchet_ready P rng s" and "unat (tx_epoch s) + 1 < 2 ^ 24" and "tx_pad_quantum s = 0"
    and "length payload < 2 ^ 37"
  shows "\<exists>s1 s2 s3. send_close P code reason s = (Ok (), s1)
      \<and> send_record P rng payload s1 = (Ok 0, s2) \<and> unat (tx_epoch s2) = unat (tx_epoch s) + 1
      \<and> send_close P code reason s1 = (Ok (), s3)
      \<and> (odd (unat (tx_epoch s)) \<longrightarrow> last (tx_log s3) = (tx_epoch s, pack_counter (tx_epoch s) 0))"
proof -
  obtain w where c: "send_close P code reason s = (Ok (), s\<lparr>tx_wire := tx_wire s @ w,
      tx_log := tx_log s @ [(tx_epoch s, tx_combined s)], tx_seqnum := SEQNUM_MAX + 1\<rparr>)" (is "_ = (_, ?s1)")
    using send_close_total [OF assms(1)] .
  have rdy: "ratchet_ready P rng ?s1" using assms(2) by (simp add: ratchet_ready_def)
  obtain s2 where e: "ensure_ratchet P rng ?s1 = (Ok (), s2)" "unat (tx_epoch s2) = unat (tx_epoch s) + 1" "tx_seqnum s2 = 0"
    using ensure_ratchet_closed [OF assms(1) rdy] assms(3) by auto
  obtain v l where "seal_and_write P RECORD_DATA payload s2 = (Ok (), s2\<lparr>tx_wire := v, tx_log := l\<rparr>)"
    using seal_and_write_total [OF assms(1,5)] .
  then have r: "\<exists>s'. send_record P rng payload ?s1 = (Ok 0, s') \<and> unat (tx_epoch s') = unat (tx_epoch s) + 1"
    using e assms(4) by (auto simp: send_record_def)
  obtain w3 where "send_close P code reason ?s1 = (Ok (), ?s1\<lparr>tx_wire := tx_wire ?s1 @ w3,
      tx_log := tx_log ?s1 @ [(tx_epoch ?s1, tx_combined ?s1)], tx_seqnum := SEQNUM_MAX + 1\<rparr>)" (is "_ = (_, ?s3)")
    using send_close_total [OF assms(1)] .
  moreover have "odd (unat (tx_epoch s)) \<longrightarrow> last (tx_log ?s3) = (tx_epoch s, pack_counter (tx_epoch s) 0)"
    by (simp add: tx_combined_def pack_counter_overflow)
  ultimately show ?thesis using c r by blast
qed

theorem send_after_close_witness:
  "\<exists>s1 s2. send_close toy_prims 0 [] (sender_new toy_keys (replicate 32 9)) = (Ok (), s1)
      \<and> send_record toy_prims [1] [5] s1 = (Ok 0, s2) \<and> unat (tx_epoch s2) = 1"
  using send_after_close [OF toy_prims_ok, of "[1]" "sender_new toy_keys (replicate 32 9)" "[5]" 0 "[]"]
  by (auto simp: ratchet_ready_def sender_new_def)



end
