(* ===== verification/Handshake_Run.thy ===== *)
theory Handshake_Run
  imports Handshake_Model Session_Guarantees
begin

text \<open>
  Lemmas on the handshake: reading a frame does not depend on the chunking, both ends compute the
  same values, the server accepts what an honest client sends and the client accepts the answer.
\<close>

section \<open>Reading and writing frames\<close>

named_theorems hs_simps \<open>evaluation of the calls of the handshake\<close>

lemma read_attempt_ready:
  assumes "frame_legal f" and "length (frame_bytes f) \<le> um"
  shows "read_attempt um (frame_bytes f @ rest) = Some (Ok f, rest)"
proof -
  have "frame_bytes f @ rest \<noteq> []" by (simp add: frame_bytes_def)
  then show ?thesis using decode_frame_bytes [OF assms, of rest] by (simp add: read_attempt_def Let_def)
qed

lemma read_attempt_short:
  assumes "frame_legal f" and "length (frame_bytes f) \<le> um" and "frame_bytes f = buf @ later" and "later \<noteq> []"
    and "length (frame_bytes f) \<le> HANDSHAKE_RX_HARD_CAP"
  shows "read_attempt um buf = None"
proof -
  obtain a b where "decode_frame um buf = Err (Short a b)" using decode_prefix_short [OF assms(1-4)] by blast
  moreover have "length buf < length (frame_bytes f)" using assms(4) by (simp add: assms(3))
  ultimately show ?thesis using assms(5) by (simp add: read_attempt_def Let_def)
qed

lemma read_frame_loop_chunks:
  assumes f: "frame_legal f" "length (frame_bytes f) \<le> um" "length (frame_bytes f) \<le> HANDSHAKE_RX_HARD_CAP"
  shows "buf @ concat reads = frame_bytes f @ rest \<Longrightarrow> [] \<notin> set reads \<Longrightarrow>
    \<exists>reads' buf'. buf' @ concat reads' = rest \<and> [] \<notin> set reads' \<and> read_frame_loop um reads buf = (Ok f, reads', buf')"
proof (induction reads arbitrary: buf)
  case Nil
  then show ?case using read_attempt_ready [OF f(1,2), of rest] by simp
next
  case (Cons chunk reads)
  consider e where "buf = frame_bytes f @ e" "rest = e @ concat (chunk # reads)"
    | later where "frame_bytes f = buf @ later" "later \<noteq> []"
    using append_split_cases [OF Cons.prems(1)] by blast
  then show ?case
  proof cases
    case 1
    then show ?thesis
      using read_attempt_ready [OF f(1,2), of e] Cons.prems(2) by (intro exI [of _ "chunk # reads"] exI [of _ e]) simp
  next
    case 2
    have "read_attempt um buf = None" by (rule read_attempt_short [OF f(1,2) 2 f(3)])
    then show ?thesis using Cons.IH [of "buf @ chunk"] Cons.prems by auto
  qed
qed

lemma read_frame_chunks:
  assumes "frame_legal f" and "length (frame_bytes f) \<le> um" and "length (frame_bytes f) \<le> HANDSHAKE_RX_HARD_CAP"
    and "io_buf s @ concat (io_reads s) = frame_bytes f @ rest" and "[] \<notin> set (io_reads s)"
  obtains s' where "read_frame um s = (Ok f, s')" and "io_buf s' @ concat (io_reads s') = rest"
    and "[] \<notin> set (io_reads s')" and "io_out s' = io_out s" and "hs_io.more s' = hs_io.more s"
proof -
  obtain reads buf where "buf @ concat reads = rest" "[] \<notin> set reads"
    "read_frame_loop um (io_reads s) (io_buf s) = (Ok f, reads, buf)"
    using read_frame_loop_chunks [OF assms(1-3) assms(4,5)] by blast
  then show ?thesis using that [of "s\<lparr>io_reads := reads, io_buf := buf\<rparr>"] by (simp add: read_frame_def)
qed

text \<open>Frames of the handshake: every body is far below the limits.\<close>

abbreviation hs_frame :: "u8 \<Rightarrow> bytes \<Rightarrow> bytes" where
  "hs_frame k body \<equiv> frame_bytes \<lparr>frame_kind = k, frame_body = body\<rparr>"

lemma hs_frame_fits:
  assumes "length body \<le> 2048" and "2 ^ 16 \<le> um"
  shows "frame_legal \<lparr>frame_kind = k, frame_body = body\<rparr>" and "length (hs_frame k body) \<le> um"
    and "length (hs_frame k body) \<le> HANDSHAKE_RX_HARD_CAP"
proof -
  show "frame_legal \<lparr>frame_kind = k, frame_body = body\<rparr>" using assms(1) by (simp add: frame_legal_def)
  have "length (hs_frame k body) \<le> 9 + length body"
    using length_frame_bytes_le [of "\<lparr>frame_kind = k, frame_body = body\<rparr>"] assms(1) by simp
  then show "length (hs_frame k body) \<le> um" "length (hs_frame k body) \<le> HANDSHAKE_RX_HARD_CAP"
    using assms by (simp_all add: HANDSHAKE_RX_HARD_CAP_def)
qed

lemma write_frame_Ok [hs_simps]:
  "length body \<le> 2048 \<Longrightarrow> write_frame k body s = (Ok (), write_all (hs_frame k body) s)"
  by (simp add: write_frame_def encode_handshake_record encode_record_bytes)

lemma write_all_simps [simp]:
  "io_reads (write_all bs s) = io_reads s" "io_buf (write_all bs s) = io_buf s"
  "io_out (write_all bs s) = io_out s @ bs" "hs_io.more (write_all bs s) = hs_io.more s"
  by (simp_all add: write_all_def)

section \<open>The values of a run\<close>

text \<open>
  What the two ends derive from the shared secret, the nonce, the binding, the ClientHello, the
  ServerHello: the provisional secrets, the two Finished values, the final secrets and the keys.
\<close>

record run_values =
  rv_prov :: HandshakeSecrets
  rv_sf :: bytes
  rv_cf :: bytes
  rv_final :: HandshakeSecrets
  rv_c_keys :: DirectionKeys
  rv_s_keys :: DirectionKeys

definition th_hello :: "primitives \<Rightarrow> bytes option \<Rightarrow> bytes \<Rightarrow> bytes \<Rightarrow> bytes" where
  "th_hello P cb ch sh = transcript_snapshot P (transcript_update sh (transcript_update ch (bound_transcript cb)))"

definition run_ok :: "primitives \<Rightarrow> bytes \<Rightarrow> bytes \<Rightarrow> bytes option \<Rightarrow> bytes \<Rightarrow> bytes \<Rightarrow> run_values \<Rightarrow> bool" where
  "run_ok P nonce k cb ch sh v \<longleftrightarrow>
     (let th = th_hello P cb ch sh; thsf = sha256 P (ch @ sh @ rv_sf v); thcf = sha256 P (ch @ sh @ rv_sf v @ rv_cf v) in
      derive P nonce k th th th = Ok (rv_prov v)
      \<and> finished_mac P (s_ap_secret (rv_prov v)) th = Ok (rv_sf v)
      \<and> finished_mac P (c_ap_secret (rv_prov v)) thsf = Ok (rv_cf v)
      \<and> derive P nonce k th thsf thcf = Ok (rv_final v)
      \<and> direction_keys P (rv_final v) = Ok (rv_c_keys v, rv_s_keys v)
      \<and> length (rv_sf v) = 32 \<and> length (rv_cf v) = 32
      \<and> length (c_ap_secret (rv_final v)) = 32 \<and> length (s_ap_secret (rv_final v)) = 32)"

lemma finished_mac_total:
  assumes P: "prims_ok P" and "length sec = 32"
  obtains mac where "finished_mac P sec th = Ok mac" and "length mac = 32"
proof -
  obtain key where "expand_label P sec (ascii ''finished'') [] 32 = Ok key"
    by (rule expand_label_total [OF assms, of "ascii ''finished''" "[]" 32]) simp_all
  then show ?thesis
    by (intro that [of "p_hmac P key th"]) (simp_all add: finished_mac_def hmac_sha256_def prims_okD(2) [OF P])
qed

lemma run_ok_total:
  assumes P: "prims_ok P"
  obtains v where "run_ok P nonce k cb ch sh v"
proof -
  have th: "length (th_hello P cb ch sh) = 32" by (simp add: th_hello_def transcript_snapshot_def prims_okD(1) [OF P])
  have sha: "length (sha256 P m) = 32" for m by (simp add: sha256_def prims_okD(1) [OF P])
  obtain prov where prov: "derive P nonce k (th_hello P cb ch sh) (th_hello P cb ch sh) (th_hello P cb ch sh) = Ok prov"
    "length (c_ap_secret prov) = 32" "length (s_ap_secret prov) = 32"
    using derive_total [OF P th th th] .
  obtain sf where sf: "finished_mac P (s_ap_secret prov) (th_hello P cb ch sh) = Ok sf" "length sf = 32"
    using finished_mac_total [OF P prov(3)] .
  obtain cf where cf: "finished_mac P (c_ap_secret prov) (sha256 P (ch @ sh @ sf)) = Ok cf" "length cf = 32"
    using finished_mac_total [OF P prov(2)] .
  obtain fin where fin: "derive P nonce k (th_hello P cb ch sh) (sha256 P (ch @ sh @ sf)) (sha256 P (ch @ sh @ sf @ cf)) = Ok fin"
    "length (c_ap_secret fin) = 32" "length (s_ap_secret fin) = 32"
    using derive_total [OF P th sha sha] .
  obtain ck sk where "direction_keys P fin = Ok (ck, sk)" using direction_keys_total [OF P fin(2,3)] .
  then show ?thesis
    using prov(1) sf cf fin
    by (intro that [of "\<lparr>rv_prov = prov, rv_sf = sf, rv_cf = cf, rv_final = fin, rv_c_keys = ck, rv_s_keys = sk\<rparr>"])
      (simp add: run_ok_def Let_def)
qed

section \<open>The client after its hello\<close>

definition client_session :: "run_values \<Rightarrow> bytes \<Rightarrow> bytes \<Rightarrow> bytes \<Rightarrow> AlphaSession" where
  "client_session v my_sk sh prefix = with_dh_ratchet my_sk sh
     (session_with_prefix (rv_c_keys v) (rv_s_keys v) (c_ap_secret (rv_final v)) (s_ap_secret (rv_final v)) prefix)"

lemma client_finish_run:
  assumes "run_ok P nonce k cb ch sh v"
  shows "client_finish P eph nonce ch sh (rv_sf v) (th_hello P cb ch sh) k s
    = (Ok (client_session v (x25519_sk eph) sh (io_buf s)), write_all (hs_frame FRAME_CLIENT_FINISHED (rv_cf v)) s)"
  using assms by (simp add: run_ok_def Let_def client_finish_def client_session_def hs_simps)

lemma client_await_run:
  assumes run: "run_ok P nonce k cb ch sh v" and sh: "length sh = 32" and um: "2 ^ 16 \<le> um"
    and comb: "client_combine P eph sh = Ok k"
    and stream: "io_buf s @ concat (io_reads s)
        = hs_frame FRAME_SERVER_HELLO sh @ hs_frame FRAME_SERVER_FINISHED (rv_sf v) @ rest"
    and ne: "[] \<notin> set (io_reads s)"
  obtains s' where "client_await P um eph nonce cb ch s = (Ok (client_session v (x25519_sk eph) sh (io_buf s')), s')"
    and "io_buf s' @ concat (io_reads s') = rest" and "[] \<notin> set (io_reads s')"
    and "io_out s' = io_out s @ hs_frame FRAME_CLIENT_FINISHED (rv_cf v)"
proof -
  have sf: "length (rv_sf v) = 32" using run by (simp add: run_ok_def Let_def)
  let ?h = "\<lparr>frame_kind = FRAME_SERVER_HELLO, frame_body = sh\<rparr>"
    and ?f = "\<lparr>frame_kind = FRAME_SERVER_FINISHED, frame_body = rv_sf v\<rparr>"
  obtain s1 where s1: "read_frame um s = (Ok ?h, s1)"
    "io_buf s1 @ concat (io_reads s1) = hs_frame FRAME_SERVER_FINISHED (rv_sf v) @ rest" "[] \<notin> set (io_reads s1)" "io_out s1 = io_out s"
    by (rule read_frame_chunks [OF hs_frame_fits [OF _ um] stream ne]) (use sh in simp_all)
  obtain s2 where s2: "read_frame um s1 = (Ok ?f, s2)"
    "io_buf s2 @ concat (io_reads s2) = rest" "[] \<notin> set (io_reads s2)" "io_out s2 = io_out s1"
    by (rule read_frame_chunks [OF hs_frame_fits [OF _ um] s1(2,3)]) (use sf in simp_all)
  let ?t = "write_all (hs_frame FRAME_CLIENT_FINISHED (rv_cf v)) s2"
  have "client_await P um eph nonce cb ch s = (Ok (client_session v (x25519_sk eph) sh (io_buf ?t)), ?t)"
    using client_finish_run [OF run, of eph s2] by (simp add: client_await_def s1(1) s2(1) sh sf comb th_hello_def Let_def)
  then show ?thesis by (rule that) (simp_all add: s1(4) s2)
qed

section \<open>The server after authentication\<close>

lemma server_finish_writes:
  assumes run: "run_ok P (client_nonce ext) k cb ch (p_xpub P eph_sk) v" and sh: "length (p_xpub P eph_sk) = 32"
  shows "server_finish P um cb ch eph_sk ext uid k DecapsDone s =
     st_bind (read_frame um (write_all (hs_frame FRAME_SERVER_FINISHED (rv_sf v))
                (write_all (hs_frame FRAME_SERVER_HELLO (p_xpub P eph_sk)) s))) (\<lambda>cf s.
      if frame_kind cf \<noteq> FRAME_CLIENT_FINISHED then (Err Closed, s)
      else if length (frame_body cf) \<noteq> 32 then (Err BadClientFinished, s)
      else if rv_cf v \<noteq> frame_body cf then (Err BadClientFinished, s)
      else (Ok (server_session ext uid eph_sk (rv_final v) (rv_c_keys v, rv_s_keys v) (io_buf s)), s))"
  using run sh unfolding run_ok_def Let_def th_hello_def
  by (simp add: server_finish_def Let_def step_expect_def hs_step_def hs_simps cong: if_cong)

section \<open>An honest pair of ends\<close>

text \<open>
  A client and a server that belong together: the client holds the public values of the server's
  key pair, is on the allowlist (or there is none) under its own key, finds a solution of the
  puzzle the server asks for, and its nonce and clock are acceptable to the replay window; the
  ephemeral shares are not the degenerate pair.
\<close>

definition honest_pair ::
    "primitives \<Rightarrow> ClientConfig \<Rightarrow> client_coins \<Rightarrow> (nat \<Rightarrow> bool) \<Rightarrow> u64 \<Rightarrow> ServerCtx \<Rightarrow> bytes \<Rightarrow> u64 \<Rightarrow> ReplayWindow \<Rightarrow> bool" where
  "honest_pair P cfg co expired now ctx eph_sk now' w \<longleftrightarrow>
     (\<exists>al mlkem_sk x_sk k0. kem_pair P (cfg_server_mlkem_pk_bytes cfg) mlkem_sk
        \<and> server_keys_generate P mlkem_sk (cfg_server_mlkem_pk_bytes cfg) x_sk = Ok k0
        \<and> ctx_keys ctx = k0\<lparr>sk_client_allowlist := al\<rparr> \<and> cfg_server_pq_fingerprint cfg = sk_pq_fingerprint k0
        \<and> (al = [] \<or> find (\<lambda>(uid, _). uid = cfg_user_id cfg) al = Some (cfg_user_id cfg, p_vk P (cfg_client_id_sk cfg))))
   \<and> length (cfg_server_mlkem_pk_bytes cfg) = 1184 \<and> length (cfg_user_id cfg) = 8 \<and> cfg_profile_hint cfg \<noteq> Gamma
   \<and> length (co_nonce co) = 16 \<and> length (co_seed co) = 4
   \<and> cfg_pow_difficulty cfg = ctx_pow_difficulty ctx
   \<and> (\<exists>sol. solve_with_deadline P (cfg_server_pq_fingerprint cfg) (co_nonce co) (cfg_pow_difficulty cfg) expired = Some sol)
   \<and> fst (replay_check w (unat now') (co_nonce co) (unat now)) = Accept
   \<and> p_dh P (co_x25519 co) (p_xpub P eph_sk) \<noteq> replicate 32 0"

lemma server_keys_generate_Ok:
  assumes "server_keys_generate P sk pk x_sk = Ok k"
  shows "expand_label P (sk_pq_fingerprint k) (ascii ''proteus-cid-key-v1'') [] 32 = Ok (sk_client_id_aead_key k)"
    and "sk_pq_fingerprint k = sha256 P pk" and "sk_mlkem_sk k = sk"
  using assms by (auto simp: server_keys_generate_def Let_def split: rust.splits)

lemma encrypt_client_id_Ok:
  assumes P: "prims_ok P" and k: "server_keys_generate P sk pk x_sk = Ok k" and fp: "cfg_server_pq_fingerprint cfg = sk_pq_fingerprint k"
    and uid: "length (cfg_user_id cfg) = 8"
  obtains cid where "encrypt_client_id P cfg nonce = Ok cid" and "length cid = 24"
    and "aead_open P (sk_client_id_aead_key k) (take 12 nonce) 0 (ascii ''proteus-cid-v1'') cid = Ok (cfg_user_id cfg)"
proof -
  have "length (cfg_user_id cfg) < 2 ^ 38 - 64" using uid by simp
  then obtain cid where "p_encrypt P (sk_client_id_aead_key k) (nonce_for (take 12 nonce) 0) (ascii ''proteus-cid-v1'') (cfg_user_id cfg) = Some cid"
    "length cid = length (cfg_user_id cfg) + 16"
    "p_decrypt P (sk_client_id_aead_key k) (nonce_for (take 12 nonce) 0) (ascii ''proteus-cid-v1'') cid = Some (cfg_user_id cfg)"
    using prims_ok_encrypt [OF P] by blast
  then show ?thesis
    using uid server_keys_generate_Ok(1) [OF k]
    by (intro that [of cid]) (simp_all add: encrypt_client_id_def seal_def aead_open_def CLIENT_ID_LEN_def fp)
qed

lemma solve_with_deadline_Some:
  assumes "solve_with_deadline P fp nonce d expired = Some sol"
  shows "length sol = 7" and "pow_verify P fp nonce d sol" and "d = 0 \<Longrightarrow> sol = replicate 7 0"
  using assms pow_search_sound [of P fp nonce d expired 0 sol]
  by (auto simp: solve_with_deadline_def pow_verify_def split: if_splits)

text \<open>The extension an honest client builds, field by field as far as the server looks at it.\<close>

lemma client_extension_Ok:
  assumes P: "prims_ok P" and h: "honest_pair P cfg co expired now ctx eph_sk now' w"
    and eph: "x25519_pub eph = p_xpub P (co_x25519 co)" "length (mlkem_ct eph) = 1088"
  obtains ext where "client_extension P cfg co expired now eph = Ok ext" and "auth_wf ext"
    and "version ext = PROTEUS_VERSION_V10" and "profile_hint ext \<noteq> Gamma" and "client_nonce ext = co_nonce co"
    and "client_x25519_pub ext = x25519_pub eph" and "client_mlkem768_ct ext = mlkem_ct eph"
    and "timestamp_unix_seconds ext = now" and "server_tag_ok P ctx ext" and "server_pow_ok P ctx ext"
    and "server_open_uid P ctx ext = Some (cfg_user_id cfg)"
    and "server_match_user P ctx ext (cfg_user_id cfg) = Some (cfg_user_id cfg)"
proof -
  obtain al mlkem_sk x_sk k0 where k0: "server_keys_generate P mlkem_sk (cfg_server_mlkem_pk_bytes cfg) x_sk = Ok k0"
    and ctx: "ctx_keys ctx = k0\<lparr>sk_client_allowlist := al\<rparr>" and fp: "cfg_server_pq_fingerprint cfg = sk_pq_fingerprint k0"
    and al: "al = [] \<or> find (\<lambda>(uid, _). uid = cfg_user_id cfg) al = Some (cfg_user_id cfg, p_vk P (cfg_client_id_sk cfg))"
    using h unfolding honest_pair_def by blast
  obtain sol where sol: "solve_with_deadline P (cfg_server_pq_fingerprint cfg) (co_nonce co) (cfg_pow_difficulty cfg) expired = Some sol"
    and hint: "cfg_profile_hint cfg \<noteq> Gamma" and uid: "length (cfg_user_id cfg) = 8" and pd: "cfg_pow_difficulty cfg = ctx_pow_difficulty ctx"
    and nonce: "length (co_nonce co) = 16"
    using h unfolding honest_pair_def by blast
  obtain cid where cid: "encrypt_client_id P cfg (co_nonce co) = Ok cid" "length cid = 24"
    "aead_open P (sk_client_id_aead_key k0) (take 12 (co_nonce co)) 0 (ascii ''proteus-cid-v1'') cid = Ok (cfg_user_id cfg)"
    using encrypt_client_id_Ok [OF P k0 fp uid] .
  note s = solve_with_deadline_Some [OF sol]
  define msg where "msg = kex_sig_msg PROTEUS_VERSION_V10 (co_nonce co) (x25519_pub eph) (mlkem_ct eph)"
  define ext0 where "ext0 = \<lparr>version = PROTEUS_VERSION_V10, profile_hint = cfg_profile_hint cfg, client_nonce = co_nonce co,
      client_x25519_pub = x25519_pub eph, client_mlkem768_ct = mlkem_ct eph, client_id = cid, timestamp_unix_seconds = now,
      cover_profile_id = snd (fresh_shape_params co), shape_seed = fst (fresh_shape_params co),
      anti_dos_difficulty = cfg_pow_difficulty cfg, anti_dos_solution = sol,
      client_kex_sig = sig_sign P (cfg_client_id_sk cfg) msg, client_kex_sig_pq = replicate 96 0, auth_tag = replicate HMAC_TAG_LEN 0\<rparr>"
  define tag where "tag = auth_tag_compute P (derive_auth_key P (sk_pq_fingerprint k0) (x25519_pub eph) (co_nonce co)) (auth_mac_input ext0)"
  let ?ext = "ext0\<lparr>auth_tag := tag\<rparr>"
  have fields: "client_x25519_pub ext0 = x25519_pub eph" "client_nonce ext0 = co_nonce co" by (simp_all add: ext0_def)
  have wf0: "auth_wf ext0"
    by (simp add: auth_wf_def ext0_def nonce eph cid(2) s(1) sig_sign_def prims_okD [OF P] CLIENT_NONCE_LEN_def X25519_PUB_LEN_def
        ML_KEM_768_CT_LEN_def CLIENT_ID_LEN_def ANTI_DOS_SOLUTION_LEN_def ED25519_SIG_LEN_def ML_DSA_65_SIG_TRUNCATED_LEN_def)
  have lt: "length tag = HMAC_TAG_LEN" by (simp add: tag_def auth_tag_compute_def prims_okD(2) [OF P] HMAC_TAG_LEN_def)
  have mac: "auth_mac_input ?ext = auth_mac_input ext0" using encode_payload_split(3) [OF wf0, of tag] lt by simp
  show ?thesis
  proof (rule that [of ?ext])
    have "(if cfg_pow_difficulty cfg = 0 then Ok (replicate 7 0)
        else ok_or (solve_with_deadline P (sk_pq_fingerprint k0) (co_nonce co) (cfg_pow_difficulty cfg) expired) IoError)
        = (Ok sol :: (AlphaError, bytes) rust)"
      using sol s(3) by (simp add: fp)
    then show "client_extension P cfg co expired now eph = Ok ?ext"
      by (simp add: client_extension_def Let_def cid(1) fp case_prod_beta ext0_def tag_def msg_def)
    show "auth_wf ?ext" using wf0 lt by (simp add: auth_wf_def)
    show "server_tag_ok P ctx ?ext"
      unfolding server_tag_ok_def auth_tag_verify_def Let_def mac by (simp add: fields ctx flip: tag_def)
    show "server_pow_ok P ctx ?ext" using s(2) pd fp by (simp add: server_pow_ok_def ext0_def ctx)
    show "server_open_uid P ctx ?ext = Some (cfg_user_id cfg)" by (simp add: server_open_uid_def ext0_def ctx cid(3) uid)
    show "server_match_user P ctx ?ext (cfg_user_id cfg) = Some (cfg_user_id cfg)"
      using al by (auto simp: server_match_user_def ctx ext0_def sig_verify_def sig_sign_def msg_def prims_okD(8) [OF P])
  qed (simp_all add: ext0_def hint)
qed

section \<open>Both ends\<close>

lemma server_authenticate_Ok:
  assumes wf: "auth_wf ext" "version ext = PROTEUS_VERSION_V10" and "profile_hint ext \<noteq> Gamma"
    and "server_tag_ok P ctx ext" and "server_pow_ok P ctx ext"
    and "fst (replay_check (srv_replay s) (unat now) (client_nonce ext) (unat (timestamp_unix_seconds ext))) = Accept"
  obtains w where "server_authenticate P ctx now (encode_payload ext) s = (Ok (ext, AuthVerified), s\<lparr>srv_replay := w\<rparr>)"
proof -
  obtain w where "replay_check (srv_replay s) (unat now) (client_nonce ext) (unat (timestamp_unix_seconds ext)) = (Accept, w)"
    using assms(6) by (metis prod.collapse)
  then show ?thesis
    using assms that [of w] decode_encode_payload [OF wf]
    by (simp add: server_authenticate_def step_expect_def hs_step_def server_replay_check_def)
qed

text \<open>
  The server up to the point where it waits for the client's Finished, on any stream that begins
  with the hello of an honest client.
\<close>

lemma server_handshake_hello:
  assumes um: "2 ^ 16 \<le> um"
    and wf: "auth_wf ext" "version ext = PROTEUS_VERSION_V10" and hint: "profile_hint ext \<noteq> Gamma"
    and tag: "server_tag_ok P ctx ext" and pow: "server_pow_ok P ctx ext"
    and replay: "fst (replay_check (srv_replay s) (unat now) (client_nonce ext) (unat (timestamp_unix_seconds ext))) = Accept"
    and comb: "server_combine P eph_sk (sk_mlkem_sk (ctx_keys ctx)) (client_x25519_pub ext) (client_mlkem768_ct ext) = Ok k"
    and uid: "server_open_uid P ctx ext = Some uid" "server_match_user P ctx ext uid = Some uid"
    and stream: "io_buf s @ concat (io_reads s) = hs_frame FRAME_CLIENT_HELLO (encode_payload ext) @ rest"
    and ne: "[] \<notin> set (io_reads s)"
  obtains s' where "server_handshake P um ctx eph_sk now cb s
      = server_finish P um cb (encode_payload ext) eph_sk ext (Some uid) k DecapsDone s'"
    and "io_buf s' @ concat (io_reads s') = rest" and "[] \<notin> set (io_reads s')" and "io_out s' = io_out s"
proof -
  have len: "length (encode_payload ext) \<le> 2048"
    using length_encode_payload [OF wf(1)] by (simp add: auth_ext_len_value)
  let ?f = "\<lparr>frame_kind = FRAME_CLIENT_HELLO, frame_body = encode_payload ext\<rparr>"
  obtain s1 where s1: "read_frame um s = (Ok ?f, s1)" "io_buf s1 @ concat (io_reads s1) = rest" "[] \<notin> set (io_reads s1)"
    "io_out s1 = io_out s" "hs_io.more s1 = hs_io.more s"
    by (rule read_frame_chunks [OF hs_frame_fits [OF len um] stream ne])
  have "srv_replay s1 = srv_replay s" using s1(5) by (cases s; cases s1) simp
  then obtain w where a: "server_authenticate P ctx now (encode_payload ext) s1 = (Ok (ext, AuthVerified), s1\<lparr>srv_replay := w\<rparr>)"
    using server_authenticate_Ok [OF wf hint tag pow, of s1 now] replay by auto
  show ?thesis
    by (rule that [of "s1\<lparr>srv_replay := w\<rparr>"])
      (use s1 in \<open>simp_all add: server_handshake_def a comb uid step_expect_def hs_step_def\<close>)
qed

lemma sessions_mirrored:
  assumes sh: "sh = p_xpub P eph_sk" and x: "x_pub = p_xpub P my_sk" and ext: "client_x25519_pub ext = x_pub"
  shows "synced P (sess_sender (client_session v my_sk sh p))
      (sess_receiver (server_session ext uid eph_sk (rv_final v) (rv_c_keys v, rv_s_keys v) q))"
    and "synced P (sess_sender (server_session ext uid eph_sk (rv_final v) (rv_c_keys v, rv_s_keys v) q))
      (sess_receiver (client_session v my_sk sh p))"
  using assms
  by (simp_all add: synced_def client_session_def server_session_def session_with_prefix_def with_dh_ratchet_def with_shape_def
      with_user_id_def sender_new_def receiver_with_prefix_def sender_install_dh_ratchet_def receiver_install_dh_ratchet_def
      Let_def split: option.split)

abbreviation client_io :: "bytes list \<Rightarrow> hs_io" where
  "client_io reads \<equiv> \<lparr>io_reads = reads, io_buf = [], io_out = []\<rparr>"

abbreviation server_io :: "bytes list \<Rightarrow> ReplayWindow \<Rightarrow> srv_io" where
  "server_io reads w \<equiv> \<lparr>io_reads = reads, io_buf = [], io_out = [], srv_replay = w\<rparr>"

text \<open>A session just after the handshake: nothing pending, the buffer holds what was read too far.\<close>

definition fresh_session :: "AlphaSession \<Rightarrow> bool" where
  "fresh_session ss \<longleftrightarrow> rx_pending (sess_receiver ss) = [] \<and> rx_offset (sess_receiver ss) = 0
     \<and> tx_wire (sess_sender ss) = [] \<and> tx_inv (sess_sender ss)"

lemma fresh_sessions:
  "fresh_session (client_session v my_sk sh p)" "rx_buf (sess_receiver (client_session v my_sk sh p)) = p"
  "fresh_session (server_session ext uid eph_sk fin (ck, sk) q)"
  "rx_buf (sess_receiver (server_session ext uid eph_sk fin (ck, sk) q)) = q"
  "sess_user_id (server_session ext uid eph_sk fin (ck, sk) q) = uid"
  by (simp_all add: fresh_session_def client_session_def server_session_def session_with_prefix_def with_dh_ratchet_def
      with_shape_def with_user_id_def sender_install_dh_ratchet_def receiver_with_prefix_def receiver_install_dh_ratchet_def
      tx_inv_cong(3) tx_inv_new Let_def split: option.split) (simp_all add: sender_new_def)

text \<open>
  The run of a pair: what each end writes when it has read nothing or the hello only, and what both
  hold at the end, for every chunking of the two streams and whatever follows the handshake on them.
\<close>

definition completes_with ::
    "primitives \<Rightarrow> nat \<Rightarrow> ClientConfig \<Rightarrow> client_coins \<Rightarrow> (nat \<Rightarrow> bool) \<Rightarrow> u64 \<Rightarrow> ServerCtx \<Rightarrow> bytes \<Rightarrow> u64 \<Rightarrow> ReplayWindow
     \<Rightarrow> bytes option \<Rightarrow> bytes \<Rightarrow> bytes \<Rightarrow> bytes \<Rightarrow> bool" where
  "completes_with P um cfg co expired now ctx eph_sk now' w cb hello finished answer \<longleftrightarrow>
     hello \<noteq> [] \<and> answer \<noteq> []
   \<and> io_out (snd (client_handshake P um cfg co expired now cb (client_io []))) = hello
   \<and> (\<forall>reads. concat reads = hello \<and> [] \<notin> set reads \<longrightarrow>
        io_out (snd (server_handshake P um ctx eph_sk now' cb (server_io reads w))) = answer)
   \<and> (\<forall>creads sreads sx cx. concat creads = answer @ sx \<and> [] \<notin> set creads
        \<and> concat sreads = hello @ finished @ cx \<and> [] \<notin> set sreads \<longrightarrow>
        (\<exists>cs ci ss si. client_handshake P um cfg co expired now cb (client_io creads) = (Ok cs, ci)
          \<and> io_out ci = hello @ finished \<and> rx_buf (sess_receiver cs) @ concat (io_reads ci) = sx
          \<and> [] \<notin> set (io_reads ci) \<and> fresh_session cs
          \<and> server_handshake P um ctx eph_sk now' cb (server_io sreads w) = (Ok ss, si)
          \<and> io_out si = answer \<and> rx_buf (sess_receiver ss) @ concat (io_reads si) = cx
          \<and> [] \<notin> set (io_reads si) \<and> fresh_session ss
          \<and> synced P (sess_sender cs) (sess_receiver ss) \<and> synced P (sess_sender ss) (sess_receiver cs)
          \<and> sess_user_id ss = Some (cfg_user_id cfg)))"

lemma honest_handshake:
  assumes P: "prims_ok P" and um: "2 ^ 16 \<le> um" and h: "honest_pair P cfg co expired now ctx eph_sk now' w"
  obtains hello finished answer where "completes_with P um cfg co expired now ctx eph_sk now' w cb hello finished answer"
proof -
  obtain al mlkem_sk x_sk k0 where kp: "kem_pair P (cfg_server_mlkem_pk_bytes cfg) mlkem_sk"
    and k0: "server_keys_generate P mlkem_sk (cfg_server_mlkem_pk_bytes cfg) x_sk = Ok k0"
    and ctx: "ctx_keys ctx = k0\<lparr>sk_client_allowlist := al\<rparr>" and pk: "length (cfg_server_mlkem_pk_bytes cfg) = 1184"
    and dh: "p_dh P (co_x25519 co) (p_xpub P eph_sk) \<noteq> replicate 32 0"
    and rep: "fst (replay_check w (unat now') (co_nonce co) (unat now)) = Accept"
    using h unfolding honest_pair_def by blast
  obtain eph where eph: "client_ephemeral P (co_x25519 co) (co_kem co) (cfg_server_mlkem_pk_bytes cfg) = Ok eph"
    "x25519_sk eph = co_x25519 co" "x25519_pub eph = p_xpub P (co_x25519 co)" "length (mlkem_ct eph) = 1088"
    using client_ephemeral_total [OF kp] .
  obtain ext where ext: "client_extension P cfg co expired now eph = Ok ext" "auth_wf ext"
    "version ext = PROTEUS_VERSION_V10" "profile_hint ext \<noteq> Gamma" "client_nonce ext = co_nonce co"
    "client_x25519_pub ext = x25519_pub eph" "client_mlkem768_ct ext = mlkem_ct eph" "timestamp_unix_seconds ext = now"
    "server_tag_ok P ctx ext" "server_pow_ok P ctx ext" "server_open_uid P ctx ext = Some (cfg_user_id cfg)"
    "server_match_user P ctx ext (cfg_user_id cfg) = Some (cfg_user_id cfg)"
    by (rule client_extension_Ok [OF P h eph(3,4)])
  let ?sh = "p_xpub P eph_sk" and ?pl = "encode_payload ext"
  have sh: "length ?sh = 32" by (rule prims_okD(4) [OF P])
  obtain k where k: "client_combine P eph ?sh = Ok k" using dh eph(2) by (simp add: client_combine_def Let_def)
  have comb: "server_combine P eph_sk (sk_mlkem_sk (ctx_keys ctx)) (client_x25519_pub ext) (client_mlkem768_ct ext) = Ok k"
    using hybrid_agreement [OF P kp eph(1), of eph_sk] k by (simp add: ext ctx server_keys_generate_Ok(3) [OF k0])
  obtain v where run: "run_ok P (co_nonce co) k cb ?pl ?sh v" using run_ok_total [OF P] .
  have cf: "length (rv_cf v) = 32" using run by (simp add: run_ok_def Let_def)
  have len: "length ?pl \<le> 2048" using length_encode_payload [OF ext(2)] by (simp add: auth_ext_len_value)
  let ?ch = "hs_frame FRAME_CLIENT_HELLO ?pl" and ?cf = "hs_frame FRAME_CLIENT_FINISHED (rv_cf v)"
    and ?sw = "hs_frame FRAME_SERVER_HELLO ?sh @ hs_frame FRAME_SERVER_FINISHED (rv_sf v)"
  have client: "client_handshake P um cfg co expired now cb s = client_await P um eph (co_nonce co) cb ?pl (write_all ?ch s)"
    for s :: hs_io
    by (simp add: client_handshake_def pk eph ext hs_simps len)
  note rep' = rep [folded ext(5) ext(8)]
  note fin = server_finish_writes [OF run [folded ext(5)] sh, of um]
  have server: "\<exists>s'. server_handshake P um ctx eph_sk now' cb (server_io reads w) =
      server_finish P um cb ?pl eph_sk ext (Some (cfg_user_id cfg)) k DecapsDone s'
      \<and> io_buf s' @ concat (io_reads s') = rest \<and> [] \<notin> set (io_reads s') \<and> io_out s' = []"
    if "concat reads = ?ch @ rest" "[] \<notin> set reads" for reads rest
  proof -
    let ?s = "server_io reads w"
    have r: "fst (replay_check (srv_replay ?s) (unat now') (client_nonce ext) (unat (timestamp_unix_seconds ext))) = Accept"
      using rep' by simp
    have st: "io_buf ?s @ concat (io_reads ?s) = ?ch @ rest" and ne: "[] \<notin> set (io_reads ?s)" using that by simp_all
    show ?thesis
      by (rule server_handshake_hello [OF um ext(2-4,9,10) r comb ext(11,12) st ne, of cb]) auto
  qed
  have "completes_with P um cfg co expired now ctx eph_sk now' w cb ?ch ?cf ?sw"
    unfolding completes_with_def
  proof (intro conjI allI impI; (elim conjE)?)
    show "?ch \<noteq> []" "?sw \<noteq> []" by (simp_all add: frame_bytes_def)
    show "io_out (snd (client_handshake P um cfg co expired now cb (client_io []))) = ?ch"
      by (simp add: client client_await_def read_frame_def read_attempt_def HANDSHAKE_RX_HARD_CAP_def)
  next
    fix reads :: "bytes list"
    assume r: "concat reads = ?ch" "[] \<notin> set reads"
    obtain s' where s': "server_handshake P um ctx eph_sk now' cb (server_io reads w) =
      server_finish P um cb ?pl eph_sk ext (Some (cfg_user_id cfg)) k DecapsDone s'"
      "io_buf s' @ concat (io_reads s') = []" "[] \<notin> set (io_reads s')" "io_out s' = []"
      using server [of reads "[]"] r by auto
    have empty: "io_buf s' = []" "io_reads s' = []" using s'(2,3) by (cases "io_reads s'"; auto)+
    then show "io_out (snd (server_handshake P um ctx eph_sk now' cb (server_io reads w))) = ?sw"
      by (simp add: s'(1,4) fin read_frame_def read_attempt_def HANDSHAKE_RX_HARD_CAP_def)
  next
    fix creads sreads :: "bytes list" and sx cx
    assume c: "concat creads = ?sw @ sx" "[] \<notin> set creads" and r: "concat sreads = ?ch @ ?cf @ cx" "[] \<notin> set sreads"
    let ?ci = "write_all ?ch (client_io creads)"
    have st: "io_buf ?ci @ concat (io_reads ?ci) = hs_frame FRAME_SERVER_HELLO ?sh @ hs_frame FRAME_SERVER_FINISHED (rv_sf v) @ sx"
      and ne: "[] \<notin> set (io_reads ?ci)" using c by simp_all
    obtain ci where ci: "client_await P um eph (co_nonce co) cb ?pl ?ci = (Ok (client_session v (x25519_sk eph) ?sh (io_buf ci)), ci)"
      "io_buf ci @ concat (io_reads ci) = sx" "[] \<notin> set (io_reads ci)" "io_out ci = io_out ?ci @ ?cf"
      by (rule client_await_run [OF run sh um k st ne])
    obtain s' where s': "server_handshake P um ctx eph_sk now' cb (server_io sreads w) =
      server_finish P um cb ?pl eph_sk ext (Some (cfg_user_id cfg)) k DecapsDone s'"
      "io_buf s' @ concat (io_reads s') = ?cf @ cx" "[] \<notin> set (io_reads s')" "io_out s' = []"
      using server [OF r] by blast
    let ?t = "write_all (hs_frame FRAME_SERVER_FINISHED (rv_sf v)) (write_all (hs_frame FRAME_SERVER_HELLO ?sh) s')"
    have stt: "io_buf ?t @ concat (io_reads ?t) = ?cf @ cx" and net: "[] \<notin> set (io_reads ?t)" using s' by simp_all
    obtain si where si: "read_frame um ?t = (Ok \<lparr>frame_kind = FRAME_CLIENT_FINISHED, frame_body = rv_cf v\<rparr>, si)"
      "io_buf si @ concat (io_reads si) = cx" "[] \<notin> set (io_reads si)" "io_out si = io_out ?t"
      by (rule read_frame_chunks [OF hs_frame_fits [OF _ um] stt net]) (use cf in simp_all)
    let ?cs = "client_session v (x25519_sk eph) ?sh (io_buf ci)"
      and ?ss = "server_session ext (Some (cfg_user_id cfg)) eph_sk (rv_final v) (rv_c_keys v, rv_s_keys v) (io_buf si)"
    have "server_handshake P um ctx eph_sk now' cb (server_io sreads w) = (Ok ?ss, si)"
      by (simp add: s'(1) fin si(1) cf)
    moreover have "synced P (sess_sender ?cs) (sess_receiver ?ss)" "synced P (sess_sender ?ss) (sess_receiver ?cs)"
      using sessions_mirrored [OF refl eph(3) ext(6)] eph(2) by simp_all
    ultimately show "\<exists>cs ci ss si. client_handshake P um cfg co expired now cb (client_io creads) = (Ok cs, ci)
        \<and> io_out ci = ?ch @ ?cf \<and> rx_buf (sess_receiver cs) @ concat (io_reads ci) = sx
        \<and> [] \<notin> set (io_reads ci) \<and> fresh_session cs
        \<and> server_handshake P um ctx eph_sk now' cb (server_io sreads w) = (Ok ss, si)
        \<and> io_out si = ?sw \<and> rx_buf (sess_receiver ss) @ concat (io_reads si) = cx
        \<and> [] \<notin> set (io_reads si) \<and> fresh_session ss
        \<and> synced P (sess_sender cs) (sess_receiver ss) \<and> synced P (sess_sender ss) (sess_receiver cs)
        \<and> sess_user_id ss = Some (cfg_user_id cfg)"
      using ci si s'(4) by (intro exI [of _ ?cs] exI [of _ ci] exI [of _ ?ss] exI [of _ si]) (simp add: client fresh_sessions)
  qed
  then show ?thesis by (rule that)
qed

end
