(* ===== verification/Handshake_Theorems.thy ===== *)
theory Handshake_Theorems
  imports Handshake_Run
begin

text \<open>
  What the handshake promises: an honest pair completes it under any chunking and ends with
  mirrored sessions over which data arrives; a server writes nothing before it has authenticated
  the peer; a recorded hello is not accepted again; the two server paths agree.
\<close>

section \<open>What the server does before it writes\<close>

lemma read_frame_keeps:
  "io_out (snd (read_frame um s)) = io_out s" "hs_io.more (snd (read_frame um s)) = hs_io.more s"
  by (simp_all add: read_frame_def split: prod.split)

lemma read_frame_replay: "srv_replay (snd (read_frame um s)) = srv_replay s"
  using read_frame_keeps(2) [of um s] by (cases s; cases "snd (read_frame um s)") simp

lemma read_frame_not_Panic: "fst (read_frame um s) \<noteq> Panic"
proof -
  have "read_attempt um buf \<noteq> Some (Panic, b)" for buf b
    using decode_frame_not_Panic [of um buf]
    by (auto simp: read_attempt_def Let_def split: rust.splits WireError.splits if_splits)
  then have "fst (read_frame_loop um reads buf) \<noteq> Panic" for reads buf
    by (induction um reads buf rule: read_frame_loop.induct) (auto split: option.splits)
  then show ?thesis by (simp add: read_frame_def case_prod_beta)
qed

text \<open>Everything the server checks of a hello before it answers.\<close>

definition hello_accepted :: "primitives \<Rightarrow> ServerCtx \<Rightarrow> u64 \<Rightarrow> ReplayWindow \<Rightarrow> bytes \<Rightarrow> AuthExtension \<Rightarrow> bool" where
  "hello_accepted P ctx now w ch_body ext \<longleftrightarrow>
     decode_payload ch_body = Ok ext \<and> profile_hint ext \<noteq> Gamma \<and> server_tag_ok P ctx ext \<and> server_pow_ok P ctx ext
   \<and> fst (replay_check w (unat now) (client_nonce ext) (unat (timestamp_unix_seconds ext))) = Accept"

lemma server_authenticate_cases:
  obtains (ok) ext where "hello_accepted P ctx now (srv_replay s) ch_body ext"
      and "server_authenticate P ctx now ch_body s = (Ok (ext, AuthVerified),
        s\<lparr>srv_replay := snd (replay_check (srv_replay s) (unat now) (client_nonce ext) (unat (timestamp_unix_seconds ext)))\<rparr>)"
  | (fail) e w where "server_authenticate P ctx now ch_body s = (Err e, s\<lparr>srv_replay := w\<rparr>)"
      and "\<And>ext. \<not> hello_accepted P ctx now (srv_replay s) ch_body ext"
proof (cases "decode_payload ch_body")
  case (Ok ext)
  let ?v = "replay_check (srv_replay s) (unat now) (client_nonce ext) (unat (timestamp_unix_seconds ext))"
  have ev: "server_authenticate P ctx now ch_body s =
     (if profile_hint ext = Gamma then (Err (WireErr (BadProfileHint (profile_to_byte (profile_hint ext)))), s)
     else if \<not> server_tag_ok P ctx ext then (Err AuthTagInvalid, s)
     else if \<not> server_pow_ok P ctx ext then (Err AuthTagInvalid, s)
     else (case server_replay_check now ext s of
            (Accept, s) \<Rightarrow> (Ok (ext, AuthVerified), s)
          | (Stale, s) \<Rightarrow> (Err AuthStale, s)
          | (Replay, s) \<Rightarrow> (Err AuthReplay, s)))"
    by (simp add: server_authenticate_def Ok step_expect_def hs_step_def)
  have acc: "hello_accepted P ctx now (srv_replay s) ch_body x \<longleftrightarrow> x = ext \<and> profile_hint ext \<noteq> Gamma
      \<and> server_tag_ok P ctx ext \<and> server_pow_ok P ctx ext \<and> fst ?v = Accept" for x
    by (auto simp: hello_accepted_def Ok)
  show ?thesis
  proof (cases "hello_accepted P ctx now (srv_replay s) ch_body ext")
    case True
    have "fst ?v = Accept" using True acc [of ext] by blast
    then have "server_replay_check now ext s = (Accept, s\<lparr>srv_replay := snd ?v\<rparr>)"
      by (simp add: server_replay_check_def case_prod_beta)
    then have "server_authenticate P ctx now ch_body s = (Ok (ext, AuthVerified), s\<lparr>srv_replay := snd ?v\<rparr>)"
      using True acc [of ext] ev by simp
    then show ?thesis by (rule ok [OF True])
  next
    case False
    have no: "\<not> hello_accepted P ctx now (srv_replay s) ch_body x" for x using False acc by blast
    obtain verdict w where v: "?v = (verdict, w)" by fastforce
    have same: "\<exists>w. s = s\<lparr>srv_replay := w\<rparr>" by (rule exI [of _ "srv_replay s"]) simp
    have "\<exists>e w. server_authenticate P ctx now ch_body s = (Err e, s\<lparr>srv_replay := w\<rparr>)"
      using False acc [of ext] v ev same by (cases verdict) (auto simp: server_replay_check_def)
    then show ?thesis using fail no by blast
  qed
next
  case (Err e)
  then show ?thesis using fail [of "WireErr e" "srv_replay s"] by (simp add: server_authenticate_def hello_accepted_def)
next
  case Panic
  then show ?thesis using decode_payload_not_Panic by blast
qed

lemma server_match_user_Some:
  assumes "server_match_user P ctx ext u = Some v"
  shows "v = u" and "sk_client_allowlist (ctx_keys ctx) = [] \<or> (\<exists>vk. (u, vk) \<in> set (sk_client_allowlist (ctx_keys ctx))
      \<and> p_verify P vk (kex_sig_msg (version ext) (client_nonce ext) (client_x25519_pub ext) (client_mlkem768_ct ext)) (client_kex_sig ext))"
proof -
  let ?al = "sk_client_allowlist (ctx_keys ctx)"
  have "v = u \<and> (?al = [] \<or> (\<exists>vk. (u, vk) \<in> set ?al
      \<and> p_verify P vk (kex_sig_msg (version ext) (client_nonce ext) (client_x25519_pub ext) (client_mlkem768_ct ext)) (client_kex_sig ext)))"
  proof (cases "find (\<lambda>(uid, _). uid = u) ?al")
    case None
    then show ?thesis using assms by (auto simp: server_match_user_def split: if_splits)
  next
    case (Some x)
    obtain uid vk where x: "x = (uid, vk)" by fastforce
    have "(uid, vk) \<in> set ?al \<and> uid = u" using Some unfolding x find_Some_iff by (auto simp: set_conv_nth)
    then show ?thesis using assms Some x by (auto simp: server_match_user_def sig_verify_def split: if_splits)
  qed
  then show "v = u" "?al = [] \<or> (\<exists>vk. (u, vk) \<in> set ?al
      \<and> p_verify P vk (kex_sig_msg (version ext) (client_nonce ext) (client_x25519_pub ext) (client_mlkem768_ct ext)) (client_kex_sig ext))"
    by blast+
qed

lemma server_combine_not_Panic: "server_combine P a b c d \<noteq> Panic"
  by (simp add: server_combine_def Let_def split: option.split) (auto simp: rust_bind_Panic_iff)

text \<open>
  Either the server fails without a byte written, or the hello passed every check and the
  identity of the client is known; then it goes on with its two messages.
\<close>

lemma server_handshake_cases:
  obtains (silent) e w where "server_handshake P um ctx eph_sk now cb s = (Err e, (snd (read_frame um s))\<lparr>srv_replay := w\<rparr>)"
  | (speaks) ch s1 s2 ext uid k where "read_frame um s = (Ok ch, s1)" and "frame_kind ch = FRAME_CLIENT_HELLO"
      and "hello_accepted P ctx now (srv_replay s) (frame_body ch) ext"
      and "server_open_uid P ctx ext = Some uid" and "server_match_user P ctx ext uid = Some uid"
      and "s2 = s1\<lparr>srv_replay := snd (replay_check (srv_replay s) (unat now) (client_nonce ext) (unat (timestamp_unix_seconds ext)))\<rparr>"
      and "server_handshake P um ctx eph_sk now cb s
        = server_finish P um cb (frame_body ch) eph_sk ext (Some uid) k DecapsDone s2"
proof -
  obtain v s1 where r: "read_frame um s = (v, s1)" by fastforce
  have rep: "srv_replay s1 = srv_replay s" using read_frame_replay [of um s] by (simp add: r)
  show ?thesis
  proof (cases v)
    case (Err e)
    then show ?thesis using silent [of e "srv_replay s1"] by (simp add: server_handshake_def r)
  next
    case Panic
    then show ?thesis using read_frame_not_Panic [of um s] by (simp add: r)
  next
    case (Ok ch)
    show ?thesis
    proof (cases "frame_kind ch = FRAME_CLIENT_HELLO")
      case False
      then show ?thesis using silent [of Closed "srv_replay s1"] by (simp add: server_handshake_def r Ok)
    next
      case kind: True
      show ?thesis
      proof (cases rule: server_authenticate_cases [of P ctx now s1 "frame_body ch"])
        case (fail e w)
        then show ?thesis using silent [of e w] kind by (simp add: server_handshake_def r Ok)
      next
        case (ok ext)
        let ?s2 = "s1\<lparr>srv_replay := snd (replay_check (srv_replay s) (unat now) (client_nonce ext) (unat (timestamp_unix_seconds ext)))\<rparr>"
        let ?c = "server_combine P eph_sk (sk_mlkem_sk (ctx_keys ctx)) (client_x25519_pub ext) (client_mlkem768_ct ext)"
        have ev: "server_handshake P um ctx eph_sk now cb s = st_bind (rust_map_err CryptoErr ?c, ?s2) (\<lambda>combined s.
            (case server_open_uid P ctx ext of
               None \<Rightarrow> (Err AuthTagInvalid, s)
             | Some claimed_uid \<Rightarrow>
                 (case server_match_user P ctx ext claimed_uid of
                    None \<Rightarrow> (Err AuthTagInvalid, s)
                  | Some uid \<Rightarrow> server_finish P um cb (frame_body ch) eph_sk ext (Some uid) combined DecapsDone s)))"
          using ok(2) kind by (simp add: server_handshake_def r Ok rep step_expect_def hs_step_def)
        show ?thesis
        proof (cases ?c)
          case (Err e)
          then show ?thesis using silent [of "CryptoErr e" "srv_replay ?s2"] by (simp add: ev r)
        next
          case Panic
          then show ?thesis using server_combine_not_Panic by blast
        next
          case c: (Ok k)
          show ?thesis
          proof (cases "\<exists>uid. server_open_uid P ctx ext = Some uid \<and> server_match_user P ctx ext uid \<noteq> None")
            case False
            then show ?thesis using silent [of AuthTagInvalid "srv_replay ?s2"] by (auto simp: ev c r split: option.splits)
          next
            case True
            then obtain uid where u: "server_open_uid P ctx ext = Some uid" "server_match_user P ctx ext uid = Some uid"
              using server_match_user_Some(1) by blast
            show ?thesis
              by (rule speaks [OF r [unfolded Ok] kind _ u refl]) (use ok(1) in \<open>simp_all add: rep ev c u\<close>)
          qed
        qed
      qed
    qed
  qed
qed

lemma server_finish_facts:
  assumes P: "prims_ok P"
  shows "fst (server_finish P um cb ch eph_sk ext (Some uid) k DecapsDone s) \<noteq> Panic"
    and "srv_replay (snd (server_finish P um cb ch eph_sk ext (Some uid) k DecapsDone s)) = srv_replay s"
    and "fst (server_finish P um cb ch eph_sk ext (Some uid) k DecapsDone s) = Ok ss \<Longrightarrow> sess_user_id ss = Some uid"
    and "io_out (snd (server_finish P um cb ch eph_sk ext (Some uid) k DecapsDone s)) \<noteq> io_out s"
proof -
  obtain v where run: "run_ok P (client_nonce ext) k cb ch (p_xpub P eph_sk) v" using run_ok_total [OF P] .
  note ev = server_finish_writes [OF run prims_okD(4) [OF P], of um "Some uid" s]
  let ?w = "write_all (hs_frame FRAME_SERVER_FINISHED (rv_sf v)) (write_all (hs_frame FRAME_SERVER_HELLO (p_xpub P eph_sk)) s)"
  obtain r s1 where r: "read_frame um ?w = (r, s1)" by fastforce
  have w: "srv_replay ?w = srv_replay s" by (simp add: write_all_def)
  have keep: "io_out s1 = io_out ?w" "srv_replay s1 = srv_replay s" "r \<noteq> Panic"
    using read_frame_keeps(1) [of um ?w] read_frame_replay [of um ?w] read_frame_not_Panic [of um ?w] by (simp_all add: r w)
  show "fst (server_finish P um cb ch eph_sk ext (Some uid) k DecapsDone s) \<noteq> Panic"
    "srv_replay (snd (server_finish P um cb ch eph_sk ext (Some uid) k DecapsDone s)) = srv_replay s"
    "io_out (snd (server_finish P um cb ch eph_sk ext (Some uid) k DecapsDone s)) \<noteq> io_out s"
    unfolding ev r using keep by (cases r; simp add: frame_bytes_def)+
  show "fst (server_finish P um cb ch eph_sk ext (Some uid) k DecapsDone s) = Ok ss \<Longrightarrow> sess_user_id ss = Some uid"
    unfolding ev r by (cases r) (auto simp: fresh_sessions split: if_splits)
qed

section \<open>What every step keeps\<close>

text \<open>What reads, writes and updates of the replay window keep, the server's handshake keeps.\<close>

lemma server_handshake_keeps:
  assumes rd: "\<And>s. Q s \<Longrightarrow> Q (snd (read_frame um s))" and wr: "\<And>bs s. Q s \<Longrightarrow> Q (write_all bs s)"
    and rp: "\<And>w s. Q s \<Longrightarrow> Q (s\<lparr>srv_replay := w\<rparr>)" and Q: "Q s" and P: "prims_ok P"
  shows "Q (snd (server_handshake P um ctx eph_sk now cb s))"
proof (cases rule: server_handshake_cases [of P um ctx eph_sk now cb s])
  case (speaks ch s1 s2 ext uid k)
  have q2: "Q s2" using rd [OF Q] rp by (simp add: speaks(1,6))
  obtain v where run: "run_ok P (client_nonce ext) k cb (frame_body ch) (p_xpub P eph_sk) v" using run_ok_total [OF P] .
  let ?w = "write_all (hs_frame FRAME_SERVER_FINISHED (rv_sf v)) (write_all (hs_frame FRAME_SERVER_HELLO (p_xpub P eph_sk)) s2)"
  have "Q (snd (read_frame um ?w))" using rd wr q2 by blast
  then show ?thesis
    unfolding speaks(7) server_finish_writes [OF run prims_okD(4) [OF P]]
    by (rule st_bind_inv) simp
next
  case (silent e w)
  then show ?thesis using rd [OF Q] rp by simp
qed

text \<open>The memory a handshake may hold: reads of at most 4096 bytes on top of the cap.\<close>

definition hs_small :: "'z hs_io_scheme \<Rightarrow> bool" where
  "hs_small s \<longleftrightarrow> length (io_buf s) < HANDSHAKE_RX_HARD_CAP + 4096 \<and> list_all (\<lambda>c. length c \<le> 4096) (io_reads s)"

lemma read_attempt_shrinks: "read_attempt um buf = Some (v, b) \<Longrightarrow> length b \<le> length buf"
  by (auto simp: read_attempt_def Let_def split: if_splits rust.splits WireError.splits)

lemma read_attempt_None: "read_attempt um buf = None \<Longrightarrow> length buf < HANDSHAKE_RX_HARD_CAP"
  by (auto simp: read_attempt_def Let_def HANDSHAKE_RX_HARD_CAP_def split: if_splits rust.splits WireError.splits)

lemma read_frame_small:
  assumes "hs_small s"
  shows "hs_small (snd (read_frame um s))"
proof -
  have "list_all (\<lambda>c. length c \<le> 4096) reads \<Longrightarrow> length buf < HANDSHAKE_RX_HARD_CAP + 4096 \<Longrightarrow>
     list_all (\<lambda>c. length c \<le> 4096) (fst (snd (read_frame_loop um reads buf)))
     \<and> length (snd (snd (read_frame_loop um reads buf))) < HANDSHAKE_RX_HARD_CAP + 4096" for reads buf
  proof (induction um reads buf rule: read_frame_loop.induct)
    case (1 um buf)
    then show ?case using read_attempt_shrinks by (fastforce split: option.split)
  next
    case (2 um chunk reads buf)
    show ?case
    proof (cases "read_attempt um buf")
      case (Some x)
      then show ?thesis using 2(2,3) read_attempt_shrinks [of um buf "fst x" "snd x"] by (simp add: case_prod_beta)
    next
      case None
      then show ?thesis using 2 read_attempt_None [OF None] by simp
    qed
  qed
  then show ?thesis using assms by (simp add: hs_small_def read_frame_def case_prod_beta)
qed

lemma hs_small_upd: "hs_small s \<Longrightarrow> hs_small (write_all bs s)" "hs_small s \<Longrightarrow> hs_small (s\<lparr>srv_replay := w\<rparr>)"
  by (simp_all add: hs_small_def)

section \<open>An honest pair over the toy primitives\<close>

definition toy_pk :: bytes where
  "toy_pk = replicate 1184 5"

definition toy_server_keys :: ServerKeys where
  "toy_server_keys = \<lparr>sk_mlkem_sk = [9], sk_mlkem_pk_bytes = toy_pk, sk_pq_fingerprint = sha256 toy_prims toy_pk,
     sk_x25519_sk = [6], sk_x25519_pub = p_xpub toy_prims [6],
     sk_client_allowlist = [],
     sk_client_id_aead_key = (case expand_label toy_prims (sha256 toy_prims toy_pk) (ascii ''proteus-cid-key-v1'') [] 32 of Ok k \<Rightarrow> k | _ \<Rightarrow> [])\<rparr>"

definition toy_cfg :: ClientConfig where
  "toy_cfg = client_config_new toy_pk [] (sk_pq_fingerprint toy_server_keys) [7] [1, 2, 3, 4, 5, 6, 7, 8]"

definition toy_ctx :: ServerCtx where
  "toy_ctx = \<lparr>ctx_keys = server_allow [1, 2, 3, 4, 5, 6, 7, 8] [7] toy_server_keys, ctx_pow_difficulty = 0\<rparr>"

definition toy_coins :: client_coins where
  "toy_coins = \<lparr>co_x25519 = [1], co_kem = [2], co_nonce = replicate 16 3, co_seed = [0, 0, 0, 1], co_cover = 2\<rparr>"

lemma toy_keys_generate: "server_keys_generate toy_prims [9] toy_pk [6] = Ok toy_server_keys"
proof -
  have "length (sha256 toy_prims toy_pk) = 32" by (simp add: sha256_def prims_okD(1) [OF toy_prims_ok])
  then obtain k where "expand_label toy_prims (sha256 toy_prims toy_pk) (ascii ''proteus-cid-key-v1'') [] 32 = Ok k"
    by (rule expand_label_total [OF toy_prims_ok, of _ "ascii ''proteus-cid-key-v1''" "[]" 32]) simp_all
  then show ?thesis by (simp add: server_keys_generate_def toy_server_keys_def Let_def)
qed

lemma toy_honest: "honest_pair toy_prims toy_cfg toy_coins (\<lambda>_. False) 1000 toy_ctx [2] 1000 replay_new"
proof -
  have "fst (replay_check replay_new (unat (1000 :: u64)) (co_nonce toy_coins) (unat (1000 :: u64))) = Accept"
    by (simp add: replay_check_def replay_new_def abs_diff_def Let_def TIMESTAMP_WINDOW_SECS_def REFERENCE_SET_CAPACITY_def)
  moreover have "p_dh toy_prims (co_x25519 toy_coins) (p_xpub toy_prims [2]) ! 0 = 3"
    by (simp add: toy_prims_def toy_coins_def fit_def nth_append)
  then have "p_dh toy_prims (co_x25519 toy_coins) (p_xpub toy_prims [2]) \<noteq> replicate 32 0" by auto
  moreover have "\<exists>al mlkem_sk x_sk k0. kem_pair toy_prims (cfg_server_mlkem_pk_bytes toy_cfg) mlkem_sk
        \<and> server_keys_generate toy_prims mlkem_sk (cfg_server_mlkem_pk_bytes toy_cfg) x_sk = Ok k0
        \<and> ctx_keys toy_ctx = k0\<lparr>sk_client_allowlist := al\<rparr> \<and> cfg_server_pq_fingerprint toy_cfg = sk_pq_fingerprint k0
        \<and> (al = [] \<or> find (\<lambda>(uid, _). uid = cfg_user_id toy_cfg) al = Some (cfg_user_id toy_cfg, p_vk toy_prims (cfg_client_id_sk toy_cfg)))"
    by (intro exI [of _ "[([1, 2, 3, 4, 5, 6, 7, 8], [7])]"] exI [of _ "[9]"] exI [of _ "[6]"] exI [of _ toy_server_keys])
      (simp add: toy_kem_pair toy_keys_generate toy_cfg_def client_config_new_def toy_ctx_def server_allow_def toy_prims_def [THEN arg_cong [of _ _ p_vk]],
        simp add: toy_server_keys_def)
  ultimately show ?thesis
    by (simp add: honest_pair_def toy_cfg_def client_config_new_def toy_coins_def toy_ctx_def toy_pk_def solve_with_deadline_def)
qed

section \<open>Properties\<close>

text \<open>
  C2. The handshake completes.  For an honest pair there are messages such that the client, before
  reading anything, writes its hello; a server that has read just that answers with its two
  messages; and for every way in which the transport splits the two streams, also when application
  data already follows, both ends finish, hold sessions that mirror each other in both directions,
  the server knows the user, and every byte read beyond the handshake is at the front of the
  session's receive stream.
\<close>

theorem handshake_completes:
  assumes "prims_ok P" and "2 ^ 16 \<le> um" and "honest_pair P cfg co expired now ctx eph_sk now' w"
  shows "\<exists>hello finished answer. hello \<noteq> [] \<and> answer \<noteq> []
   \<and> io_out (snd (client_handshake P um cfg co expired now cb (client_io []))) = hello
   \<and> (\<forall>reads. concat reads = hello \<and> [] \<notin> set reads \<longrightarrow>
        io_out (snd (server_handshake P um ctx eph_sk now' cb (server_io reads w))) = answer)
   \<and> (\<forall>creads sreads sx cx. concat creads = answer @ sx \<and> [] \<notin> set creads
        \<and> concat sreads = hello @ finished @ cx \<and> [] \<notin> set sreads \<longrightarrow>
        (\<exists>cs ci ss si. client_handshake P um cfg co expired now cb (client_io creads) = (Ok cs, ci)
          \<and> io_out ci = hello @ finished \<and> rx_buf (sess_receiver cs) @ concat (io_reads ci) = sx
          \<and> [] \<notin> set (io_reads ci) \<and> fresh_session cs
          \<and> server_handshake P um ctx eph_sk now' cb (server_io sreads w) = (Ok ss, si)
          \<and> io_out si = answer \<and> rx_buf (sess_receiver ss) @ concat (io_reads si) = cx
          \<and> [] \<notin> set (io_reads si) \<and> fresh_session ss
          \<and> synced P (sess_sender cs) (sess_receiver ss) \<and> synced P (sess_sender ss) (sess_receiver cs)
          \<and> sess_user_id ss = Some (cfg_user_id cfg)))"
proof -
  obtain hello finished answer where "completes_with P um cfg co expired now ctx eph_sk now' w cb hello finished answer"
    by (rule honest_handshake [OF assms])
  then show ?thesis unfolding completes_with_def by (intro exI)
qed

theorem handshake_completes_witness:
  "\<exists>hello finished answer. hello \<noteq> [] \<and> answer \<noteq> []
   \<and> io_out (snd (client_handshake toy_prims usize64 toy_cfg toy_coins (\<lambda>_. False) 1000 None (client_io []))) = hello
   \<and> (\<forall>reads. concat reads = hello \<and> [] \<notin> set reads \<longrightarrow>
        io_out (snd (server_handshake toy_prims usize64 toy_ctx [2] 1000 None (server_io reads replay_new))) = answer)
   \<and> (\<forall>creads sreads sx cx. concat creads = answer @ sx \<and> [] \<notin> set creads
        \<and> concat sreads = hello @ finished @ cx \<and> [] \<notin> set sreads \<longrightarrow>
        (\<exists>cs ci ss si. client_handshake toy_prims usize64 toy_cfg toy_coins (\<lambda>_. False) 1000 None (client_io creads) = (Ok cs, ci)
          \<and> io_out ci = hello @ finished \<and> rx_buf (sess_receiver cs) @ concat (io_reads ci) = sx
          \<and> [] \<notin> set (io_reads ci) \<and> fresh_session cs
          \<and> server_handshake toy_prims usize64 toy_ctx [2] 1000 None (server_io sreads replay_new) = (Ok ss, si)
          \<and> io_out si = answer \<and> rx_buf (sess_receiver ss) @ concat (io_reads si) = cx
          \<and> [] \<notin> set (io_reads si) \<and> fresh_session ss
          \<and> synced toy_prims (sess_sender cs) (sess_receiver ss) \<and> synced toy_prims (sess_sender ss) (sess_receiver cs)
          \<and> sess_user_id ss = Some (cfg_user_id toy_cfg)))"
  by (rule handshake_completes [OF toy_prims_ok _ toy_honest]) (simp add: usize64_def)





text \<open>
  C9. The server withstands hostile handshakes: on any bytes, in reads of at most 4096, it returns a
  session or an error, never a panic (each step of the handshake state machine it asserts is
  legal), and never holds more than 64 KiB plus one read of unparsed bytes.
\<close>

theorem server_handshake_safe:
  assumes "prims_ok P" and "hs_small s"
  shows "fst (server_handshake P um ctx eph_sk now cb s) \<noteq> Panic
    \<and> length (io_buf (snd (server_handshake P um ctx eph_sk now cb s))) < HANDSHAKE_RX_HARD_CAP + 4096"
proof -
  have "hs_small (snd (server_handshake P um ctx eph_sk now cb s))"
    by (rule server_handshake_keeps [where Q = hs_small])
      (auto intro: read_frame_small hs_small_upd simp: assms)
  moreover have "fst (server_handshake P um ctx eph_sk now cb s) \<noteq> Panic"
    by (cases rule: server_handshake_cases [of P um ctx eph_sk now cb s])
      (simp, simp only: server_finish_facts(1) [OF assms(1)] not_False_eq_True)
  ultimately show ?thesis by (simp add: hs_small_def)
qed

theorem server_handshake_safe_witness:
  "fst (server_handshake toy_prims usize64 toy_ctx [2] 1000 None (server_io [[1, 0xff], replicate 100 7] replay_new)) \<noteq> Panic"
  using server_handshake_safe [OF toy_prims_ok, of "server_io [[1, 0xff], replicate 100 7] replay_new" usize64 toy_ctx "[2]" 1000 None]
  by (simp add: hs_small_def HANDSHAKE_RX_HARD_CAP_def)

text \<open>
  C5. A recorded hello is worthless.  Once the server has answered a hello, the same hello presented on
  another connection, at any later clock reading and with whatever other handshakes checked in
  between, is refused without a byte written, as long as fewer handshakes than the capacity of the
  window were accepted since.
\<close>

theorem hello_not_replayable:
  assumes "prims_ok P" and "replay_inv (srv_replay s)"
    and "read_frame um s = (Ok ch, s1)" and "io_out (snd (server_handshake P um ctx eph_sk now cb s)) \<noteq> io_out s"
    and "srv_replay t = foldl replay_step (srv_replay (snd (server_handshake P um ctx eph_sk now cb s))) attempts"
    and "replay_accepts (srv_replay (snd (server_handshake P um ctx eph_sk now cb s))) attempts < rw_capacity (srv_replay s)"
    and "read_frame um t = (Ok ch, t1)"
  shows "\<exists>e. fst (server_handshake P um ctx eph_sk' now' cb' t) = Err e
    \<and> io_out (snd (server_handshake P um ctx eph_sk' now' cb' t)) = io_out t"
proof (cases rule: server_handshake_cases [of P um ctx eph_sk now cb s])
  case (silent e w)
  then show ?thesis using assms(4) read_frame_keeps(1) [of um s] by simp
next
  case (speaks ch0 s0 s2 ext uid k)
  have ch: "ch0 = ch" using speaks(1) assms(3) by simp
  let ?w = "srv_replay s" and ?a = "(unat now, client_nonce ext, unat (timestamp_unix_seconds ext))"
  have w': "srv_replay (snd (server_handshake P um ctx eph_sk now cb s)) = replay_step ?w ?a"
    by (simp add: speaks(6,7) server_finish_facts(2) [OF assms(1)])
  have "replay_verdict ?w ?a = Accept" using speaks(3) by (simp add: hello_accepted_def)
  then have "(client_nonce ext, unat (timestamp_unix_seconds ext)) \<in> rw_seen (foldl replay_step ?w (?a # attempts))"
    by (rule accepted_stays_seen [OF assms(2)]) (use assms(6) w' in simp)
  then have seen: "(client_nonce ext, unat (timestamp_unix_seconds ext)) \<in> rw_seen (srv_replay t)"
    using assms(5) w' by simp
  show ?thesis
  proof (cases rule: server_handshake_cases [of P um ctx eph_sk' now' cb' t])
    case silent': (silent e w)
    then show ?thesis using read_frame_keeps(1) [of um t] by simp
  next
    case speaks': (speaks ch1 s1 s2 ext1 uid k)
    have "ext1 = ext" using speaks'(1,3) speaks(3) ch assms(7) by (simp add: hello_accepted_def)
    then show ?thesis using speaks'(3) seen_not_accepted [OF seen] by (simp add: hello_accepted_def)
  qed
qed

theorem hello_not_replayable_witness:
  "\<exists>hello e. io_out (snd (client_handshake toy_prims usize64 toy_cfg toy_coins (\<lambda>_. False) 1000 None (client_io []))) = hello
    \<and> io_out (snd (server_handshake toy_prims usize64 toy_ctx [2] 1000 None (server_io [hello] replay_new))) \<noteq> []
    \<and> fst (server_handshake toy_prims usize64 toy_ctx [4] 1005 None (server_io [hello]
          (srv_replay (snd (server_handshake toy_prims usize64 toy_ctx [2] 1000 None (server_io [hello] replay_new)))))) = Err e"
proof -
  have um: "2 ^ 16 \<le> usize64" by (simp add: usize64_def)
  obtain hello finished answer where
    cw: "completes_with toy_prims usize64 toy_cfg toy_coins (\<lambda>_. False) 1000 toy_ctx [2] 1000 replay_new None hello finished answer"
    by (rule honest_handshake [OF toy_prims_ok um toy_honest])
  let ?s = "server_io [hello] replay_new"
  let ?w = "srv_replay (snd (server_handshake toy_prims usize64 toy_ctx [2] 1000 None ?s))"
  have h: "hello \<noteq> []" "answer \<noteq> []" using cw by (simp_all add: completes_with_def)
  have ans: "io_out (snd (server_handshake toy_prims usize64 toy_ctx [2] 1000 None ?s)) = answer"
    using cw [unfolded completes_with_def, THEN conjunct2, THEN conjunct2, THEN conjunct2, THEN conjunct1, rule_format, of "[hello]"] h(1) by simp
  then have out: "io_out (snd (server_handshake toy_prims usize64 toy_ctx [2] 1000 None ?s)) \<noteq> io_out ?s" using h(2) by simp
  obtain ch s1 where r: "read_frame usize64 ?s = (Ok ch, s1)"
    using out read_frame_keeps(1) [of usize64 ?s]
    by (cases rule: server_handshake_cases [of toy_prims usize64 toy_ctx "[2]" 1000 None ?s]) auto
  have t: "\<exists>t1. read_frame usize64 (server_io [hello] ?w) = (Ok ch, t1)"
    using r by (auto simp: read_frame_def simp del: read_frame_loop.simps split: prod.splits)
  then obtain t1 where t1: "read_frame usize64 (server_io [hello] ?w) = (Ok ch, t1)" by blast
  have "\<exists>e. fst (server_handshake toy_prims usize64 toy_ctx [4] 1005 None (server_io [hello] ?w)) = Err e
    \<and> io_out (snd (server_handshake toy_prims usize64 toy_ctx [4] 1005 None (server_io [hello] ?w))) = io_out (server_io [hello] ?w)"
    by (rule hello_not_replayable [OF toy_prims_ok _ r out _ _ t1, of "[]"])
      (simp_all add: replay_new_inv, simp add: replay_new_def REFERENCE_SET_CAPACITY_def)
  then show ?thesis using cw ans h(2) by (auto simp: completes_with_def)
qed

end
