(* ===== verification/Handshake_Paths.thy ===== *)
theory Handshake_Paths
  imports Handshake_Theorems
begin

text \<open>
  The two server paths compared: the buffered one of the plain TCP accept loop completes exactly
  the handshakes the direct one completes, with the same session, the same bytes on the wire and
  the same replay window; and what its failures leave for the cover server.
\<close>

section \<open>Agreement of two runs\<close>

text \<open>Two calls that succeed together with the same value, and leave the same connection apart from the unparsed bytes.\<close>

definition runs_agree :: "('e, 'a) rust \<times> 'z hs_io_scheme \<Rightarrow> ('f, 'a) rust \<times> 'z hs_io_scheme \<Rightarrow> bool" where
  "runs_agree c d \<longleftrightarrow> (snd c)\<lparr>io_buf := []\<rparr> = (snd d)\<lparr>io_buf := []\<rparr> \<and> (\<forall>v. fst c = Ok v \<longleftrightarrow> fst d = Ok v)"

named_theorems agree_intros

lemma agree_fail [agree_intros]: "s\<lparr>io_buf := []\<rparr> = t\<lparr>io_buf := []\<rparr> \<Longrightarrow> runs_agree (Err e, s) (Err h, t)"
  by (simp add: runs_agree_def)

lemma agree_refl [agree_intros]: "runs_agree (Ok v, s) (Ok v, s)"
  by (simp add: runs_agree_def)

lemma agree_if [agree_intros]:
  "(b \<Longrightarrow> runs_agree c d) \<Longrightarrow> (\<not> b \<Longrightarrow> runs_agree c' d') \<Longrightarrow> runs_agree (if b then c else c') (if b then d else d')"
  by simp

lemma agree_if_or [agree_intros]:
  "runs_agree c d \<Longrightarrow> runs_agree c' d \<Longrightarrow> runs_agree x y
   \<Longrightarrow> runs_agree (if a then c else if b then c' else x) (if a \<or> b then d else y)"
  by simp

lemma agree_bind [agree_intros]:
  "(\<And>v t. runs_agree (F v t) (G v t)) \<Longrightarrow> runs_agree (st_bind m F) (or_fail m h G)"
  by (cases m; cases "fst m") (auto simp: runs_agree_def)

lemma agree_bind_map [agree_intros]:
  "(\<And>v t. runs_agree (F v t) (G v t)) \<Longrightarrow> runs_agree (st_bind (rust_map_err f r, s) F) (or_fail (r, s) h G)"
  by (cases r) (auto simp: runs_agree_def)

lemma agree_bind_drain [agree_intros]:
  assumes "\<And>v t. runs_agree (F v t) (G v t)"
  shows "runs_agree (st_bind (read_frame um s) F) (or_fail (read_frame_drain um s) h G)"
proof -
  obtain r t where r: "read_frame um s = (r, t)" by fastforce
  show ?thesis using assms by (cases r) (auto simp: read_frame_drain_def r runs_agree_def)
qed

lemma finish_agree:
  "runs_agree (server_finish P um None ch eph_sk ext (Some uid) k DecapsDone s) (prefix_finish P um ch eph_sk ext uid k s)"
proof -
  have st: "step_expect DecapsDone SecretsReady = Ok SecretsDerived" "step_expect SecretsDerived ServerSendDone = Ok ServerHelloSent"
    by (simp_all add: step_expect_def hs_step_def)
  show ?thesis
    unfolding server_finish_def prefix_finish_def bound_transcript_def Let_def option.case st st_bind.simps
    by (intro agree_intros refl)
qed

section \<open>Reading the hello\<close>

text \<open>The loop of the buffered path stops where the loop of \<open>read_frame\<close> stops.\<close>

lemma buffer_hello_cases:
  obtains (full) frame n b reads' where "read_frame_loop um reads buf = (Ok frame, reads', drop n b)"
      and "decode_frame um b = Ok (frame, n)"
      and "buffer_hello um reads buf =
        (if frame_kind frame \<noteq> FRAME_CLIENT_HELLO then Err \<lparr>hf_buffer = b, hf_stream = True\<rparr> else Ok b, reads')"
  | (short) e b reads' h where "read_frame_loop um reads buf = (Err e, reads', b)"
      and "buffer_hello um reads buf = (Err h, reads')"
proof -
  have "(\<exists>frame n b reads'. read_frame_loop um reads buf = (Ok frame, reads', drop n b) \<and> decode_frame um b = Ok (frame, n)
      \<and> buffer_hello um reads buf = (if frame_kind frame \<noteq> FRAME_CLIENT_HELLO then Err \<lparr>hf_buffer = b, hf_stream = True\<rparr> else Ok b, reads'))
    \<or> (\<exists>e b reads' h. read_frame_loop um reads buf = (Err e, reads', b) \<and> buffer_hello um reads buf = (Err h, reads'))"
  proof (induction um reads buf rule: read_frame_loop.induct)
    case (1 um buf)
    then show ?case
      using decode_frame_not_Panic [of um buf] decode_frame_Nil [of um]
      by (auto simp: buffer_hello.simps [of um "[]" buf] read_attempt_def Let_def HANDSHAKE_RX_HARD_CAP_def split: rust.splits WireError.splits)
  next
    case (2 um chunk reads buf)
    show ?case
    proof (cases "read_attempt um buf = None \<and> chunk \<noteq> []")
      case True
      then have "buffer_hello um (chunk # reads) buf = buffer_hello um reads (buf @ chunk)"
        using decode_frame_Nil [of um]
        by (auto simp: buffer_hello.simps [of um "chunk # reads" buf] read_attempt_def Let_def HANDSHAKE_RX_HARD_CAP_def split: rust.splits WireError.splits if_splits)
      then show ?thesis using 2 True by simp
    next
      case False
      then show ?thesis using decode_frame_not_Panic [of um buf] decode_frame_Nil [of um]
        by (auto simp: buffer_hello.simps [of um "chunk # reads" buf] read_attempt_def Let_def HANDSHAKE_RX_HARD_CAP_def split: rust.splits WireError.splits if_splits)
    qed
  qed
  then show ?thesis using full short by blast
qed

section \<open>The whole path\<close>

lemma agree_silent:
  assumes "\<And>v. fst d \<noteq> Ok v" and "(snd d)\<lparr>io_buf := []\<rparr> = s\<lparr>io_buf := []\<rparr>"
  shows "runs_agree (Err e, s) d"
  using assms by (simp add: runs_agree_def)

lemma fail_original_fails [simp]: "fst (fail_original ch tail s) \<noteq> Ok v" "snd (fail_original ch tail s) = s"
  by (simp_all add: fail_original_def split: rust.split)

lemma server_combine_Ok_or_Err:
  obtains (ok) k where "server_combine P a b c d = Ok k" | (err) e where "server_combine P a b c d = Err e"
  using server_combine_not_Panic by (cases "server_combine P a b c d") auto

text \<open>From the decoded hello on, with the bytes after it in the buffer of one path and in the argument of the other.\<close>

lemma prefix_agree:
  assumes dec: "decode_frame um b = Ok (frame, n)" and kind: "frame_kind frame = FRAME_CLIENT_HELLO"
    and rd: "read_frame um s = (Ok frame, t\<lparr>io_buf := drop n b\<rparr>)"
  shows "runs_agree (server_handshake P um ctx eph_sk now None s) (handshake_with_prefix P um ctx eph_sk now b t)"
proof (cases "decode_payload (frame_body frame)")
  case (Err e)
  then show ?thesis by (simp add: server_handshake_def rd kind server_authenticate_def handshake_with_prefix_def dec agree_silent)
next
  case Panic
  then show ?thesis using decode_payload_not_Panic by blast
next
  case (Ok ext)
  obtain verdict w where v: "replay_check (srv_replay t) (unat now) (client_nonce ext) (unat (timestamp_unix_seconds ext)) = (verdict, w)"
    by fastforce
  have comm: "t\<lparr>srv_replay := w, io_buf := x\<rparr> = t\<lparr>io_buf := x, srv_replay := w\<rparr>" for x by (cases t) simp
  have sbuf: "srv_replay (t\<lparr>io_buf := x\<rparr>) = srv_replay t" for x by (cases t) simp
  note unf = server_handshake_def rd kind server_authenticate_def handshake_with_prefix_def dec Ok step_expect_def hs_step_def
    server_replay_check_def v sbuf
  show ?thesis
  proof (cases "profile_hint ext = Gamma \<or> \<not> server_tag_ok P ctx ext \<or> \<not> server_pow_ok P ctx ext \<or> verdict \<noteq> Accept")
    case True
    then show ?thesis by (cases verdict) (auto simp: unf comm intro!: agree_silent)
  next
    case False
    show ?thesis
    proof (cases rule: server_combine_Ok_or_Err [of P eph_sk "sk_mlkem_sk (ctx_keys ctx)" "client_x25519_pub ext" "client_mlkem768_ct ext"])
      case (err e)
      then show ?thesis using False by (auto simp: unf comm intro!: agree_silent)
    next
      case (ok k)
      show ?thesis
        using False finish_agree [of P um "frame_body frame" eph_sk ext _ k]
        by (auto simp: unf ok comm intro!: agree_silent split: option.split)
    qed
  qed
qed

section \<open>Failures\<close>

definition drops_stream :: "('s, 'a) hf_call \<Rightarrow> bool" where
  "drops_stream c \<longleftrightarrow> (\<forall>h. fst c = Err h \<longrightarrow> \<not> hf_stream h)"

named_theorems drop_intros

lemma drops_stream_basic [drop_intros]:
  "drops_stream (Ok v, s)" "drops_stream (Panic, s)" "\<not> hf_stream h \<Longrightarrow> drops_stream (Err h, s)"
  "drops_stream (fail_original ch tail s)"
  by (auto simp: drops_stream_def fail_original_def split: rust.splits)

lemma drops_stream_if [drop_intros]: "drops_stream c \<Longrightarrow> drops_stream d \<Longrightarrow> drops_stream (if b then c else d)"
  by simp

lemma drops_stream_or_fail [drop_intros]:
  "\<not> hf_stream h \<Longrightarrow> (\<And>a t. drops_stream (f a t)) \<Longrightarrow> drops_stream (or_fail m h f)"
  by (cases m; cases "fst m") (auto simp: drops_stream_def)

lemma drops_stream_case [drop_intros]:
  "drops_stream c \<Longrightarrow> (\<And>a. drops_stream (f a)) \<Longrightarrow> drops_stream (case x of None \<Rightarrow> c | Some a \<Rightarrow> f a)"
  "(\<And>a b. drops_stream (g a b)) \<Longrightarrow> drops_stream (case y of (a, b) \<Rightarrow> g a b)"
  "(\<And>a b. drops_stream (g' a b t)) \<Longrightarrow> drops_stream ((case y' of (a, b) \<Rightarrow> g' a b) t)"
  "(\<And>a. drops_stream (f1 a)) \<Longrightarrow> (\<And>e. drops_stream (f2 e)) \<Longrightarrow> drops_stream p
   \<Longrightarrow> drops_stream (case r of Ok a \<Rightarrow> f1 a | Err e \<Rightarrow> f2 e | Panic \<Rightarrow> p)"
  by (simp_all split: option.split prod.split rust.split)

lemma lost_stream_lost [drop_intros]: "\<not> hf_stream lost_stream" "\<not> hf_stream \<lparr>hf_buffer = b, hf_stream = False\<rparr>"
  by (simp_all add: lost_stream_def)

lemma prefix_drops: "drops_stream (handshake_with_prefix P um ctx eph_sk now prefix s)"
  unfolding handshake_with_prefix_def prefix_finish_def Let_def by (intro drop_intros)

lemma buffer_hello_keeps:
  assumes "fst (buffer_hello um reads buf) = Err h" and "hf_stream h"
  shows "hf_buffer h @ concat (snd (buffer_hello um reads buf)) = buf @ concat reads"
    and "decode_frame um (hf_buffer h) = Ok (frame, n) \<Longrightarrow> frame_kind frame \<noteq> FRAME_CLIENT_HELLO"
proof -
  have "hf_buffer h @ concat (snd (buffer_hello um reads buf)) = buf @ concat reads
    \<and> (decode_frame um (hf_buffer h) = Ok (frame, n) \<longrightarrow> frame_kind frame \<noteq> FRAME_CLIENT_HELLO)"
    using assms
  proof (induction um reads buf rule: buffer_hello.induct)
    case (1 um reads buf)
    show ?case
    proof (cases "\<exists>a b chunk rest. decode_frame um buf = Err (Short a b) \<and> reads = chunk # rest \<and> chunk \<noteq> []
        \<and> length buf < HANDSHAKE_RX_HARD_CAP")
      case True
      then obtain a b chunk rest where r: "decode_frame um buf = Err (Short a b)" "reads = chunk # rest" "chunk \<noteq> []"
        "\<not> HANDSHAKE_RX_HARD_CAP \<le> length buf" by auto
      then have e: "buffer_hello um reads buf = buffer_hello um rest (buf @ chunk)" by (simp add: buffer_hello.simps [of um "chunk # rest" buf])
      show ?thesis using 1(1) [OF r(1) refl r(4,2,3)] 1(2,3) unfolding e by (simp add: r(2))
    next
      case False
      then show ?thesis using 1(2,3)
        by (auto simp: buffer_hello.simps [of um reads buf] split: rust.splits WireError.splits list.splits if_splits)
    qed
  qed
  then show "hf_buffer h @ concat (snd (buffer_hello um reads buf)) = buf @ concat reads"
    "decode_frame um (hf_buffer h) = Ok (frame, n) \<Longrightarrow> frame_kind frame \<noteq> FRAME_CLIENT_HELLO" by blast+
qed

section \<open>Properties\<close>

text \<open>
  C8. The two server paths are equivalent.  From a connection nothing was read of yet, the buffered
  path of the accept loop completes exactly the handshakes the direct path completes without a
  channel binding, with the same session, and whatever the outcome both have written the same
  bytes, taken the same reads and left the same replay window.
\<close>

theorem server_paths_agree:
  assumes "io_buf s = []"
  shows "(\<forall>ss. fst (handshake_buffered P um ctx eph_sk now s) = Ok ss
            \<longleftrightarrow> fst (server_handshake P um ctx eph_sk now None s) = Ok ss)
    \<and> io_out (snd (handshake_buffered P um ctx eph_sk now s)) = io_out (snd (server_handshake P um ctx eph_sk now None s))
    \<and> io_reads (snd (handshake_buffered P um ctx eph_sk now s)) = io_reads (snd (server_handshake P um ctx eph_sk now None s))
    \<and> srv_replay (snd (handshake_buffered P um ctx eph_sk now s)) = srv_replay (snd (server_handshake P um ctx eph_sk now None s))"
proof -
  have "runs_agree (server_handshake P um ctx eph_sk now None s) (handshake_buffered P um ctx eph_sk now s)"
  proof (cases rule: buffer_hello_cases [of um "io_reads s" "[]"])
    case (full frame n b reads')
    let ?t = "s\<lparr>io_reads := reads'\<rparr>"
    have rd: "read_frame um s = (Ok frame, ?t\<lparr>io_buf := drop n b\<rparr>)" using full(1) assms by (simp add: read_frame_def)
    show ?thesis
    proof (cases "frame_kind frame = FRAME_CLIENT_HELLO")
      case True
      then show ?thesis using prefix_agree [OF full(2) True rd] by (simp add: handshake_buffered_def full(3))
    next
      case False
      then show ?thesis by (simp add: handshake_buffered_def full(3) server_handshake_def rd agree_silent)
    qed
  next
    case (short e b reads' h)
    then show ?thesis using assms by (simp add: handshake_buffered_def server_handshake_def read_frame_def agree_silent)
  qed
  then have a: "(snd (server_handshake P um ctx eph_sk now None s))\<lparr>io_buf := []\<rparr> = (snd (handshake_buffered P um ctx eph_sk now s))\<lparr>io_buf := []\<rparr>"
    "\<forall>v. fst (server_handshake P um ctx eph_sk now None s) = Ok v \<longleftrightarrow> fst (handshake_buffered P um ctx eph_sk now s) = Ok v"
    by (simp_all add: runs_agree_def)
  show ?thesis
    using a(2) arg_cong [OF a(1), of io_out] arg_cong [OF a(1), of io_reads] arg_cong [OF a(1), of srv_replay]
    by (cases "snd (server_handshake P um ctx eph_sk now None s)"; cases "snd (handshake_buffered P um ctx eph_sk now s)") simp
qed

theorem server_paths_agree_witness:
  "\<exists>hello finished ss. hello \<noteq> []
    \<and> fst (handshake_buffered toy_prims usize64 toy_ctx [2] 1000 (server_io [hello @ finished] replay_new)) = Ok ss"
proof -
  have um: "2 ^ 16 \<le> usize64" by (simp add: usize64_def)
  obtain hello finished answer where
    cw: "completes_with toy_prims usize64 toy_cfg toy_coins (\<lambda>_. False) 1000 toy_ctx [2] 1000 replay_new None hello finished answer"
    by (rule honest_handshake [OF toy_prims_ok um toy_honest])
  have "\<exists>ss. fst (server_handshake toy_prims usize64 toy_ctx [2] 1000 None (server_io [hello @ finished] replay_new)) = Ok ss"
    using cw [unfolded completes_with_def, THEN conjunct2, THEN conjunct2, THEN conjunct2, THEN conjunct2,
        rule_format, of "[answer]" "[]" "[hello @ finished]" "[]"] cw
    by (fastforce simp: completes_with_def)
  then show ?thesis
    using server_paths_agree [of "server_io [hello @ finished] replay_new" toy_prims usize64 toy_ctx "[2]" 1000] cw
    by (auto simp: completes_with_def)
qed

text \<open>
  C10. What a failure leaves for the cover server.  Once the buffered path has a complete ClientHello,
  every failure, of the decoding, the profile, the tag, the puzzle, the replay window, the
  identity or the rest of the handshake, comes without the stream, so it is never forwarded to the
  cover server; a failure that keeps the stream is one of a connection whose first frame was
  malformed, too long or no ClientHello, it keeps every byte read, and nothing was written.
\<close>

theorem handshake_failure_stream:
  "(fst (handshake_with_prefix P um ctx eph_sk now prefix s) = Err h \<longrightarrow> \<not> hf_stream h)
   \<and> (fst (handshake_buffered P um ctx eph_sk now s) = Err h' \<and> hf_stream h' \<longrightarrow>
        io_out (snd (handshake_buffered P um ctx eph_sk now s)) = io_out s
      \<and> hf_buffer h' @ concat (io_reads (snd (handshake_buffered P um ctx eph_sk now s))) = concat (io_reads s)
      \<and> (\<forall>frame n. decode_frame um (hf_buffer h') = Ok (frame, n) \<longrightarrow> frame_kind frame \<noteq> FRAME_CLIENT_HELLO))"
proof (intro conjI impI)
  show "\<not> hf_stream h" if "fst (handshake_with_prefix P um ctx eph_sk now prefix s) = Err h"
    using prefix_drops [of P um ctx eph_sk now prefix s] that by (simp add: drops_stream_def)
next
  assume f: "fst (handshake_buffered P um ctx eph_sk now s) = Err h' \<and> hf_stream h'"
  obtain v reads where b: "buffer_hello um (io_reads s) [] = (v, reads)" by fastforce
  have v: "v = Err h'"
    using f prefix_drops [of P um ctx eph_sk now _ "s\<lparr>io_reads := reads\<rparr>"]
    by (cases v) (auto simp: handshake_buffered_def b drops_stream_def)
  have k: "hf_buffer h' @ concat reads = concat (io_reads s)"
    and d: "\<And>frame n. decode_frame um (hf_buffer h') = Ok (frame, n) \<Longrightarrow> frame_kind frame \<noteq> FRAME_CLIENT_HELLO"
    using buffer_hello_keeps [of um "io_reads s" "[]" h'] f b v by auto
  show "io_out (snd (handshake_buffered P um ctx eph_sk now s)) = io_out s"
    "hf_buffer h' @ concat (io_reads (snd (handshake_buffered P um ctx eph_sk now s))) = concat (io_reads s)"
    "\<forall>frame n. decode_frame um (hf_buffer h') = Ok (frame, n) \<longrightarrow> frame_kind frame \<noteq> FRAME_CLIENT_HELLO"
    using k d by (simp_all add: handshake_buffered_def b v)
qed

theorem handshake_failure_stream_witness:
  "\<exists>h h'. fst (handshake_with_prefix toy_prims usize64 toy_ctx [2] 1000 [FRAME_CLIENT_HELLO, 0] (server_io [] replay_new)) = Err h
     \<and> \<not> hf_stream h
     \<and> fst (handshake_buffered toy_prims usize64 toy_ctx [2] 1000 (server_io [[FRAME_SERVER_HELLO, 0, 7], [8]] replay_new)) = Err h'
     \<and> hf_stream h' \<and> hf_buffer h' @ [8] = [FRAME_SERVER_HELLO, 0, 7, 8]"
proof -
  let ?s = "server_io [[FRAME_SERVER_HELLO, 0, 7], [8]] replay_new"
  have hf: "hs_frame k [] = [k, 0]" for k by (simp add: frame_bytes_def, code_simp)
  have small: "frame_legal \<lparr>frame_kind = k, frame_body = []\<rparr>" "length (hs_frame k []) \<le> usize64" for k
    using hs_frame_fits [of "[]" usize64 k] by (simp_all add: usize64_def)
  have dec: "decode_frame usize64 [k, 0] = Ok (\<lparr>frame_kind = k, frame_body = []\<rparr>, 2)"
    "decode_frame usize64 [k, 0, 7] = Ok (\<lparr>frame_kind = k, frame_body = []\<rparr>, 2)" for k
    using decode_frame_bytes [OF small, of k "[]"] decode_frame_bytes [OF small, of k "[7]"] by (simp_all add: hf)
  have ne: "FRAME_SERVER_HELLO \<noteq> FRAME_CLIENT_HELLO" by code_simp
  have enc: "encode_handshake FRAME_CLIENT_HELLO [] = Ok [FRAME_CLIENT_HELLO, 0]"
    by (simp add: encode_handshake_record encode_record_bytes hf)
  have empty: "\<exists>e. decode_payload [] = Err e" by (simp add: decode_payload_def auth_ext_len_value)
  let ?p = "handshake_with_prefix toy_prims usize64 toy_ctx [2] 1000 [FRAME_CLIENT_HELLO, 0] (server_io [] replay_new)"
  let ?b = "handshake_buffered toy_prims usize64 toy_ctx [2] 1000 ?s"
  let ?h' = "\<lparr>hf_buffer = [FRAME_SERVER_HELLO, 0, 7], hf_stream = True\<rparr>"
  obtain e where e: "decode_payload [] = Err e" using empty by blast
  have a: "fst ?p = Err \<lparr>hf_buffer = [FRAME_CLIENT_HELLO, 0], hf_stream = False\<rparr>"
    by (simp add: handshake_with_prefix_def dec fail_original_def enc e)
  have "buffer_hello usize64 [[FRAME_SERVER_HELLO, 0, 7], [8]] [] = (Err ?h', [[8]])"
    by (subst buffer_hello.simps, subst buffer_hello.simps) (simp add: dec ne decode_frame_Nil HANDSHAKE_RX_HARD_CAP_def)
  then have b: "?b = (Err ?h', ?s\<lparr>io_reads := [[8]]\<rparr>)" by (simp add: handshake_buffered_def)
  have "\<not> hf_stream \<lparr>hf_buffer = [FRAME_CLIENT_HELLO, 0], hf_stream = False\<rparr>"
    using handshake_failure_stream [of toy_prims usize64 toy_ctx "[2]" 1000 "[FRAME_CLIENT_HELLO, 0]" "server_io [] replay_new"] a by blast
  moreover have "hf_buffer ?h' @ concat (io_reads (snd ?b)) = concat (io_reads ?s)"
    using handshake_failure_stream [of toy_prims usize64 toy_ctx "[2]" 1000 "[]" ?s _ ?h'] by (simp add: b)
  ultimately show ?thesis using a b by (intro exI [of _ "\<lparr>hf_buffer = [FRAME_CLIENT_HELLO, 0], hf_stream = False\<rparr>"] exI [of _ ?h']) simp
qed

end
