(* ===== verification/Client_Hello.thy ===== *)
theory Client_Hello
  imports Crypto
begin

text \<open>
  The ClientHello parser of \<open>proteus-fingerprint/src/ja4.rs\<close>: the cursor, the JA4 fingerprint
  of a TLS record, and the second walk that also returns the raw components.  The pre-authentication
  gate takes the client random and the session id from it.

  Shown: both walks are total (no slice or index out of range), they succeed together, the
  components explain the fingerprint, and the fields are the bytes at the fixed offsets.
\<close>

section \<open>Data\<close>

datatype Ja4Error = Truncated nat nat | NotClientHello u8 | BadRecord string

definition GREASE_VALUES :: "u16 list" where
  "GREASE_VALUES = [0x0a0a, 0x1a1a, 0x2a2a, 0x3a3a, 0x4a4a, 0x5a5a, 0x6a6a, 0x7a7a, 0x8a8a, 0x9a9a, 0xaaaa, 0xbaba,
     0xcaca, 0xdada, 0xeaea, 0xfafa]"

definition is_grease :: "u16 \<Rightarrow> bool" where
  "is_grease v \<longleftrightarrow> v \<in> set GREASE_VALUES"

record Ja4 =
  ja4_transport :: char
  ja4_version :: string
  ja4_sni :: char
  ja4_cipher_count :: nat
  ja4_ext_count :: nat
  ja4_alpn_tag :: string
  ja4_cipher_hash :: string
  ja4_ext_hash :: string

record Ja4Components =
  jc_ciphers :: "u16 list"
  jc_extensions :: "u16 list"
  jc_signature_algorithms :: "u16 list"
  jc_alpn_offered :: "bytes list"
  jc_supported_versions :: "u16 list"
  jc_sni_present :: bool
  jc_client_random :: bytes
  jc_session_id :: bytes

section \<open>Cursor\<close>

record ja4_cursor =
  jbuf :: bytes
  jpos :: nat

definition ja4_cursor_new :: "bytes \<Rightarrow> ja4_cursor" where
  "ja4_cursor_new buf = \<lparr>jbuf = buf, jpos = 0\<rparr>"

definition ja4_remaining :: "ja4_cursor \<Rightarrow> nat" where
  "ja4_remaining c = sat_sub (length (jbuf c)) (jpos c)"

definition ja4_read_u8 :: "ja4_cursor \<Rightarrow> (Ja4Error, u8 \<times> ja4_cursor) rust" where
  "ja4_read_u8 c =
     (if ja4_remaining c < 1 then Err (Truncated (jpos c) 1)
      else rust_bind (index (jbuf c) (jpos c)) (\<lambda>v. Ok (v, c\<lparr>jpos := jpos c + 1\<rparr>)))"

definition ja4_read_u16_be :: "ja4_cursor \<Rightarrow> (Ja4Error, u16 \<times> ja4_cursor) rust" where
  "ja4_read_u16_be c =
     (if ja4_remaining c < 2 then Err (Truncated (jpos c) 2)
      else
        rust_bind (index (jbuf c) (jpos c)) (\<lambda>a.
        rust_bind (index (jbuf c) (jpos c + 1)) (\<lambda>b.
        Ok (word_of_nat (be_val [a, b]), c\<lparr>jpos := jpos c + 2\<rparr>))))"

definition ja4_read_n :: "nat \<Rightarrow> ja4_cursor \<Rightarrow> (Ja4Error, bytes \<times> ja4_cursor) rust" where
  "ja4_read_n n c =
     (if ja4_remaining c < n then Err (Truncated (jpos c) n)
      else rust_bind (slice (jbuf c) (jpos c) (jpos c + n)) (\<lambda>s. Ok (s, c\<lparr>jpos := jpos c + n\<rparr>)))"

section \<open>Text\<close>

definition hex_digit :: "nat \<Rightarrow> char" where
  "hex_digit n = ''0123456789abcdef'' ! (n mod 16)"

text \<open>\<open>{:02x}\<close> of a byte, \<open>{:04x}\<close> of a 16-bit integer, \<open>{:02}\<close> of a byte, \<open>join(",")\<close>.\<close>

definition hex2 :: "u8 \<Rightarrow> string" where
  "hex2 b = [hex_digit (unat b div 16), hex_digit (unat b)]"

definition hex4 :: "u16 \<Rightarrow> string" where
  "hex4 v = [hex_digit (unat v div 4096), hex_digit (unat v div 256), hex_digit (unat v div 16), hex_digit (unat v)]"

definition dec02 :: "nat \<Rightarrow> string" where
  "dec02 n = (if n < 100 then [hex_digit (n div 10), hex_digit (n mod 10)]
     else [hex_digit (n div 100), hex_digit (n div 10 mod 10), hex_digit (n mod 10)])"

fun comma_join :: "string list \<Rightarrow> string" where
  "comma_join [] = ''''"
| "comma_join [s] = s"
| "comma_join (s # t # ss) = s @ '','' @ comma_join (t # ss)"

definition sha256_prefix_12 :: "primitives \<Rightarrow> bytes \<Rightarrow> string" where
  "sha256_prefix_12 P data = concat (map hex2 (take 6 (sha256 P data)))"

definition ja4_display :: "Ja4 \<Rightarrow> string" where
  "ja4_display j =
     [ja4_transport j] @ ja4_version j @ [ja4_sni j] @ dec02 (ja4_cipher_count j) @ dec02 (ja4_ext_count j)
     @ ja4_alpn_tag j @ ''_'' @ ja4_cipher_hash j @ ''_'' @ ja4_ext_hash j"

section \<open>Fields shared by the two walks\<close>

text \<open>\<open>chunks_exact(2)\<close> as 16-bit integers, without the GREASE values.\<close>

fun u16_chunks :: "bytes \<Rightarrow> u16 list" where
  "u16_chunks (a # b # rest) = word_of_nat (be_val [a, b]) # u16_chunks rest"
| "u16_chunks _ = []"

definition ungreased :: "bytes \<Rightarrow> u16 list" where
  "ungreased bs = filter (\<lambda>v. \<not> is_grease v) (u16_chunks bs)"

text \<open>One extension: type and data.\<close>

definition read_ext :: "ja4_cursor \<Rightarrow> (Ja4Error, (u16 \<times> bytes) \<times> ja4_cursor) rust" where
  "read_ext ec =
     rust_bind (ja4_read_u16_be ec) (\<lambda>(ext_type, ec).
     rust_bind (ja4_read_u16_be ec) (\<lambda>(ext_len, ec).
     rust_bind (ja4_read_n (unat ext_len) ec) (\<lambda>(ext_data, ec).
     Ok ((ext_type, ext_data), ec))))"

definition sig_algs_of :: "bytes \<Rightarrow> (Ja4Error, u16 list) rust" where
  "sig_algs_of ext_data =
     (let sec = ja4_cursor_new ext_data in
      if ja4_remaining sec \<ge> 2 then
        rust_bind (ja4_read_u16_be sec) (\<lambda>(list_len, sec).
        rust_bind (ja4_read_n (unat list_len) sec) (\<lambda>(list, sec).
        Ok (ungreased list)))
      else Ok [])"

definition versions_of :: "bytes \<Rightarrow> (Ja4Error, u16 list) rust" where
  "versions_of ext_data =
     (let sec = ja4_cursor_new ext_data in
      if ja4_remaining sec \<ge> 1 then
        rust_bind (ja4_read_u8 sec) (\<lambda>(list_len, sec).
        rust_bind (ja4_read_n (unat list_len) sec) (\<lambda>(list, sec).
        Ok (ungreased list)))
      else Ok [])"

definition first_alpn_of :: "bytes \<Rightarrow> (Ja4Error, bytes option) rust" where
  "first_alpn_of ext_data =
     (let sec = ja4_cursor_new ext_data in
      if ja4_remaining sec \<ge> 2 then
        rust_bind (ja4_read_u16_be sec) (\<lambda>(_, sec).
        if ja4_remaining sec \<ge> 1 then
          rust_bind (ja4_read_u8 sec) (\<lambda>(one_len, sec).
          rust_bind (ja4_read_n (unat one_len) sec) (\<lambda>(one, sec).
          Ok (Some one)))
        else Ok None)
      else Ok None)"

text \<open>All entries of the ALPN list; an entry that does not fit ends it.\<close>

fun alpn_entries :: "bytes \<Rightarrow> bytes list" where
  "alpn_entries [] = []"
| "alpn_entries (one_len # rest) =
     (if length rest < unat one_len then []
      else take (unat one_len) rest # alpn_entries (drop (unat one_len) rest))"

section \<open>The fingerprint\<close>

text \<open>What the extension loop of \<open>parse_client_hello\<close> accumulates.\<close>

record ja4_acc =
  acc_ext_ids :: "u16 list"
  acc_sig_algs :: "u16 list"
  acc_sni :: bool
  acc_first_alpn :: "bytes option"
  acc_versions_max :: "u16 option"

definition max_version :: "u16 option \<Rightarrow> u16 \<Rightarrow> u16 option" where
  "max_version m v = Some (case m of Some cur_max \<Rightarrow> max cur_max v | None \<Rightarrow> v)"

definition ja4_ext :: "u16 \<Rightarrow> bytes \<Rightarrow> ja4_acc \<Rightarrow> (Ja4Error, ja4_acc) rust" where
  "ja4_ext ext_type ext_data a0 =
     (let a = a0\<lparr>acc_ext_ids := acc_ext_ids a0 @ [ext_type]\<rparr> in
      if ext_type = 0x0000 then Ok (a\<lparr>acc_sni := True\<rparr>)
      else if ext_type = 0x000d then
        rust_bind (sig_algs_of ext_data) (\<lambda>algs. Ok (a\<lparr>acc_sig_algs := acc_sig_algs a @ algs\<rparr>))
      else if ext_type = 0x0010 then
        rust_bind (first_alpn_of ext_data) (\<lambda>one.
        Ok (case one of Some _ \<Rightarrow> a\<lparr>acc_first_alpn := one\<rparr> | None \<Rightarrow> a))
      else if ext_type = 0x002b then
        rust_bind (versions_of ext_data) (\<lambda>vs. Ok (a\<lparr>acc_versions_max := foldl max_version (acc_versions_max a) vs\<rparr>))
      else Ok a)"

lemma ja4_reads:
  "ja4_read_u8 c = (if ja4_remaining c < 1 then Err (Truncated (jpos c) 1) else Ok (jbuf c ! jpos c, c\<lparr>jpos := jpos c + 1\<rparr>))"
  "ja4_read_u16_be c = (if ja4_remaining c < 2 then Err (Truncated (jpos c) 2)
     else Ok (word_of_nat (be_val [jbuf c ! jpos c, jbuf c ! (jpos c + 1)]), c\<lparr>jpos := jpos c + 2\<rparr>))"
  by (auto simp: ja4_read_u8_def ja4_read_u16_be_def ja4_remaining_def)

lemma ja4_read_n_eq:
  "jpos c \<le> length (jbuf c) \<Longrightarrow> ja4_read_n n c = (if ja4_remaining c < n then Err (Truncated (jpos c) n)
     else Ok (take n (drop (jpos c) (jbuf c)), c\<lparr>jpos := jpos c + n\<rparr>))"
  by (auto simp: ja4_read_n_def ja4_remaining_def)

lemma read_ext_progress: "read_ext c = Ok (x, c') \<Longrightarrow> 4 \<le> ja4_remaining c \<and> ja4_remaining c' + 4 \<le> ja4_remaining c"
  by (auto simp: read_ext_def ja4_reads ja4_read_n_eq ja4_remaining_def rust_bind_Ok_iff split: if_splits)

function ja4_exts :: "ja4_cursor \<Rightarrow> ja4_acc \<Rightarrow> (Ja4Error, ja4_acc) rust" where
  "ja4_exts ec a =
     (if ja4_remaining ec \<ge> 4 then
        (case read_ext ec of
           Ok ((ext_type, ext_data), ec') \<Rightarrow>
             if is_grease ext_type then ja4_exts ec' a
             else (case ja4_ext ext_type ext_data a of
                     Ok a' \<Rightarrow> ja4_exts ec' a' | Err e \<Rightarrow> Err e | Panic \<Rightarrow> Panic)
         | Err e \<Rightarrow> Err e | Panic \<Rightarrow> Panic)
      else Ok a)"
  by pat_completeness auto
termination
  by (relation "measure (\<lambda>(ec, a). ja4_remaining ec)") (auto dest!: read_ext_progress)

declare ja4_exts.simps [simp del]

definition ja4_to_char :: "u8 \<Rightarrow> char" where
  "ja4_to_char b = (if 33 \<le> b \<and> b \<le> 126 then char_of (unat b) else CHR ''9'')"

definition alpn_tag_of :: "bytes option \<Rightarrow> string" where
  "alpn_tag_of first_alpn =
     (case first_alpn of
        Some a \<Rightarrow> if a \<noteq> [] then [ja4_to_char (hd a), ja4_to_char (last a)] else ''00''
      | None \<Rightarrow> ''00'')"

definition version_str :: "u16 \<Rightarrow> string" where
  "version_str v = (if v = 0x0304 then ''13'' else if v = 0x0303 then ''12'' else if v = 0x0302 then ''11''
     else if v = 0x0301 then ''10'' else ''00'')"

definition cipher_hash_of :: "primitives \<Rightarrow> u16 list \<Rightarrow> string" where
  "cipher_hash_of P ciphers = sha256_prefix_12 P (ascii (comma_join (map hex4 (sort ciphers))))"

definition ext_hash_of :: "primitives \<Rightarrow> u16 list \<Rightarrow> u16 list \<Rightarrow> string" where
  "ext_hash_of P ext_ids sig_algs =
     sha256_prefix_12 P (ascii (comma_join (map hex4 (sort (filter (\<lambda>e. e \<noteq> 0x0000 \<and> e \<noteq> 0x0010) ext_ids)))
       @ ''_'' @ comma_join (map hex4 sig_algs)))"

text \<open>The record and handshake headers: the body of the ClientHello.\<close>

definition client_hello_body :: "bytes \<Rightarrow> (Ja4Error, bytes) rust" where
  "client_hello_body rb =
     (if length rb < 5 then Err (Truncated 0 5)
      else
        rust_bind (index rb 0) (\<lambda>content_type.
        if content_type \<noteq> 0x16 then Err (BadRecord ''content_type != handshake (0x16)'')
        else
          rust_bind (index rb 3) (\<lambda>l0. rust_bind (index rb 4) (\<lambda>l1.
          let record_len = be_val [l0, l1] in
          if length rb < 5 + record_len then Err (Truncated 5 record_len)
          else
            rust_bind (slice rb 5 (5 + record_len)) (\<lambda>hs.
            if length hs < 4 then Err (Truncated 0 4)
            else
              rust_bind (index hs 0) (\<lambda>hs_type.
              if hs_type \<noteq> 0x01 then Err (NotClientHello hs_type)
              else
                rust_bind (index hs 1) (\<lambda>h1. rust_bind (index hs 2) (\<lambda>h2. rust_bind (index hs 3) (\<lambda>h3.
                let hs_len = be_val [0, h1, h2, h3] in
                if length hs < 4 + hs_len then Err (Truncated 4 hs_len)
                else slice hs 4 (4 + hs_len))))))))))"

definition parse_client_hello :: "primitives \<Rightarrow> bytes \<Rightarrow> char \<Rightarrow> (Ja4Error, Ja4) rust" where
  "parse_client_hello P rb transport =
     rust_bind (client_hello_body rb) (\<lambda>ch.
     let cur = ja4_cursor_new ch in
     rust_bind (ja4_read_u16_be cur) (\<lambda>(legacy_version, cur).
     rust_bind (ja4_read_n 32 cur) (\<lambda>(_, cur).
     rust_bind (ja4_read_u8 cur) (\<lambda>(sid_len, cur).
     rust_bind (ja4_read_n (unat sid_len) cur) (\<lambda>(_, cur).
     rust_bind (ja4_read_u16_be cur) (\<lambda>(ciphers_len, cur).
     rust_bind (ja4_read_n (unat ciphers_len) cur) (\<lambda>(ciphers_bytes, cur).
     let ciphers = ungreased ciphers_bytes in
     rust_bind (ja4_read_u8 cur) (\<lambda>(comp_len, cur).
     rust_bind (ja4_read_n (unat comp_len) cur) (\<lambda>(_, cur).
     let acc = \<lparr>acc_ext_ids = [], acc_sig_algs = [], acc_sni = False, acc_first_alpn = None, acc_versions_max = None\<rparr> in
     rust_bind (if ja4_remaining cur \<ge> 2 then
                  rust_bind (ja4_read_u16_be cur) (\<lambda>(ext_total, cur).
                  rust_bind (ja4_read_n (unat ext_total) cur) (\<lambda>(ext_bytes, cur).
                  ja4_exts (ja4_cursor_new ext_bytes) acc))
                else Ok acc) (\<lambda>acc.
     Ok \<lparr>ja4_transport = transport,
         ja4_version = version_str (case acc_versions_max acc of Some v \<Rightarrow> v | None \<Rightarrow> legacy_version),
         ja4_sni = (if acc_sni acc then CHR ''d'' else CHR ''i''),
         ja4_cipher_count = min (length ciphers) 99,
         ja4_ext_count = min (length (acc_ext_ids acc)) 99,
         ja4_alpn_tag = alpn_tag_of (acc_first_alpn acc),
         ja4_cipher_hash = cipher_hash_of P ciphers,
         ja4_ext_hash = ext_hash_of P (acc_ext_ids acc) (acc_sig_algs acc)\<rparr>))))))))))"

section \<open>The components\<close>

definition jc_empty :: Ja4Components where
  "jc_empty = \<lparr>jc_ciphers = [], jc_extensions = [], jc_signature_algorithms = [], jc_alpn_offered = [],
     jc_supported_versions = [], jc_sni_present = False, jc_client_random = [], jc_session_id = []\<rparr>"

definition jc_ext :: "u16 \<Rightarrow> bytes \<Rightarrow> Ja4Components \<Rightarrow> (Ja4Error, Ja4Components) rust" where
  "jc_ext ext_type ext_data a0 =
     (let a = a0\<lparr>jc_extensions := jc_extensions a0 @ [ext_type]\<rparr> in
      if ext_type = 0x0000 then Ok (a\<lparr>jc_sni_present := True\<rparr>)
      else if ext_type = 0x000d then
        rust_bind (sig_algs_of ext_data) (\<lambda>algs. Ok (a\<lparr>jc_signature_algorithms := jc_signature_algorithms a @ algs\<rparr>))
      else if ext_type = 0x0010 then
        (let sec = ja4_cursor_new ext_data in
         if ja4_remaining sec \<ge> 2 then
           rust_bind (ja4_read_u16_be sec) (\<lambda>(_, sec).
           Ok (a\<lparr>jc_alpn_offered := jc_alpn_offered a @ alpn_entries (drop (jpos sec) (jbuf sec))\<rparr>))
         else Ok a)
      else if ext_type = 0x002b then
        rust_bind (versions_of ext_data) (\<lambda>vs. Ok (a\<lparr>jc_supported_versions := jc_supported_versions a @ vs\<rparr>))
      else Ok a)"

function jc_exts :: "ja4_cursor \<Rightarrow> Ja4Components \<Rightarrow> (Ja4Error, Ja4Components) rust" where
  "jc_exts ec a =
     (if ja4_remaining ec \<ge> 4 then
        (case read_ext ec of
           Ok ((ext_type, ext_data), ec') \<Rightarrow>
             if is_grease ext_type then jc_exts ec' a
             else (case jc_ext ext_type ext_data a of
                     Ok a' \<Rightarrow> jc_exts ec' a' | Err e \<Rightarrow> Err e | Panic \<Rightarrow> Panic)
         | Err e \<Rightarrow> Err e | Panic \<Rightarrow> Panic)
      else Ok a)"
  by pat_completeness auto
termination
  by (relation "measure (\<lambda>(ec, a). ja4_remaining ec)") (auto dest!: read_ext_progress)

declare jc_exts.simps [simp del]

text \<open>The second walk over the headers, which relies on the first for its checks.\<close>

definition client_hello_body_again :: "bytes \<Rightarrow> (Ja4Error, bytes) rust" where
  "client_hello_body_again rb =
     (if length rb < 5 then Err (Truncated 0 5)
      else
        rust_bind (index rb 3) (\<lambda>l0. rust_bind (index rb 4) (\<lambda>l1.
        let record_len = be_val [l0, l1] in
        rust_bind (slice rb 5 (5 + record_len)) (\<lambda>hs.
        rust_bind (index hs 1) (\<lambda>h1. rust_bind (index hs 2) (\<lambda>h2. rust_bind (index hs 3) (\<lambda>h3.
        let hs_len = be_val [0, h1, h2, h3] in
        slice hs 4 (4 + hs_len))))))))"

definition parse_client_hello_with_components :: "primitives \<Rightarrow> bytes \<Rightarrow> char \<Rightarrow> (Ja4Error, Ja4 \<times> Ja4Components) rust" where
  "parse_client_hello_with_components P rb transport =
     rust_bind (parse_client_hello P rb transport) (\<lambda>ja4.
     rust_bind (client_hello_body_again rb) (\<lambda>ch.
     let cur = ja4_cursor_new ch in
     rust_bind (ja4_read_u16_be cur) (\<lambda>(_, cur).
     rust_bind (ja4_read_n 32 cur) (\<lambda>(client_random, cur).
     rust_bind (ja4_read_u8 cur) (\<lambda>(sid_len, cur).
     rust_bind (ja4_read_n (unat sid_len) cur) (\<lambda>(session_id, cur).
     rust_bind (ja4_read_u16_be cur) (\<lambda>(ciphers_len, cur).
     rust_bind (ja4_read_n (unat ciphers_len) cur) (\<lambda>(ciphers_bytes, cur).
     let ciphers = ungreased ciphers_bytes in
     rust_bind (ja4_read_u8 cur) (\<lambda>(comp_len, cur).
     rust_bind (ja4_read_n (unat comp_len) cur) (\<lambda>(_, cur).
     rust_bind (if ja4_remaining cur \<ge> 2 then
                  rust_bind (ja4_read_u16_be cur) (\<lambda>(ext_total, cur).
                  rust_bind (ja4_read_n (unat ext_total) cur) (\<lambda>(ext_bytes, cur).
                  jc_exts (ja4_cursor_new ext_bytes) jc_empty))
                else Ok jc_empty) (\<lambda>acc.
     Ok (ja4, acc\<lparr>jc_ciphers := ciphers, jc_client_random := client_random, jc_session_id := session_id\<rparr>))))))))))))"

section \<open>Both walks over the headers\<close>

lemma rust_bind_assoc: "rust_bind (rust_bind m f) g = rust_bind m (\<lambda>x. rust_bind (f x) g)"
  by (cases m) simp_all

lemma rust_bind_not_Panic: "m \<noteq> Panic \<Longrightarrow> (\<And>a. m = Ok a \<Longrightarrow> f a \<noteq> Panic) \<Longrightarrow> rust_bind m f \<noteq> Panic"
  by (cases m) simp_all

abbreviation jfits :: "ja4_cursor \<Rightarrow> bool" where
  "jfits c \<equiv> jpos c \<le> length (jbuf c)"

text \<open>The header of a record that holds a complete ClientHello, and the length of its body.\<close>

definition hello_len :: "bytes \<Rightarrow> nat" where
  "hello_len rb = be_val [0, rb ! 6, rb ! 7, rb ! 8]"

definition hello_framed :: "bytes \<Rightarrow> bool" where
  "hello_framed rb \<longleftrightarrow> 5 \<le> length rb \<and> rb ! 0 = 0x16 \<and> 5 + be_val [rb ! 3, rb ! 4] \<le> length rb
     \<and> 4 \<le> be_val [rb ! 3, rb ! 4] \<and> rb ! 5 = 1 \<and> 4 + hello_len rb \<le> be_val [rb ! 3, rb ! 4]"

lemma client_hello_body_framed:
  shows "hello_framed rb \<Longrightarrow> client_hello_body rb = Ok (take (hello_len rb) (drop 9 rb))"
    and "hello_framed rb \<Longrightarrow> client_hello_body_again rb = Ok (take (hello_len rb) (drop 9 rb))"
    and "\<not> hello_framed rb \<Longrightarrow> \<exists>e. client_hello_body rb = Err e"
proof -
  let ?r = "be_val [rb ! 3, rb ! 4]" and ?n = "be_val [0, rb ! 6, rb ! 7, rb ! 8]"
  let ?hs = "take ?r (drop 5 rb)"
  have "(hello_framed rb \<longrightarrow> client_hello_body rb = Ok (take ?n (drop 9 rb)) \<and> client_hello_body_again rb = Ok (take ?n (drop 9 rb)))
    \<and> (\<not> hello_framed rb \<longrightarrow> (\<exists>e. client_hello_body rb = Err e))"
  proof (cases "5 \<le> length rb \<and> rb ! 0 = 0x16 \<and> 5 + ?r \<le> length rb \<and> 4 \<le> ?r")
    case True
    then have i: "index rb 0 = Ok (rb ! 0)" "index rb 3 = Ok (rb ! 3)" "index rb 4 = Ok (rb ! 4)"
      "slice rb 5 (5 + ?r) = Ok ?hs" "index ?hs 0 = Ok (rb ! 5)" "index ?hs 1 = Ok (rb ! 6)" "index ?hs 2 = Ok (rb ! 7)" "index ?hs 3 = Ok (rb ! 8)"
      by (auto intro!: index_Ok [THEN trans] simp: min_def)
    have hl: "length ?hs = ?r" using True by auto
    have s: "slice ?hs 4 (4 + n) = Ok (take n (drop 9 rb))" if "4 + n \<le> ?r" for n
      using True that by (subst slice_Ok) (auto simp: drop_take min_def)
    have "client_hello_body rb = (if rb ! 5 \<noteq> 1 then Err (NotClientHello (rb ! 5))
       else if ?r < 4 + ?n then Err (Truncated 4 ?n) else Ok (take ?n (drop 9 rb)))"
      using True s [of ?n] by (auto simp: client_hello_body_def i hl Let_def simp del: length_take slice_Ok)
    moreover have "4 + ?n \<le> ?r \<Longrightarrow> client_hello_body_again rb = Ok (take ?n (drop 9 rb))"
      using True s [of ?n] by (simp add: client_hello_body_again_def i Let_def del: slice_Ok One_nat_def)
    ultimately show ?thesis
      using True by (auto simp: hello_framed_def hello_len_def)
  next
    case False
    have "\<exists>e. client_hello_body rb = Err e"
    proof (cases "5 \<le> length rb")
      case True
      then have i: "index rb 0 = Ok (rb ! 0)" "index rb 3 = Ok (rb ! 3)" "index rb 4 = Ok (rb ! 4)"
        by (auto intro!: index_Ok [THEN trans])
      show ?thesis using False True by (auto simp: client_hello_body_def i Let_def min_def not_le)
    qed (simp add: client_hello_body_def)
    then show ?thesis using False by (auto simp: hello_framed_def)
  qed
  then show "hello_framed rb \<Longrightarrow> client_hello_body rb = Ok (take (hello_len rb) (drop 9 rb))"
    "hello_framed rb \<Longrightarrow> client_hello_body_again rb = Ok (take (hello_len rb) (drop 9 rb))"
    "\<not> hello_framed rb \<Longrightarrow> \<exists>e. client_hello_body rb = Err e"
    by (simp_all add: hello_len_def)
qed

text \<open>The fields up to the extensions, common to both walks.\<close>

definition hello_head :: "bytes \<Rightarrow> (Ja4Error, (u16 \<times> bytes \<times> bytes \<times> u16 list) \<times> ja4_cursor) rust" where
  "hello_head ch =
     rust_bind (ja4_read_u16_be (ja4_cursor_new ch)) (\<lambda>(legacy_version, cur).
     rust_bind (ja4_read_n 32 cur) (\<lambda>(random, cur).
     rust_bind (ja4_read_u8 cur) (\<lambda>(sid_len, cur).
     rust_bind (ja4_read_n (unat sid_len) cur) (\<lambda>(sid, cur).
     rust_bind (ja4_read_u16_be cur) (\<lambda>(ciphers_len, cur).
     rust_bind (ja4_read_n (unat ciphers_len) cur) (\<lambda>(ciphers_bytes, cur).
     rust_bind (ja4_read_u8 cur) (\<lambda>(comp_len, cur).
     rust_bind (ja4_read_n (unat comp_len) cur) (\<lambda>(_, cur).
     Ok ((legacy_version, random, sid, ungreased ciphers_bytes), cur)))))))))"

definition hello_exts :: "(ja4_cursor \<Rightarrow> 'a \<Rightarrow> (Ja4Error, 'a) rust) \<Rightarrow> 'a \<Rightarrow> ja4_cursor \<Rightarrow> (Ja4Error, 'a) rust" where
  "hello_exts walk acc cur =
     (if ja4_remaining cur \<ge> 2 then
        rust_bind (ja4_read_u16_be cur) (\<lambda>(ext_total, cur).
        rust_bind (ja4_read_n (unat ext_total) cur) (\<lambda>(ext_bytes, cur).
        walk (ja4_cursor_new ext_bytes) acc))
      else Ok acc)"

definition acc_empty :: ja4_acc where
  "acc_empty = \<lparr>acc_ext_ids = [], acc_sig_algs = [], acc_sni = False, acc_first_alpn = None, acc_versions_max = None\<rparr>"

definition ja4_of :: "primitives \<Rightarrow> char \<Rightarrow> u16 \<Rightarrow> u16 list \<Rightarrow> ja4_acc \<Rightarrow> Ja4" where
  "ja4_of P transport legacy_version ciphers acc =
     \<lparr>ja4_transport = transport,
      ja4_version = version_str (case acc_versions_max acc of Some v \<Rightarrow> v | None \<Rightarrow> legacy_version),
      ja4_sni = (if acc_sni acc then CHR ''d'' else CHR ''i''),
      ja4_cipher_count = min (length ciphers) 99,
      ja4_ext_count = min (length (acc_ext_ids acc)) 99,
      ja4_alpn_tag = alpn_tag_of (acc_first_alpn acc),
      ja4_cipher_hash = cipher_hash_of P ciphers,
      ja4_ext_hash = ext_hash_of P (acc_ext_ids acc) (acc_sig_algs acc)\<rparr>"

lemma parse_factors:
  "parse_client_hello P rb t =
     rust_bind (client_hello_body rb) (\<lambda>ch.
     rust_bind (hello_head ch) (\<lambda>((lv, random, sid, ciphers), cur).
     rust_bind (hello_exts ja4_exts acc_empty cur) (\<lambda>acc.
     Ok (ja4_of P t lv ciphers acc))))"
  "parse_client_hello_with_components P rb t =
     rust_bind (parse_client_hello P rb t) (\<lambda>ja4.
     rust_bind (client_hello_body_again rb) (\<lambda>ch.
     rust_bind (hello_head ch) (\<lambda>((lv, random, sid, ciphers), cur).
     rust_bind (hello_exts jc_exts jc_empty cur) (\<lambda>c.
     Ok (ja4, c\<lparr>jc_ciphers := ciphers, jc_client_random := random, jc_session_id := sid\<rparr>)))))"
  unfolding parse_client_hello_with_components_def parse_client_hello_def hello_head_def hello_exts_def acc_empty_def ja4_of_def Let_def
  by (simp_all add: rust_bind_assoc case_prod_beta' cong: if_cong option.case_cong)

lemma hello_head_iff:
  "hello_head ch = Ok ((lv, random, sid, ciphers), cur) \<longleftrightarrow>
     (let p = 35 + unat (ch ! 34);
          cl = unat (word_of_nat (be_val [ch ! p, ch ! (p + 1)]) :: u16);
          q = p + 2 + cl; e = q + 1 + unat (ch ! q) in
      p + 2 \<le> length ch \<and> q + 1 \<le> length ch \<and> e \<le> length ch
    \<and> lv = word_of_nat (be_val [ch ! 0, ch ! 1]) \<and> random = take 32 (drop 2 ch)
    \<and> sid = take (unat (ch ! 34)) (drop 35 ch) \<and> ciphers = ungreased (take cl (drop (p + 2) ch))
    \<and> cur = \<lparr>jbuf = ch, jpos = e\<rparr>)"
  unfolding hello_head_def Let_def
  by (auto simp: rust_bind_Ok_iff ja4_reads ja4_read_n_eq ja4_remaining_def ja4_cursor_new_def numeral_2_eq_2 split: if_splits)

lemma hello_head_Ok:
  assumes "hello_head ch = Ok ((lv, random, sid, ciphers), cur)"
  shows "jfits cur" and "35 + unat (ch ! 34) \<le> length ch" and "random = take 32 (drop 2 ch)"
    and "sid = take (unat (ch ! 34)) (drop 35 ch)"
  using assms by (auto simp: hello_head_iff Let_def)

lemma hello_head_not_Panic: "hello_head ch \<noteq> Panic"
  unfolding hello_head_def
  by (intro rust_bind_not_Panic)
    (auto simp: ja4_reads ja4_read_n_eq ja4_remaining_def ja4_cursor_new_def split: if_splits)

section \<open>Both walks over the extensions\<close>

lemma read_ext_fits: "read_ext c = Ok (x, c') \<Longrightarrow> jfits c'"
  by (auto simp: read_ext_def ja4_reads ja4_read_n_eq ja4_remaining_def rust_bind_Ok_iff split: if_splits)

lemma read_ext_not_Panic: "jfits c \<Longrightarrow> read_ext c \<noteq> Panic"
  unfolding read_ext_def
  by (intro rust_bind_not_Panic) (auto simp: ja4_reads ja4_read_n_eq ja4_remaining_def split: if_splits)

lemma ext_fields_not_Panic:
  "sig_algs_of d \<noteq> Panic" "versions_of d \<noteq> Panic" "first_alpn_of d \<noteq> Panic"
  by (auto simp: sig_algs_of_def versions_of_def first_alpn_of_def Let_def ja4_reads ja4_read_n_eq ja4_remaining_def ja4_cursor_new_def
      rust_bind_Panic_iff split: if_splits)

lemma ja4_ext_not_Panic: "ja4_ext ty d a \<noteq> Panic"
  by (auto simp: ja4_ext_def Let_def rust_bind_Panic_iff ext_fields_not_Panic)

text \<open>The fingerprint's accumulator is a summary of the component lists.\<close>

definition acc_of :: "ja4_acc \<Rightarrow> Ja4Components \<Rightarrow> bool" where
  "acc_of a c \<longleftrightarrow> acc_ext_ids a = jc_extensions c \<and> acc_sig_algs a = jc_signature_algorithms c
     \<and> acc_sni a = jc_sni_present c \<and> acc_versions_max a = foldl max_version None (jc_supported_versions c)"

lemma ext_sim:
  assumes "ja4_ext ty d a = Ok a'" and "acc_of a c"
  shows "\<exists>c'. jc_ext ty d c = Ok c' \<and> acc_of a' c'"
  using assms
  by (auto simp: ja4_ext_def jc_ext_def Let_def rust_bind_Ok_iff acc_of_def first_alpn_of_def ja4_reads split: if_splits option.splits)

lemma exts_sim:
  assumes "jfits ec"
  shows "ja4_exts ec a \<noteq> Panic" and "ja4_exts ec a = Ok a' \<Longrightarrow> acc_of a c \<Longrightarrow> \<exists>c'. jc_exts ec c = Ok c' \<and> acc_of a' c'"
proof -
  have "ja4_exts ec a \<noteq> Panic \<and> (\<forall>a' c. ja4_exts ec a = Ok a' \<longrightarrow> acc_of a c \<longrightarrow> (\<exists>c'. jc_exts ec c = Ok c' \<and> acc_of a' c'))"
    using assms
  proof (induction ec a rule: ja4_exts.induct)
    case (1 ec a)
    show ?case
    proof (cases "ja4_remaining ec \<ge> 4")
      case False
      then show ?thesis by (simp add: ja4_exts.simps [of ec] jc_exts.simps [of ec])
    next
      case True
      show ?thesis
      proof (cases "read_ext ec")
        case (Err e)
        then show ?thesis using True by (simp add: ja4_exts.simps [of ec])
      next
        case Panic
        then show ?thesis using read_ext_not_Panic 1 by blast
      next
        case (Ok x)
        obtain ty d ec' where x: "x = ((ty, d), ec')" by (metis prod.exhaust)
        have fits: "jfits ec'" using read_ext_fits Ok x by blast
        show ?thesis
        proof (cases "is_grease ty")
          case g: True
          show ?thesis using 1(1) [OF True Ok x [symmetric] refl g fits] True Ok x g
            by (simp add: ja4_exts.simps [of ec] jc_exts.simps [of ec])
        next
          case g: False
          show ?thesis
          proof (cases "ja4_ext ty d a")
            case a: (Ok a1)
            show ?thesis
            proof (intro conjI allI impI)
              show "ja4_exts ec a \<noteq> Panic"
                using 1(2) [OF True Ok x [symmetric] refl g a fits] True Ok x g a by (simp add: ja4_exts.simps [of ec])
            next
              fix a' c assume e: "ja4_exts ec a = Ok a'" "acc_of a c"
              obtain c1 where c1: "jc_ext ty d c = Ok c1" "acc_of a1 c1" using ext_sim [OF a e(2)] by blast
              have "ja4_exts ec' a1 = Ok a'" using e(1) True Ok x g a by (simp add: ja4_exts.simps [of ec])
              then obtain c' where "jc_exts ec' c1 = Ok c'" "acc_of a' c'"
                using 1(2) [OF True Ok x [symmetric] refl g a fits] c1(2) by blast
              then show "\<exists>c'. jc_exts ec c = Ok c' \<and> acc_of a' c'"
                using True Ok x g c1(1) by (simp add: jc_exts.simps [of ec])
            qed
          next
            case (Err e)
            then show ?thesis using True Ok x g by (simp add: ja4_exts.simps [of ec])
          next
            case Panic
            then show ?thesis using ja4_ext_not_Panic by blast
          qed
        qed
      qed
    qed
  qed
  then show "ja4_exts ec a \<noteq> Panic" "ja4_exts ec a = Ok a' \<Longrightarrow> acc_of a c \<Longrightarrow> \<exists>c'. jc_exts ec c = Ok c' \<and> acc_of a' c'"
    by blast+
qed

lemma hello_exts_sim:
  assumes "jfits cur"
  shows "hello_exts ja4_exts acc_empty cur \<noteq> Panic"
    and "hello_exts ja4_exts acc_empty cur = Ok a \<Longrightarrow> \<exists>c. hello_exts jc_exts jc_empty cur = Ok c \<and> acc_of a c"
proof -
  have new: "jfits (ja4_cursor_new b)" for b by (simp add: ja4_cursor_new_def)
  have e: "acc_of acc_empty jc_empty" by (simp add: acc_of_def acc_empty_def jc_empty_def)
  show "hello_exts ja4_exts acc_empty cur \<noteq> Panic"
    using assms exts_sim(1) [OF new]
    by (auto simp: hello_exts_def rust_bind_Panic_iff ja4_reads ja4_read_n_eq ja4_remaining_def split: if_splits)
  show "hello_exts ja4_exts acc_empty cur = Ok a \<Longrightarrow> \<exists>c. hello_exts jc_exts jc_empty cur = Ok c \<and> acc_of a c"
    using assms exts_sim(2) [OF new _ e, of _ a] e
    by (auto simp: hello_exts_def rust_bind_Ok_iff ja4_reads ja4_read_n_eq ja4_remaining_def split: if_splits)
qed

section \<open>A successful parse\<close>

lemma parse_components_cases:
  obtains (err) e where "parse_client_hello P rb t = Err e" and "parse_client_hello_with_components P rb t = Err e"
  | (ok) lv random sid ciphers cur a c where "hello_framed rb"
      and "hello_head (take (hello_len rb) (drop 9 rb)) = Ok ((lv, random, sid, ciphers), cur)"
      and "hello_exts ja4_exts acc_empty cur = Ok a" and "hello_exts jc_exts jc_empty cur = Ok c" and "acc_of a c"
      and "parse_client_hello P rb t = Ok (ja4_of P t lv ciphers a)"
      and "parse_client_hello_with_components P rb t = Ok (ja4_of P t lv ciphers a,
         c\<lparr>jc_ciphers := ciphers, jc_client_random := random, jc_session_id := sid\<rparr>)"
proof (cases "hello_framed rb")
  case False
  then obtain e where "client_hello_body rb = Err e" using client_hello_body_framed(3) by blast
  then show ?thesis using that(1) by (simp add: parse_factors)
next
  case fr: True
  note b = client_hello_body_framed(1,2) [OF fr]
  let ?ch = "take (hello_len rb) (drop 9 rb)"
  show ?thesis
  proof (cases "hello_head ?ch")
    case (Err e)
    then show ?thesis using that(1) b by (simp add: parse_factors)
  next
    case Panic
    then show ?thesis using hello_head_not_Panic by blast
  next
    case (Ok x)
    obtain lv random sid ciphers cur where x: "x = ((lv, random, sid, ciphers), cur)" by (metis prod.exhaust)
    have fits: "jfits cur" using hello_head_Ok(1) Ok x by blast
    show ?thesis
    proof (cases "hello_exts ja4_exts acc_empty cur")
      case (Err e)
      then show ?thesis using that(1) b Ok x by (simp add: parse_factors)
    next
      case Panic
      then show ?thesis using hello_exts_sim(1) [OF fits] by blast
    next
      case a: (Ok a)
      obtain c where c: "hello_exts jc_exts jc_empty cur = Ok c" "acc_of a c" using hello_exts_sim(2) [OF fits a] by blast
      show ?thesis using that(2) [OF fr Ok [unfolded x] a c] b Ok x a c(1) by (simp add: parse_factors)
    qed
  qed
qed

lemma ja4_of_simps [simp]:
  "ja4_cipher_count (ja4_of P t lv ciphers a) = min (length ciphers) 99"
  "ja4_ext_count (ja4_of P t lv ciphers a) = min (length (acc_ext_ids a)) 99"
  "ja4_sni (ja4_of P t lv ciphers a) = CHR ''d'' \<longleftrightarrow> acc_sni a"
  "ja4_cipher_hash (ja4_of P t lv ciphers a) = cipher_hash_of P ciphers"
  "ja4_ext_hash (ja4_of P t lv ciphers a) = ext_hash_of P (acc_ext_ids a) (acc_sig_algs a)"
  by (simp_all add: ja4_of_def)

lemma length_hex: "length (hex2 b) = 2" "length (hex4 v) = 4" "n < 100 \<Longrightarrow> length (dec02 n) = 2"
  by (simp_all add: hex2_def hex4_def dec02_def)

lemma length_sha256_prefix_12: "prims_ok P \<Longrightarrow> length (sha256_prefix_12 P d) = 12"
  by (simp add: sha256_prefix_12_def length_concat length_hex comp_def sha256_def prims_okD(1) sum_list_triv)

lemma ja4_display_length:
  assumes "prims_ok P"
  shows "length (ja4_display (ja4_of P t lv ciphers a)) = 36"
proof -
  have "length (alpn_tag_of x) = 2" for x by (simp add: alpn_tag_of_def split: option.split)
  moreover have "length (version_str v) = 2" for v by (simp add: version_str_def)
  ultimately show ?thesis
    using length_sha256_prefix_12 [OF assms]
    by (simp add: ja4_display_def ja4_of_def cipher_hash_of_def ext_hash_of_def length_hex min_def)
qed

text \<open>Where the fields the gate uses stand in the record.\<close>

lemma hello_framedD:
  assumes "hello_framed rb" and "hello_head (take (hello_len rb) (drop 9 rb)) = Ok ((lv, random, sid, ciphers), cur)"
  shows "35 + unat (rb ! 43) \<le> hello_len rb" and "9 + hello_len rb \<le> length rb"
    and "take (hello_len rb) (drop 9 rb) ! 34 = rb ! 43"
proof -
  show l: "9 + hello_len rb \<le> length rb" using assms(1) by (simp add: hello_framed_def)
  have n: "34 < hello_len rb" using hello_head_Ok(2) [OF assms(2)] l by (auto simp: min_def split: if_splits)
  then show e: "take (hello_len rb) (drop 9 rb) ! 34 = rb ! 43" using l by simp
  show "35 + unat (rb ! 43) \<le> hello_len rb" using hello_head_Ok(2) [OF assms(2)] l e by simp
qed

lemma parse_fields:
  assumes "parse_client_hello_with_components P rb t = Ok (j, c)"
  shows "jc_client_random c = take 32 (drop 11 rb)" and "jc_session_id c = take (unat (rb ! 43)) (drop 44 rb)"
    and "44 + unat (rb ! 43) \<le> 5 + be_val [rb ! 3, rb ! 4]" and "5 + be_val [rb ! 3, rb ! 4] \<le> length rb"
proof -
  have "jc_client_random c = take 32 (drop 11 rb) \<and> jc_session_id c = take (unat (rb ! 43)) (drop 44 rb)
    \<and> 44 + unat (rb ! 43) \<le> 5 + be_val [rb ! 3, rb ! 4] \<and> 5 + be_val [rb ! 3, rb ! 4] \<le> length rb"
  proof (cases rule: parse_components_cases [of P rb t])
    case (err e)
    then show ?thesis using assms by simp
  next
    case (ok lv random sid ciphers cur a c')
    note d = hello_framedD [OF ok(1,2)] and h = hello_head_Ok(3,4) [OF ok(2)]
    have "random = take 32 (drop 11 rb)" "sid = take (unat (rb ! 43)) (drop 44 rb)"
      using h d by (auto simp: drop_take min_def)
    then show ?thesis using assms ok(1,7) d(1) by (auto simp: hello_framed_def)
  qed
  then show "jc_client_random c = take 32 (drop 11 rb)" "jc_session_id c = take (unat (rb ! 43)) (drop 44 rb)"
    "44 + unat (rb ! 43) \<le> 5 + be_val [rb ! 3, rb ! 4]" "5 + be_val [rb ! 3, rb ! 4] \<le> length rb" by blast+
qed

section \<open>Another session id of the same length\<close>

lemma hello_exts_cong:
  assumes "jfits cur" and "jpos cur' = jpos cur" and "length (jbuf cur') = length (jbuf cur)" and "drop (jpos cur) (jbuf cur') = drop (jpos cur) (jbuf cur)"
  shows "hello_exts walk acc cur' = hello_exts walk acc cur"
proof -
  have nth: "jpos cur \<le> i \<Longrightarrow> i < length (jbuf cur) \<Longrightarrow> jbuf cur' ! i = jbuf cur ! i" for i
    using arg_cong [OF assms(4), of "\<lambda>l. l ! (i - jpos cur)"] assms(1,3) by simp
  have dr: "drop (jpos cur + 2) (jbuf cur') = drop (jpos cur + 2) (jbuf cur)"
    using arg_cong [OF assms(4), of "drop 2"] by (simp add: add.commute)
  show ?thesis
    using assms(1-3) nth [of "jpos cur"] nth [of "jpos cur + 1"] dr
    by (auto simp: hello_exts_def ja4_reads ja4_read_n_eq ja4_remaining_def)
qed

lemma copy_into_facts:
  assumes "p + length x \<le> length rb"
  shows "length (copy_into rb p x) = length rb" and "i < p \<Longrightarrow> copy_into rb p x ! i = rb ! i"
    and "p + length x \<le> i \<Longrightarrow> i < length rb \<Longrightarrow> copy_into rb p x ! i = rb ! i"
    and "take (length x) (drop p (copy_into rb p x)) = x"
    and "p + length x \<le> i \<Longrightarrow> drop i (copy_into rb p x) = drop i rb"
    and "i + m \<le> p \<Longrightarrow> take m (drop i (copy_into rb p x)) = take m (drop i rb)"
proof -
  let ?c = "copy_into rb p x"
  show l: "length ?c = length rb" using assms by simp
  show "i < p \<Longrightarrow> ?c ! i = rb ! i" using assms by (simp add: nth_copy_into_before)
  show d: "p + length x \<le> i \<Longrightarrow> drop i ?c = drop i rb" for i
    using arg_cong [OF drop_copy_into [of p rb x], of "drop (i - (p + length x))"] assms by simp
  show "p + length x \<le> i \<Longrightarrow> i < length rb \<Longrightarrow> ?c ! i = rb ! i"
    using d [of i] l by (metis hd_drop_conv_nth)
  show "take (length x) (drop p ?c) = x" using assms by (simp add: copy_into_window)
  show "i + m \<le> p \<Longrightarrow> take m (drop i ?c) = take m (drop i rb)"
    using take_copy_into [of "i + m" p rb x] assms by (metis add_leD1 drop_take add_diff_cancel_left')
qed

lemma head_patched:
  assumes h: "hello_head ch = Ok ((lv, random, sid, ciphers), cur)" and sid: "ch ! 34 = 32" and len: "length ch' = length ch"
    and lo: "\<And>i. i < 35 \<Longrightarrow> ch' ! i = ch ! i" and hi: "\<And>i. 67 \<le> i \<Longrightarrow> i < length ch \<Longrightarrow> ch' ! i = ch ! i"
    and rnd: "take 32 (drop 2 ch') = take 32 (drop 2 ch)" and dr: "\<And>i. 67 \<le> i \<Longrightarrow> drop i ch' = drop i ch"
  shows "hello_head ch' = Ok ((lv, random, take 32 (drop 35 ch'), ciphers), cur\<lparr>jbuf := ch'\<rparr>)"
    and "jbuf cur = ch" and "67 \<le> jpos cur"
proof -
  have u: "unat (ch ! 34) = 32" "unat (ch' ! 34) = 32" using sid lo [of 34] by simp_all
  have H: "69 \<le> length ch"
    using h unfolding hello_head_iff Let_def u by linarith
  have w: "ch' ! 67 = ch ! 67" "ch' ! 68 = ch ! 68" using H hi by simp_all
  let ?cl = "unat (word_of_nat (be_val [ch ! 67, ch ! 68]) :: u16)"
  have q: "70 + ?cl \<le> length ch" using h unfolding hello_head_iff Let_def u by simp
  then have q': "ch' ! (69 + ?cl) = ch ! (69 + ?cl)" using hi by simp
  show "hello_head ch' = Ok ((lv, random, take 32 (drop 35 ch'), ciphers), cur\<lparr>jbuf := ch'\<rparr>)"
    using h unfolding hello_head_iff Let_def u
    by (simp add: w q' lo len rnd dr)
  show "jbuf cur = ch" "67 \<le> jpos cur" using h unfolding hello_head_iff Let_def u by simp_all
qed

text \<open>
  Replacing a 32-byte session id leaves everything the parser reports unchanged but that field:
  in particular the fingerprint.
\<close>

lemma parse_patched:
  assumes parse: "parse_client_hello_with_components P rb t = Ok (j, c)" and sid: "rb ! 43 = 32" and x: "length x = 32"
  shows "parse_client_hello_with_components P (copy_into rb 44 x) t = Ok (j, c\<lparr>jc_session_id := x\<rparr>)"
proof (cases rule: parse_components_cases [of P rb t])
  case (err e)
  then show ?thesis using parse by simp
next
  case (ok lv random sid0 ciphers cur a c')
  let ?rb = "copy_into rb 44 x" and ?n = "hello_len rb"
  let ?ch = "take ?n (drop 9 rb)" and ?ch' = "take ?n (drop 9 ?rb)"
  note d = hello_framedD [OF ok(1,2)]
  have n: "67 \<le> ?n" using d(1) sid by simp
  have len: "44 + length x \<le> length rb" using d(2) n x by simp
  note f = copy_into_facts [OF len]
  have fr: "hello_framed ?rb" "hello_len ?rb = ?n" using ok(1) by (simp_all add: hello_framed_def hello_len_def f(1,2))
  have l: "length ?ch' = length ?ch" by (simp add: f(1))
  have dr: "drop i ?ch' = drop i ?ch" if "67 \<le> i" for i using that x f(5) [of "i + 9"] by (simp add: drop_take)
  have lo: "?ch' ! i = ?ch ! i" if "i < 35" for i using that d(2) n f(2) [of "9 + i"] by (simp add: f(1))
  have hi: "?ch' ! i = ?ch ! i" if "67 \<le> i" "i < length ?ch" for i
    using that x f(3) [of "9 + i"] d(2) by (simp add: f(1))
  have rnd: "take 32 (drop 2 ?ch') = take 32 (drop 2 ?ch)" using f(6) [of 11 32] n by (simp add: drop_take min_def)
  have x': "take 32 (drop 35 ?ch') = x" using f(4) n x by (auto simp: drop_take min_def)
  note hp = head_patched [OF ok(2) _ l lo hi rnd dr]
  have head: "hello_head ?ch' = Ok ((lv, random, x, ciphers), cur\<lparr>jbuf := ?ch'\<rparr>)" "jbuf cur = ?ch" "67 \<le> jpos cur"
    using hp d(3) sid unfolding x' by simp_all
  have ext: "hello_exts w acc (cur\<lparr>jbuf := ?ch'\<rparr>) = hello_exts w acc cur" for w and acc :: "'b"
    by (rule hello_exts_cong [OF hello_head_Ok(1) [OF ok(2)]]) (use l dr [OF head(3)] in \<open>simp_all add: head(2)\<close>)
  show ?thesis
    using parse ok(7) client_hello_body_framed(1,2) [OF fr(1)]
    by (simp add: parse_factors fr(2) head(1) ext ok(3,4))
qed

section \<open>Properties\<close>

text \<open>
  The two walks agree and the rewritten session id is invisible.  Neither walk panics; they fail
  together, with the same error; where the fingerprint is defined the components are, and they
  explain it: counts, hashes and the server-name flag are those of the lists, client random and
  session id are the bytes at their fixed offsets, the printed fingerprint has 36 characters, and
  replacing a 32-byte session id by any other changes neither the fingerprint nor any other
  component.
\<close>

theorem client_hello_components:
  assumes "prims_ok P"
  shows "parse_client_hello P rb t \<noteq> Panic \<and> parse_client_hello_with_components P rb t \<noteq> Panic
   \<and> (\<forall>e. parse_client_hello_with_components P rb t = Err e \<longleftrightarrow> parse_client_hello P rb t = Err e)
   \<and> (\<forall>j. parse_client_hello P rb t = Ok j \<longrightarrow>
        (\<exists>c. parse_client_hello_with_components P rb t = Ok (j, c)
           \<and> ja4_cipher_count j = min (length (jc_ciphers c)) 99 \<and> ja4_ext_count j = min (length (jc_extensions c)) 99
           \<and> (ja4_sni j = CHR ''d'' \<longleftrightarrow> jc_sni_present c)
           \<and> ja4_cipher_hash j = cipher_hash_of P (jc_ciphers c)
           \<and> ja4_ext_hash j = ext_hash_of P (jc_extensions c) (jc_signature_algorithms c)
           \<and> jc_client_random c = take 32 (drop 11 rb) \<and> jc_session_id c = take (unat (rb ! 43)) (drop 44 rb)
           \<and> length (ja4_display j) = 36
           \<and> (\<forall>x. rb ! 43 = 32 \<and> length x = 32 \<longrightarrow>
                parse_client_hello_with_components P (copy_into rb 44 x) t = Ok (j, c\<lparr>jc_session_id := x\<rparr>))))"
proof (cases rule: parse_components_cases [of P rb t])
  case (err e)
  then show ?thesis by simp
next
  case (ok lv random sid ciphers cur a c)
  show ?thesis
    using ok(5-7) parse_fields(1,2) [OF ok(7)] parse_patched [OF ok(7)] ja4_display_length [OF assms]
    by (simp add: acc_of_def)
qed

definition toy_hello :: bytes where
  "toy_hello = [0x16, 3, 1, 0, 83, 1, 0, 0, 79, 3, 3] @ replicate 32 7 @ [32] @ replicate 32 9
     @ [0, 2, 0x13, 1, 1, 0, 0, 4, 0, 0, 0, 0]"

lemma toy_hello_parses: "\<exists>j c. parse_client_hello_with_components toy_prims toy_hello CHR ''t'' = Ok (j, c)"
proof -
  define ch :: bytes where "ch = [3, 3] @ replicate 32 7 @ [32] @ replicate 32 9 @ [0, 2, 0x13, 1, 1, 0, 0, 4, 0, 0, 0, 0]"
  have n: "toy_hello = [0x16, 3, 1, 0, 83, 1, 0, 0, 79] @ ch" "length ch = 79" by (simp_all add: toy_hello_def ch_def)
  have fr: "hello_len toy_hello = 79" "hello_framed toy_hello"
    unfolding n(1) hello_framed_def hello_len_def using n(2) by (simp_all add: be_val_def)
  have "take 79 (drop 9 toy_hello) = ch" by (simp add: n)
  then have ch: "take (hello_len toy_hello) (drop 9 toy_hello) = ch" by (simp only: fr(1))
  have nth: "ch ! 34 = 32" "ch ! 67 = 0" "ch ! 68 = 2" "ch ! 71 = 1" "ch ! 73 = 0" "ch ! 74 = 4"
    and dr: "take 4 (drop 75 ch) = [0, 0, 0, 0]" by (simp_all add: ch_def nth_append)
  have "\<exists>lv random sid ciphers. hello_head ch = Ok ((lv, random, sid, ciphers), \<lparr>jbuf = ch, jpos = 73\<rparr>)"
    unfolding hello_head_iff Let_def nth by (simp add: nth n(2) be_val_def)
  then obtain lv random sid ciphers where h: "hello_head ch = Ok ((lv, random, sid, ciphers), \<lparr>jbuf = ch, jpos = 73\<rparr>)" by blast
  have "hello_exts ja4_exts acc_empty \<lparr>jbuf = ch, jpos = 73\<rparr> = ja4_exts (ja4_cursor_new [0, 0, 0, 0]) acc_empty"
    using n(2) nth(5,6) dr by (simp add: hello_exts_def ja4_reads ja4_read_n_eq ja4_remaining_def be_val_def)
  moreover have "\<exists>a. ja4_exts (ja4_cursor_new [0, 0, 0, 0]) acc_empty = Ok a"
    by (simp add: ja4_exts.simps read_ext_def ja4_reads ja4_read_n_eq ja4_remaining_def ja4_cursor_new_def be_val_def ja4_ext_def is_grease_def GREASE_VALUES_def)
  ultimately obtain a where "hello_exts ja4_exts acc_empty \<lparr>jbuf = ch, jpos = 73\<rparr> = Ok a" by auto
  then have "parse_client_hello toy_prims toy_hello CHR ''t'' = Ok (ja4_of toy_prims CHR ''t'' lv ciphers a)"
    using client_hello_body_framed(1) [OF fr(2)] by (simp add: parse_factors ch h)
  then show ?thesis by (cases rule: parse_components_cases [of toy_prims toy_hello "CHR ''t''"]) auto
qed

theorem client_hello_components_witness:
  "\<exists>j c. parse_client_hello_with_components toy_prims toy_hello CHR ''t'' = Ok (j, c)
    \<and> jc_client_random c = replicate 32 7 \<and> jc_session_id c = replicate 32 9
    \<and> parse_client_hello_with_components toy_prims (copy_into toy_hello 44 (replicate 32 5)) CHR ''t'' = Ok (j, c\<lparr>jc_session_id := replicate 32 5\<rparr>)"
proof -
  obtain j c where "parse_client_hello_with_components toy_prims toy_hello CHR ''t'' = Ok (j, c)" using toy_hello_parses by blast
  moreover from this have "parse_client_hello toy_prims toy_hello CHR ''t'' = Ok j"
    by (cases rule: parse_components_cases [of toy_prims toy_hello "CHR ''t''"]) auto
  moreover have "toy_hello ! 43 = 32" "take 32 (drop 11 toy_hello) = replicate 32 7" "take 32 (drop 44 toy_hello) = replicate 32 9"
    by (simp_all add: toy_hello_def nth_append)
  ultimately show ?thesis
    using client_hello_components [OF toy_prims_ok, of toy_hello "CHR ''t''"] by (intro exI [of _ j] exI [of _ c]) simp
qed

end
