(* ===== verification/Knock.thy ===== *)
theory Knock
  imports Crypto
begin

text \<open>
  The knock: the token of \<open>proteus-handshake/src/knock.rs\<close> and its place in the TLS session id
  (\<open>knock_wire.rs\<close>).  The clock and the random padding are arguments.  Shown: what exactly
  verifies, and when a minted token is accepted.
\<close>

section \<open>Model\<close>

definition KNOCK_PSK_LEN :: nat where "KNOCK_PSK_LEN = 32"

definition KNOCK_TOKEN_LEN :: nat where "KNOCK_TOKEN_LEN = 16"

definition KNOCK_TIMESTAMP_LEN :: nat where "KNOCK_TIMESTAMP_LEN = 4"

definition KNOCK_TAG_LEN :: nat where "KNOCK_TAG_LEN = KNOCK_TOKEN_LEN - KNOCK_TIMESTAMP_LEN"

definition KNOCK_MAX_SKEW_SECS :: int where "KNOCK_MAX_SKEW_SECS = 90"

definition KNOCK_DOMAIN_TAG :: bytes where "KNOCK_DOMAIN_TAG = ascii ''Proteus-Knock-v1'' @ [0]"

definition CLIENT_RANDOM_LEN :: nat where "CLIENT_RANDOM_LEN = 32"

text \<open>The skew is an \<open>i64\<close>, cut from an \<open>i128\<close>.\<close>

datatype KnockError = BadTokenLength nat | BadTag | TimestampFuture int | TimestampStale int

definition as_i64 :: "int \<Rightarrow> int" where
  "as_i64 x = sint (word_of_int x :: 64 word)"

type_synonym KnockPsk = bytes

definition hmac_truncated_96 :: "primitives \<Rightarrow> KnockPsk \<Rightarrow> bytes \<Rightarrow> bytes \<Rightarrow> bytes" where
  "hmac_truncated_96 P psk timestamp client_random =
     take KNOCK_TAG_LEN (p_hmac P psk (KNOCK_DOMAIN_TAG @ timestamp @ client_random))"

definition compute_knock :: "primitives \<Rightarrow> KnockPsk \<Rightarrow> bytes \<Rightarrow> u64 \<Rightarrow> bytes" where
  "compute_knock P psk client_random unix_seconds =
     (let ts_bytes = be_bytes KNOCK_TIMESTAMP_LEN (unat (ucast unix_seconds :: u32)) in
      ts_bytes @ hmac_truncated_96 P psk ts_bytes client_random)"

definition verify_knock :: "primitives \<Rightarrow> KnockPsk \<Rightarrow> bytes \<Rightarrow> bytes \<Rightarrow> u64 \<Rightarrow> (KnockError, unit) rust" where
  "verify_knock P psk client_random token now_unix_seconds =
     (if length token \<noteq> KNOCK_TOKEN_LEN then Err (BadTokenLength (length token))
      else
        let ts_bytes = take KNOCK_TIMESTAMP_LEN token;
            received_tag = drop KNOCK_TIMESTAMP_LEN token;
            expected_tag = hmac_truncated_96 P psk ts_bytes client_random in
        if expected_tag \<noteq> received_tag then Err BadTag
        else
          let skew = int (unat now_unix_seconds) - int (be_val ts_bytes) in
          if skew > KNOCK_MAX_SKEW_SECS then Err (TimestampStale (as_i64 skew))
          else if skew < - KNOCK_MAX_SKEW_SECS then Err (TimestampFuture (as_i64 (- skew)))
          else Ok ())"

section \<open>The session id\<close>

definition ENCODED_SESSION_ID_LEN :: nat where "ENCODED_SESSION_ID_LEN = 32"

definition PADDING_LEN :: nat where "PADDING_LEN = ENCODED_SESSION_ID_LEN - KNOCK_TOKEN_LEN"

datatype DecodeError = WrongLength nat

datatype KnockWireError = Decode DecodeError | Knock KnockError

text \<open>The padding is what the operating system's generator returned.\<close>

definition encode_session_id :: "bytes \<Rightarrow> bytes \<Rightarrow> bytes" where
  "encode_session_id knock_token padding = knock_token @ take PADDING_LEN padding"

definition decode_and_verify_session_id :: "primitives \<Rightarrow> KnockPsk \<Rightarrow> bytes \<Rightarrow> bytes \<Rightarrow> u64 \<Rightarrow> (KnockWireError, unit) rust" where
  "decode_and_verify_session_id P psk client_random session_id now_unix_seconds =
     (if length session_id \<noteq> ENCODED_SESSION_ID_LEN then Err (Decode (WrongLength (length session_id)))
      else rust_map_err Knock (verify_knock P psk client_random (take KNOCK_TOKEN_LEN session_id) now_unix_seconds))"

section \<open>Lemmas\<close>

lemmas knock_lens = KNOCK_TOKEN_LEN_def KNOCK_TIMESTAMP_LEN_def KNOCK_TAG_LEN_def ENCODED_SESSION_ID_LEN_def
  PADDING_LEN_def KNOCK_MAX_SKEW_SECS_def CLIENT_RANDOM_LEN_def

text \<open>What a valid token is.\<close>

definition knock_valid :: "primitives \<Rightarrow> KnockPsk \<Rightarrow> bytes \<Rightarrow> bytes \<Rightarrow> nat \<Rightarrow> bool" where
  "knock_valid P psk client_random token now \<longleftrightarrow> length token = 16
     \<and> drop 4 token = hmac_truncated_96 P psk (take 4 token) client_random \<and> abs_diff now (be_val (take 4 token)) \<le> 90"

lemma skew_window: "abs_diff a b \<le> 90 \<longleftrightarrow> \<not> int a - int b > 90 \<and> \<not> int a - int b < - 90"
  by (auto simp: abs_diff_def)

lemma verify_knock_iff: "verify_knock P psk cr token now = Ok () \<longleftrightarrow> knock_valid P psk cr token (unat now)"
  using skew_window [of "unat now" "be_val (take 4 token)"]
  by (auto simp: verify_knock_def knock_valid_def knock_lens Let_def)

lemma verify_knock_not_Panic: "verify_knock P psk cr token now \<noteq> Panic"
  by (simp add: verify_knock_def Let_def)

lemma length_compute_knock: "prims_ok P \<Longrightarrow> length (compute_knock P psk cr t) = 16"
  by (simp add: compute_knock_def Let_def hmac_truncated_96_def knock_lens prims_okD(2))

lemma compute_knock_valid:
  assumes "prims_ok P"
  shows "knock_valid P psk cr (compute_knock P psk cr t) now \<longleftrightarrow> abs_diff now (unat t mod 2 ^ 32) \<le> 90"
proof -
  have "take 4 (compute_knock P psk cr t) = be_bytes 4 (unat (ucast t :: u32))"
    "drop 4 (compute_knock P psk cr t) = hmac_truncated_96 P psk (be_bytes 4 (unat (ucast t :: u32))) cr"
    by (simp_all add: compute_knock_def Let_def knock_lens)
  moreover have "unat (ucast t :: u32) = unat t mod 2 ^ 32"
    by (simp add: unsigned_ucast_eq take_bit_eq_mod)
  ultimately show ?thesis using length_compute_knock [OF assms] by (simp add: knock_valid_def)
qed

lemma session_id_verify:
  assumes "prims_ok P" and "length padding \<ge> 16"
  shows "decode_and_verify_session_id P psk cr (encode_session_id (compute_knock P psk cr t) padding) now = Ok ()
     \<longleftrightarrow> abs_diff (unat now) (unat t mod 2 ^ 32) \<le> 90"
  using assms length_compute_knock [OF assms(1), of psk cr t] compute_knock_valid [OF assms(1), of psk cr t "unat now"]
  by (simp add: decode_and_verify_session_id_def encode_session_id_def knock_lens verify_knock_iff)

lemma length_encode_session_id:
  "prims_ok P \<Longrightarrow> length padding \<ge> 16 \<Longrightarrow> length (encode_session_id (compute_knock P psk cr t) padding) = 32"
  by (simp add: encode_session_id_def length_compute_knock knock_lens)

section \<open>Properties\<close>

text \<open>
  When a knock verifies.  A token is accepted exactly when it has 16 bytes, its last twelve are
  the truncated MAC of its first four with this client random, and its timestamp is within 90
  seconds of the clock; a token minted at time \<open>t\<close> and carried in a session id is accepted exactly
  within 90 seconds of \<open>t\<close> reduced modulo \<open>2 ^ 32\<close>; and since the clock is not reduced, no
  token at all is accepted from 90 seconds after \<open>2 ^ 32\<close> on.
\<close>

theorem knock_window:
  assumes "prims_ok P"
  shows "(verify_knock P psk cr token now = Ok () \<longleftrightarrow>
       length token = 16 \<and> drop 4 token = hmac_truncated_96 P psk (take 4 token) cr \<and> abs_diff (unat now) (be_val (take 4 token)) \<le> 90)
   \<and> (16 \<le> length padding \<longrightarrow>
       (decode_and_verify_session_id P psk cr (encode_session_id (compute_knock P psk cr t) padding) now = Ok ()
          \<longleftrightarrow> abs_diff (unat now) (unat t mod 2 ^ 32) \<le> 90))
   \<and> (2 ^ 32 + 90 \<le> unat now \<longrightarrow> verify_knock P psk cr token' now \<noteq> Ok ())"
proof -
  have "be_val (take 4 token') < 2 ^ 32" if "length token' = 16"
    using be_val_less [of "take 4 token'"] that by (simp add: min_def)
  then have "2 ^ 32 + 90 \<le> unat now \<Longrightarrow> \<not> knock_valid P psk cr token' (unat now)"
    by (auto simp: knock_valid_def abs_diff_def)
  then show ?thesis using session_id_verify [OF assms, of padding] by (simp add: verify_knock_iff knock_valid_def)
qed

theorem knock_window_witness:
  "decode_and_verify_session_id toy_prims (replicate 32 1) (replicate 32 7)
     (encode_session_id (compute_knock toy_prims (replicate 32 1) (replicate 32 7) 1000) (replicate 16 0)) 1090 = Ok ()
   \<and> decode_and_verify_session_id toy_prims (replicate 32 1) (replicate 32 7)
     (encode_session_id (compute_knock toy_prims (replicate 32 1) (replicate 32 7) 1000) (replicate 16 0)) 1091 \<noteq> Ok ()
   \<and> verify_knock toy_prims (replicate 32 1) (replicate 32 7) (replicate 16 0) 4294967386 \<noteq> Ok ()"
proof -
  have d: "abs_diff (unat (1090 :: u64)) (unat (1000 :: u64) mod 2 ^ 32) \<le> 90"
    "\<not> abs_diff (unat (1091 :: u64)) (unat (1000 :: u64) mod 2 ^ 32) \<le> 90" "2 ^ 32 + 90 \<le> unat (4294967386 :: u64)"
    "16 \<le> length (replicate 16 (0 :: u8))"
    by (simp_all add: abs_diff_def)
  show ?thesis
    using knock_window [OF toy_prims_ok, of "replicate 32 1" "replicate 32 7" _ 1090 "replicate 16 0" 1000]
      knock_window [OF toy_prims_ok, of "replicate 32 1" "replicate 32 7" _ 1091 "replicate 16 0" 1000]
      knock_window [OF toy_prims_ok, of "replicate 32 1" "replicate 32 7" _ 4294967386 _ _ "replicate 16 0"] d
    by blast
qed

end
