(* ===== verification/Knock_Gate.thy ===== *)
theory Knock_Gate
  imports Client_Hello Knock
begin

text \<open>
  The pre-authentication gate: the sniffer of \<open>clienthello_sniffer.rs\<close>, the gate of
  \<open>knock_gate.rs\<close> and the client's rewriting of the session id (\<open>knock_rewriter.rs\<close>).

  A connection is the list of chunks it delivers; an empty chunk or the end of the list is end of
  file.  The deadline of the peek is an argument; socket errors are left out.
\<close>

section \<open>Sniffer\<close>

definition DEFAULT_PEEK_LIMIT :: nat where "DEFAULT_PEEK_LIMIT = 2048"

record SniffedClientHello =
  peeked_bytes :: bytes
  record_len :: nat
  sn_client_random :: bytes
  sn_session_id :: bytes

datatype SniffError = SniffTimeout | SniffConnectionClosed nat | SniffBadRecord Ja4Error

text \<open>One read into a window of \<open>k\<close> bytes: what arrived, and the chunks left.\<close>

fun chunk_read :: "nat \<Rightarrow> bytes list \<Rightarrow> bytes \<times> bytes list" where
  "chunk_read k [] = ([], [])"
| "chunk_read k (c # cs) = (take k c, if length c \<le> k then cs else drop k c # cs)"

function read_full_clienthello :: "nat \<Rightarrow> bytes list \<Rightarrow> bytes \<Rightarrow> (SniffError, bytes) rust \<times> bytes list" where
  "read_full_clienthello limit reads buf =
     (if length buf \<ge> limit then (Ok buf, reads)
      else
        (case chunk_read (limit - length buf) reads of (got, reads') \<Rightarrow>
           if got = [] then
             (if length buf < 5 then Err (SniffConnectionClosed (length buf)) else Ok buf, reads')
           else
             let buf' = buf @ got in
             if length buf' \<ge> 5 \<and> length buf' \<ge> 5 + be_val [buf' ! 3, buf' ! 4] then (Ok buf', reads')
             else read_full_clienthello limit reads' buf'))"
  by pat_completeness auto
termination
  by (relation "measure (\<lambda>(limit, reads, buf). limit - length buf)") (auto simp: not_le neq_Nil_conv)

declare read_full_clienthello.simps [simp del]

definition sniff_client_hello_with_limits ::
    "primitives \<Rightarrow> nat \<Rightarrow> bool \<Rightarrow> bytes list \<Rightarrow> (SniffError, SniffedClientHello) rust \<times> bytes list" where
  "sniff_client_hello_with_limits P peek_limit timed_out reads0 =
     (case read_full_clienthello peek_limit reads0 [] of (r, reads) \<Rightarrow>
        (if timed_out then Err SniffTimeout
         else
           rust_bind r (\<lambda>peeked.
           rust_bind (rust_map_err SniffBadRecord (parse_client_hello_with_components P peeked CHR ''t'')) (\<lambda>(_, components).
           rust_bind (index peeked 3) (\<lambda>l0. rust_bind (index peeked 4) (\<lambda>l1.
           Ok \<lparr>peeked_bytes = peeked, record_len = 5 + be_val [l0, l1],
               sn_client_random = jc_client_random components, sn_session_id = jc_session_id components\<rparr>)))), reads))"

section \<open>Gate\<close>

datatype CoverReason = NoKnockPresent nat | BadKnock | TimestampSkew int

datatype DropReason = ConnectionClosed nat | Timeout | NotTls Ja4Error

datatype GateVerdict = Pass SniffedClientHello | RouteToCover SniffedClientHello CoverReason | Drop DropReason

text \<open>\<open>None\<close> as the key: the gate is switched off and the bytes are not looked at.\<close>

definition evaluate_with_limits ::
    "primitives \<Rightarrow> KnockPsk option \<Rightarrow> u64 \<Rightarrow> nat \<Rightarrow> bool \<Rightarrow> bytes list \<Rightarrow> (SniffError, GateVerdict) rust \<times> bytes list" where
  "evaluate_with_limits P psk now_unix_seconds peek_limit timed_out reads =
     (case psk of
        None \<Rightarrow> (Ok (Pass \<lparr>peeked_bytes = [], record_len = 0, sn_client_random = replicate 32 0, sn_session_id = []\<rparr>), reads)
      | Some psk \<Rightarrow>
          (case sniff_client_hello_with_limits P peek_limit timed_out reads of
             (Err (SniffConnectionClosed bytes_read), reads) \<Rightarrow> (Ok (Drop (ConnectionClosed bytes_read)), reads)
           | (Err SniffTimeout, reads) \<Rightarrow> (Ok (Drop Timeout), reads)
           | (Err (SniffBadRecord detail), reads) \<Rightarrow> (Ok (Drop (NotTls detail)), reads)
           | (Panic, reads) \<Rightarrow> (Panic, reads)
           | (Ok sniffed, reads) \<Rightarrow>
               (case decode_and_verify_session_id P psk (sn_client_random sniffed) (sn_session_id sniffed) now_unix_seconds of
                  Ok _ \<Rightarrow> Ok (Pass sniffed)
                | Err (Decode _) \<Rightarrow> Ok (RouteToCover sniffed (NoKnockPresent (length (sn_session_id sniffed))))
                | Err (Knock (BadTokenLength _)) \<Rightarrow> Ok (RouteToCover sniffed (NoKnockPresent (length (sn_session_id sniffed))))
                | Err (Knock BadTag) \<Rightarrow> Ok (RouteToCover sniffed BadKnock)
                | Err (Knock (TimestampStale skew)) \<Rightarrow> Ok (RouteToCover sniffed (TimestampSkew skew))
                | Err (Knock (TimestampFuture skew)) \<Rightarrow> Ok (RouteToCover sniffed (TimestampSkew skew))
                | Panic \<Rightarrow> Panic, reads)))"

definition evaluate :: "primitives \<Rightarrow> KnockPsk option \<Rightarrow> u64 \<Rightarrow> bool \<Rightarrow> bytes list \<Rightarrow> (SniffError, GateVerdict) rust \<times> bytes list" where
  "evaluate P psk now_unix_seconds timed_out reads =
     evaluate_with_limits P psk now_unix_seconds DEFAULT_PEEK_LIMIT timed_out reads"

section \<open>Rewriting the first record\<close>

definition RANDOM_START :: nat where "RANDOM_START = 11"

definition RANDOM_LEN :: nat where "RANDOM_LEN = 32"

definition SID_LEN_BYTE_OFFSET :: nat where "SID_LEN_BYTE_OFFSET = 43"

definition SID_PAYLOAD_OFFSET :: nat where "SID_PAYLOAD_OFFSET = 44"

definition MIN_BYTES_TO_PATCH :: nat where "MIN_BYTES_TO_PATCH = SID_PAYLOAD_OFFSET + 32"

datatype RewriteError = NotHandshake u8 | UnexpectedSidLength nat | InboundEofBeforePatch nat | OutboundCloseDuringDrain

text \<open>The patched buffer and the session id it had.\<close>

definition patch_outbound_in_place ::
    "primitives \<Rightarrow> KnockPsk \<Rightarrow> u64 \<Rightarrow> bytes \<Rightarrow> bytes \<Rightarrow> (RewriteError, bytes \<times> bytes) rust" where
  "patch_outbound_in_place P psk now_unix_seconds padding buf =
     rust_bind (index buf 0) (\<lambda>b0.
     if b0 \<noteq> 0x16 then Err (NotHandshake b0)
     else
       rust_bind (index buf SID_LEN_BYTE_OFFSET) (\<lambda>l.
       let sid_len = unat l in
       if sid_len \<noteq> ENCODED_SESSION_ID_LEN then Err (UnexpectedSidLength sid_len)
       else
         rust_bind (slice buf RANDOM_START (RANDOM_START + RANDOM_LEN)) (\<lambda>client_random.
         rust_bind (slice buf SID_PAYLOAD_OFFSET (SID_PAYLOAD_OFFSET + ENCODED_SESSION_ID_LEN)) (\<lambda>orig_sid.
         let token = compute_knock P psk client_random now_unix_seconds;
             encoded = encode_session_id token padding in
         Ok (copy_into buf SID_PAYLOAD_OFFSET encoded, orig_sid)))))"

definition patch_inbound_in_place :: "bytes \<Rightarrow> bytes \<Rightarrow> (RewriteError, bytes) rust" where
  "patch_inbound_in_place orig_sid buf =
     rust_bind (index buf 0) (\<lambda>b0.
     if b0 \<noteq> 0x16 then Err (NotHandshake b0)
     else
       rust_bind (index buf SID_LEN_BYTE_OFFSET) (\<lambda>l.
       let sid_len = unat l in
       if sid_len \<noteq> ENCODED_SESSION_ID_LEN then Err (UnexpectedSidLength sid_len)
       else
         rust_bind (slice buf SID_PAYLOAD_OFFSET (SID_PAYLOAD_OFFSET + ENCODED_SESSION_ID_LEN)) (\<lambda>_.
         Ok (copy_into buf SID_PAYLOAD_OFFSET orig_sid))))"

section \<open>Reading\<close>

lemma chunk_read_keeps:
  assumes "chunk_read k reads = (got, reads')" and "0 < k"
  shows "got @ concat reads' = concat reads" and "length got \<le> k" and "[] \<notin> set reads \<Longrightarrow> [] \<notin> set reads'"
    and "[] \<notin> set reads \<Longrightarrow> got = [] \<Longrightarrow> reads = []"
  using assms by (cases reads; auto split: if_splits)+

lemma read_full_keeps:
  assumes "read_full_clienthello limit reads buf = (r, reads')"
  shows "r \<noteq> Panic" and "r = Ok b \<Longrightarrow> b @ concat reads' = buf @ concat reads"
    and "r = Ok b \<Longrightarrow> length buf \<le> limit \<Longrightarrow> length b \<le> limit"
proof -
  have "r \<noteq> Panic \<and> (\<forall>b. r = Ok b \<longrightarrow> b @ concat reads' = buf @ concat reads \<and> (length buf \<le> limit \<longrightarrow> length b \<le> limit))"
    using assms
  proof (induction limit reads buf rule: read_full_clienthello.induct)
    case (1 limit reads buf)
    obtain got rest where g: "chunk_read (limit - length buf) reads = (got, rest)" by fastforce
    let ?b = "buf @ got"
    show ?case
    proof (cases "length buf < limit \<and> got \<noteq> [] \<and> \<not> (length ?b \<ge> 5 \<and> length ?b \<ge> 5 + be_val [?b ! 3, ?b ! 4])")
      case True
      then have "read_full_clienthello limit rest ?b = (r, reads')"
        using 1(2) by (auto simp: read_full_clienthello.simps [of limit reads] g Let_def split: if_splits)
      then show ?thesis
        using 1(1) [OF _ g [symmetric] _ refl] True chunk_read_keeps(1,2) [OF g] by fastforce
    next
      case False
      then show ?thesis
        using 1(2) chunk_read_keeps(1,2) [OF g]
        by (auto simp: read_full_clienthello.simps [of limit reads] g Let_def split: if_splits)
    qed
  qed
  then show "r \<noteq> Panic" "r = Ok b \<Longrightarrow> b @ concat reads' = buf @ concat reads"
    "r = Ok b \<Longrightarrow> length buf \<le> limit \<Longrightarrow> length b \<le> limit" by blast+
qed

text \<open>A record that fits the limit is read completely, however it is cut.\<close>

lemma read_full_complete:
  assumes "buf @ concat reads = w" and "[] \<notin> set reads" and "n = 5 + be_val [w ! 3, w ! 4]" and "n \<le> length w" and "n \<le> limit"
    and "length buf < n"
  shows "\<exists>b reads'. read_full_clienthello limit reads buf = (Ok b, reads') \<and> n \<le> length b \<and> b @ concat reads' = w"
  using assms
proof (induction limit reads buf rule: read_full_clienthello.induct)
  case (1 limit reads buf)
  obtain got rest where g: "chunk_read (limit - length buf) reads = (got, rest)" by fastforce
  let ?b = "buf @ got"
  have k: "0 < limit - length buf" using 1 by simp
  note c = chunk_read_keeps [OF g k]
  have got: "got \<noteq> []" using c(4) 1(2,3,5,7) by auto
  have w: "?b @ concat rest = w" using c(1) 1(2) by simp
  show ?case
  proof (cases "length ?b \<ge> 5 \<and> length ?b \<ge> 5 + be_val [?b ! 3, ?b ! 4]")
    case True
    then have "?b ! 3 = w ! 3" "?b ! 4 = w ! 4" using w by (auto simp: nth_append simp del: append_assoc)
    then show ?thesis
      using True k got w 1(4) by (simp add: read_full_clienthello.simps [of limit reads] g Let_def del: append_assoc)
  next
    case False
    have "length ?b < n"
    proof (cases "length ?b \<ge> 5")
      case True
      then have "?b ! 3 = w ! 3" "?b ! 4 = w ! 4" using w by (auto simp: nth_append simp del: append_assoc)
      then show ?thesis using False True 1(4) by simp
    qed (use 1(4) in simp)
    then have "\<exists>b reads'. read_full_clienthello limit rest ?b = (Ok b, reads') \<and> n \<le> length b \<and> b @ concat reads' = w"
      using 1(1) [OF _ g [symmetric] got refl False w c(3) [OF 1(3)] 1(4,5,6)] k by simp
    then show ?thesis using k got False by (auto simp: read_full_clienthello.simps [of limit reads] g Let_def)
  qed
qed

lemma parse_append:
  assumes "hello_framed rb"
  shows "parse_client_hello_with_components P (rb @ ys) t = parse_client_hello_with_components P rb t"
proof -
  have l: "9 + hello_len rb \<le> length rb" using assms by (simp add: hello_framed_def)
  have n: "hello_len (rb @ ys) = hello_len rb" using l by (simp add: hello_len_def nth_append)
  have fr: "hello_framed (rb @ ys)" using assms l unfolding hello_framed_def n by (auto simp: nth_append)
  have e: "take (hello_len rb) (drop 9 (rb @ ys)) = take (hello_len rb) (drop 9 rb)" using l by simp
  show ?thesis
    unfolding parse_factors client_hello_body_framed(1,2) [OF fr] client_hello_body_framed(1,2) [OF assms] n e ..
qed

section \<open>Sniffing and patching\<close>

lemma sniff_cases:
  assumes "sniff_client_hello_with_limits P limit timed_out reads = (r, reads')"
  obtains (err) e where "r = Err e"
  | (ok) sn j c where "r = Ok sn" and "parse_client_hello_with_components P (peeked_bytes sn) CHR ''t'' = Ok (j, c)"
      and "peeked_bytes sn @ concat reads' = concat reads" and "length (peeked_bytes sn) \<le> limit"
      and "sn_client_random sn = take 32 (drop 11 (peeked_bytes sn))"
      and "sn_session_id sn = take (unat (peeked_bytes sn ! 43)) (drop 44 (peeked_bytes sn))"
      and "44 + unat (peeked_bytes sn ! 43) \<le> length (peeked_bytes sn)"
proof -
  obtain v rest where f: "read_full_clienthello limit reads [] = (v, rest)" by fastforce
  note k = read_full_keeps [OF f]
  show ?thesis
  proof (cases "timed_out \<or> (\<exists>e. v = Err e)")
    case True
    then have "\<exists>e. r = Err e" using assms by (cases timed_out) (auto simp: sniff_client_hello_with_limits_def f)
    then show ?thesis using err by blast
  next
    case False
    then obtain b where b: "v = Ok b" using k(1) by (cases v) auto
    have "parse_client_hello_with_components P b CHR ''t'' \<noteq> Panic" by (cases rule: parse_components_cases [of P b "CHR ''t''"]) auto
    then consider e where "parse_client_hello_with_components P b CHR ''t'' = Err e"
      | j c where "parse_client_hello_with_components P b CHR ''t'' = Ok (j, c)"
      by (cases "parse_client_hello_with_components P b CHR ''t''") auto
    then show ?thesis
    proof cases
      case (1 e)
      then show ?thesis using assms err [of "SniffBadRecord e"] False b by (simp add: sniff_client_hello_with_limits_def f)
    next
      case (2 j c)
      note p = parse_fields [OF 2]
      have "3 < length b" "4 < length b" using p(3,4) by auto
      then have "r = Ok \<lparr>peeked_bytes = b, record_len = 5 + be_val [b ! 3, b ! 4], sn_client_random = jc_client_random c,
          sn_session_id = jc_session_id c\<rparr>" "reads' = rest"
        using assms False 2 b by (auto simp: sniff_client_hello_with_limits_def f)
      then show ?thesis using ok 2 p k(2,3) b by simp
    qed
  qed
qed

text \<open>What the gate decides on the bytes it has peeked at.\<close>

definition hello_knocks :: "primitives \<Rightarrow> KnockPsk \<Rightarrow> nat \<Rightarrow> bytes \<Rightarrow> bool" where
  "hello_knocks P psk now rb \<longleftrightarrow> rb ! 43 = 32 \<and> knock_valid P psk (take 32 (drop 11 rb)) (take 16 (drop 44 rb)) now"

lemma decode_verify_iff:
  "decode_and_verify_session_id P psk cr sid now = Ok () \<longleftrightarrow> length sid = 32 \<and> knock_valid P psk cr (take 16 sid) (unat now)"
  by (simp add: decode_and_verify_session_id_def knock_lens verify_knock_iff)

lemma decode_verify_not_Panic: "decode_and_verify_session_id P psk cr sid now \<noteq> Panic"
  by (simp add: decode_and_verify_session_id_def verify_knock_not_Panic)

lemma evaluate_cases:
  assumes "evaluate_with_limits P (Some psk) now limit timed_out reads = (v, reads')"
  obtains (drop) r where "v = Ok (Drop r)"
  | (decides) sn where "peeked_bytes sn @ concat reads' = concat reads" and "length (peeked_bytes sn) \<le> limit"
      and "if hello_knocks P psk (unat now) (peeked_bytes sn) then v = Ok (Pass sn) else \<exists>r. v = Ok (RouteToCover sn r)"
proof -
  obtain r rest where s: "sniff_client_hello_with_limits P limit timed_out reads = (r, rest)" by fastforce
  show ?thesis
  proof (cases rule: sniff_cases [OF s])
    case (1 e)
    then show ?thesis using assms drop by (cases e) (auto simp: evaluate_with_limits_def s)
  next
    case (2 sn j c)
    let ?rb = "peeked_bytes sn" and ?d = "decode_and_verify_session_id P psk (sn_client_random sn) (sn_session_id sn) now"
    have len: "length (sn_session_id sn) = unat (?rb ! 43)" using 2(6,7) by simp
    have sid32: "unat (?rb ! 43) = 32 \<longleftrightarrow> ?rb ! 43 = 32" by (simp add: word_unat_eq_iff)
    have iff: "?d = Ok () \<longleftrightarrow> hello_knocks P psk (unat now) ?rb"
      unfolding decode_verify_iff hello_knocks_def len using 2(5,6) by (auto simp: sid32 min_def)
    have r: "reads' = rest" using assms 2(1) by (auto simp: evaluate_with_limits_def s)
    have "if hello_knocks P psk (unat now) ?rb then v = Ok (Pass sn) else \<exists>r. v = Ok (RouteToCover sn r)"
      using assms 2(1) iff decode_verify_not_Panic [of P psk "sn_client_random sn" "sn_session_id sn" now]
      by (auto simp: evaluate_with_limits_def s split: rust.splits KnockWireError.splits KnockError.splits)
    then show ?thesis using decides 2(3,4) r by blast
  qed
qed

lemmas patch_offsets = RANDOM_START_def RANDOM_LEN_def SID_LEN_BYTE_OFFSET_def SID_PAYLOAD_OFFSET_def MIN_BYTES_TO_PATCH_def
  ENCODED_SESSION_ID_LEN_def

lemma patch_outbound_Ok:
  assumes "76 \<le> length rb" and "rb ! 0 = 0x16" and "rb ! 43 = 32"
  shows "patch_outbound_in_place P psk t padding rb
     = Ok (copy_into rb 44 (encode_session_id (compute_knock P psk (take 32 (drop 11 rb)) t) padding), take 32 (drop 44 rb))"
proof -
  have "0 < length rb" "43 < length rb" "44 + 32 \<le> length rb" "11 + 32 \<le> length rb" using assms(1) by linarith+
  then show ?thesis using assms(2,3) by (simp add: patch_outbound_in_place_def patch_offsets Let_def)
qed

lemma patch_inbound_Ok:
  assumes "76 \<le> length rb" and "rb ! 0 = 0x16" and "rb ! 43 = 32"
  shows "patch_inbound_in_place orig rb = Ok (copy_into rb 44 orig)"
proof -
  have "0 < length rb" "43 < length rb" "44 + 32 \<le> length rb" using assms(1) by linarith+
  then show ?thesis using assms(2,3) by (simp add: patch_inbound_in_place_def patch_offsets Let_def)
qed

lemma parse_framed: "parse_client_hello_with_components P rb t = Ok x \<Longrightarrow> hello_framed rb"
  by (cases rule: parse_components_cases [of P rb t]) auto

lemma gate_passes:
  assumes parse: "parse_client_hello_with_components P rb CHR ''t'' = Ok (j, c)" and len: "length rb = 5 + be_val [rb ! 3, rb ! 4]"
    and lim: "length rb \<le> limit" and sid: "rb ! 43 = 32"
    and kn: "knock_valid P psk (take 32 (drop 11 rb)) (take 16 (drop 44 rb)) (unat now)"
    and reads: "concat reads = rb @ rest" "[] \<notin> set reads"
  shows "\<exists>sn reads'. evaluate_with_limits P (Some psk) now limit False reads = (Ok (Pass sn), reads')
     \<and> peeked_bytes sn @ concat reads' = rb @ rest"
proof -
  note p = parse_fields [OF parse]
  have l: "76 \<le> length rb" using p(3) sid len by simp
  have n: "length rb = 5 + be_val [(rb @ rest) ! 3, (rb @ rest) ! 4]" using len l by (simp add: nth_append)
  have "\<exists>b reads'. read_full_clienthello limit reads [] = (Ok b, reads') \<and> length rb \<le> length b \<and> b @ concat reads' = rb @ rest"
    by (rule read_full_complete [OF _ reads(2) n]) (use reads(1) lim l in auto)
  then obtain b reads' where b: "read_full_clienthello limit reads [] = (Ok b, reads')" "length rb \<le> length b" "b @ concat reads' = rb @ rest"
    by blast
  obtain ys where ys: "b = rb @ ys" using b(2,3) by (metis append_eq_append_conv_if append_take_drop_id)
  have pb: "parse_client_hello_with_components P b CHR ''t'' = Ok (j, c)"
    unfolding ys using parse_append [OF parse_framed [OF parse]] parse by simp
  have "3 < length b" "4 < length b" using b(2) l by simp_all
  then have sn: "sniff_client_hello_with_limits P limit False reads = (Ok \<lparr>peeked_bytes = b, record_len = 5 + be_val [b ! 3, b ! 4],
      sn_client_random = jc_client_random c, sn_session_id = jc_session_id c\<rparr>, reads')"
    by (simp add: sniff_client_hello_with_limits_def b(1) pb)
  have "take 16 (jc_session_id c) = take 16 (drop 44 rb)" "length (jc_session_id c) = 32" using p(2) sid l by (auto simp: min_def)
  then have "decode_and_verify_session_id P psk (jc_client_random c) (jc_session_id c) now = Ok ()"
    using kn p(1) by (simp add: decode_verify_iff)
  then show ?thesis using b(3) by (simp add: evaluate_with_limits_def sn)
qed

lemma knock_end_to_end:
  assumes "prims_ok P" and "parse_client_hello_with_components P rb CHR ''t'' = Ok (j, c)"
    and "length rb = 5 + be_val [rb ! 3, rb ! 4]" and "length rb \<le> limit" and "rb ! 43 = 32" and "16 \<le> length padding"
    and "unat t < 2 ^ 32" and "abs_diff (unat now) (unat t) \<le> 90"
  shows "\<exists>rb'. patch_outbound_in_place P psk t padding rb = Ok (rb', jc_session_id c)
     \<and> parse_client_hello_with_components P rb' CHR ''t'' = Ok (j, c\<lparr>jc_session_id := take 32 (drop 44 rb')\<rparr>)
     \<and> (\<forall>reads rest. concat reads = rb' @ rest \<and> [] \<notin> set reads \<longrightarrow>
          (\<exists>sn reads'. evaluate_with_limits P (Some psk) now limit False reads = (Ok (Pass sn), reads')
             \<and> peeked_bytes sn @ concat reads' = rb' @ rest))
     \<and> (\<forall>sh. 76 \<le> length sh \<and> sh ! 0 = 0x16 \<and> sh ! 43 = 32 \<and> take 32 (drop 44 sh) = jc_session_id c \<longrightarrow>
          patch_inbound_in_place (jc_session_id c) (copy_into sh 44 (take 32 (drop 44 rb'))) = Ok sh)"
proof -
  note parse = assms(2) and p = parse_fields [OF assms(2)]
  let ?x = "encode_session_id (compute_knock P psk (take 32 (drop 11 rb)) t) padding"
  let ?rb = "copy_into rb 44 ?x"
  have x: "length ?x = 32" by (rule length_encode_session_id [OF assms(1,6)])
  have l: "76 \<le> length rb" using p(3) assms(3,5) by simp
  have fits: "44 + length ?x \<le> length rb" using l x by simp
  note f = copy_into_facts [OF fits]
  have h0: "rb ! 0 = 0x16" using parse_framed [OF parse] by (simp add: hello_framed_def)
  have orig: "jc_session_id c = take 32 (drop 44 rb)" using p(2) assms(5) by simp
  have sid: "take 32 (drop 44 ?rb) = ?x" using f(4) x by simp
  have out: "patch_outbound_in_place P psk t padding rb = Ok (?rb, jc_session_id c)"
    unfolding orig by (rule patch_outbound_Ok [OF l h0 assms(5)])
  have pp: "parse_client_hello_with_components P ?rb CHR ''t'' = Ok (j, c\<lparr>jc_session_id := ?x\<rparr>)"
    by (rule parse_patched [OF parse assms(5) x])
  have "take 16 ?x = compute_knock P psk (take 32 (drop 11 rb)) t"
    using length_compute_knock [OF assms(1)] by (simp add: encode_session_id_def)
  then have kn: "knock_valid P psk (take 32 (drop 11 ?rb)) (take 16 (drop 44 ?rb)) (unat now)"
    using compute_knock_valid [OF assms(1), of psk "take 32 (drop 11 rb)" t "unat now"] assms(7,8) arg_cong [OF sid, of "take 16"] f(6) [of 11 32]
    by (simp add: min_def)
  have "(\<exists>sn reads'. evaluate_with_limits P (Some psk) now limit False reads = (Ok (Pass sn), reads') \<and> peeked_bytes sn @ concat reads' = ?rb @ rest)"
    if "concat reads = ?rb @ rest \<and> [] \<notin> set reads" for reads rest
    by (rule gate_passes [OF pp _ _ _ kn]) (use that assms(3-5) f(1,2) in auto)
  moreover have "patch_inbound_in_place (jc_session_id c) (copy_into sh 44 (take 32 (drop 44 ?rb))) = Ok sh"
    if "76 \<le> length sh \<and> sh ! 0 = 0x16 \<and> sh ! 43 = 32 \<and> take 32 (drop 44 sh) = jc_session_id c" for sh
  proof -
    have s: "44 + length ?x \<le> length sh" using that x by simp
    have "patch_inbound_in_place (jc_session_id c) (copy_into sh 44 ?x) = Ok (copy_into (copy_into sh 44 ?x) 44 (jc_session_id c))"
      by (rule patch_inbound_Ok) (use that copy_into_facts(1,2) [OF s] in simp_all)
    also have "copy_into (copy_into sh 44 ?x) 44 (jc_session_id c) = sh"
      using copy_into_back [OF s, of 32] that x by simp
    finally show ?thesis unfolding sid .
  qed
  ultimately show ?thesis
    using out pp by (intro exI [of _ ?rb]) (simp add: sid)
qed

lemma toy_hello_facts:
  "length toy_hello = 5 + be_val [toy_hello ! 3, toy_hello ! 4]" "length toy_hello \<le> 2048" "toy_hello ! 43 = 32"
  "16 \<le> length (replicate 16 (0 :: u8))" "unat (1000 :: u64) < 2 ^ 32" "abs_diff (unat (1050 :: u64)) (unat (1000 :: u64)) \<le> 90"
  by (simp_all add: toy_hello_def nth_append be_val_def abs_diff_def)

lemma toy_knock: "\<exists>rb sn reads'. evaluate_with_limits toy_prims (Some (replicate 32 1)) 1050 2048 False [rb] = (Ok (Pass sn), reads')"
proof -
  obtain j c where p: "parse_client_hello_with_components toy_prims toy_hello CHR ''t'' = Ok (j, c)" using toy_hello_parses by blast
  obtain rb' where rb': "\<forall>reads rest. concat reads = rb' @ rest \<and> [] \<notin> set reads \<longrightarrow>
          (\<exists>sn reads'. evaluate_with_limits toy_prims (Some (replicate 32 1)) 1050 2048 False reads = (Ok (Pass sn), reads')
             \<and> peeked_bytes sn @ concat reads' = rb' @ rest)"
    using knock_end_to_end [OF toy_prims_ok p toy_hello_facts, of "replicate 32 1"] by blast
  show ?thesis using rb' [rule_format, of "[rb' @ [9]]" "[9]"] by auto
qed

section \<open>Properties\<close>

text \<open>
  C12. The gate decides soundly.  Whatever arrives and however it is cut, the gate never panics; it
  drops the connection, or it hands on exactly the bytes it has taken, no more than its limit, in
  front of those still to come: to the local handshake if and only if the session id has 32 bytes
  and starts with a fresh token whose MAC over this client random verifies, otherwise to the
  cover server.
\<close>

theorem gate_verdict_sound:
  assumes "evaluate_with_limits P (Some psk) now limit timed_out reads = (v, reads')"
  shows "(\<exists>r. v = Ok (Drop r))
   \<or> (\<exists>sn. peeked_bytes sn @ concat reads' = concat reads \<and> length (peeked_bytes sn) \<le> limit
        \<and> (if peeked_bytes sn ! 43 = 32
              \<and> drop 4 (take 16 (drop 44 (peeked_bytes sn)))
                  = hmac_truncated_96 P psk (take 4 (drop 44 (peeked_bytes sn))) (take 32 (drop 11 (peeked_bytes sn)))
              \<and> abs_diff (unat now) (be_val (take 4 (drop 44 (peeked_bytes sn)))) \<le> 90
              \<and> 60 \<le> length (peeked_bytes sn)
           then v = Ok (Pass sn) else \<exists>r. v = Ok (RouteToCover sn r)))"
  using assms
proof (cases rule: evaluate_cases)
  case (decides sn)
  have "hello_knocks P psk (unat now) (peeked_bytes sn) \<longleftrightarrow> peeked_bytes sn ! 43 = 32
      \<and> drop 4 (take 16 (drop 44 (peeked_bytes sn)))
          = hmac_truncated_96 P psk (take 4 (drop 44 (peeked_bytes sn))) (take 32 (drop 11 (peeked_bytes sn)))
      \<and> abs_diff (unat now) (be_val (take 4 (drop 44 (peeked_bytes sn)))) \<le> 90 \<and> 60 \<le> length (peeked_bytes sn)"
    by (auto simp: hello_knocks_def knock_valid_def min_def split: if_splits)
  then show ?thesis using decides by auto
qed blast

text \<open>
  C11. The knock end to end.  A ClientHello of one record with a 32-byte session id, rewritten by the
  client at time \<open>t\<close>, passes the gate of a server with the same key within 90 seconds, however
  the stream is cut and whatever follows, and the bytes handed on are those that arrived; the
  rewriting changes neither the fingerprint nor any component but the session id; and a ServerHello
  that echoes the rewritten id is restored to the one with the id the client's TLS stack had chosen.
\<close>

theorem gate_admits_client:
  assumes "prims_ok P" and "parse_client_hello_with_components P rb CHR ''t'' = Ok (j, c)"
    and "length rb = 5 + be_val [rb ! 3, rb ! 4]" and "length rb \<le> limit" and "rb ! 43 = 32" and "16 \<le> length padding"
    and "unat t < 2 ^ 32" and "abs_diff (unat now) (unat t) \<le> 90"
  shows "\<exists>rb'. patch_outbound_in_place P psk t padding rb = Ok (rb', jc_session_id c)
     \<and> parse_client_hello_with_components P rb' CHR ''t'' = Ok (j, c\<lparr>jc_session_id := take 32 (drop 44 rb')\<rparr>)
     \<and> (\<forall>reads rest. concat reads = rb' @ rest \<and> [] \<notin> set reads \<longrightarrow>
          (\<exists>sn reads'. evaluate_with_limits P (Some psk) now limit False reads = (Ok (Pass sn), reads')
             \<and> peeked_bytes sn @ concat reads' = rb' @ rest))
     \<and> (\<forall>sh. 76 \<le> length sh \<and> sh ! 0 = 0x16 \<and> sh ! 43 = 32 \<and> take 32 (drop 44 sh) = jc_session_id c \<longrightarrow>
          patch_inbound_in_place (jc_session_id c) (copy_into sh 44 (take 32 (drop 44 rb'))) = Ok sh)"
  using assms by (rule knock_end_to_end)

theorem gate_admits_client_witness:
  "\<exists>rb' orig sn. patch_outbound_in_place toy_prims (replicate 32 1) 1000 (replicate 16 0) toy_hello = Ok (rb', orig)
    \<and> fst (evaluate_with_limits toy_prims (Some (replicate 32 1)) 1050 2048 False [rb' @ [9]]) = Ok (Pass sn)"
proof -
  obtain j c where p: "parse_client_hello_with_components toy_prims toy_hello CHR ''t'' = Ok (j, c)" using toy_hello_parses by blast
  obtain rb' where rb': "patch_outbound_in_place toy_prims (replicate 32 1) 1000 (replicate 16 0) toy_hello = Ok (rb', jc_session_id c)"
    "\<forall>reads rest. concat reads = rb' @ rest \<and> [] \<notin> set reads \<longrightarrow>
          (\<exists>sn reads'. evaluate_with_limits toy_prims (Some (replicate 32 1)) 1050 2048 False reads = (Ok (Pass sn), reads')
             \<and> peeked_bytes sn @ concat reads' = rb' @ rest)"
    using gate_admits_client [OF toy_prims_ok p toy_hello_facts, of "replicate 32 1"] by blast
  show ?thesis using rb'(1) rb'(2) [rule_format, of "[rb' @ [9]]" "[9]"] by auto
qed

theorem gate_verdict_sound_witness:
  "\<exists>rb sn. fst (evaluate_with_limits toy_prims (Some (replicate 32 1)) 1050 2048 False [rb]) = Ok (Pass sn)
    \<and> peeked_bytes sn ! 43 = 32 \<and> abs_diff 1050 (be_val (take 4 (drop 44 (peeked_bytes sn)))) \<le> 90"
proof -
  obtain rb sn reads' where e: "evaluate_with_limits toy_prims (Some (replicate 32 1)) 1050 2048 False [rb] = (Ok (Pass sn), reads')"
    using toy_knock by blast
  show ?thesis using gate_verdict_sound [OF e] e by (intro exI [of _ rb] exI [of _ sn]) (auto split: if_splits)
qed

end
