(* ===== verification/Knock_Stream.thy ===== *)
theory Knock_Stream
  imports Knock_Gate
begin

text \<open>
  The wrapping stream of \<open>knock_rewriter.rs\<close>: the poll functions of \<open>KnockRewriteStream\<close>, which
  patch the first outgoing record, put the original session id back into the first incoming one
  and otherwise pass everything through.

  The inner stream is a script of answers to its poll functions and the bytes it has accepted;
  the random padding is an argument of the calls that may patch.
\<close>

section \<open>Inner stream\<close>

datatype rw_error = Rewrite RewriteError | InnerError

text \<open>\<open>Poll<io::Result<T>>\<close>.\<close>

datatype 'a poll = Pending | Ready "(rw_error, 'a) rust"

datatype write_answer = WAccept nat | WError | WPending

datatype flush_answer = FOk | FError | FPending

datatype read_answer = RBytes bytes | RError | RPending

text \<open>
  An exhausted script blocks a write, reads end of file, and flushes and shuts down at once, as a
  TCP socket does.
\<close>

record inner_stream =
  in_writes :: "write_answer list"
  in_flushes :: "flush_answer list"
  in_reads :: "read_answer list"
  in_wire :: bytes
  in_closed :: bool

fun inner_poll_write :: "bytes \<Rightarrow> inner_stream \<Rightarrow> nat poll \<times> inner_stream" where
  "inner_poll_write buf s =
     (case in_writes s of
        [] \<Rightarrow> (Pending, s)
      | WPending # ws \<Rightarrow> (Pending, s\<lparr>in_writes := ws\<rparr>)
      | WError # ws \<Rightarrow> (Ready (Err InnerError), s\<lparr>in_writes := ws\<rparr>)
      | WAccept n # ws \<Rightarrow>
          let k = min n (length buf) in (Ready (Ok k), s\<lparr>in_writes := ws, in_wire := in_wire s @ take k buf\<rparr>))"

fun inner_poll_flush :: "inner_stream \<Rightarrow> unit poll \<times> inner_stream" where
  "inner_poll_flush s =
     (case in_flushes s of
        [] \<Rightarrow> (Ready (Ok ()), s)
      | FOk # fs \<Rightarrow> (Ready (Ok ()), s\<lparr>in_flushes := fs\<rparr>)
      | FError # fs \<Rightarrow> (Ready (Err InnerError), s\<lparr>in_flushes := fs\<rparr>)
      | FPending # fs \<Rightarrow> (Pending, s\<lparr>in_flushes := fs\<rparr>))"

definition inner_poll_shutdown :: "inner_stream \<Rightarrow> unit poll \<times> inner_stream" where
  "inner_poll_shutdown s = (Ready (Ok ()), s\<lparr>in_closed := True\<rparr>)"

text \<open>A read into \<open>room\<close> bytes.\<close>

fun inner_poll_read :: "nat \<Rightarrow> inner_stream \<Rightarrow> bytes poll \<times> inner_stream" where
  "inner_poll_read room s =
     (case in_reads s of
        [] \<Rightarrow> (Ready (Ok []), s)
      | RPending # rs \<Rightarrow> (Pending, s\<lparr>in_reads := rs\<rparr>)
      | RError # rs \<Rightarrow> (Ready (Err InnerError), s\<lparr>in_reads := rs\<rparr>)
      | RBytes c # rs \<Rightarrow> (Ready (Ok (take room c)), s\<lparr>in_reads := (if length c \<le> room then rs else RBytes (drop room c) # rs)\<rparr>))"

declare inner_poll_write.simps [simp del] inner_poll_flush.simps [simp del] inner_poll_read.simps [simp del]

section \<open>The rewriter\<close>

datatype OutState = OutBuffer bytes | OutFlush bytes nat | OutDone

datatype InState = AwaitingOutbound | InBuffer bytes bytes | Deliver bytes nat | InDone

record KnockRewriteStream =
  rs_inner :: inner_stream
  rs_psk :: KnockPsk
  rs_now :: u64
  rs_out :: OutState
  rs_in :: InState

definition rewriter_new :: "inner_stream \<Rightarrow> KnockPsk \<Rightarrow> u64 \<Rightarrow> KnockRewriteStream" where
  "rewriter_new inner psk now = \<lparr>rs_inner = inner, rs_psk = psk, rs_now = now, rs_out = OutBuffer [], rs_in = AwaitingOutbound\<rparr>"

text \<open>The loop that writes the patched bytes out: how it ends, the new position, the inner stream.\<close>

function drain_loop :: "bytes \<Rightarrow> nat \<Rightarrow> inner_stream \<Rightarrow> unit poll \<times> nat \<times> inner_stream" where
  "drain_loop bytes pos s =
     (if pos < length bytes then
        (case inner_poll_write (drop pos bytes) s of
           (Ready (Ok n), s') \<Rightarrow>
             if n = 0 then (Ready (Err (Rewrite OutboundCloseDuringDrain)), pos, s') else drain_loop bytes (pos + n) s'
         | (Ready (Err e), s') \<Rightarrow> (Ready (Err e), pos, s')
         | (Ready Panic, s') \<Rightarrow> (Ready Panic, pos, s')
         | (Pending, s') \<Rightarrow> (Pending, pos, s'))
      else (Ready (Ok ()), pos, s))"
  by pat_completeness auto
termination
  by (relation "measure (\<lambda>(bytes, pos, s). length bytes - pos)") auto

declare drain_loop.simps [simp del]

text \<open>Patching the buffered record: the outgoing state turns to writing it out, the incoming one to waiting for the answer.\<close>

definition start_flush :: "primitives \<Rightarrow> bytes \<Rightarrow> bytes \<Rightarrow> KnockRewriteStream \<Rightarrow> (RewriteError, KnockRewriteStream) rust" where
  "start_flush P padding b this =
     rust_bind (patch_outbound_in_place P (rs_psk this) (rs_now this) padding b) (\<lambda>(taken, orig_sid).
     Ok (this\<lparr>rs_out := OutFlush taken 0, rs_in := InBuffer [] orig_sid\<rparr>))"

definition poll_write :: "primitives \<Rightarrow> bytes \<Rightarrow> bytes \<Rightarrow> KnockRewriteStream \<Rightarrow> nat poll \<times> KnockRewriteStream" where
  "poll_write P padding buf this =
     (let forward = (\<lambda>this. case inner_poll_write buf (rs_inner this) of (r, inner) \<Rightarrow> (r, this\<lparr>rs_inner := inner\<rparr>)) in
      case rs_out this of
        OutBuffer b0 \<Rightarrow>
          (let b = b0 @ buf; this = this\<lparr>rs_out := OutBuffer b\<rparr> in
           if length b \<ge> MIN_BYTES_TO_PATCH then
             (case start_flush P padding b this of
                Ok this' \<Rightarrow> (Ready (Ok (length buf)), this')
              | Err e \<Rightarrow> (Ready (Err (Rewrite e)), this)
              | Panic \<Rightarrow> (Ready Panic, this))
           else (Ready (Ok (length buf)), this))
      | OutFlush bytes pos \<Rightarrow>
          (case drain_loop bytes pos (rs_inner this) of (r, pos, inner) \<Rightarrow>
             let this = this\<lparr>rs_inner := inner, rs_out := OutFlush bytes pos\<rparr> in
             (case r of
                Pending \<Rightarrow> (Pending, this)
              | Ready (Err e) \<Rightarrow> (Ready (Err e), this)
              | Ready Panic \<Rightarrow> (Ready Panic, this)
              | Ready (Ok _) \<Rightarrow> forward (this\<lparr>rs_out := OutDone\<rparr>)))
      | OutDone \<Rightarrow> forward this)"

text \<open>\<open>poll_flush\<close> from the state \<open>Flush\<close> on, and from every state.\<close>

definition flush_rest :: "KnockRewriteStream \<Rightarrow> unit poll \<times> KnockRewriteStream" where
  "flush_rest this =
     (let forward = (\<lambda>this. case inner_poll_flush (rs_inner this) of (r, inner) \<Rightarrow> (r, this\<lparr>rs_inner := inner\<rparr>)) in
      case rs_out this of
        OutFlush bytes pos \<Rightarrow>
          (case drain_loop bytes pos (rs_inner this) of (r, pos, inner) \<Rightarrow>
             let this = this\<lparr>rs_inner := inner, rs_out := OutFlush bytes pos\<rparr> in
             (case r of
                Pending \<Rightarrow> (Pending, this)
              | Ready (Err e) \<Rightarrow> (Ready (Err e), this)
              | Ready Panic \<Rightarrow> (Ready Panic, this)
              | Ready (Ok _) \<Rightarrow> forward (this\<lparr>rs_out := OutDone\<rparr>)))
      | _ \<Rightarrow> forward this)"

definition poll_flush :: "primitives \<Rightarrow> bytes \<Rightarrow> KnockRewriteStream \<Rightarrow> unit poll \<times> KnockRewriteStream" where
  "poll_flush P padding this =
     (case rs_out this of
        OutBuffer b \<Rightarrow>
          if b = [] then flush_rest this
          else if length b < MIN_BYTES_TO_PATCH then (Pending, this)
          else
            (case start_flush P padding b this of
               Ok this' \<Rightarrow> flush_rest this'
             | Err e \<Rightarrow> (Ready (Err (Rewrite e)), this)
             | Panic \<Rightarrow> (Ready Panic, this))
      | _ \<Rightarrow> flush_rest this)"

text \<open>The loop of \<open>poll_shutdown\<close>, with a bound on its turns; \<open>None\<close> when the bound is reached.\<close>

fun poll_shutdown :: "nat \<Rightarrow> primitives \<Rightarrow> bytes \<Rightarrow> KnockRewriteStream \<Rightarrow> (unit poll \<times> KnockRewriteStream) option" where
  "poll_shutdown 0 P padding this = None"
| "poll_shutdown (Suc fuel) P padding this =
     (if rs_out this = OutDone then
        (case inner_poll_shutdown (rs_inner this) of (r, inner) \<Rightarrow> Some (r, this\<lparr>rs_inner := inner\<rparr>))
      else
        (case poll_flush P padding this of
           (Ready (Ok _), this') \<Rightarrow> poll_shutdown fuel P padding this'
         | (Ready (Err e), this') \<Rightarrow> Some (Ready (Err e), this')
         | (Ready Panic, this') \<Rightarrow> Some (Ready Panic, this')
         | (Pending, this') \<Rightarrow> Some (Pending, this')))"

text \<open>Delivering patched bytes into \<open>room\<close> bytes.\<close>

definition deliver :: "nat \<Rightarrow> bytes \<Rightarrow> nat \<Rightarrow> KnockRewriteStream \<Rightarrow> bytes poll \<times> KnockRewriteStream" where
  "deliver room bytes pos this =
     (let avail = drop pos bytes; want = min (length avail) room; pos = pos + want in
      (Ready (Ok (take want avail)), this\<lparr>rs_in := (if pos \<ge> length bytes then InDone else Deliver bytes pos)\<rparr>))"

text \<open>The loop that collects the first incoming record, over the answers of the inner stream.\<close>

fun collect_loop :: "nat \<Rightarrow> read_answer list \<Rightarrow> bytes \<Rightarrow> bytes \<Rightarrow> KnockRewriteStream \<Rightarrow> bytes poll \<times> KnockRewriteStream" where
  "collect_loop room answers bytes orig_sid this =
     (case answers of
        [] \<Rightarrow> (Ready (Err (Rewrite (InboundEofBeforePatch (length bytes)))), this\<lparr>rs_in := InBuffer bytes orig_sid\<rparr>)
      | RPending # rs \<Rightarrow> (Pending, this\<lparr>rs_in := InBuffer bytes orig_sid, rs_inner := (rs_inner this)\<lparr>in_reads := rs\<rparr>\<rparr>)
      | RError # rs \<Rightarrow> (Ready (Err InnerError), this\<lparr>rs_in := InBuffer bytes orig_sid, rs_inner := (rs_inner this)\<lparr>in_reads := rs\<rparr>\<rparr>)
      | RBytes c # rs \<Rightarrow>
          let got = take 2048 c; rs' = (if length c \<le> 2048 then rs else RBytes (drop 2048 c) # rs);
              this = this\<lparr>rs_inner := (rs_inner this)\<lparr>in_reads := rs'\<rparr>\<rparr> in
          if got = [] then (Ready (Err (Rewrite (InboundEofBeforePatch (length bytes)))), this\<lparr>rs_in := InBuffer bytes orig_sid\<rparr>)
          else
            let bytes = bytes @ got in
            if length bytes \<ge> MIN_BYTES_TO_PATCH then
              (case patch_inbound_in_place orig_sid bytes of
                 Ok patched \<Rightarrow> deliver room patched 0 this
               | Err e \<Rightarrow> (Ready (Err (Rewrite e)), this\<lparr>rs_in := InBuffer bytes orig_sid\<rparr>)
               | Panic \<Rightarrow> (Ready Panic, this))
            else collect_loop room rs bytes orig_sid this)"

declare collect_loop.simps [simp del]

definition poll_read :: "nat \<Rightarrow> KnockRewriteStream \<Rightarrow> bytes poll \<times> KnockRewriteStream" where
  "poll_read room this =
     (let forward = (case inner_poll_read room (rs_inner this) of (r, inner) \<Rightarrow> (r, this\<lparr>rs_inner := inner\<rparr>)) in
      case rs_in this of
        AwaitingOutbound \<Rightarrow> forward
      | InBuffer bytes orig_sid \<Rightarrow> collect_loop room (in_reads (rs_inner this)) bytes orig_sid this
      | Deliver bytes pos \<Rightarrow> deliver room bytes pos this
      | InDone \<Rightarrow> forward)"

section \<open>Runs\<close>

text \<open>
  Calls of the stream's user, and a run: what was accepted from the user, what was delivered to
  it, and whether a call has failed, after which nothing is called any more.  The calls that may
  patch come with their random bytes.
\<close>

datatype rw_op = OpWrite bytes bytes | OpFlush bytes | OpRead nat

record rw_run =
  rr_stream :: KnockRewriteStream
  rr_written :: bytes
  rr_delivered :: bytes
  rr_failed :: bool

definition rw_step :: "primitives \<Rightarrow> rw_run \<Rightarrow> rw_op \<Rightarrow> rw_run" where
  "rw_step P r op =
     (if rr_failed r then r
      else
        (case op of
           OpWrite padding buf \<Rightarrow>
             if length padding < 16 then r\<lparr>rr_failed := True\<rparr>
             else
               (case poll_write P padding buf (rr_stream r) of
                  (Pending, st) \<Rightarrow> r\<lparr>rr_stream := st\<rparr>
                | (Ready (Ok n), st) \<Rightarrow> r\<lparr>rr_stream := st, rr_written := rr_written r @ take n buf\<rparr>
                | (Ready _, st) \<Rightarrow> r\<lparr>rr_stream := st, rr_failed := True\<rparr>)
         | OpFlush padding \<Rightarrow>
             if length padding < 16 then r\<lparr>rr_failed := True\<rparr>
             else
               (case poll_flush P padding (rr_stream r) of
                  (Pending, st) \<Rightarrow> r\<lparr>rr_stream := st\<rparr>
                | (Ready (Ok _), st) \<Rightarrow> r\<lparr>rr_stream := st\<rparr>
                | (Ready _, st) \<Rightarrow> r\<lparr>rr_stream := st, rr_failed := True\<rparr>)
         | OpRead room \<Rightarrow>
             (case poll_read room (rr_stream r) of
                (Pending, st) \<Rightarrow> r\<lparr>rr_stream := st\<rparr>
              | (Ready (Ok bs), st) \<Rightarrow> r\<lparr>rr_stream := st, rr_delivered := rr_delivered r @ bs\<rparr>
              | (Ready _, st) \<Rightarrow> r\<lparr>rr_stream := st, rr_failed := True\<rparr>)))"

text \<open>Bytes accepted and not yet written out, bytes read and not yet delivered, bytes still to come.\<close>

fun out_pending :: "OutState \<Rightarrow> bytes" where
  "out_pending (OutBuffer b) = b"
| "out_pending (OutFlush bytes pos) = drop pos bytes"
| "out_pending OutDone = []"

fun in_pending :: "InState \<Rightarrow> bytes" where
  "in_pending (InBuffer bytes orig_sid) = bytes"
| "in_pending (Deliver bytes pos) = drop pos bytes"
| "in_pending _ = []"

fun answer_bytes :: "read_answer \<Rightarrow> bytes" where
  "answer_bytes (RBytes c) = c"
| "answer_bytes _ = []"

abbreviation in_rest :: "inner_stream \<Rightarrow> bytes" where
  "in_rest s \<equiv> concat (map answer_bytes (in_reads s))"

text \<open>The first \<open>76\<close> bytes decide the rewritten record.\<close>

definition knocked :: "primitives \<Rightarrow> KnockPsk \<Rightarrow> u64 \<Rightarrow> bytes \<Rightarrow> bytes \<Rightarrow> bytes" where
  "knocked P psk now padding w = copy_into w 44 (encode_session_id (compute_knock P psk (take 32 (drop 11 w)) now) padding)"

definition out_inv :: "primitives \<Rightarrow> KnockRewriteStream \<Rightarrow> bytes \<Rightarrow> bool" where
  "out_inv P st w \<longleftrightarrow>
     (case rs_out st of
        OutBuffer b \<Rightarrow> in_wire (rs_inner st) = [] \<and> b = w \<and> length w < 76 \<and> rs_in st = AwaitingOutbound
      | OutFlush bytes pos \<Rightarrow> 76 \<le> length w \<and> pos \<le> length bytes \<and> in_wire (rs_inner st) = take pos bytes
          \<and> rs_in st \<noteq> AwaitingOutbound \<and> (\<exists>padding. 16 \<le> length padding \<and> bytes = knocked P (rs_psk st) (rs_now st) padding w)
      | OutDone \<Rightarrow> 76 \<le> length w \<and> rs_in st \<noteq> AwaitingOutbound
          \<and> (\<exists>padding. 16 \<le> length padding \<and> in_wire (rs_inner st) = knocked P (rs_psk st) (rs_now st) padding w))"

definition restored :: "bytes \<Rightarrow> bytes \<Rightarrow> bytes \<Rightarrow> bool" where
  "restored w inbound seen \<longleftrightarrow> (\<exists>early raw. inbound = early @ raw \<and> 76 \<le> length raw \<and> seen = early @ copy_into raw 44 (take 32 (drop 44 w)))"

definition in_inv :: "KnockRewriteStream \<Rightarrow> bytes \<Rightarrow> bytes \<Rightarrow> bytes \<Rightarrow> bool" where
  "in_inv st w inbound d \<longleftrightarrow>
     (let seen = d @ in_pending (rs_in st) @ in_rest (rs_inner st) in
      case rs_in st of
        AwaitingOutbound \<Rightarrow> seen = inbound
      | InBuffer bytes orig_sid \<Rightarrow> seen = inbound \<and> orig_sid = take 32 (drop 44 w)
      | Deliver bytes pos \<Rightarrow> restored w inbound seen
      | InDone \<Rightarrow> restored w inbound seen)"

definition rw_inv :: "primitives \<Rightarrow> KnockPsk \<Rightarrow> u64 \<Rightarrow> bytes \<Rightarrow> rw_run \<Rightarrow> bool" where
  "rw_inv P psk now inbound r \<longleftrightarrow> rr_failed r \<or>
     (rs_psk (rr_stream r) = psk \<and> rs_now (rr_stream r) = now
      \<and> out_inv P (rr_stream r) (rr_written r) \<and> in_inv (rr_stream r) (rr_written r) inbound (rr_delivered r))"

section \<open>The inner stream\<close>

lemma inner_poll_write_facts:
  assumes "inner_poll_write buf s = (r, s')"
  shows "in_reads s' = in_reads s" and "r = Ready (Ok n) \<Longrightarrow> n \<le> length buf \<and> in_wire s' = in_wire s @ take n buf"
    and "\<nexists>n. r = Ready (Ok n) \<Longrightarrow> in_wire s' = in_wire s" and "r \<noteq> Ready Panic"
  using assms by (auto simp: inner_poll_write.simps Let_def split: list.splits write_answer.splits)

lemma drain_loop_facts:
  assumes "drain_loop bytes pos s = (r, pos', s')" and "pos \<le> length bytes" and "in_wire s = take pos bytes"
  shows "pos' \<le> length bytes \<and> in_wire s' = take pos' bytes \<and> in_reads s' = in_reads s \<and> r \<noteq> Ready Panic
     \<and> (r = Ready (Ok ()) \<longrightarrow> pos' = length bytes)"
  using assms
proof (induction bytes pos s rule: drain_loop.induct)
  case (1 bytes pos s)
  obtain a t where a: "inner_poll_write (drop pos bytes) s = (a, t)" by fastforce
  note f = inner_poll_write_facts [OF a]
  show ?case
  proof (cases "pos < length bytes \<and> (\<exists>n. a = Ready (Ok n) \<and> n \<noteq> 0)")
    case True
    then obtain n where n: "a = Ready (Ok n)" "n \<noteq> 0" "pos < length bytes" by blast
    have "drain_loop bytes (pos + n) t = (r, pos', s')" using 1(2) n by (simp add: drain_loop.simps [of bytes pos] a)
    moreover have "pos + n \<le> length bytes" "in_wire t = take (pos + n) bytes" using f(2) [OF n(1)] 1(4) n(3) by (auto simp: take_add)
    ultimately show ?thesis using 1(1) [OF n(3) a [symmetric] n(1) refl n(2)] f(1) by simp
  next
    case False
    then show ?thesis
      using 1(2-4) f by (auto simp: drain_loop.simps [of bytes pos] a split: if_splits poll.splits rust.splits)
  qed
qed

section \<open>Steps keep the invariant\<close>

lemma patch_outbound_cases:
  assumes "76 \<le> length b"
  obtains (ok) "patch_outbound_in_place P psk now padding b = Ok (knocked P psk now padding b, take 32 (drop 44 b))"
  | (err) e where "patch_outbound_in_place P psk now padding b = Err e"
proof (cases "b ! 0 = 0x16 \<and> b ! 43 = 32")
  case True
  then show ?thesis using patch_outbound_Ok [OF assms] ok by (simp add: knocked_def)
next
  case False
  have "0 < length b" "43 < length b" using assms by linarith+
  moreover have "unat (b ! 43) = 32 \<longleftrightarrow> b ! 43 = 32" by (simp add: word_unat_eq_iff)
  ultimately have "\<exists>e. patch_outbound_in_place P psk now padding b = Err e"
    using False by (auto simp: patch_outbound_in_place_def patch_offsets Let_def)
  then show ?thesis using err by blast
qed

lemma patch_inbound_cases:
  assumes "76 \<le> length b"
  obtains (ok) "patch_inbound_in_place orig b = Ok (copy_into b 44 orig)"
  | (err) e where "patch_inbound_in_place orig b = Err e"
proof (cases "b ! 0 = 0x16 \<and> b ! 43 = 32")
  case True
  then show ?thesis using patch_inbound_Ok [OF assms] ok by simp
next
  case False
  have "0 < length b" "43 < length b" using assms by linarith+
  moreover have "unat (b ! 43) = 32 \<longleftrightarrow> b ! 43 = 32" by (simp add: word_unat_eq_iff)
  ultimately have "\<exists>e. patch_inbound_in_place orig b = Err e"
    using False by (auto simp: patch_inbound_in_place_def patch_offsets Let_def)
  then show ?thesis using err by blast
qed

lemma copy_into_append: "44 + length x \<le> length w \<Longrightarrow> copy_into (w @ ys) 44 x = copy_into w 44 x @ ys"
  by (simp add: copy_into_def)

lemma knocked_append:
  assumes "prims_ok P" and "76 \<le> length w" and "16 \<le> length padding"
  shows "knocked P psk now padding (w @ ys) = knocked P psk now padding w @ ys"
    and "length (knocked P psk now padding w) = length w"
  using assms length_encode_session_id [OF assms(1,3)] by (simp_all add: knocked_def copy_into_append)

lemma restored_append:
  assumes "76 \<le> length w"
  shows "restored (w @ ys) inbound seen = restored w inbound seen"
  using assms by (simp add: restored_def)

lemma restoredI:
  assumes "76 \<le> length raw" and "76 \<le> length w"
  shows "restored w (d @ raw @ rest) (d @ copy_into raw 44 (take 32 (drop 44 w)) @ rest)"
  unfolding restored_def using assms by (intro exI [of _ d] exI [of _ "raw @ rest"] conjI) (simp_all add: copy_into_append)

lemma in_inv_append:
  assumes "76 \<le> length w"
  shows "in_inv st (w @ ys) inbound d = in_inv st w inbound d"
  using assms by (cases "rs_in st") (simp_all add: in_inv_def Let_def restored_append)

lemma start_flush_inv:
  assumes P: "prims_ok P" and pad: "16 \<le> length padding" and w: "76 \<le> length w"
    and wire: "in_wire (rs_inner st) = []" and ii: "in_inv (st\<lparr>rs_out := x\<rparr>) w0 inbound d" "rs_in st = AwaitingOutbound"
    and fl: "start_flush P padding w (st\<lparr>rs_out := x\<rparr>) = Ok st'"
  shows "out_inv P st' w" and "in_inv st' w inbound d" and "rs_psk st' = rs_psk st" and "rs_now st' = rs_now st"
proof -
  have st': "st' = st\<lparr>rs_out := OutFlush (knocked P (rs_psk st) (rs_now st) padding w) 0, rs_in := InBuffer [] (take 32 (drop 44 w))\<rparr>"
    using fl by (cases rule: patch_outbound_cases [OF w, of P "rs_psk st" "rs_now st" padding]) (auto simp: start_flush_def)
  show "out_inv P st' w" using wire w pad by (auto simp: st' out_inv_def)
  show "in_inv st' w inbound d" using ii by (simp add: st' in_inv_def)
  show "rs_psk st' = rs_psk st" "rs_now st' = rs_now st" by (simp_all add: st')
qed

text \<open>Forwarding a write once the patched record is out.\<close>

lemma forward_write_inv:
  assumes P: "prims_ok P" and out: "rs_out st = OutDone" and oi: "out_inv P st w" and ii: "in_inv st w inbound d"
    and f: "inner_poll_write buf (rs_inner st) = (r, inner)"
  shows "r = Ready (Ok n) \<Longrightarrow> out_inv P (st\<lparr>rs_inner := inner\<rparr>) (w @ take n buf) \<and> in_inv (st\<lparr>rs_inner := inner\<rparr>) (w @ take n buf) inbound d"
    and "\<nexists>n. r = Ready (Ok n) \<Longrightarrow> out_inv P (st\<lparr>rs_inner := inner\<rparr>) w \<and> in_inv (st\<lparr>rs_inner := inner\<rparr>) w inbound d"
proof -
  note i = inner_poll_write_facts [OF f]
  have w: "76 \<le> length w" using oi out by (simp add: out_inv_def)
  have ii': "in_inv (st\<lparr>rs_inner := inner\<rparr>) w inbound d" using ii by (simp add: in_inv_def i(1))
  obtain padding where pad: "16 \<le> length padding" "in_wire (rs_inner st) = knocked P (rs_psk st) (rs_now st) padding w"
    "rs_in st \<noteq> AwaitingOutbound"
    using oi out by (auto simp: out_inv_def)
  show "r = Ready (Ok n) \<Longrightarrow> out_inv P (st\<lparr>rs_inner := inner\<rparr>) (w @ take n buf) \<and> in_inv (st\<lparr>rs_inner := inner\<rparr>) (w @ take n buf) inbound d"
    using i(2) [of n] pad w ii' knocked_append(1) [OF P w pad(1)] by (auto simp: out_inv_def out in_inv_append)
  show "\<nexists>n. r = Ready (Ok n) \<Longrightarrow> out_inv P (st\<lparr>rs_inner := inner\<rparr>) w \<and> in_inv (st\<lparr>rs_inner := inner\<rparr>) w inbound d"
    using i(3) pad w ii' by (auto simp: out_inv_def out)
qed

lemma drain_inv:
  assumes oi: "out_inv P st w" and ii: "in_inv st w inbound d" and out: "rs_out st = OutFlush bytes pos"
    and f: "drain_loop bytes pos (rs_inner st) = (r, pos', inner)"
  shows "out_inv P (st\<lparr>rs_inner := inner, rs_out := OutFlush bytes pos'\<rparr>) w" "in_inv (st\<lparr>rs_inner := inner, rs_out := x\<rparr>) w inbound d"
    "r \<noteq> Ready Panic" "r = Ready (Ok ()) \<Longrightarrow> out_inv P (st\<lparr>rs_inner := inner, rs_out := OutDone\<rparr>) w"
proof -
  have o': "pos \<le> length bytes" "in_wire (rs_inner st) = take pos bytes" using oi out by (simp_all add: out_inv_def)
  note g = drain_loop_facts [OF f o']
  show "out_inv P (st\<lparr>rs_inner := inner, rs_out := OutFlush bytes pos'\<rparr>) w" using oi g by (simp add: out_inv_def out)
  show "in_inv (st\<lparr>rs_inner := inner, rs_out := x\<rparr>) w inbound d" using ii g by (simp add: in_inv_def)
  show "r \<noteq> Ready Panic" using g by simp
  show "r = Ready (Ok ()) \<Longrightarrow> out_inv P (st\<lparr>rs_inner := inner, rs_out := OutDone\<rparr>) w" using oi g by (simp add: out_inv_def out)
qed

lemma poll_write_inv:
  assumes P: "prims_ok P" and pad: "16 \<le> length padding" and oi: "out_inv P st w" and ii: "in_inv st w inbound d"
    and f: "poll_write P padding buf st = (r, st')"
  shows "rs_psk st' = rs_psk st \<and> rs_now st' = rs_now st
     \<and> (r = Pending \<longrightarrow> out_inv P st' w \<and> in_inv st' w inbound d)
     \<and> (\<forall>n. r = Ready (Ok n) \<longrightarrow> out_inv P st' (w @ take n buf) \<and> in_inv st' (w @ take n buf) inbound d)"
proof (cases "rs_out st")
  case (OutBuffer b)
  have b: "b = w" "in_wire (rs_inner st) = []" "rs_in st = AwaitingOutbound" using oi OutBuffer by (simp_all add: out_inv_def)
  have ii': "in_inv (st\<lparr>rs_out := x\<rparr>) w' inbound d" for x w' using ii b(3) by (simp add: in_inv_def)
  show ?thesis
  proof (cases "76 \<le> length (w @ buf)")
    case False
    then show ?thesis
      using f OutBuffer b ii' by (auto simp: poll_write_def patch_offsets Let_def out_inv_def)
  next
    case True
    let ?st = "st\<lparr>rs_out := OutBuffer (w @ buf)\<rparr>"
    show ?thesis
    proof (cases "start_flush P padding (w @ buf) ?st")
      case (Ok st1)
      then have "r = Ready (Ok (length buf))" "st' = st1"
        using f OutBuffer b True by (simp_all add: poll_write_def patch_offsets Let_def)
      then show ?thesis using start_flush_inv [OF P pad True b(2) ii' b(3) Ok] by simp
    qed (use f OutBuffer b True in \<open>auto simp: poll_write_def patch_offsets Let_def\<close>)
  qed
next
  case (OutFlush bytes pos)
  obtain a pos' inner where a: "drain_loop bytes pos (rs_inner st) = (a, pos', inner)" by (metis prod.exhaust)
  note g = drain_inv [OF oi ii OutFlush a]
  show ?thesis
  proof (cases "a = Ready (Ok ())")
    case True
    let ?st = "st\<lparr>rs_inner := inner, rs_out := OutDone\<rparr>"
    obtain r1 inner1 where i: "inner_poll_write buf (rs_inner ?st) = (r1, inner1)" by fastforce
    have e: "r = r1" "st' = ?st\<lparr>rs_inner := inner1\<rparr>" using f OutFlush a True i by (simp_all add: poll_write_def Let_def)
    show ?thesis using forward_write_inv [OF P _ g(4) [OF True] g(2) i] e by auto
  next
    case False
    then show ?thesis
      using f OutFlush a g(1,3) g(2) [of "OutFlush bytes pos'"]
      by (cases a) (auto simp: poll_write_def Let_def split: rust.splits)
  qed
next
  case OutDone
  obtain r1 inner1 where i: "inner_poll_write buf (rs_inner st) = (r1, inner1)" by fastforce
  have e: "r = r1" "st' = st\<lparr>rs_inner := inner1\<rparr>" using f OutDone i by (simp_all add: poll_write_def Let_def)
  show ?thesis using forward_write_inv [OF P OutDone oi ii i] e by auto
qed

lemma forward_flush_inv:
  assumes "out_inv P st w" and "in_inv st w inbound d" and "inner_poll_flush (rs_inner st) = (r, inner)"
  shows "out_inv P (st\<lparr>rs_inner := inner\<rparr>) w" and "in_inv (st\<lparr>rs_inner := inner\<rparr>) w inbound d"
proof -
  have "in_wire inner = in_wire (rs_inner st)" "in_reads inner = in_reads (rs_inner st)"
    using assms(3) by (auto simp: inner_poll_flush.simps split: list.splits flush_answer.splits)
  then show "out_inv P (st\<lparr>rs_inner := inner\<rparr>) w" "in_inv (st\<lparr>rs_inner := inner\<rparr>) w inbound d"
    using assms(1,2) by (simp_all add: out_inv_def in_inv_def split: OutState.splits)
qed

lemma flush_rest_inv:
  assumes oi: "out_inv P st w" and ii: "in_inv st w inbound d" and f: "flush_rest st = (r, st')"
  shows "rs_psk st' = rs_psk st \<and> rs_now st' = rs_now st \<and> out_inv P st' w \<and> in_inv st' w inbound d"
proof (cases "\<exists>bytes pos. rs_out st = OutFlush bytes pos")
  case True
  then obtain bytes pos where o': "rs_out st = OutFlush bytes pos" by blast
  obtain a pos' inner where a: "drain_loop bytes pos (rs_inner st) = (a, pos', inner)" by (metis prod.exhaust)
  note g = drain_inv [OF oi ii o' a]
  show ?thesis
  proof (cases "a = Ready (Ok ())")
    case True
    let ?st = "st\<lparr>rs_inner := inner, rs_out := OutDone\<rparr>"
    obtain r1 inner1 where i: "inner_poll_flush (rs_inner ?st) = (r1, inner1)" by fastforce
    have e: "st' = ?st\<lparr>rs_inner := inner1\<rparr>" using f o' a True i by (simp add: flush_rest_def Let_def)
    show ?thesis using forward_flush_inv [OF g(4) [OF True] g(2) i] e by auto
  next
    case False
    then show ?thesis
      using f o' a g(1,3) g(2) [of "OutFlush bytes pos'"]
      by (cases a) (auto simp: flush_rest_def Let_def split: rust.splits)
  qed
next
  case False
  obtain r1 inner1 where i: "inner_poll_flush (rs_inner st) = (r1, inner1)" by fastforce
  have e: "st' = st\<lparr>rs_inner := inner1\<rparr>" using f False i by (cases "rs_out st") (auto simp: flush_rest_def Let_def)
  show ?thesis using forward_flush_inv [OF oi ii i] e by auto
qed

lemma poll_flush_inv:
  assumes oi: "out_inv P st w" and ii: "in_inv st w inbound d" and f: "poll_flush P padding st = (r, st')"
  shows "rs_psk st' = rs_psk st \<and> rs_now st' = rs_now st \<and> out_inv P st' w \<and> in_inv st' w inbound d"
proof (cases "\<exists>b. rs_out st = OutBuffer b \<and> b \<noteq> []")
  case True
  then show ?thesis using f oi ii by (auto simp: poll_flush_def out_inv_def patch_offsets)
next
  case False
  then have "flush_rest st = (r, st')" using f by (cases "rs_out st") (auto simp: poll_flush_def)
  then show ?thesis by (rule flush_rest_inv [OF oi ii])
qed

lemma take_drop_append: "take k xs @ drop k xs @ ys = xs @ ys"
  by (simp flip: append_assoc)

text \<open>Delivering takes bytes off the front of what is left of the patched record.\<close>

lemma deliver_inv:
  assumes "deliver room bytes pos st = (r, st')" and "restored w inbound (d @ drop pos bytes @ in_rest (rs_inner st))"
  shows "\<exists>bs. r = Ready (Ok bs) \<and> in_inv st' w inbound (d @ bs) \<and> rs_in st' \<noteq> AwaitingOutbound
     \<and> rs_out st' = rs_out st \<and> rs_inner st' = rs_inner st \<and> rs_psk st' = rs_psk st \<and> rs_now st' = rs_now st"
proof -
  have "take k (drop pos bytes) @ drop (pos + k) bytes @ ys = drop pos bytes @ ys" for k ys
    using take_drop_append [of k "drop pos bytes" ys] by (simp add: add.commute)
  note parts [simp] = this
  show ?thesis
    using assms by (auto simp: deliver_def Let_def in_inv_def min_def)
qed

definition read_kept :: "KnockRewriteStream \<Rightarrow> bytes \<Rightarrow> bytes \<Rightarrow> bytes \<Rightarrow> bytes poll \<times> KnockRewriteStream \<Rightarrow> bool" where
  "read_kept st w inbound d res \<longleftrightarrow>
     (case res of (r, st') \<Rightarrow>
        rs_out st' = rs_out st \<and> rs_psk st' = rs_psk st \<and> rs_now st' = rs_now st \<and> in_wire (rs_inner st') = in_wire (rs_inner st)
        \<and> (rs_in st' = AwaitingOutbound \<longrightarrow> rs_in st = AwaitingOutbound) \<and> (rs_in st = AwaitingOutbound \<longrightarrow> rs_in st' = AwaitingOutbound)
        \<and> (r = Pending \<longrightarrow> in_inv st' w inbound d) \<and> (\<forall>bs. r = Ready (Ok bs) \<longrightarrow> in_inv st' w inbound (d @ bs)))"

lemma collect_loop_kept:
  assumes "d @ bytes @ concat (map answer_bytes answers) = inbound" and "orig = take 32 (drop 44 w)" and "76 \<le> length w"
    and "rs_in st \<noteq> AwaitingOutbound"
  shows "in_reads (rs_inner st) = answers \<Longrightarrow> read_kept st w inbound d (collect_loop room answers bytes orig st)"
  using assms
proof (induction room answers bytes orig st rule: collect_loop.induct)
  case (1 room answers bytes orig st)
  show ?case
  proof (cases answers)
    case Nil
    then show ?thesis using 1 by (simp add: collect_loop.simps read_kept_def)
  next
    case (Cons a rs)
    show ?thesis
    proof (cases a)
      case (RBytes c)
      let ?st = "st\<lparr>rs_inner := (rs_inner st)\<lparr>in_reads := (if length c \<le> 2048 then rs else RBytes (drop 2048 c) # rs)\<rparr>\<rparr>"
      let ?b = "bytes @ take 2048 c"
      have rest: "in_rest (rs_inner ?st) = drop 2048 c @ concat (map answer_bytes rs)" by simp
      have all: "inbound = d @ ?b @ in_rest (rs_inner ?st)" using 1(3) Cons RBytes
        by (simp only: rest) (simp add: take_drop_append)
      show ?thesis
      proof (cases "c = [] \<or> 76 \<le> length ?b")
        case short: True
        show ?thesis
        proof (cases "c = []")
          case True
          then show ?thesis using 1(6) Cons RBytes by (simp add: collect_loop.simps [of room "x # rs" for x] read_kept_def)
        next
          case False
          then have b: "76 \<le> length ?b" "c \<noteq> []" using short by auto
          consider (ok) "patch_inbound_in_place orig ?b = Ok (copy_into ?b 44 orig)" | (err) e where "patch_inbound_in_place orig ?b = Err e"
            by (rule patch_inbound_cases [OF b(1)])
          then show ?thesis
          proof cases
            case ok
            obtain r st' where dl: "deliver room (copy_into ?b 44 orig) 0 ?st = (r, st')" by fastforce
            have "restored w inbound (d @ drop 0 (copy_into ?b 44 orig) @ in_rest (rs_inner ?st))"
              using restoredI [OF b(1) 1(5)] by (simp only: all 1(4) drop_0)
            from deliver_inv [OF dl this] show ?thesis
              using Cons RBytes b ok dl 1(6) by (auto simp: collect_loop.simps [of room "x # rs" for x] read_kept_def Let_def patch_offsets)
          next
            case (err e)
            then show ?thesis
              using Cons RBytes b 1(6) by (auto simp: collect_loop.simps [of room "x # rs" for x] read_kept_def Let_def patch_offsets)
          qed
        qed
      next
        case False
        then have s: "c \<noteq> []" "length c \<le> 2048" "\<not> 76 \<le> length ?b" by (auto simp: min_def split: if_splits)
        have "read_kept ?st w inbound d (collect_loop room rs ?b orig ?st)"
          using 1(1) [OF Cons RBytes refl refl refl _ refl] s 1(3-6) all by (simp add: patch_offsets)
        then show ?thesis
          using Cons RBytes s by (simp add: collect_loop.simps [of room "x # rs" for x] read_kept_def Let_def patch_offsets)
      qed
    qed (use 1 Cons in \<open>simp_all add: collect_loop.simps [of room "x # rs" for x] read_kept_def in_inv_def\<close>)
  qed
qed

lemma forward_read_kept:
  assumes "in_inv st w inbound d" and "rs_in st = AwaitingOutbound \<or> rs_in st = InDone"
  shows "read_kept st w inbound d (case inner_poll_read room (rs_inner st) of (r, inner) \<Rightarrow> (r, st\<lparr>rs_inner := inner\<rparr>))"
proof (cases "in_reads (rs_inner st)")
  case (Cons a rs)
  then show ?thesis
    using assms by (cases a) (auto simp: inner_poll_read.simps read_kept_def in_inv_def take_drop_append)
qed (use assms in \<open>simp add: inner_poll_read.simps read_kept_def in_inv_def\<close>)

lemma poll_read_kept:
  assumes oi: "out_inv P st w" and ii: "in_inv st w inbound d"
  shows "read_kept st w inbound d (poll_read room st)"
proof (cases "rs_in st")
  case (InBuffer bytes orig)
  then have "76 \<le> length w" using oi by (auto simp: out_inv_def split: OutState.splits)
  with collect_loop_kept [of d bytes "in_reads (rs_inner st)" inbound orig w st room] show ?thesis
    using InBuffer ii by (simp add: poll_read_def in_inv_def Let_def)
next
  case (Deliver bytes pos)
  obtain r st' where dl: "deliver room bytes pos st = (r, st')" by fastforce
  have "restored w inbound (d @ drop pos bytes @ in_rest (rs_inner st))" using ii Deliver by (simp add: in_inv_def)
  from deliver_inv [OF dl this] show ?thesis using Deliver dl by (auto simp: poll_read_def read_kept_def)
qed (use forward_read_kept [OF ii] in \<open>auto simp: poll_read_def\<close>)

lemma read_kept_out_inv:
  assumes "read_kept st w inbound d (r, st')" and "out_inv P st w"
  shows "out_inv P st' w"
  using assms by (auto simp: read_kept_def out_inv_def split: OutState.splits)

lemma rw_step_inv:
  assumes P: "prims_ok P" and inv: "rw_inv P psk now inbound r"
  shows "rw_inv P psk now inbound (rw_step P r op)"
proof (cases "rr_failed r")
  case False
  note i = inv [unfolded rw_inv_def, simplified False, simplified]
  show ?thesis
  proof (cases op)
    case (OpWrite padding buf)
    obtain a st' where a: "poll_write P padding buf (rr_stream r) = (a, st')" by fastforce
    show ?thesis
      using poll_write_inv [OF P _ _ _ a, of "rr_written r" inbound "rr_delivered r"] i False OpWrite a
      by (auto simp: rw_step_def rw_inv_def split: poll.splits rust.splits)
  next
    case (OpFlush padding)
    obtain a st' where a: "poll_flush P padding (rr_stream r) = (a, st')" by fastforce
    show ?thesis
      using poll_flush_inv [OF _ _ a, of "rr_written r" inbound "rr_delivered r"] i False OpFlush a
      by (auto simp: rw_step_def rw_inv_def split: poll.splits rust.splits)
  next
    case (OpRead room)
    obtain a st' where a: "poll_read room (rr_stream r) = (a, st')" by fastforce
    have k: "read_kept (rr_stream r) (rr_written r) inbound (rr_delivered r) (a, st')"
      using poll_read_kept [of P "rr_stream r" "rr_written r" inbound "rr_delivered r" room] i a by simp
    then have "out_inv P st' (rr_written r)" using read_kept_out_inv i by blast
    then show ?thesis
      using k i False OpRead a by (auto simp: rw_step_def rw_inv_def read_kept_def split: poll.splits rust.splits)
  qed
qed (use inv in \<open>simp add: rw_step_def\<close>)

interpretation rewriter: invariant_machine "rw_step P" "\<lambda>r. prims_ok P \<and> rw_inv P psk now inbound r" for P psk now inbound
  by unfold_locales (simp add: rw_step_inv)

section \<open>What a connection sees\<close>

definition rw_start :: "inner_stream \<Rightarrow> KnockPsk \<Rightarrow> u64 \<Rightarrow> rw_run" where
  "rw_start inner psk now = \<lparr>rr_stream = rewriter_new inner psk now, rr_written = [], rr_delivered = [], rr_failed = False\<rparr>"

lemma rw_run_inv:
  assumes "prims_ok P" and "in_wire inner = []"
  shows "rw_inv P psk now (in_rest inner) (foldl (rw_step P) (rw_start inner psk now) ops)"
proof -
  have "rw_inv P psk now (in_rest inner) (rw_start inner psk now)"
    using assms(2) by (simp add: rw_start_def rewriter_new_def rw_inv_def out_inv_def in_inv_def)
  with assms(1) show ?thesis using rewriter.run_inv [of P psk now "in_rest inner" _ ops] by blast
qed

text \<open>
  C13. The rewriter is transparent but for the session id.  However the user interleaves writes,
  flushes and reads, and however the inner stream cuts them up, as long as no call has failed:
  the bytes on the wire and those still queued are the bytes the user wrote, in order and
  complete, with only the session id of the first record replaced by a knock over the record's
  random, and nothing is on the wire before the whole session id has been written; the bytes
  delivered, those held back and those still to come are the peer's bytes, in order and complete,
  with only the session id of the peer's first record after the patch replaced by the user's own.
\<close>

theorem rewriter_transparent:
  assumes "prims_ok P" and "in_wire inner = []"
    and "r = foldl (rw_step P) (rw_start inner psk now) ops" and "\<not> rr_failed r"
  defines "w \<equiv> rr_written r" and "sent \<equiv> in_wire (rs_inner (rr_stream r))"
    and "queued \<equiv> out_pending (rs_out (rr_stream r))"
    and "seen \<equiv> rr_delivered r @ in_pending (rs_in (rr_stream r)) @ in_rest (rs_inner (rr_stream r))"
  shows "(if length w < 76 then sent = [] \<and> queued = w
     else \<exists>padding. 16 \<le> length padding \<and> sent @ queued = knocked P psk now padding w)
     \<and> (seen = in_rest inner \<or> 76 \<le> length w \<and> restored w (in_rest inner) seen)"
proof -
  have inv: "rs_psk (rr_stream r) = psk" "rs_now (rr_stream r) = now" "out_inv P (rr_stream r) w"
    "in_inv (rr_stream r) w (in_rest inner) (rr_delivered r)"
    using rw_run_inv [OF assms(1,2)] assms(3,4) by (auto simp: rw_inv_def w_def)
  have out: "if length w < 76 then sent = [] \<and> queued = w else \<exists>padding. 16 \<le> length padding \<and> sent @ queued = knocked P psk now padding w"
    using inv(1-3) by (auto simp: out_inv_def sent_def queued_def split: OutState.splits)
  have "rs_in (rr_stream r) \<noteq> AwaitingOutbound \<Longrightarrow> 76 \<le> length w"
    using inv(3) by (auto simp: out_inv_def split: OutState.splits)
  then have "seen = in_rest inner \<or> 76 \<le> length w \<and> restored w (in_rest inner) seen"
    using inv(4) by (auto simp: in_inv_def Let_def seen_def split: InState.splits)
  with out show ?thesis by blast
qed

lemma poll_shutdown_spins:
  assumes "rs_out st = OutBuffer []" and "in_flushes (rs_inner st) = []"
  shows "poll_shutdown fuel P padding st = None"
  by (induction fuel) (simp_all add: assms poll_flush_def flush_rest_def inner_poll_flush.simps)

lemma flush_rest_done:
  assumes "flush_rest st = (Ready (Ok x), st')" and "\<nexists>b. rs_out st = OutBuffer b"
  shows "rs_out st' = OutDone"
  using assms by (auto simp: flush_rest_def Let_def split: OutState.splits prod.splits poll.splits rust.splits)

lemma poll_flush_done:
  assumes "poll_flush P padding st = (Ready (Ok x), st')" and "rs_out st \<noteq> OutBuffer []"
  shows "rs_out st' = OutDone"
  using assms flush_rest_done
  by (auto simp: poll_flush_def start_flush_def rust_bind_Ok_iff split: OutState.splits if_splits rust.splits)

text \<open>
  C35. On a stream whose flush never blocks, shutting the rewriter down ends unless nothing has
  been written yet; a shutdown before the first write never returns, whatever the number of turns
  the loop is given.
\<close>

theorem poll_shutdown_ends_iff:
  assumes "in_flushes (rs_inner st) = []"
  shows "(\<exists>fuel. poll_shutdown fuel P padding st \<noteq> None) \<longleftrightarrow> rs_out st \<noteq> OutBuffer []"
proof
  show "\<exists>fuel. poll_shutdown fuel P padding st \<noteq> None \<Longrightarrow> rs_out st \<noteq> OutBuffer []"
    using poll_shutdown_spins [OF _ assms] by auto
  assume "rs_out st \<noteq> OutBuffer []"
  then have "poll_shutdown (Suc (Suc 0)) P padding st \<noteq> None"
    using poll_flush_done by (auto split: prod.splits poll.splits rust.splits)
  then show "\<exists>fuel. poll_shutdown fuel P padding st \<noteq> None" by blast
qed

text \<open>A peer's record of \<open>77\<close> bytes, cut up, and the calls of a user that writes \<open>77\<close> bytes of its own.\<close>

definition toy_record :: "u8 \<Rightarrow> bytes" where
  "toy_record b = 22 # replicate 42 3 @ 32 # replicate 33 b"

definition toy_inner :: inner_stream where
  "toy_inner = \<lparr>in_writes = [WAccept 50, WPending, WAccept 100, WAccept 100], in_flushes = [], in_reads = [RBytes (take 40 (toy_record 5)), RPending, RBytes (drop 40 (toy_record 5))],
     in_wire = [], in_closed = False\<rparr>"

definition toy_ops :: "rw_op list" where
  "toy_ops = [OpWrite (replicate 16 9) (take 70 (toy_record 4)), OpWrite (replicate 16 9) (drop 70 (toy_record 4)), OpFlush (replicate 16 9), OpRead 50,
     OpFlush (replicate 16 9), OpRead 50, OpRead 50]"

lemma toy_run: "\<not> rr_failed (foldl (rw_step toy_prims) (rw_start toy_inner (replicate 32 1) 1000) toy_ops)"
  by code_simp

theorem rewriter_transparent_witness:
  "\<exists>r. r = foldl (rw_step toy_prims) (rw_start toy_inner (replicate 32 1) 1000) toy_ops \<and> \<not> rr_failed r
     \<and> \<not> length (rr_written r) < 76
     \<and> (\<exists>padding. 16 \<le> length padding \<and> in_wire (rs_inner (rr_stream r)) @ out_pending (rs_out (rr_stream r))
            = knocked toy_prims (replicate 32 1) 1000 padding (rr_written r))"
proof -
  let ?r = "foldl (rw_step toy_prims) (rw_start toy_inner (replicate 32 1) 1000) toy_ops"
  have "in_wire toy_inner = []" by (simp add: toy_inner_def)
  note t = rewriter_transparent [OF toy_prims_ok this refl toy_run]
  have "\<not> length (rr_written ?r) < 76" by code_simp
  with t toy_run show ?thesis by auto
qed

theorem poll_shutdown_ends_iff_witness:
  "\<nexists>fuel. poll_shutdown fuel toy_prims (replicate 16 9) (rewriter_new toy_inner (replicate 32 1) 1000) \<noteq> None"
  using poll_shutdown_ends_iff [of "rewriter_new toy_inner (replicate 32 1) 1000" toy_prims "replicate 16 9"]
  by (simp add: rewriter_new_def toy_inner_def)

end
