(* ===== verification/Net_Addr.thy ===== *)
theory Net_Addr
  imports Proteus_Spec
begin

text \<open>
  IP addresses as the standard library parses and prints them: \<open>IpAddr::from_str\<close> and the
  \<open>Display\<close> instances of \<open>Ipv4Addr\<close> and \<open>Ipv6Addr\<close>, over the bytes of a string.  The firewall,
  the outbound filter and the SOCKS front end turn text into addresses and back with them.

  Shown: printing an address and parsing it gives the address back.
\<close>

section \<open>Model\<close>

datatype IpAddr = V4 u32 | V6 u128

definition radix_val :: "int \<Rightarrow> int list \<Rightarrow> int" where
  "radix_val b ds = foldl (\<lambda>v d. v * b + d) 0 ds"

primrec radix_fixed :: "int \<Rightarrow> nat \<Rightarrow> int \<Rightarrow> int list" where
  "radix_fixed b 0 v = []"
| "radix_fixed b (Suc k) v = radix_fixed b k (v div b) @ [v mod b]"

function radix_digits :: "int \<Rightarrow> int \<Rightarrow> int list" where
  "radix_digits b n = (if n < b \<or> b < 2 then [n] else radix_digits b (n div b) @ [n mod b])"
  by pat_completeness auto
termination
  by (relation "measure (nat \<circ> snd)") (auto intro!: int_div_less_self)

declare radix_digits.simps [simp del]

abbreviation ipv4_octets :: "u32 \<Rightarrow> int list" where
  "ipv4_octets a \<equiv> radix_fixed 256 4 (uint a)"

abbreviation ipv4_of_octets :: "int list \<Rightarrow> u32" where
  "ipv4_of_octets os \<equiv> word_of_int (radix_val 256 os)"

abbreviation ipv6_segments :: "u128 \<Rightarrow> int list" where
  "ipv6_segments a \<equiv> radix_fixed 65536 8 (uint a)"

abbreviation ipv6_of_segments :: "int list \<Rightarrow> u128" where
  "ipv6_of_segments gs \<equiv> word_of_int (radix_val 65536 gs)"

subsection \<open>Parsing\<close>

text \<open>A parser takes the bytes left and returns a value and the bytes left after it.\<close>

definition digit_of :: "int \<Rightarrow> u8 \<Rightarrow> int option" where
  "digit_of radix c =
     (let n = uint c;
          d = (if 48 \<le> n \<and> n \<le> 57 then n - 48 else if 97 \<le> n \<and> n \<le> 122 then n - 87 else if 65 \<le> n \<and> n \<le> 90 then n - 55 else radix)
      in if d < radix then Some d else None)"

fun read_digits :: "int \<Rightarrow> bytes \<Rightarrow> int list \<times> bytes" where
  "read_digits radix [] = ([], [])"
| "read_digits radix (c # cs) =
     (case digit_of radix c of
        None \<Rightarrow> ([], c # cs)
      | Some d \<Rightarrow> (case read_digits radix cs of (ds, rest) \<Rightarrow> (d # ds, rest)))"

definition read_number :: "int \<Rightarrow> nat \<Rightarrow> bool \<Rightarrow> int \<Rightarrow> bytes \<Rightarrow> (int \<times> bytes) option" where
  "read_number radix max_digits allow_zero_prefix limit s =
     (case read_digits radix s of (ds, rest) \<Rightarrow>
        if max_digits < length ds \<or> ds = [] \<or> \<not> allow_zero_prefix \<and> hd s = 48 \<and> 1 < length ds \<or> limit < radix_val radix ds then None
        else Some (radix_val radix ds, rest))"

fun read_given_char :: "u8 \<Rightarrow> bytes \<Rightarrow> bytes option" where
  "read_given_char c [] = None"
| "read_given_char c (x # xs) = (if x = c then Some xs else None)"

definition read_separator :: "u8 \<Rightarrow> nat \<Rightarrow> (bytes \<Rightarrow> ('a \<times> bytes) option) \<Rightarrow> bytes \<Rightarrow> ('a \<times> bytes) option" where
  "read_separator sep i p s = (if 0 < i then Option.bind (read_given_char sep s) p else p s)"

fun read_octets :: "nat \<Rightarrow> nat \<Rightarrow> bytes \<Rightarrow> (int list \<times> bytes) option" where
  "read_octets i 0 s = Some ([], s)"
| "read_octets i (Suc k) s =
     (case read_separator 46 i (read_number 10 3 False 255) s of
        None \<Rightarrow> None
      | Some (o1, s1) \<Rightarrow> (case read_octets (Suc i) k s1 of None \<Rightarrow> None | Some (os, s2) \<Rightarrow> Some (o1 # os, s2)))"

definition read_ipv4_addr :: "bytes \<Rightarrow> (int list \<times> bytes) option" where
  "read_ipv4_addr s = read_octets 0 4 s"

text \<open>Groups of an IPv6 address, and whether an embedded IPv4 address ended them.\<close>

function read_groups :: "nat \<Rightarrow> nat \<Rightarrow> bytes \<Rightarrow> int list \<times> bool \<times> bytes" where
  "read_groups limit i s =
     (if limit \<le> i then ([], False, s)
      else
        (case (if i + 1 < limit then read_separator 58 i read_ipv4_addr s else None) of
           Some (os, s') \<Rightarrow> ([radix_val 256 (take 2 os), radix_val 256 (drop 2 os)], True, s')
         | None \<Rightarrow>
             (case read_separator 58 i (read_number 16 4 True 65535) s of
                None \<Rightarrow> ([], False, s)
              | Some (g, s') \<Rightarrow> (case read_groups limit (Suc i) s' of (gs, v4, s'') \<Rightarrow> (g # gs, v4, s'')))))"
  by pat_completeness auto
termination
  by (relation "measure (\<lambda>(limit, i, s). limit - i)") auto

declare read_groups.simps [simp del]

definition read_ipv6_addr :: "bytes \<Rightarrow> (int list \<times> bytes) option" where
  "read_ipv6_addr s =
     (case read_groups 8 0 s of (head, head_ipv4, s1) \<Rightarrow>
        if length head = 8 then Some (head, s1)
        else if head_ipv4 then None
        else
          (case Option.bind (read_given_char 58 s1) (read_given_char 58) of
             None \<Rightarrow> None
           | Some s2 \<Rightarrow>
               (case read_groups (8 - (length head + 1)) 0 s2 of (tail, _, s3) \<Rightarrow>
                  Some (head @ replicate (8 - (length head + length tail)) 0 @ tail, s3))))"

definition parse_ip :: "bytes \<Rightarrow> IpAddr option" where
  "parse_ip s =
     (case read_ipv4_addr s of
        Some (os, rest) \<Rightarrow> if rest = [] then Some (V4 (ipv4_of_octets os)) else None
      | None \<Rightarrow>
          (case read_ipv6_addr s of
             Some (gs, rest) \<Rightarrow> if rest = [] then Some (V6 (ipv6_of_segments gs)) else None
           | None \<Rightarrow> None))"

text \<open>\<open>u8::from_str\<close>.\<close>

definition parse_u8 :: "bytes \<Rightarrow> u8 option" where
  "parse_u8 s =
     (let ds = (case s of c # cs \<Rightarrow> if c = 43 then cs else s | [] \<Rightarrow> []) in
      case read_number 10 (length ds) True 255 ds of
        Some (n, []) \<Rightarrow> Some (word_of_int n)
      | _ \<Rightarrow> None)"

subsection \<open>Printing\<close>

definition digit_char :: "int \<Rightarrow> u8" where
  "digit_char d = (if d < 10 then word_of_int (48 + d) else word_of_int (87 + d))"

definition show_radix :: "int \<Rightarrow> int \<Rightarrow> bytes" where
  "show_radix b n = map digit_char (radix_digits b n)"

fun join_sep :: "u8 \<Rightarrow> bytes list \<Rightarrow> bytes" where
  "join_sep c [] = []"
| "join_sep c [x] = x"
| "join_sep c (x # y # ys) = x @ c # join_sep c (y # ys)"

definition show_ipv4 :: "u32 \<Rightarrow> bytes" where
  "show_ipv4 a = join_sep 46 (map (show_radix 10) (ipv4_octets a))"

text \<open>The first longest run of zero groups, as start and length; the runs of one group are not shortened.\<close>

fun longest_zeros :: "nat \<Rightarrow> int list \<Rightarrow> nat \<times> nat \<Rightarrow> nat \<times> nat \<Rightarrow> nat \<times> nat" where
  "longest_zeros i [] cur longest = longest"
| "longest_zeros i (g # gs) cur longest =
     (if g = 0 then
        let cur' = (if snd cur = 0 then (i, 1) else (fst cur, snd cur + 1)) in
        longest_zeros (Suc i) gs cur' (if snd longest < snd cur' then cur' else longest)
      else longest_zeros (Suc i) gs (0, 0) longest)"

definition show_groups :: "int list \<Rightarrow> bytes" where
  "show_groups gs = join_sep 58 (map (show_radix 16) gs)"

definition show_ipv6 :: "u128 \<Rightarrow> bytes" where
  "show_ipv6 a =
     (let gs = ipv6_segments a in
      if take 6 gs = [0, 0, 0, 0, 0, 65535] then ascii ''::ffff:'' @ show_ipv4 (ucast a)
      else
        (case longest_zeros 0 gs (0, 0) (0, 0) of (start, len) \<Rightarrow>
           if 1 < len then show_groups (take start gs) @ ascii ''::'' @ show_groups (drop (start + len) gs)
           else show_groups gs))"

definition show_ip :: "IpAddr \<Rightarrow> bytes" where
  "show_ip ip = (case ip of V4 a \<Rightarrow> show_ipv4 a | V6 a \<Rightarrow> show_ipv6 a)"

section \<open>Numbers\<close>

lemma radix_val_simps [simp]:
  "radix_val b [] = 0" "radix_val b [d] = d" "radix_val b (ds @ [d]) = radix_val b ds * b + d"
  by (simp_all add: radix_val_def)

lemma radix_fixed_facts:
  assumes "0 < b"
  shows "length (radix_fixed b k v) = k" and "\<forall>d\<in>set (radix_fixed b k v). 0 \<le> d \<and> d < b"
    and "0 \<le> v \<Longrightarrow> radix_val b (radix_fixed b k v) = v mod b ^ k"
proof -
  show "length (radix_fixed b k v) = k" by (induction k arbitrary: v) simp_all
  show "\<forall>d\<in>set (radix_fixed b k v). 0 \<le> d \<and> d < b" using assms by (induction k arbitrary: v) auto
  show "0 \<le> v \<Longrightarrow> radix_val b (radix_fixed b k v) = v mod b ^ k"
  proof (induction k arbitrary: v)
    case (Suc k)
    then have "radix_val b (radix_fixed b (Suc k) v) = v div b mod b ^ k * b + v mod b"
      using assms by (simp add: pos_imp_zdiv_nonneg_iff)
    also have "\<dots> = v mod (b * b ^ k)" using assms by (simp add: zmod_zmult2_eq mult.commute)
    finally show ?case by simp
  qed simp
qed

lemma radix_digits_facts:
  assumes "2 \<le> b" and "0 \<le> n"
  shows "radix_val b (radix_digits b n) = n \<and> radix_digits b n \<noteq> [] \<and> (\<forall>d\<in>set (radix_digits b n). 0 \<le> d \<and> d < b)
     \<and> (hd (radix_digits b n) = 0 \<longrightarrow> radix_digits b n = [0]) \<and> (\<forall>k. 0 < k \<and> n < b ^ k \<longrightarrow> length (radix_digits b n) \<le> k)"
  using assms
proof (induction b n rule: radix_digits.induct)
  case (1 b n)
  show ?case
  proof (cases "n < b")
    case True
    then show ?thesis using 1(2,3) by (subst (1 2 3 4 5 6) radix_digits.simps) (simp add: radix_val_def Suc_le_eq)
  next
    case False
    let ?ds = "radix_digits b (n div b)"
    have e: "radix_digits b n = ?ds @ [n mod b]" using False 1(2) by (simp add: radix_digits.simps [of b n])
    have nn: "\<not> (n < b \<or> b < 2)" using False 1(2) by simp
    note ih = 1(1) [OF nn 1(2)]
    have q: "0 \<le> n div b" "n div b \<noteq> 0" using False 1(2,3) by (auto simp: pos_imp_zdiv_nonneg_iff zdiv_eq_0_iff)
    have "length ?ds + 1 \<le> k" if "n < b ^ k" for k
    proof (cases k)
      case (Suc j)
      have "b * (n div b) < b * b ^ j" using that Suc 1(2) pos_mod_sign [of b n] by (simp add: minus_mod_eq_mult_div [symmetric] del: pos_mod_sign)
      then have "n div b < b ^ j" using 1(2) by simp
      moreover have "j \<noteq> 0" using calculation q by (cases j) auto
      ultimately show ?thesis using ih [OF q(1)] Suc by auto
    qed (use that False 1(2) in simp)
    then show ?thesis using ih [OF q(1)] q 1(2,3) by (auto simp: e)
  qed
qed

lemma digit_char_facts:
  assumes "0 \<le> d" and "d < 16"
  shows "digit_of b (digit_char d) = (if d < b then Some d else None)" and "digit_char d = 48 \<longleftrightarrow> d = 0"
    and "digit_char d \<noteq> 46" and "digit_char d \<noteq> 58"
proof -
  have u: "uint (word_of_int x :: u8) = x" if "0 \<le> x" "x < 256" for x
    using that by (simp add: uint_word_of_int)
  have "uint (digit_char d) = (if d < 10 then 48 + d else 87 + d)"
    using assms u [of "48 + d"] u [of "87 + d"] by (simp only: digit_char_def split: if_split) simp
  moreover from this have "digit_char d = c \<longleftrightarrow> (if d < 10 then 48 + d else 87 + d) = uint c" for c
    by (metis uint_word_of_int_eq word_uint_eq_iff)
  ultimately show "digit_of b (digit_char d) = (if d < b then Some d else None)" "digit_char d = 48 \<longleftrightarrow> d = 0"
    "digit_char d \<noteq> 46" "digit_char d \<noteq> 58"
    using assms by (auto simp: digit_of_def Let_def)
qed

text \<open>What ends a number.\<close>

definition stops :: "int \<Rightarrow> bytes \<Rightarrow> bool" where
  "stops b rest \<longleftrightarrow> rest = [] \<or> digit_of b (hd rest) = None"

lemma stops_simps [simp]: "stops b []" "b \<le> 16 \<Longrightarrow> stops b (46 # rest)" "b \<le> 16 \<Longrightarrow> stops b (58 # rest)"
  by (simp_all add: stops_def digit_of_def Let_def)

lemma read_digits_prefix:
  assumes "stops b rest" and "\<forall>d\<in>set ds. 0 \<le> d \<and> d < 16"
  shows "read_digits b (map digit_char ds @ rest) = (takeWhile (\<lambda>d. d < b) ds, map digit_char (dropWhile (\<lambda>d. d < b) ds) @ rest)"
  using assms
proof (induction ds)
  case Nil
  then show ?case by (cases rest) (auto simp: stops_def)
qed (auto simp: digit_char_facts)

lemma read_number_show:
  assumes "stops b rest" and "2 \<le> b" "b \<le> 16" and "0 \<le> n" "n \<le> limit" "n < b ^ k" "0 < k"
  shows "read_number b k z limit (show_radix b n @ rest) = Some (n, rest)"
proof -
  note f = radix_digits_facts [OF assms(2,4)]
  have d: "\<forall>d\<in>set (radix_digits b n). 0 \<le> d \<and> d < 16" "\<forall>d\<in>set (radix_digits b n). d < b" using f assms(3) by auto
  have "takeWhile (\<lambda>d. d < b) (radix_digits b n) = radix_digits b n" "dropWhile (\<lambda>d. d < b) (radix_digits b n) = []"
    using d(2) by simp_all
  then have r: "read_digits b (show_radix b n @ rest) = (radix_digits b n, rest)"
    by (simp add: show_radix_def read_digits_prefix [OF assms(1) d(1)])
  have "hd (show_radix b n @ rest) = 48 \<Longrightarrow> length (radix_digits b n) = 1"
    using f d(1) by (cases "radix_digits b n") (auto simp: show_radix_def digit_char_facts)
  then show ?thesis using f assms(5-7) by (auto simp: read_number_def r)
qed

section \<open>Addresses\<close>

lemma join_sep_Cons: "join_sep c (x # xs) = x @ concat (map ((#) c) xs)"
  by (induction xs arbitrary: x) simp_all

lemma read_octets_show:
  assumes "stops 10 rest" and "\<forall>x\<in>set os. 0 \<le> x \<and> x < 256"
  shows "read_octets (Suc i) (length os) (concat (map ((#) 46) (map (show_radix 10) os)) @ rest) = Some (os, rest)"
  using assms
proof (induction os arbitrary: i)
  case (Cons x os)
  have "stops 10 (concat (map ((#) 46) (map (show_radix 10) os)) @ rest)" using Cons.prems by (cases os) auto
  from read_number_show [OF this, of x 255 3 False] show ?case
    using Cons by (simp add: read_separator_def)
qed simp

lemma read_ipv4_unfold:
  "read_ipv4_addr s = (case read_number 10 3 False 255 s of None \<Rightarrow> None
     | Some (x, s1) \<Rightarrow> (case read_octets (Suc 0) 3 s1 of None \<Rightarrow> None | Some (os, s2) \<Rightarrow> Some (x # os, s2)))"
proof -
  have four: "(4 :: nat) = Suc 3" by simp
  show ?thesis unfolding read_ipv4_addr_def four read_octets.simps(2) by (simp add: read_separator_def)
qed

lemma read_octets_no_dot:
  assumes "read_given_char 46 s = None"
  shows "read_octets (Suc i) 3 s = None"
proof -
  have three: "(3 :: nat) = Suc 2" by simp
  show ?thesis unfolding three read_octets.simps(2) using assms by (simp add: read_separator_def)
qed

lemma read_ipv4_show:
  assumes "stops 10 rest"
  shows "read_ipv4_addr (show_ipv4 a @ rest) = Some (ipv4_octets a, rest)"
proof -
  obtain x os where e: "ipv4_octets a = x # os" "length os = 3" "0 \<le> x \<and> x < 256" "\<forall>x\<in>set os. 0 \<le> x \<and> x < 256"
    using radix_fixed_facts(1,2) [of 256 4 "uint a"] by (cases "ipv4_octets a") auto
  have "stops 10 (concat (map ((#) 46) (map (show_radix 10) os)) @ rest)" using e(2) by (cases os) auto
  from read_number_show [OF this, of x 255 3 False] show ?thesis
    using read_octets_show [OF assms e(4), of 0] e
    by (simp add: read_ipv4_unfold show_ipv4_def join_sep_Cons)
qed

lemma ipv4_of_octets_octets: "ipv4_of_octets (ipv4_octets a) = a"
  using radix_fixed_facts(3) [of 256 "uint a" 4] uint_lt2p [of a] by simp

lemma ipv6_of_segments_segments: "ipv6_of_segments (ipv6_segments a) = a"
  using radix_fixed_facts(3) [of 65536 "uint a" 8] uint_lt2p [of a] by simp

text \<open>A group of an IPv6 address is not the start of an IPv4 address.\<close>

lemma read_ipv4_group:
  assumes "rest = [] \<or> hd rest = 58" and "0 \<le> g"
  shows "read_ipv4_addr (show_radix 16 g @ rest) = None"
proof -
  let ?ds = "radix_digits 16 g"
  have d: "\<forall>d\<in>set ?ds. 0 \<le> d \<and> d < 16" using radix_digits_facts [of 16 g] assms(2) by simp
  have "stops 10 rest" using assms(1) by (cases rest) auto
  note r = read_digits_prefix [OF this d]
  let ?left = "map digit_char (dropWhile (\<lambda>d. d < 10) ?ds) @ rest"
  have "read_given_char 46 ?left = None"
  proof (cases "dropWhile (\<lambda>d. d < 10) ?ds")
    case Nil
    then show ?thesis using assms(1) by (cases rest) (auto simp only: list.map append_Nil read_given_char.simps, simp)
  next
    case (Cons x xs)
    then have "x \<in> set ?ds" by (metis list.set_intros(1) set_dropWhileD)
    then show ?thesis using Cons d digit_char_facts(3) by auto
  qed
  then show ?thesis
    by (auto simp: read_ipv4_unfold read_number_def r show_radix_def read_octets_no_dot)
qed

lemma read_ipv4_colon: "read_ipv4_addr (58 # rest) = None"
  by (simp add: read_ipv4_unfold read_number_def digit_of_def Let_def)

lemma read_ipv4_Nil: "read_ipv4_addr [] = None"
  by (simp add: read_ipv4_unfold read_number_def)

text \<open>What follows the groups of a printed address: the end, or two colons.\<close>

definition groups_stop :: "bytes \<Rightarrow> bool" where
  "groups_stop rest \<longleftrightarrow> rest = [] \<or> (\<exists>r. rest = 58 # 58 # r)"

lemma read_groups_stop:
  assumes "groups_stop rest"
  shows "read_groups limit i rest = ([], False, rest)"
  using assms
  by (auto simp: groups_stop_def read_groups.simps [of limit i] read_separator_def read_ipv4_colon read_ipv4_Nil
      read_number_def digit_of_def Let_def split: if_splits)

lemma read_groups_more:
  assumes "groups_stop rest" and "\<forall>g\<in>set gs. 0 \<le> g \<and> g < 65536" and "Suc i + length gs \<le> limit"
  shows "read_groups limit (Suc i) (concat (map ((#) 58) (map (show_radix 16) gs)) @ rest) = (gs, False, rest)"
  using assms
proof (induction gs arbitrary: i)
  case (Cons g gs)
  let ?r = "concat (map ((#) 58) (map (show_radix 16) gs)) @ rest"
  have e: "?r = [] \<or> hd ?r = 58" using Cons.prems(1) by (cases gs) (auto simp: groups_stop_def)
  then have "stops 16 ?r" by (cases ?r) auto
  from read_number_show [OF this, of g 65535 4 True] read_ipv4_group [OF e, of g] show ?case
    using Cons by (simp add: read_groups.simps [of limit "Suc i"] read_separator_def)
qed (simp add: read_groups_stop)

lemma read_groups_show:
  assumes "groups_stop rest" and "\<forall>g\<in>set gs. 0 \<le> g \<and> g < 65536" and "length gs \<le> limit"
  shows "read_groups limit 0 (show_groups gs @ rest) = (gs, False, rest)"
proof (cases gs)
  case (Cons g gs')
  let ?r = "concat (map ((#) 58) (map (show_radix 16) gs')) @ rest"
  have e: "?r = [] \<or> hd ?r = 58" using assms(1) by (cases gs') (auto simp: groups_stop_def)
  then have "stops 16 ?r" by (cases ?r) auto
  from read_number_show [OF this, of g 65535 4 True] read_ipv4_group [OF e, of g]
    read_groups_more [OF assms(1), of gs' 0 limit] show ?thesis
    using Cons assms by (simp add: read_groups.simps [of limit 0] read_separator_def show_groups_def join_sep_Cons)
qed (simp add: show_groups_def read_groups_stop assms(1))

lemma read_ipv4_groups:
  assumes "groups_stop rest" and "\<forall>g\<in>set gs. 0 \<le> g \<and> g < 65536"
  shows "read_ipv4_addr (show_groups gs @ rest) = None"
proof (cases gs)
  case (Cons g gs')
  have "concat (map ((#) 58) (map (show_radix 16) gs')) @ rest = [] \<or> hd (concat (map ((#) 58) (map (show_radix 16) gs')) @ rest) = 58"
    using assms(1) by (cases gs') (auto simp: groups_stop_def)
  from read_ipv4_group [OF this, of g] show ?thesis using Cons assms(2) by (simp add: show_groups_def join_sep_Cons)
qed (use assms(1) in \<open>auto simp: show_groups_def groups_stop_def read_ipv4_colon read_ipv4_Nil\<close>)

section \<open>Round trip\<close>

lemma longest_zeros_run:
  assumes "longest_zeros i xs cur longest = (start, len)" and "gs = pre @ xs" "length pre = i"
    and "\<forall>j. fst cur \<le> j \<and> j < fst cur + snd cur \<longrightarrow> gs ! j = 0" "snd cur \<noteq> 0 \<longrightarrow> fst cur + snd cur = i"
    and "\<forall>j. fst longest \<le> j \<and> j < fst longest + snd longest \<longrightarrow> gs ! j = 0" "fst longest + snd longest \<le> i"
  shows "start + len \<le> length gs \<and> (\<forall>j. start \<le> j \<and> j < start + len \<longrightarrow> gs ! j = 0)"
  using assms
proof (induction xs arbitrary: i pre cur longest)
  case (Cons x xs)
  have x: "gs ! i = x" "gs = (pre @ [x]) @ xs" "length (pre @ [x]) = Suc i" using Cons.prems(2,3) by (auto simp: nth_append)
  show ?case
  proof (cases "x = 0")
    case True
    obtain c where c: "c = (if snd cur = 0 then (i, 1) else (fst cur, snd cur + 1))" by blast
    have run: "longest_zeros (Suc i) xs c (if snd longest < snd c then c else longest) = (start, len)"
      using Cons.prems(1) True by (simp only: longest_zeros.simps Let_def c refl if_True)
    have z: "\<forall>j. fst c \<le> j \<and> j < fst c + snd c \<longrightarrow> gs ! j = 0" "fst c + snd c = Suc i"
      using Cons.prems(4,5) x(1) True by (auto simp: c less_Suc_eq)
    show ?thesis
      by (rule Cons.IH [OF run x(2,3) z(1)]) (use z Cons.prems(6,7) in simp_all)
  next
    case False
    then show ?thesis using Cons.IH [of "Suc i" "(0, 0)" longest, OF _ x(2,3)] Cons.prems(1,6,7) by simp
  qed
qed auto

lemma split_zero_run:
  assumes "longest_zeros 0 gs (0, 0) (0, 0) = (start, len)"
  shows "start + len \<le> length gs" and "gs = take start gs @ replicate len 0 @ drop (start + len) gs"
proof -
  note r = longest_zeros_run [OF assms, of gs "[]"]
  then show l: "start + len \<le> length gs" by simp
  have "take len (drop start gs) = replicate len 0"
    using r l by (intro nth_equalityI) (auto simp: add.commute)
  then show "gs = take start gs @ replicate len 0 @ drop (start + len) gs"
    by (metis append_take_drop_id drop_drop add.commute)
qed

lemma ascii_colons: "ascii ''::'' = [58, 58]" "ascii ''::ffff:'' = 58 # 58 # show_radix 16 65535 @ [58]"
  by code_simp+

lemma parse_show_groups:
  assumes "\<forall>g\<in>set gs. 0 \<le> g \<and> g < 65536" and "length gs = 8"
  shows "read_ipv4_addr (show_groups gs) = None" and "read_ipv6_addr (show_groups gs) = Some (gs, [])"
  using read_groups_show [of "[]" gs 8] read_ipv4_groups [of "[]" gs] assms
  by (simp_all add: read_ipv6_addr_def groups_stop_def)

lemma parse_show_compressed:
  assumes gs: "\<forall>g\<in>set (xs @ ys). 0 \<le> g \<and> g < 65536" and len: "length xs + n + length ys = 8" "1 < n"
    and s: "s = show_groups xs @ 58 # 58 # show_groups ys"
  shows "read_ipv4_addr s = None" and "read_ipv6_addr s = Some (xs @ replicate n 0 @ ys, [])"
proof -
  have st: "groups_stop (58 # 58 # show_groups ys)" "groups_stop []" by (simp_all add: groups_stop_def)
  show "read_ipv4_addr s = None" using read_ipv4_groups [OF st(1)] gs by (simp add: s)
  have "read_groups 8 0 s = (xs, False, 58 # 58 # show_groups ys)" using read_groups_show [OF st(1)] gs len by (simp add: s)
  moreover have "read_groups (8 - (length xs + 1)) 0 (show_groups ys) = (ys, False, [])"
    using read_groups_show [OF st(2), of ys] gs len by simp
  moreover have "8 - (length xs + length ys) = n" using len by simp
  ultimately show "read_ipv6_addr s = Some (xs @ replicate n 0 @ ys, [])" using len by (simp add: read_ipv6_addr_def)
qed

text \<open>An IPv4-mapped address, printed with the IPv4 part in decimal.\<close>

lemma parse_show_mapped:
  assumes "s = ascii ''::ffff:'' @ show_ipv4 b"
  shows "read_ipv4_addr s = None"
    and "\<exists>x y. read_ipv6_addr s = Some ([0, 0, 0, 0, 0, 65535, x, y], []) \<and> x * 65536 + y = uint b"
proof -
  obtain p q r t where o4: "ipv4_octets b = [p, q, r, t]" by (simp add: eval_nat_numeral)
  have v: "radix_val 256 [p, q, r, t] = uint b"
    using radix_fixed_facts(3) [of 256 "uint b" 4] uint_lt2p [of b] o4 by simp
  let ?rest = "58 # show_ipv4 b"
  have s: "s = 58 # 58 # show_radix 16 65535 @ ?rest" by (simp add: assms ascii_colons)
  show "read_ipv4_addr s = None" by (simp add: s read_ipv4_colon)
  have n: "read_number 16 4 True 65535 (show_radix 16 65535 @ ?rest) = Some (65535, ?rest)" by (rule read_number_show) simp_all
  have "read_groups 7 (Suc 0) ?rest = ([p * 256 + q, r * 256 + t], True, [])"
    using read_ipv4_show [of "[]" b] o4 by (simp add: read_groups.simps [of 7 "Suc 0"] read_separator_def radix_val_def)
  then have "read_groups 7 0 (show_radix 16 65535 @ ?rest) = ([65535, p * 256 + q, r * 256 + t], True, [])"
    using n read_ipv4_group [of ?rest 65535] by (simp add: read_groups.simps [of 7 0] read_separator_def)
  moreover have "read_groups 8 0 s = ([], False, s)" by (rule read_groups_stop) (simp add: s groups_stop_def)
  ultimately have "read_ipv6_addr s = Some ([0, 0, 0, 0, 0, 65535, p * 256 + q, r * 256 + t], [])"
    by (simp add: read_ipv6_addr_def s eval_nat_numeral)
  moreover have "(p * 256 + q) * 65536 + (r * 256 + t) = uint b" using v by (simp add: radix_val_def)
  ultimately show "\<exists>x y. read_ipv6_addr s = Some ([0, 0, 0, 0, 0, 65535, x, y], []) \<and> x * 65536 + y = uint b" by blast
qed

lemma parse_show_ipv4: "parse_ip (show_ipv4 a) = Some (V4 a)"
  using read_ipv4_show [of "[]" a] ipv4_of_octets_octets by (simp add: parse_ip_def)

text \<open>The low half of an IPv4-mapped address.\<close>

lemma mapped_value:
  assumes "take 6 (ipv6_segments a) = [0, 0, 0, 0, 0, 65535]"
  shows "uint a = 65535 * 2 ^ 32 + uint (ucast a :: u32)"
proof -
  have "\<exists>x y. drop 6 (ipv6_segments a) = [x, y]" by (simp add: eval_nat_numeral)
  then obtain x y where "drop 6 (ipv6_segments a) = [x, y]" by blast
  then have e: "ipv6_segments a = [0, 0, 0, 0, 0, 65535, x, y]"
    using append_take_drop_id [of 6 "ipv6_segments a"] by (simp only: assms) simp
  have b: "0 \<le> x" "x < 65536" "0 \<le> y" "y < 65536" using radix_fixed_facts(2) [of 65536 8 "uint a"] unfolding e by simp_all
  have "uint a = radix_val 65536 (ipv6_segments a)" using radix_fixed_facts(3) [of 65536 "uint a" 8] uint_lt2p [of a] by simp
  also have "\<dots> = 65535 * 2 ^ 32 + (x * 65536 + y)" unfolding e by (simp add: radix_val_def)
  finally have u: "uint a = 65535 * 2 ^ 32 + (x * 65536 + y)" .
  have "uint (ucast a :: u32) = uint a mod 2 ^ 32" by (simp add: unsigned_ucast_eq take_bit_eq_mod)
  also have "\<dots> = (x * 65536 + y) mod 2 ^ 32" unfolding u by (rule mod_mult_self3)
  also have "\<dots> = x * 65536 + y" using b by (intro mod_pos_pos_trivial) auto
  finally show ?thesis using u by simp
qed

lemma parse_show_ipv6: "parse_ip (show_ipv6 a) = Some (V6 a)"
proof -
  let ?gs = "ipv6_segments a"
  have g: "\<forall>g\<in>set ?gs. 0 \<le> g \<and> g < 65536" "length ?gs = 8" using radix_fixed_facts(1,2) [of 65536 8 "uint a"] by simp_all
  obtain start len where z: "longest_zeros 0 ?gs (0, 0) (0, 0) = (start, len)" by fastforce
  note run = split_zero_run [OF z]
  consider (mapped) "take 6 ?gs = [0, 0, 0, 0, 0, 65535]" | (short) "take 6 ?gs \<noteq> [0, 0, 0, 0, 0, 65535]" "1 < len"
    | (full) "take 6 ?gs \<noteq> [0, 0, 0, 0, 0, 65535]" "\<not> 1 < len" by blast
  then show ?thesis
  proof cases
    case mapped
    then have s: "show_ipv6 a = ascii ''::ffff:'' @ show_ipv4 (ucast a)" by (simp add: show_ipv6_def Let_def)
    note p = parse_show_mapped [OF s]
    then obtain x y where "read_ipv6_addr (show_ipv6 a) = Some ([0, 0, 0, 0, 0, 65535, x, y], [])" "x * 65536 + y = uint (ucast a :: u32)" by blast
    moreover from this have "radix_val 65536 [0, 0, 0, 0, 0, 65535, x, y] = uint a" using mapped_value [OF mapped] by (simp add: radix_val_def)
    ultimately show ?thesis using p(1) by (simp add: parse_ip_def)
  next
    case short
    have "show_ipv6 a = show_groups (take start ?gs) @ 58 # 58 # show_groups (drop (start + len) ?gs)"
      using short z by (simp add: show_ipv6_def Let_def ascii_colons)
    moreover have "\<forall>g\<in>set (take start ?gs @ drop (start + len) ?gs). 0 \<le> g \<and> g < 65536" using g(1) by (auto dest: in_set_takeD in_set_dropD)
    moreover have "length (take start ?gs) + len + length (drop (start + len) ?gs) = 8" using run(1) g(2) by simp
    ultimately show ?thesis
      using parse_show_compressed [of "take start ?gs" "drop (start + len) ?gs" len "show_ipv6 a"] short(2) run(2) ipv6_of_segments_segments [of a]
      by (simp add: parse_ip_def)
  next
    case full
    then have "show_ipv6 a = show_groups ?gs" using z by (simp add: show_ipv6_def Let_def)
    then show ?thesis using parse_show_groups [OF g] ipv6_of_segments_segments [of a] by (simp add: parse_ip_def)
  qed
qed

end
