(* ===== verification/Firewall.thy ===== *)
theory Firewall
  imports Net_Addr
begin

text \<open>
  The address firewall of \<open>firewall.rs\<close>: CIDR rules, their text form, the allow and deny lists.
  The source computes masks with a subtraction that needs a prefix within the width; the parser
  is the only producer of rules and checks it, so the mask is written with a truncating one.

  Shown: a firewall configured from text admits exactly the addresses the texts describe.
\<close>

section \<open>Model\<close>

datatype CidrRule = CidrV4 u32 u8 | CidrV6 u128 u8

datatype CidrError = InvalidIp bytes | InvalidPrefix bytes | PrefixOutOfRange u8

text \<open>\<open>MAX << (width - prefix)\<close>, with the full mask spelled out for the width itself.\<close>

definition prefix_mask :: "u8 \<Rightarrow> 'a::len word" where
  "prefix_mask prefix =
     (if unat prefix = LENGTH('a) then - 1 else push_bit (LENGTH('a) - unat prefix) (- 1))"

definition v4_prefix_match :: "u32 \<Rightarrow> u8 \<Rightarrow> u32 \<Rightarrow> bool" where
  "v4_prefix_match net prefix peer \<longleftrightarrow>
     (if prefix = 0 then True else let mask = prefix_mask prefix in peer AND mask = net AND mask)"

definition v6_prefix_match :: "u128 \<Rightarrow> u8 \<Rightarrow> u128 \<Rightarrow> bool" where
  "v6_prefix_match net prefix peer \<longleftrightarrow>
     (if prefix = 0 then True else let mask = prefix_mask prefix in peer AND mask = net AND mask)"

definition canonicalize_v4 :: "u32 \<Rightarrow> u8 \<Rightarrow> u32" where
  "canonicalize_v4 addr prefix = (if prefix = 0 then 0 else addr AND prefix_mask prefix)"

definition canonicalize_v6 :: "u128 \<Rightarrow> u8 \<Rightarrow> u128" where
  "canonicalize_v6 addr prefix = (if prefix = 0 then 0 else addr AND prefix_mask prefix)"

fun cidr_matches :: "CidrRule \<Rightarrow> IpAddr \<Rightarrow> bool" where
  "cidr_matches (CidrV4 net prefix) (V4 addr) = v4_prefix_match net prefix addr"
| "cidr_matches (CidrV6 net prefix) (V6 addr) = v6_prefix_match net prefix addr"
| "cidr_matches _ _ = False"

text \<open>The text before and after the first slash.\<close>

definition split_slash :: "bytes \<Rightarrow> bytes \<times> bytes option" where
  "split_slash s = (let host = takeWhile (\<lambda>c. c \<noteq> 47) s in
     (host, if length host < length s then Some (drop (length host + 1) s) else None))"

definition cidr_from_str :: "bytes \<Rightarrow> (CidrError, CidrRule) rust" where
  "cidr_from_str s =
     (case split_slash s of (host_part, prefix_part) \<Rightarrow>
        rust_bind (ok_or (parse_ip host_part) (InvalidIp host_part)) (\<lambda>ip.
        (case (ip, prefix_part) of
           (V4 addr, Some p) \<Rightarrow>
             rust_bind (ok_or (parse_u8 p) (InvalidPrefix p)) (\<lambda>prefix.
             if prefix > 32 then Err (PrefixOutOfRange prefix)
             else Ok (CidrV4 (canonicalize_v4 addr prefix) prefix))
         | (V4 addr, None) \<Rightarrow> Ok (CidrV4 addr 32)
         | (V6 addr, Some p) \<Rightarrow>
             rust_bind (ok_or (parse_u8 p) (InvalidPrefix p)) (\<lambda>prefix.
             if prefix > 128 then Err (PrefixOutOfRange prefix)
             else Ok (CidrV6 (canonicalize_v6 addr prefix) prefix))
         | (V6 addr, None) \<Rightarrow> Ok (CidrV6 addr 128))))"

record Firewall =
  fw_allow :: "CidrRule list"
  fw_deny :: "CidrRule list"

definition firewall_new :: Firewall where
  "firewall_new = \<lparr>fw_allow = [], fw_deny = []\<rparr>"

text \<open>Appending parsed rules; the rules before the first bad one stay.\<close>

fun extend_rules :: "bytes list \<Rightarrow> CidrRule list \<Rightarrow> (CidrError, unit) rust \<times> CidrRule list" where
  "extend_rules [] rules = (Ok (), rules)"
| "extend_rules (s # ss) rules =
     (case cidr_from_str s of
        Ok r \<Rightarrow> extend_rules ss (rules @ [r])
      | Err e \<Rightarrow> (Err e, rules)
      | Panic \<Rightarrow> (Panic, rules))"

definition extend_allow :: "bytes list \<Rightarrow> Firewall \<Rightarrow> (CidrError, unit) rust \<times> Firewall" where
  "extend_allow texts fw = (case extend_rules texts (fw_allow fw) of (r, rules) \<Rightarrow> (r, fw\<lparr>fw_allow := rules\<rparr>))"

definition extend_deny :: "bytes list \<Rightarrow> Firewall \<Rightarrow> (CidrError, unit) rust \<times> Firewall" where
  "extend_deny texts fw = (case extend_rules texts (fw_deny fw) of (r, rules) \<Rightarrow> (r, fw\<lparr>fw_deny := rules\<rparr>))"

definition admit :: "Firewall \<Rightarrow> IpAddr \<Rightarrow> bool" where
  "admit fw peer \<longleftrightarrow>
     (if list_ex (\<lambda>r. cidr_matches r peer) (fw_deny fw) then False
      else if fw_allow fw = [] then True
      else list_ex (\<lambda>r. cidr_matches r peer) (fw_allow fw))"

definition rule_count :: "Firewall \<Rightarrow> nat" where
  "rule_count fw = length (fw_allow fw) + length (fw_deny fw)"

definition is_active :: "Firewall \<Rightarrow> bool" where
  "is_active fw \<longleftrightarrow> fw_allow fw \<noteq> [] \<or> fw_deny fw \<noteq> []"

text \<open>The shared firewall, whose rules are replaced as a whole.\<close>

record ReloadableFirewall =
  rf_inner :: Firewall

definition rf_admit :: "ReloadableFirewall \<Rightarrow> IpAddr \<Rightarrow> bool" where
  "rf_admit rf peer = admit (rf_inner rf) peer"

definition rf_reload :: "Firewall \<Rightarrow> ReloadableFirewall \<Rightarrow> ReloadableFirewall" where
  "rf_reload new_rules rf = rf\<lparr>rf_inner := new_rules\<rparr>"

section \<open>What a rule covers\<close>

text \<open>
  The reference semantics of a rule text, without masks: the first \<open>prefix\<close> bits of the address
  are those of the network, the text without a slash standing for the full width.
\<close>

definition same_prefix :: "'a::len word \<Rightarrow> nat \<Rightarrow> 'a word \<Rightarrow> bool" where
  "same_prefix net p a \<longleftrightarrow> uint a div 2 ^ (LENGTH('a) - p) = uint net div 2 ^ (LENGTH('a) - p)"

definition text_covers :: "bytes \<Rightarrow> IpAddr \<Rightarrow> bool" where
  "text_covers t peer \<longleftrightarrow>
     (case split_slash t of (host, p) \<Rightarrow>
        (case (parse_ip host, peer) of
           (Some (V4 net), V4 a) \<Rightarrow> same_prefix net (case p of None \<Rightarrow> 32 | Some q \<Rightarrow> unat (the (parse_u8 q))) a
         | (Some (V6 net), V6 a) \<Rightarrow> same_prefix net (case p of None \<Rightarrow> 128 | Some q \<Rightarrow> unat (the (parse_u8 q))) a
         | _ \<Rightarrow> False))"

lemma and_mask_eq_iff:
  fixes a b :: "'a::len word"
  shows "a AND push_bit k (- 1) = b AND push_bit k (- 1) \<longleftrightarrow> uint a div 2 ^ k = uint b div 2 ^ k"
proof -
  have "a AND push_bit k (- 1) = b AND push_bit k (- 1) \<longleftrightarrow> (\<forall>n < LENGTH('a). k \<le> n \<longrightarrow> bit a n = bit b n)"
    by (auto simp: bit_eq_iff bit_simps)
  also have "\<dots> \<longleftrightarrow> (\<forall>m. bit a (k + m) = bit b (k + m))"
    by (metis bit_imp_le_length le_Suc_ex le_add1)
  also have "\<dots> \<longleftrightarrow> drop_bit k a = drop_bit k b"
    by (auto simp: bit_eq_iff bit_simps) (meson bit_imp_le_length le_add2 le_less_trans)+
  also have "\<dots> \<longleftrightarrow> uint a div 2 ^ k = uint b div 2 ^ k"
    unfolding word_uint_eq_iff unsigned_drop_bit_eq by (simp add: drop_bit_eq_div bintr_uint)
  finally show ?thesis .
qed

lemma same_prefix_mask:
  fixes a b :: "'a::len word"
  assumes "unat p \<le> LENGTH('a)"
  shows "a AND prefix_mask p = b AND prefix_mask p \<longleftrightarrow> same_prefix b (unat p) a"
  using and_mask_eq_iff [of a "LENGTH('a) - unat p" b] by (auto simp: prefix_mask_def same_prefix_def word_uint_eq_iff)

lemma same_prefix_zero: "same_prefix net 0 a"
  by (simp add: same_prefix_def)

lemma prefix_mask_idem: "(a AND prefix_mask p) AND prefix_mask p = a AND prefix_mask p"
  by (simp add: and.assoc)

lemma ok_or_Ok_iff [simp]: "ok_or x e = Ok a \<longleftrightarrow> x = Some a"
  by (cases x) simp_all

lemma cidr_matches_text:
  assumes "cidr_from_str t = Ok r"
  shows "cidr_matches r peer = text_covers t peer"
proof -
  obtain host p where hp: "split_slash t = (host, p)" by fastforce
  obtain ip where ip: "parse_ip host = Some ip" using assms hp by (cases "parse_ip host") (auto simp: cidr_from_str_def)
  have z: "unat q = 0" if "q = 0" for q :: u8 using that by simp
  have le: "unat q \<le> n" if "\<not> word_of_nat n < q" "n < 256" for q :: u8 and n
    using that by (simp add: word_less_nat_alt unat_of_nat_u8 not_less)
  show ?thesis
    using assms hp ip le [of 32] le [of 128]
    by (cases ip; cases p; cases peer)
      (auto simp: cidr_from_str_def rust_bind_Ok_iff text_covers_def v4_prefix_match_def v6_prefix_match_def canonicalize_v4_def
        canonicalize_v6_def Let_def prefix_mask_idem same_prefix_mask same_prefix_zero split: if_splits option.splits)
qed

lemma extend_rules_Ok:
  assumes "extend_rules ts rules = (Ok (), rules')"
  shows "\<exists>new. rules' = rules @ new \<and> (\<forall>peer. list_ex (\<lambda>r. cidr_matches r peer) new \<longleftrightarrow> (\<exists>t\<in>set ts. text_covers t peer)) \<and> (new = [] \<longleftrightarrow> ts = [])"
  using assms
proof (induction ts arbitrary: rules)
  case (Cons t ts)
  then obtain r where r: "cidr_from_str t = Ok r" by (cases "cidr_from_str t") auto
  then obtain new where "rules' = (rules @ [r]) @ new"
    "\<forall>peer. list_ex (\<lambda>r. cidr_matches r peer) new \<longleftrightarrow> (\<exists>t\<in>set ts. text_covers t peer)"
    using Cons.IH [of "rules @ [r]"] Cons.prems by auto
  then show ?case using cidr_matches_text [OF r] by (intro exI [of _ "r # new"]) auto
qed simp

text \<open>
  C31. A firewall configured from two lists of CIDR texts admits exactly the addresses the texts
  describe: none of the deny texts covers the address, and the allow list is empty or one of its
  texts covers it.  A text covers the addresses of its family whose leading bits, as many as its
  prefix says, are those of its network.
\<close>

theorem firewall_admits_texts:
  assumes "extend_allow allows firewall_new = (Ok (), fw1)" and "extend_deny denies fw1 = (Ok (), fw)"
  shows "admit fw peer \<longleftrightarrow> \<not> (\<exists>t\<in>set denies. text_covers t peer) \<and> (allows = [] \<or> (\<exists>t\<in>set allows. text_covers t peer))"
proof -
  have "extend_rules allows [] = (Ok (), fw_allow fw1)" "fw_deny fw1 = []"
    using assms(1) by (auto simp: extend_allow_def firewall_new_def split: prod.splits)
  moreover have "extend_rules denies (fw_deny fw1) = (Ok (), fw_deny fw)" "fw_allow fw = fw_allow fw1"
    using assms(2) by (auto simp: extend_deny_def split: prod.splits)
  ultimately show ?thesis
    using extend_rules_Ok [of allows "[]" "fw_allow fw1"] extend_rules_Ok [of denies "[]" "fw_deny fw"] by (auto simp: admit_def)
qed

theorem firewall_admits_texts_witness:
  "\<exists>fw. (\<forall>peer. admit fw peer \<longleftrightarrow> \<not> (\<exists>t\<in>set [ascii ''10.1.0.0/16'']. text_covers t peer)
       \<and> ([ascii ''10.0.0.0/8'', ascii ''::1''] = [] \<or> (\<exists>t\<in>set [ascii ''10.0.0.0/8'', ascii ''::1'']. text_covers t peer)))
     \<and> admit fw (V4 0x0A020304) \<and> \<not> admit fw (V4 0x0A010304) \<and> admit fw (V6 1) \<and> \<not> admit fw (V6 2)"
proof -
  let ?fw1 = "\<lparr>fw_allow = [CidrV4 0x0A000000 8, CidrV6 1 128], fw_deny = []\<rparr>"
  let ?fw = "\<lparr>fw_allow = [CidrV4 0x0A000000 8, CidrV6 1 128], fw_deny = [CidrV4 0x0A010000 16]\<rparr>"
  have a: "extend_allow [ascii ''10.0.0.0/8'', ascii ''::1''] firewall_new = (Ok (), ?fw1)" by code_simp
  have d: "extend_deny [ascii ''10.1.0.0/16''] ?fw1 = (Ok (), ?fw)" by code_simp
  show ?thesis
    by (rule exI [of _ ?fw], intro conjI allI firewall_admits_texts [OF a d]) code_simp+
qed

end
