(* ===== verification/Outbound_Filter.thy ===== *)
theory Outbound_Filter
  imports Firewall
begin

text \<open>
  The outbound destination filter of \<open>outbound_filter.rs\<close>: host patterns, the policy, its check
  and the default block list.  Strings are their UTF-8 bytes.

  Shown: what the check allows, and when matching a pattern panics (the split of the host at a
  byte that is not the start of a character).
\<close>

section \<open>Strings\<close>

text \<open>The UTF-8 encodings of the characters \<open>str::trim\<close> removes.\<close>

definition white_space :: "bytes list" where
  "white_space = map (\<lambda>c. [c]) [9, 10, 11, 12, 13, 32] @
     [[0xC2, 0x85], [0xC2, 0xA0], [0xE1, 0x9A, 0x80], [0xE2, 0x80, 0xA8], [0xE2, 0x80, 0xA9], [0xE2, 0x80, 0xAF],
      [0xE2, 0x81, 0x9F], [0xE3, 0x80, 0x80]] @
     map (\<lambda>c. [0xE2, 0x80, c]) [0x80, 0x81, 0x82, 0x83, 0x84, 0x85, 0x86, 0x87, 0x88, 0x89, 0x8A]"

definition starts_with :: "'a list \<Rightarrow> 'a list \<Rightarrow> bool" where
  "starts_with s p \<longleftrightarrow> take (length p) s = p"

function trim_front :: "bytes list \<Rightarrow> bytes \<Rightarrow> bytes" where
  "trim_front ws s =
     (case filter (\<lambda>w. w \<noteq> [] \<and> starts_with s w) ws of
        [] \<Rightarrow> s
      | w # _ \<Rightarrow> trim_front ws (drop (length w) s))"
  by pat_completeness auto
termination
proof (relation "measure (\<lambda>(ws, s). length s)")
  fix ws :: "bytes list" and s w xs
  assume "filter (\<lambda>w. w \<noteq> [] \<and> starts_with s w) ws = w # xs"
  then have "w \<in> set (filter (\<lambda>w. w \<noteq> [] \<and> starts_with s w) ws)" by simp
  then have "w \<noteq> []" "s \<noteq> []" by (auto simp: starts_with_def)
  then show "((ws, drop (length w) s), ws, s) \<in> measure (\<lambda>(ws, s). length s)" by simp
qed simp

declare trim_front.simps [simp del]

definition trim :: "bytes \<Rightarrow> bytes" where
  "trim s = rev (trim_front (map rev white_space) (rev (trim_front white_space s)))"

definition trim_end_dots :: "bytes \<Rightarrow> bytes" where
  "trim_end_dots s = rev (dropWhile (\<lambda>c. c = 46) (rev s))"

fun split_on :: "u8 \<Rightarrow> bytes \<Rightarrow> bytes list" where
  "split_on c [] = [[]]"
| "split_on c (x # xs) =
     (if x = c then [] # split_on c xs
      else (case split_on c xs of [] \<Rightarrow> [[x]] | l # ls \<Rightarrow> (x # l) # ls))"

definition is_ascii_alphanumeric :: "u8 \<Rightarrow> bool" where
  "is_ascii_alphanumeric c \<longleftrightarrow> 48 \<le> c \<and> c \<le> 57 \<or> 65 \<le> c \<and> c \<le> 90 \<or> 97 \<le> c \<and> c \<le> 122"

definition to_ascii_lowercase :: "bytes \<Rightarrow> bytes" where
  "to_ascii_lowercase s = map (\<lambda>c. if 65 \<le> c \<and> c \<le> 90 then c + 32 else c) s"

text \<open>\<open>str::is_char_boundary\<close> and \<open>str::split_at\<close>, which panics elsewhere.\<close>

definition is_char_boundary :: "bytes \<Rightarrow> nat \<Rightarrow> bool" where
  "is_char_boundary s i \<longleftrightarrow> i = 0 \<or> i = length s \<or> i < length s \<and> \<not> (0x80 \<le> s ! i \<and> s ! i < 0xC0)"

definition split_at :: "bytes \<Rightarrow> nat \<Rightarrow> ('e, bytes \<times> bytes) rust" where
  "split_at s i = (if is_char_boundary s i then Ok (take i s, drop i s) else Panic)"

section \<open>Host patterns\<close>

record HostPattern =
  hp_suffix :: bytes
  hp_strict_subdomain :: bool

datatype PatternError = EmptyPattern | BareWildcard | EmbeddedWildcard | EmptyLabel | InvalidChar bytes | HyphenEdge bytes

fun check_labels :: "bytes list \<Rightarrow> (PatternError, unit) rust" where
  "check_labels [] = Ok ()"
| "check_labels (label # ls) =
     (if label = [] then Err EmptyLabel
      else if \<not> list_all (\<lambda>c. is_ascii_alphanumeric c \<or> c = 45) label then Err (InvalidChar label)
      else if hd label = 45 \<or> last label = 45 then Err (HyphenEdge label)
      else check_labels ls)"

definition pattern_parse :: "bytes \<Rightarrow> (PatternError, HostPattern) rust" where
  "pattern_parse s0 =
     (let s = trim_end_dots (trim s0) in
      if s = [] then Err EmptyPattern
      else
        (case (if starts_with s [42, 46] then (drop 2 s, True) else (s, False)) of (suffix, strict) \<Rightarrow>
           if suffix = [] then Err BareWildcard
           else if 42 \<in> set suffix then Err EmbeddedWildcard
           else
             rust_bind (check_labels (split_on 46 suffix)) (\<lambda>_.
             Ok \<lparr>hp_suffix = to_ascii_lowercase suffix, hp_strict_subdomain = strict\<rparr>)))"

definition pattern_matches :: "HostPattern \<Rightarrow> bytes \<Rightarrow> (unit, bool) rust" where
  "pattern_matches p host0 =
     (let host = to_ascii_lowercase (trim_end_dots host0) in
      if host = hp_suffix p then Ok (\<not> hp_strict_subdomain p)
      else if length host < length (hp_suffix p) then Ok False
      else
        let prefix_len = length host - length (hp_suffix p) in
        if prefix_len = 0 then Ok False
        else
          rust_bind (split_at host prefix_len) (\<lambda>(left, right).
          if left = [] \<or> last left \<noteq> 46 then Ok False else Ok (right = hp_suffix p)))"

text \<open>\<open>iter().any(|p| p.matches(host))\<close>.\<close>

fun any_matches :: "HostPattern list \<Rightarrow> bytes \<Rightarrow> (unit, bool) rust" where
  "any_matches [] host = Ok False"
| "any_matches (p # ps) host = rust_bind (pattern_matches p host) (\<lambda>b. if b then Ok True else any_matches ps host)"

section \<open>Policy\<close>

datatype Decision = Allow IpAddr | DeniedPort u16 | DeniedHostname | HostnameNotAllowed | DeniedHost IpAddr | UnresolvableHost

record OutboundPolicy =
  op_allowed_ports :: "u16 list"
  op_blocked_cidrs :: "CidrRule list"
  op_deny_unresolvable :: bool
  op_allowed_hostnames :: "HostPattern list"
  op_blocked_hostnames :: "HostPattern list"

definition ssrf_texts :: "bytes list" where
  "ssrf_texts = map ascii [''0.0.0.0/8'', ''10.0.0.0/8'', ''100.64.0.0/10'', ''127.0.0.0/8'', ''169.254.0.0/16'',
     ''172.16.0.0/12'', ''192.0.0.0/24'', ''192.0.2.0/24'', ''192.88.99.0/24'', ''192.168.0.0/16'', ''198.18.0.0/15'',
     ''198.51.100.0/24'', ''203.0.113.0/24'', ''224.0.0.0/4'', ''240.0.0.0/4'', ''255.255.255.255/32'', ''::/128'',
     ''::1/128'', ''::ffff:0:0/96'', ''64:ff9b::/96'', ''fc00::/7'', ''fe80::/10'', ''ff00::/8'']"

text \<open>A text that does not parse would panic.\<close>

definition default_ssrf_blocklist :: "(unit, CidrRule list) rust" where
  "default_ssrf_blocklist = (case extend_rules ssrf_texts [] of (Ok _, rules) \<Rightarrow> Ok rules | _ \<Rightarrow> Panic)"

definition policy_default :: "(unit, OutboundPolicy) rust" where
  "policy_default =
     rust_bind default_ssrf_blocklist (\<lambda>blocked.
     Ok \<lparr>op_allowed_ports = [80, 443], op_blocked_cidrs = blocked, op_deny_unresolvable = True,
         op_allowed_hostnames = [], op_blocked_hostnames = []\<rparr>)"

definition permissive :: OutboundPolicy where
  "permissive = \<lparr>op_allowed_ports = [], op_blocked_cidrs = [], op_deny_unresolvable = False,
     op_allowed_hostnames = [], op_blocked_hostnames = []\<rparr>"

fun extend_patterns :: "bytes list \<Rightarrow> HostPattern list \<Rightarrow> (PatternError, unit) rust \<times> HostPattern list" where
  "extend_patterns [] ps = (Ok (), ps)"
| "extend_patterns (s # ss) ps =
     (case pattern_parse s of Ok p \<Rightarrow> extend_patterns ss (ps @ [p]) | Err e \<Rightarrow> (Err e, ps) | Panic \<Rightarrow> (Panic, ps))"

definition extend_allowed_hostnames :: "bytes list \<Rightarrow> OutboundPolicy \<Rightarrow> (PatternError, unit) rust \<times> OutboundPolicy" where
  "extend_allowed_hostnames pats pol =
     (case extend_patterns pats (op_allowed_hostnames pol) of (r, ps) \<Rightarrow> (r, pol\<lparr>op_allowed_hostnames := ps\<rparr>))"

definition extend_blocked_hostnames :: "bytes list \<Rightarrow> OutboundPolicy \<Rightarrow> (PatternError, unit) rust \<times> OutboundPolicy" where
  "extend_blocked_hostnames pats pol =
     (case extend_patterns pats (op_blocked_hostnames pol) of (r, ps) \<Rightarrow> (r, pol\<lparr>op_blocked_hostnames := ps\<rparr>))"

definition extend_blocked_cidrs :: "bytes list \<Rightarrow> OutboundPolicy \<Rightarrow> (CidrError, unit) rust \<times> OutboundPolicy" where
  "extend_blocked_cidrs texts pol =
     (case extend_rules texts (op_blocked_cidrs pol) of (r, rules) \<Rightarrow> (r, pol\<lparr>op_blocked_cidrs := rules\<rparr>))"

definition with_allowed_ports :: "u16 list \<Rightarrow> OutboundPolicy \<Rightarrow> OutboundPolicy" where
  "with_allowed_ports ports pol = pol\<lparr>op_allowed_ports := ports\<rparr>"

definition extend_allowed_ports :: "u16 list \<Rightarrow> OutboundPolicy \<Rightarrow> OutboundPolicy" where
  "extend_allowed_ports additional pol = pol\<lparr>op_allowed_ports := op_allowed_ports pol @ additional\<rparr>"

definition with_no_default_blocklist :: "OutboundPolicy \<Rightarrow> OutboundPolicy" where
  "with_no_default_blocklist pol = pol\<lparr>op_blocked_cidrs := []\<rparr>"

definition with_deny_unresolvable :: "bool \<Rightarrow> OutboundPolicy \<Rightarrow> OutboundPolicy" where
  "with_deny_unresolvable deny pol = pol\<lparr>op_deny_unresolvable := deny\<rparr>"

definition check_hostname :: "OutboundPolicy \<Rightarrow> bytes \<Rightarrow> (unit, Decision option) rust" where
  "check_hostname pol host =
     (if host = [] then Ok None
      else if parse_ip host \<noteq> None then Ok None
      else
        rust_bind (any_matches (op_blocked_hostnames pol) host) (\<lambda>blocked.
        if blocked then Ok (Some DeniedHostname)
        else if op_allowed_hostnames pol \<noteq> [] then
          rust_bind (any_matches (op_allowed_hostnames pol) host) (\<lambda>allowed.
          if \<not> allowed then Ok (Some HostnameNotAllowed) else Ok None)
        else Ok None))"

definition port_allowed :: "OutboundPolicy \<Rightarrow> u16 \<Rightarrow> bool" where
  "port_allowed pol port \<longleftrightarrow> (if port = 0 then False else op_allowed_ports pol = [] \<or> port \<in> set (op_allowed_ports pol))"

definition ip_allowed :: "OutboundPolicy \<Rightarrow> IpAddr \<Rightarrow> bool" where
  "ip_allowed pol ip \<longleftrightarrow> \<not> list_ex (\<lambda>r. cidr_matches r ip) (op_blocked_cidrs pol)"

definition check :: "OutboundPolicy \<Rightarrow> bytes \<Rightarrow> u16 \<Rightarrow> IpAddr list \<Rightarrow> (unit, Decision) rust" where
  "check pol host port resolved =
     (if \<not> port_allowed pol port then Ok (DeniedPort port)
      else
        rust_bind (check_hostname pol host) (\<lambda>d.
        case d of
          Some d \<Rightarrow> Ok d
        | None \<Rightarrow>
            if resolved = [] then Ok UnresolvableHost
            else
              (case filter (\<lambda>ip. \<not> ip_allowed pol ip) resolved of
                 ip # _ \<Rightarrow> Ok (DeniedHost ip)
               | [] \<Rightarrow> Ok (Allow (hd resolved)))))"

section \<open>Matching\<close>

lemma check_labels_not_Panic: "check_labels ls \<noteq> Panic"
  by (induction ls) auto

lemma pattern_matches_cases:
  "pattern_matches p host0 =
     (let host = to_ascii_lowercase (trim_end_dots host0); n = length host - length (hp_suffix p) in
      if length (hp_suffix p) < length host \<and> \<not> is_char_boundary host n then Panic
      else Ok (host = hp_suffix p \<and> \<not> hp_strict_subdomain p \<or> (\<exists>pre. host = pre @ 46 # hp_suffix p)))"
proof -
  let ?h = "to_ascii_lowercase (trim_end_dots host0)" and ?s = "hp_suffix p"
  let ?n = "length ?h - length ?s"
  have dot: "(take ?n ?h \<noteq> [] \<and> last (take ?n ?h) = 46 \<and> drop ?n ?h = ?s) \<longleftrightarrow> (\<exists>pre. ?h = pre @ 46 # ?s)"
  proof
    assume l: "take ?n ?h \<noteq> [] \<and> last (take ?n ?h) = 46 \<and> drop ?n ?h = ?s"
    then have "take ?n ?h = butlast (take ?n ?h) @ [46]" by (metis append_butlast_last_id)
    then have "?h = (butlast (take ?n ?h) @ [46]) @ ?s" using l by (metis append_take_drop_id)
    then show "\<exists>pre. ?h = pre @ 46 # ?s" by (metis append_Cons append_Nil append_assoc)
  next
    assume "\<exists>pre. ?h = pre @ 46 # ?s"
    then obtain pre where "?h = pre @ 46 # ?s" by blast
    then show "take ?n ?h \<noteq> [] \<and> last (take ?n ?h) = 46 \<and> drop ?n ?h = ?s" by simp
  qed
  have short: "\<not> (\<exists>pre. ?h = pre @ 46 # ?s)" if "length ?h \<le> length ?s" using that by auto
  show ?thesis
  proof (cases "length ?s < length ?h")
    case True
    then show ?thesis using dot by (auto simp: pattern_matches_def Let_def split_at_def)
  next
    case False
    then show ?thesis using short by (auto simp: pattern_matches_def Let_def)
  qed
qed

lemma pattern_suffix:
  assumes "pattern_parse t = Ok p"
  shows "hp_suffix p \<noteq> []"
  using assms by (auto simp: pattern_parse_def Let_def rust_bind_Ok_iff to_ascii_lowercase_def split: if_splits)

text \<open>
  Matching a host against a pattern is exact on labels, whatever the case of the letters and
  the trailing dots: the host is the pattern's suffix (unless only subdomains count) or ends with
  a dot and the suffix, never merely with the same letters.  On ASCII hosts matching never fails;
  on a host longer than the suffix it panics exactly when the place where the suffix would start
  is inside a character.
\<close>

theorem pattern_matches_spec:
  assumes "pattern_parse t = Ok p"
  defines "s \<equiv> hp_suffix p"
  shows "let h = to_ascii_lowercase (trim_end_dots host) in
       (pattern_matches p host = Panic \<longleftrightarrow> length s < length h \<and> \<not> is_char_boundary h (length h - length s))
     \<and> (pattern_matches p host \<noteq> Panic \<longrightarrow>
          pattern_matches p host = Ok (h = s \<and> \<not> hp_strict_subdomain p \<or> (\<exists>pre. h = pre @ 46 # s)))
     \<and> ((\<forall>c\<in>set host. c < 0x80) \<longrightarrow> pattern_matches p host \<noteq> Panic)"
proof -
  let ?h = "to_ascii_lowercase (trim_end_dots host)"
  have lower: "set (trim_end_dots host) \<subseteq> set host" by (auto simp: trim_end_dots_def dest: set_dropWhileD)
  have low: "(if 65 \<le> c \<and> c \<le> 90 then c + 32 else c) < 0x80" if "c < 0x80" for c :: u8
  proof (cases "65 \<le> c \<and> c \<le> 90")
    case True
    then have "unat c \<le> 90" by (simp add: word_le_nat_alt)
    then have "unat (c + 32) = unat c + 32" by (simp add: unat_plus_if')
    then show ?thesis using True \<open>unat c \<le> 90\<close> by (simp add: word_less_nat_alt)
  qed (use that in auto)
  have ascii: "c < 0x80" if a: "\<forall>c\<in>set host. c < 0x80" and c: "c \<in> set ?h" for c
  proof -
    obtain x where x: "x \<in> set host" "c = (if 65 \<le> x \<and> x \<le> 90 then x + 32 else x)"
      using c lower unfolding to_ascii_lowercase_def set_map by blast
    show ?thesis unfolding x(2) using a x(1) by (intro low) blast
  qed
  have "is_char_boundary ?h i" if "\<forall>c\<in>set host. c < 0x80" "i \<le> length ?h" for i
    using ascii [OF that(1), of "?h ! i"] that(2) by (cases "i < length ?h") (auto simp: is_char_boundary_def)
  then show ?thesis by (auto simp: pattern_matches_cases Let_def s_def)
qed

text \<open>A name of four bytes whose first character takes two of them, against a suffix of three.\<close>

theorem pattern_matches_spec_witness:
  "\<exists>p. pattern_parse (ascii '' com. '') = Ok p \<and> pattern_matches p [0xC3, 0xA9, 0x61, 0x62] = Panic
     \<and> pattern_matches p (ascii ''Example.COM.'') = Ok True \<and> pattern_matches p (ascii ''telecom'') = Ok False"
proof -
  let ?p = "\<lparr>hp_suffix = ascii ''com'', hp_strict_subdomain = False\<rparr>"
  have parsed: "pattern_parse (ascii '' com. '') = Ok ?p" by code_simp
  have "length (hp_suffix ?p) < length (to_ascii_lowercase (trim_end_dots [0xC3, 0xA9, 0x61, 0x62]))
     \<and> \<not> is_char_boundary (to_ascii_lowercase (trim_end_dots [0xC3, 0xA9, 0x61, 0x62]))
          (length (to_ascii_lowercase (trim_end_dots [0xC3, 0xA9, 0x61, 0x62])) - length (hp_suffix ?p))" by code_simp
  then have "pattern_matches ?p [0xC3, 0xA9, 0x61, 0x62] = Panic" using pattern_matches_spec [OF parsed] by (simp add: Let_def)
  moreover have "pattern_matches ?p (ascii ''Example.COM.'') = Ok True" "pattern_matches ?p (ascii ''telecom'') = Ok False" by code_simp+
  ultimately show ?thesis using parsed by blast
qed

section \<open>The check\<close>

lemma check_Allow_iff:
  "check pol host port resolved = Ok (Allow ip) \<longleftrightarrow>
     port_allowed pol port \<and> check_hostname pol host = Ok None \<and> resolved \<noteq> [] \<and> ip = hd resolved \<and> (\<forall>r\<in>set resolved. ip_allowed pol r)"
proof (cases "check_hostname pol host")
  case (Ok d)
  have "d \<noteq> Some (Allow a)" for a
    using Ok by (auto simp: check_hostname_def rust_bind_Ok_iff split: if_splits)
  then show ?thesis
    using Ok by (cases d; cases "filter (\<lambda>ip. \<not> ip_allowed pol ip) resolved") (auto simp: check_def filter_empty_conv dest!: filter_eq_ConsD)
qed (auto simp: check_def)

text \<open>The addresses no session may reach by default, as intervals of their numeric value.\<close>

definition internal_address :: "IpAddr \<Rightarrow> bool" where
  "internal_address ip \<longleftrightarrow>
     (case ip of
        V4 a \<Rightarrow> let x = uint a in
          x div 2 ^ 24 \<in> {0, 10, 127} \<or> 0x64400000 \<le> x \<and> x \<le> 0x647FFFFF \<or> x div 2 ^ 16 = 0xA9FE
          \<or> 0xAC100000 \<le> x \<and> x \<le> 0xAC1FFFFF \<or> x div 2 ^ 16 = 0xC0A8 \<or> 0xE0000000 \<le> x
      | V6 a \<Rightarrow> let x = uint a in
          x = 0 \<or> x = 1 \<or> x div 2 ^ 32 = 0xFFFF \<or> x div 2 ^ 32 = 0x64FF9B * 2 ^ 64
          \<or> 0xFC \<le> x div 2 ^ 120 \<and> x div 2 ^ 120 \<le> 0xFD \<or> x div 2 ^ 118 = 0x3FA \<or> 0xFF \<le> x div 2 ^ 120)"

definition default_rules :: "CidrRule list" where
  "default_rules = [CidrV4 0 8, CidrV4 0x0A000000 8, CidrV4 0x64400000 10, CidrV4 0x7F000000 8, CidrV4 0xA9FE0000 16,
     CidrV4 0xAC100000 12, CidrV4 0xC0000000 24, CidrV4 0xC0000200 24, CidrV4 0xC0586300 24, CidrV4 0xC0A80000 16,
     CidrV4 0xC6120000 15, CidrV4 0xC6336400 24, CidrV4 0xCB007100 24, CidrV4 0xE0000000 4, CidrV4 0xF0000000 4,
     CidrV4 0xFFFFFFFF 32, CidrV6 0 128, CidrV6 1 128, CidrV6 0xFFFF00000000 96, CidrV6 0x0064FF9B000000000000000000000000 96,
     CidrV6 0xFC000000000000000000000000000000 7, CidrV6 0xFE800000000000000000000000000000 10, CidrV6 0xFF000000000000000000000000000000 8]"

lemma default_blocklist: "default_ssrf_blocklist = Ok default_rules"
  by code_simp

lemma v4_rule:
  assumes "prefix \<noteq> 0" and "unat prefix \<le> 32"
  shows "cidr_matches (CidrV4 net prefix) (V4 a) \<longleftrightarrow> uint a div 2 ^ (32 - unat prefix) = uint net div 2 ^ (32 - unat prefix)"
  using assms same_prefix_mask [of prefix a net] by (simp add: v4_prefix_match_def same_prefix_def)

lemma v6_rule:
  assumes "prefix \<noteq> 0" and "unat prefix \<le> 128"
  shows "cidr_matches (CidrV6 net prefix) (V6 a) \<longleftrightarrow> uint a div 2 ^ (128 - unat prefix) = uint net div 2 ^ (128 - unat prefix)"
  using assms same_prefix_mask [of prefix a net] by (simp add: v6_prefix_match_def same_prefix_def)

lemma div_segment:
  fixes x m k :: int
  assumes "k * m \<le> x" and "x < k * m + m" and "0 < m"
  shows "x div m = k"
  using assms by (intro int_div_pos_eq [where r = "x - m * k"]) (auto simp: mult.commute)

lemma internal_blocked:
  assumes "internal_address ip"
  shows "list_ex (\<lambda>r. cidr_matches r ip) default_rules"
proof (cases ip)
  case (V4 a)
  have top: "uint a < 0x100000000" using uint_lt2p [of a] by simp
  have n1: "0x64400000 \<le> uint a \<Longrightarrow> uint a \<le> 0x647FFFFF \<Longrightarrow> uint a div 2 ^ 22 = 401" by (rule div_segment) simp_all
  have n2: "0xAC100000 \<le> uint a \<Longrightarrow> uint a \<le> 0xAC1FFFFF \<Longrightarrow> uint a div 2 ^ 20 = 0xAC1" by (rule div_segment) simp_all
  have n3: "0xE0000000 \<le> uint a \<Longrightarrow> uint a < 0xF0000000 \<Longrightarrow> uint a div 2 ^ 28 = 14" by (rule div_segment) simp_all
  have n4: "0xF0000000 \<le> uint a \<Longrightarrow> uint a div 2 ^ 28 = 15" using top by (intro div_segment) simp_all
  have "uint a div 2 ^ 24 \<in> {0, 10, 127} \<or> uint a div 2 ^ 22 = 401 \<or> uint a div 2 ^ 16 = 0xA9FE
     \<or> uint a div 2 ^ 20 = 0xAC1 \<or> uint a div 2 ^ 16 = 0xC0A8 \<or> uint a div 2 ^ 28 = 14 \<or> uint a div 2 ^ 28 = 15"
    using assms n1 n2 n3 n4 not_le [of "0xF0000000" "uint a"] unfolding V4 internal_address_def IpAddr.case Let_def by blast
  then show ?thesis
    unfolding V4 default_rules_def by (auto simp: v4_rule simp del: cidr_matches.simps(1))
next
  case (V6 a)
  let ?q = "uint a div 2 ^ 120"
  have half: "uint a div 2 ^ 121 = ?q div 2" by (simp add: zdiv_zmult2_eq [symmetric])
  have q: "?q < 256" using uint_lt2p [of a] by simp
  have "uint a = 0 \<or> uint a = 1 \<or> uint a div 2 ^ 32 = 0xFFFF \<or> uint a div 2 ^ 32 = 0x64FF9B * 2 ^ 64
     \<or> ?q = 0xFC \<or> ?q = 0xFD \<or> uint a div 2 ^ 118 = 0x3FA \<or> ?q = 0xFF"
    using assms q unfolding V6 internal_address_def IpAddr.case Let_def by linarith
  then show ?thesis
    unfolding V6 default_rules_def using half by (auto simp: v6_rule simp del: cidr_matches.simps(2))
qed

text \<open>
  With the default policy the filter lets a session dial only ports 80 and 443, only the
  first address the name resolved to, and only when none of the addresses it resolved to is
  internal: loopback, private, carrier-grade, link-local, multicast or reserved, in either family
  and also written as an IPv4-mapped or translated IPv6 address.
\<close>

theorem default_policy_blocks_internal:
  assumes "policy_default = Ok pol" and "check pol host port resolved = Ok (Allow ip)"
  shows "port \<in> {80, 443} \<and> resolved \<noteq> [] \<and> ip = hd resolved \<and> (\<forall>r\<in>set resolved. \<not> internal_address r)"
proof -
  have "op_blocked_cidrs pol = default_rules" "op_allowed_ports pol = [80, 443]"
    using assms(1) by (auto simp: policy_default_def default_blocklist)
  then show ?thesis
    using assms(2) internal_blocked by (auto simp: check_Allow_iff port_allowed_def ip_allowed_def split: if_splits)
qed

theorem default_policy_blocks_internal_witness:
  "\<exists>pol. policy_default = Ok pol \<and> check pol (ascii ''example.org'') 443 [V4 0x5DB8D822] = Ok (Allow (V4 0x5DB8D822))
     \<and> \<not> internal_address (V4 0x5DB8D822) \<and> check pol (ascii ''localhost'') 80 [V4 0x5DB8D822, V4 0x7F000001] = Ok (DeniedHost (V4 0x7F000001))"
proof -
  obtain pol where pol: "policy_default = Ok pol" by (simp add: policy_default_def default_blocklist)
  then have p: "pol = \<lparr>op_allowed_ports = [80, 443], op_blocked_cidrs = default_rules, op_deny_unresolvable = True, op_allowed_hostnames = [], op_blocked_hostnames = []\<rparr>"
    by (simp add: policy_default_def default_blocklist)
  have "check pol (ascii ''example.org'') 443 [V4 0x5DB8D822] = Ok (Allow (V4 0x5DB8D822))" unfolding p by code_simp
  moreover from default_policy_blocks_internal [OF pol this] have "\<not> internal_address (V4 0x5DB8D822)" by simp
  moreover have "check pol (ascii ''localhost'') 80 [V4 0x5DB8D822, V4 0x7F000001] = Ok (DeniedHost (V4 0x7F000001))" unfolding p by code_simp
  ultimately show ?thesis using pol by blast
qed

end
