(* ===== verification/Relay_Target.thy ===== *)
theory Relay_Target
  imports Outbound_Filter
begin

text \<open>
  How a destination travels: the SOCKS5 request the client program reads (\<open>socks.rs\<close>), the record
  it sends for it, the server's reading of that record and the choice of the address to dial
  (\<open>relay.rs\<close>).

  A socket is the bytes still to arrive and the bytes written; the end of the input is an I/O
  error.  Time-outs of the sockets are left out; the resolver is an argument of the dial.
\<close>

section \<open>UTF-8\<close>

abbreviation in_range :: "u8 \<Rightarrow> u8 \<Rightarrow> u8 \<Rightarrow> bool" where
  "in_range lo hi c \<equiv> lo \<le> c \<and> c \<le> hi"

text \<open>\<open>str::from_utf8\<close>: how many bytes the first character takes, \<open>0\<close> when it is malformed.\<close>

definition utf8_len :: "bytes \<Rightarrow> nat" where
  "utf8_len s =
     (let c = hd s; cont = (\<lambda>i. i < length s \<and> in_range 0x80 0xBF (s ! i));
          second = (\<lambda>lo hi. 1 < length s \<and> in_range lo hi (s ! 1)) in
      if c < 0x80 then 1
      else if in_range 0xC2 0xDF c then (if cont 1 then 2 else 0)
      else if c = 0xE0 then (if second 0xA0 0xBF \<and> cont 2 then 3 else 0)
      else if c = 0xED then (if second 0x80 0x9F \<and> cont 2 then 3 else 0)
      else if in_range 0xE1 0xEF c then (if cont 1 \<and> cont 2 then 3 else 0)
      else if c = 0xF0 then (if second 0x90 0xBF \<and> cont 2 \<and> cont 3 then 4 else 0)
      else if in_range 0xF1 0xF3 c then (if cont 1 \<and> cont 2 \<and> cont 3 then 4 else 0)
      else if c = 0xF4 then (if second 0x80 0x8F \<and> cont 2 \<and> cont 3 then 4 else 0)
      else 0)"

function valid_utf8 :: "bytes \<Rightarrow> bool" where
  "valid_utf8 s = (if s = [] then True else if utf8_len s = 0 then False else valid_utf8 (drop (utf8_len s) s))"
  by pat_completeness auto
termination
  by (relation "measure length") auto

declare valid_utf8.simps [simp del]

section \<open>The SOCKS5 request\<close>

text \<open>The errors of the front end; the error of another module is kept without its payload.\<close>

datatype ErrorKind = ConnectionRefused | TimedOut | NetworkUnreachable | HostUnreachable | UnexpectedEof | OtherKind

datatype SocksError = SocksIo ErrorKind | SocksConfig | SocksAlpha | Socks string | SocksBootstrap

record sock =
  sk_in :: bytes
  sk_out :: bytes

type_synonym 'a sock_call = "(SocksError, 'a) rust \<times> sock"

fun sock_bind :: "'a sock_call \<Rightarrow> ('a \<Rightarrow> sock \<Rightarrow> 'b sock_call) \<Rightarrow> 'b sock_call" where
  "sock_bind (Ok a, s) f = f a s"
| "sock_bind (Err e, s) f = (Err e, s)"
| "sock_bind (Panic, s) f = (Panic, s)"

definition read_exact :: "nat \<Rightarrow> sock \<Rightarrow> bytes sock_call" where
  "read_exact n s =
     (if length (sk_in s) < n then (Err (SocksIo UnexpectedEof), s\<lparr>sk_in := []\<rparr>)
      else (Ok (take n (sk_in s)), s\<lparr>sk_in := drop n (sk_in s)\<rparr>))"

definition write_all :: "bytes \<Rightarrow> sock \<Rightarrow> sock" where
  "write_all bs s = s\<lparr>sk_out := sk_out s @ bs\<rparr>"

definition socks_reply :: "u8 \<Rightarrow> bytes" where
  "socks_reply code = [0x05, code, 0x00, 0x01, 0, 0, 0, 0, 0, 0]"

text \<open>Answering with an error code and giving up.\<close>

abbreviation socks_refuse :: "u8 \<Rightarrow> string \<Rightarrow> sock \<Rightarrow> 'a sock_call" where
  "socks_refuse code msg s \<equiv> (Err (Socks msg), write_all (socks_reply code) s)"

definition u16_be :: "bytes \<Rightarrow> u16" where
  "u16_be bs = word_of_nat (be_val bs)"

definition socks_ipv4 :: "sock \<Rightarrow> (bytes \<times> u16) sock_call" where
  "socks_ipv4 s =
     sock_bind (read_exact 6 s) (\<lambda>buf s.
     (Ok (show_ipv4 (word_of_nat (be_val (take 4 buf))), u16_be (drop 4 buf)), s))"

definition socks_ipv6 :: "sock \<Rightarrow> (bytes \<times> u16) sock_call" where
  "socks_ipv6 s =
     sock_bind (read_exact 18 s) (\<lambda>buf s.
     (Ok (show_ipv6 (word_of_nat (be_val (take 16 buf))), u16_be (drop 16 buf)), s))"

definition socks_domain :: "sock \<Rightarrow> (bytes \<times> u16) sock_call" where
  "socks_domain s =
     sock_bind (read_exact 1 s) (\<lambda>len s.
     if hd len = 0 then socks_refuse 0x08 ''empty SOCKS5 domain name'' s
     else
       sock_bind (read_exact (unat (hd len)) s) (\<lambda>name s.
       sock_bind (read_exact 2 s) (\<lambda>port_b s.
       if \<not> valid_utf8 name then (Err (Socks ''invalid hostname''), s)
       else if list_ex (\<lambda>b. b = 0 \<or> b = 13 \<or> b = 10 \<or> b = 9) name then
         socks_refuse 0x08 ''SOCKS5 domain name contains forbidden control byte'' s
       else (Ok (name, u16_be port_b), s))))"

text \<open>Greeting, method choice, request, and the check of the port.\<close>

definition socks_request :: "sock \<Rightarrow> (bytes \<times> u16) sock_call" where
  "socks_request s =
     sock_bind (read_exact 2 s) (\<lambda>hdr s.
     if hd hdr \<noteq> 0x05 then (Err (Socks ''not SOCKS5''), s)
     else
       sock_bind (read_exact (unat (hdr ! 1)) s) (\<lambda>methods s.
       if 0x00 \<notin> set methods then (Err (Socks ''no acceptable auth method''), write_all [0x05, 0xff] s)
       else
         let s = write_all [0x05, 0x00] s in
         sock_bind (read_exact 4 s) (\<lambda>req s.
         if req ! 0 \<noteq> 0x05 \<or> req ! 1 \<noteq> 0x01 then socks_refuse 0x07 ''unsupported SOCKS5 cmd'' s
         else
           sock_bind
             (if req ! 3 = 0x01 then socks_ipv4 s
              else if req ! 3 = 0x03 then socks_domain s
              else if req ! 3 = 0x04 then socks_ipv6 s
              else socks_refuse 0x08 ''unsupported ATYP'' s) (\<lambda>(host, port) s.
           if port = 0 then socks_refuse 0x08 ''SOCKS5 destination port == 0 (not a valid TCP destination)'' s
           else (Ok (host, port), s)))))"

text \<open>\<open>target_bytes\<close>: the length is cut to a byte.\<close>

definition target_bytes :: "bytes \<Rightarrow> u16 \<Rightarrow> bytes" where
  "target_bytes host port = word_of_nat (length host) # host @ be_bytes 2 (unat port)"

section \<open>The connect record\<close>

definition encode_connect :: "bytes \<Rightarrow> u16 \<Rightarrow> (string, bytes) rust" where
  "encode_connect host port =
     (if 255 < length host then Panic else Ok (word_of_nat (length host) # host @ be_bytes 2 (unat port)))"

definition parse_connect :: "bytes \<Rightarrow> (string, bytes \<times> u16) rust" where
  "parse_connect buf =
     (if buf = [] then Err ''empty connect request''
      else
        rust_bind (index buf 0) (\<lambda>l.
        let host_len = unat l in
        if length buf < 1 + host_len + 2 then Err ''connect request truncated''
        else if host_len = 0 then Err ''connect host is empty''
        else if host_len > 255 then Err ''connect host too long''
        else
          rust_bind (slice buf 1 (1 + host_len)) (\<lambda>host.
          if \<not> valid_utf8 host then Err ''host not valid utf-8''
          else if list_ex (\<lambda>b. b < 0x20 \<or> b = 0x7f) host then Err ''connect host contains forbidden control byte''
          else
            rust_bind (index buf (1 + host_len)) (\<lambda>p0. rust_bind (index buf (1 + host_len + 1)) (\<lambda>p1.
            let port = u16_be [p0, p1] in
            if port = 0 then Err ''connect port == 0 (not a valid TCP destination)'' else Ok (host, port))))))"

section \<open>Resolving and dialling\<close>

text \<open>What became of a lookup: addresses, a failure, or no answer in time.\<close>

datatype lookup = Found "IpAddr list" | LookupFailed | LookupTimedOut

record DnsResolverStats =
  lookups_succeeded :: nat
  lookups_failed :: nat
  lookups_timed_out :: nat

definition resolve_host_with_timeout :: "(bytes \<Rightarrow> u16 \<Rightarrow> lookup) \<Rightarrow> bytes \<Rightarrow> u16 \<Rightarrow> DnsResolverStats \<Rightarrow> IpAddr list \<times> DnsResolverStats" where
  "resolve_host_with_timeout lookup_host host port stats =
     (case parse_ip host of
        Some ip \<Rightarrow> ([ip], stats\<lparr>lookups_succeeded := lookups_succeeded stats + 1\<rparr>)
      | None \<Rightarrow>
          (case lookup_host host port of
             Found addrs \<Rightarrow> (addrs, stats\<lparr>lookups_succeeded := lookups_succeeded stats + 1\<rparr>)
           | LookupFailed \<Rightarrow> ([], stats\<lparr>lookups_failed := lookups_failed stats + 1\<rparr>)
           | LookupTimedOut \<Rightarrow> ([], stats\<lparr>lookups_timed_out := lookups_timed_out stats + 1\<rparr>)))"

text \<open>
  From the first record to the dial: the address to connect to, or the reason the session ends,
  after which an empty record is sent to the client.
\<close>

datatype dial = DialTo IpAddr u16 | EndSession string

definition relay_dial :: "OutboundPolicy option \<Rightarrow> (bytes \<Rightarrow> u16 \<Rightarrow> lookup) \<Rightarrow> DnsResolverStats \<Rightarrow> bytes \<Rightarrow> (string, dial) rust" where
  "relay_dial outbound_filter lookup_host stats req =
     rust_bind (parse_connect req) (\<lambda>(host, port).
     case outbound_filter of
       Some policy \<Rightarrow>
         (case resolve_host_with_timeout lookup_host host port stats of (resolved, _) \<Rightarrow>
            rust_bind (rust_map_err (\<lambda>_. '''') (check policy host port resolved)) (\<lambda>d.
            case d of Allow ip \<Rightarrow> Ok (DialTo ip port) | _ \<Rightarrow> Ok (EndSession ''outbound_blocked'')))
     | None \<Rightarrow>
         (case lookup_host host port of
            Found (sa # _) \<Rightarrow> Ok (DialTo sa port)
          | Found [] \<Rightarrow> Ok (EndSession ''upstream_dial_fail'')
          | LookupFailed \<Rightarrow> Ok (EndSession ''upstream_dial_fail'')
          | LookupTimedOut \<Rightarrow> Ok (EndSession ''upstream_dial_timeout'')))"

section \<open>Printed addresses\<close>

definition plain :: "u8 \<Rightarrow> bool" where
  "plain c \<longleftrightarrow> 0x20 \<le> c \<and> c < 0x7f"

lemma valid_utf8_ascii: "\<forall>c\<in>set s. c < 0x80 \<Longrightarrow> valid_utf8 s"
proof (induction s)
  case (Cons c s)
  then show ?case by (subst valid_utf8.simps) (simp add: utf8_len_def Let_def)
qed (simp add: valid_utf8.simps)

lemma plain_iff: "plain c \<longleftrightarrow> 32 \<le> unat c \<and> unat c < 127"
  by (simp add: plain_def word_less_nat_alt word_le_nat_alt)

lemma plain_ascii:
  assumes "plain c"
  shows "c < 0x80" and "\<not> (c < 0x20 \<or> c = 0x7f)"
  using assms by (auto simp: plain_iff word_less_nat_alt word_unat_eq_iff)

lemma plain_utf8: "list_all plain s \<Longrightarrow> valid_utf8 s"
  by (simp add: list_all_iff plain_ascii(1) valid_utf8_ascii)

lemma digit_char_plain:
  assumes "0 \<le> d" and "d < 16"
  shows "plain (digit_char d)"
proof -
  have "uint (word_of_int x :: u8) = x" if "0 \<le> x" "x < 256" for x using that by (simp add: uint_word_of_int)
  from this [of "48 + d"] this [of "87 + d"] have "uint (digit_char d) = (if d < 10 then 48 + d else 87 + d)"
    using assms unfolding digit_char_def by auto
  then show ?thesis using assms by (auto simp: plain_def word_le_def word_less_def)
qed

lemma show_radix_facts:
  assumes "2 \<le> b" "b \<le> 16" "0 \<le> n" "n < b ^ k" "0 < k"
  shows "list_all plain (show_radix b n)" and "length (show_radix b n) \<le> k" and "show_radix b n \<noteq> []"
  using radix_digits_facts [OF assms(1,3)] assms by (auto simp: show_radix_def list_all_iff intro!: digit_char_plain)

lemma join_sep_facts:
  assumes "plain c" and "\<forall>x\<in>set xs. list_all plain x \<and> length x \<le> k"
  shows "list_all plain (join_sep c xs)" and "length (join_sep c xs) \<le> length xs * Suc k"
  using assms by (induction c xs rule: join_sep.induct) auto

lemma show_ipv4_facts: "list_all plain (show_ipv4 a) \<and> length (show_ipv4 a) \<le> 16 \<and> show_ipv4 a \<noteq> []"
proof -
  have o4: "\<forall>x\<in>set (map (show_radix 10) (ipv4_octets a)). list_all plain x \<and> length x \<le> 3"
    using radix_fixed_facts(2) [of 256 4 "uint a"] show_radix_facts(1,2) [of 10 _ 3] by auto
  have p: "plain 46" by (simp add: plain_def)
  obtain x os where "ipv4_octets a = x # os" by (simp add: eval_nat_numeral)
  moreover from this have "show_radix 10 x \<noteq> []" using radix_fixed_facts(2) [of 256 4 "uint a"] show_radix_facts(3) [of 10 x 3] by auto
  ultimately show ?thesis
    using join_sep_facts [OF p o4] radix_fixed_facts(1) [of 256 4 "uint a"] by (simp add: show_ipv4_def join_sep_Cons)
qed

lemma show_groups_facts:
  assumes "\<forall>g\<in>set gs. 0 \<le> g \<and> g < 65536" and "length gs \<le> 8"
  shows "list_all plain (show_groups gs) \<and> length (show_groups gs) \<le> 40"
proof -
  have g: "\<forall>x\<in>set (map (show_radix 16) gs). list_all plain x \<and> length x \<le> 4"
    using assms(1) show_radix_facts(1,2) [of 16 _ 4] by auto
  have p: "plain 58" by (simp add: plain_def)
  show ?thesis using join_sep_facts [OF p g] assms(2) by (simp add: show_groups_def)
qed

lemma show_ipv6_facts: "list_all plain (show_ipv6 a) \<and> length (show_ipv6 a) \<le> 100 \<and> show_ipv6 a \<noteq> []"
proof -
  let ?gs = "ipv6_segments a"
  have g: "\<forall>g\<in>set ?gs. 0 \<le> g \<and> g < 65536" "length ?gs = 8" using radix_fixed_facts(1,2) [of 65536 8 "uint a"] by simp_all
  have t: "list_all plain (show_groups (take n ?gs)) \<and> length (show_groups (take n ?gs)) \<le> 40"
    "list_all plain (show_groups (drop n ?gs)) \<and> length (show_groups (drop n ?gs)) \<le> 40" for n
    using g by (intro show_groups_facts; auto dest: in_set_takeD in_set_dropD)+
  have c: "list_all plain (ascii ''::ffff:'')" "list_all plain (ascii ''::'')" by code_simp+
  have ne: "show_ipv6 a \<noteq> []"
    using parse_show_ipv6 [of a] by (auto simp: parse_ip_def read_ipv4_Nil read_ipv6_addr_def read_groups_stop groups_stop_def)
  have sum: "length (show_groups (take n ?gs)) + length (show_groups (drop m ?gs)) \<le> 98" for n m
    using t(1) [of n] t(2) [of m] by linarith
  show ?thesis
    using ne t [of 0] t c show_ipv4_facts [of "ucast a"] sum by (auto simp: show_ipv6_def Let_def ascii_def split: prod.splits)
qed

section \<open>From the request to the dial\<close>

lemma u16_be_bytes [simp]: "u16_be (be_bytes 2 (unat p)) = p"
  by (simp add: u16_be_def)

lemma length_name_byte: "length s \<le> 255 \<Longrightarrow> unat (word_of_nat (length s) :: u8) = length s"
  by (simp add: unat_of_nat_u8)

lemma parse_connect_target:
  assumes "host \<noteq> []" and "length host \<le> 255" and "valid_utf8 host" and "port \<noteq> 0"
  shows "parse_connect (target_bytes host port) =
     (if list_ex (\<lambda>b. b < 0x20 \<or> b = 0x7f) host then Err ''connect host contains forbidden control byte'' else Ok (host, port))"
proof -
  have "length (be_bytes 2 (unat port)) = Suc (Suc 0)" by simp
  then obtain p0 p1 where p: "be_bytes 2 (unat port) = [p0, p1]" by (auto simp: length_Suc_conv simp del: length_be_bytes)
  then have "u16_be [p0, p1] = port" by (metis u16_be_bytes)
  moreover have t: "target_bytes host port = word_of_nat (length host) # host @ [p0, p1]" by (simp add: target_bytes_def p)
  ultimately show ?thesis using assms by (simp add: parse_connect_def t length_name_byte nth_append)
qed

lemma plain_parse:
  assumes "list_all plain host" and "host \<noteq> []" and "length host \<le> 255" and "port \<noteq> 0"
  shows "parse_connect (target_bytes host port) = Ok (host, port)"
proof -
  have "\<not> list_ex (\<lambda>b. b < 0x20 \<or> b = 0x7f) host"
    using assms(1) plain_ascii(2) unfolding list_all_iff list_ex_iff by blast
  moreover have "valid_utf8 host" by (rule plain_utf8 [OF assms(1)])
  ultimately show ?thesis using parse_connect_target assms by simp
qed

lemma sock_bind_Ok_iff: "sock_bind m f = (Ok b, t) \<longleftrightarrow> (\<exists>a s. m = (Ok a, s) \<and> f a s = (Ok b, t))"
  by (cases m; cases "fst m") auto

lemma read_exact_Ok_iff:
  "read_exact n s = (Ok bs, t) \<longleftrightarrow> n \<le> length (sk_in s) \<and> bs = take n (sk_in s) \<and> t = s\<lparr>sk_in := drop n (sk_in s)\<rparr>"
  by (auto simp: read_exact_def)

text \<open>A host the SOCKS front end accepts: a printed address, or a name of at most \<open>255\<close> bytes.\<close>

definition socks_host :: "bytes \<Rightarrow> bool" where
  "socks_host host \<longleftrightarrow> (\<exists>a. host = show_ipv4 a) \<or> (\<exists>a. host = show_ipv6 a)
     \<or> host \<noteq> [] \<and> length host \<le> 255 \<and> valid_utf8 host"

lemma socks_domain_host:
  assumes "socks_domain s = (Ok (host, port), t)"
  shows "socks_host host"
proof -
  have "unat (hd (take 1 (sk_in s))) \<le> 255" using unat_u8_less [of "hd (take 1 (sk_in s))"] by simp
  then show ?thesis
    using assms by (auto simp: socks_domain_def sock_bind_Ok_iff read_exact_Ok_iff socks_host_def unsigned_eq_0_iff split: if_splits)
qed

lemma socks_request_host:
  assumes "socks_request s = (Ok (host, port), t)"
  shows "socks_host host \<and> port \<noteq> 0"
  using assms socks_domain_host
  by (auto simp: socks_request_def sock_bind_Ok_iff Let_def socks_ipv4_def socks_ipv6_def socks_host_def split: if_splits; fastforce)

lemma socks_host_facts:
  assumes "socks_host host"
  shows "host \<noteq> [] \<and> length host \<le> 255 \<and> valid_utf8 host"
  using assms unfolding socks_host_def
proof (elim disjE exE)
  show "host = show_ipv4 a \<Longrightarrow> ?thesis" for a using show_ipv4_facts [of a] plain_utf8 by auto
  show "host = show_ipv6 a \<Longrightarrow> ?thesis" for a using show_ipv6_facts [of a] plain_utf8 by auto
qed blast



lemma show_ip_facts: "parse_ip (show_ip ip) = Some ip" "list_all plain (show_ip ip)" "show_ip ip \<noteq> []" "length (show_ip ip) \<le> 255"
  using show_ipv4_facts show_ipv6_facts
  by (cases ip; fastforce simp: show_ip_def parse_show_ipv4 parse_show_ipv6 intro: order_trans)+

text \<open>
  A destination given as an address, the form SOCKS address requests take, is dialled as
  exactly that address or not at all: the host patterns and the resolver play no part, and the
  block list is asked about the very address the user named.
\<close>

theorem literal_dial:
  assumes "port \<noteq> 0"
  shows "relay_dial (Some pol) lookup_host stats (target_bytes (show_ip ip) port) =
     Ok (if port_allowed pol port \<and> ip_allowed pol ip then DialTo ip port else EndSession ''outbound_blocked'')"
proof -
  note f = show_ip_facts [of ip]
  have "parse_connect (target_bytes (show_ip ip) port) = Ok (show_ip ip, port)" using f assms by (intro plain_parse) simp_all
  then show ?thesis by (simp add: relay_dial_def resolve_host_with_timeout_def f(1) check_def check_hostname_def)
qed

theorem literal_dial_witness:
  "relay_dial (Some permissive) (\<lambda>_ _. LookupFailed) \<lparr>lookups_succeeded = 0, lookups_failed = 0, lookups_timed_out = 0\<rparr>
     (target_bytes (show_ip (V6 1)) 22) = Ok (DialTo (V6 1) 22)"
  using literal_dial [of 22 permissive] by (simp add: permissive_def port_allowed_def ip_allowed_def)

lemma relay_dial_DialTo:
  assumes "relay_dial (Some pol) lookup_host stats req = Ok (DialTo ip port)"
  obtains host resolved where "parse_connect req = Ok (host, port)" and "check pol host port resolved = Ok (Allow ip)"
    and "parse_ip host = Some ip \<and> resolved = [ip] \<or> parse_ip host = None \<and> lookup_host host port = Found resolved"
proof -
  obtain host p where pc: "parse_connect req = Ok (host, p)"
    using assms by (auto simp: relay_dial_def rust_bind_Ok_iff)
  obtain resolved st where r: "resolve_host_with_timeout lookup_host host p stats = (resolved, st)" by fastforce
  obtain d where d: "check pol host p resolved = Ok d"
    "(case d of Allow ip \<Rightarrow> Ok (DialTo ip p) | _ \<Rightarrow> Ok (EndSession ''outbound_blocked'')) = (Ok (DialTo ip port) :: (string, dial) rust)"
    using assms by (auto simp: relay_dial_def pc r rust_bind_Ok_iff)
  then have c: "check pol host p resolved = Ok (Allow ip)" "p = port" by (cases d; simp)+
  then have "resolved \<noteq> []" "ip = hd resolved" by (simp_all add: check_Allow_iff)
  then have "parse_ip host = Some ip \<and> resolved = [ip] \<or> parse_ip host = None \<and> lookup_host host port = Found resolved"
    using r c(2) by (auto simp: resolve_host_with_timeout_def split: option.splits lookup.splits)
  then show thesis using that pc c by blast
qed

text \<open>
  C14. Under the default policy no record a client can send makes the server dial an internal
  address or another port than 80 and 443: the address dialled is the one named, or the first of
  the resolver's answer to the one lookup made for the name, and all of that answer is public.
\<close>

theorem relay_dials_public:
  assumes "policy_default = Ok pol" and "relay_dial (Some pol) lookup_host stats req = Ok (DialTo ip port)"
  shows "port \<in> {80, 443} \<and> \<not> internal_address ip
     \<and> (\<exists>host. parse_connect req = Ok (host, port)
          \<and> (parse_ip host = Some ip \<or> (\<exists>rest. lookup_host host port = Found (ip # rest) \<and> (\<forall>r\<in>set rest. \<not> internal_address r))))"
proof -
  obtain host resolved where h: "parse_connect req = Ok (host, port)" "check pol host port resolved = Ok (Allow ip)"
    "parse_ip host = Some ip \<and> resolved = [ip] \<or> parse_ip host = None \<and> lookup_host host port = Found resolved"
    using relay_dial_DialTo [OF assms(2)] by blast
  have c: "resolved \<noteq> []" "ip = hd resolved" "\<forall>r\<in>set resolved. ip_allowed pol r" "port_allowed pol port"
    using h(2) by (simp_all add: check_Allow_iff)
  have pol: "op_blocked_cidrs pol = default_rules" "op_allowed_ports pol = [80, 443]"
    using assms(1) by (auto simp: policy_default_def default_blocklist)
  have "\<forall>r\<in>set resolved. \<not> internal_address r" using c(3) internal_blocked pol(1) by (auto simp: ip_allowed_def)
  moreover obtain rest where "resolved = ip # rest" using c(1,2) by (cases resolved) auto
  moreover have "port \<in> {80, 443}" using c(4) pol(2) by (auto simp: port_allowed_def split: if_splits)
  ultimately show ?thesis using h(1,3) by auto
qed

theorem relay_dials_public_witness:
  "\<exists>pol. policy_default = Ok pol
     \<and> relay_dial (Some pol) (\<lambda>_ _. Found [V4 0x5DB8D822]) \<lparr>lookups_succeeded = 0, lookups_failed = 0, lookups_timed_out = 0\<rparr>
         (target_bytes (ascii ''example.org'') 443) = Ok (DialTo (V4 0x5DB8D822) 443)
     \<and> \<not> internal_address (V4 0x5DB8D822)"
proof -
  let ?pol = "\<lparr>op_allowed_ports = [80, 443], op_blocked_cidrs = default_rules, op_deny_unresolvable = True, op_allowed_hostnames = [], op_blocked_hostnames = []\<rparr>"
  let ?st = "\<lparr>lookups_succeeded = 0, lookups_failed = 0, lookups_timed_out = 0\<rparr>"
  have p: "policy_default = Ok ?pol" by (simp add: policy_default_def default_blocklist)
  have d: "relay_dial (Some ?pol) (\<lambda>_ _. Found [V4 0x5DB8D822]) ?st (target_bytes (ascii ''example.org'') 443) = Ok (DialTo (V4 0x5DB8D822) 443)"
    by code_simp
  show ?thesis using p d relay_dials_public [OF p d] by blast
qed

lemma any_matches_Panic:
  assumes "any_matches ps host = Panic"
  shows "\<exists>p\<in>set ps. pattern_matches p host = Panic"
  using assms by (induction ps) (auto simp: rust_bind_Panic_iff split: if_splits)

lemma parse_connect_not_Panic: "parse_connect buf \<noteq> Panic"
proof (cases buf)
  case (Cons l rest)
  have "unat l < length rest \<Longrightarrow> index buf (Suc (unat l)) \<noteq> Panic" "Suc (unat l) < length rest \<Longrightarrow> index buf (Suc (Suc (unat l))) \<noteq> Panic"
    using Cons by simp_all
  then show ?thesis using Cons by (auto simp: parse_connect_def rust_bind_Panic_iff Let_def not_less split: if_splits)
qed (simp add: parse_connect_def)

text \<open>
  The only thing a client's record can make panic on the way to the dial is the matching of a
  host pattern, with a name that is not an address literal and has a character across the place
  where the pattern's suffix would start; in particular not without host patterns, nor with an
  ASCII name.
\<close>

theorem relay_dial_panics_only_on_names:
  assumes "relay_dial (Some pol) lookup_host stats req = Panic"
  shows "\<exists>host port p. parse_connect req = Ok (host, port) \<and> parse_ip host = None
     \<and> p \<in> set (op_blocked_hostnames pol @ op_allowed_hostnames pol)
     \<and> (let h = to_ascii_lowercase (trim_end_dots host) in \<not> is_char_boundary h (length h - length (hp_suffix p)))"
proof -
  obtain host port where pc: "parse_connect req = Ok (host, port)"
    using assms parse_connect_not_Panic by (auto simp: relay_dial_def rust_bind_Panic_iff)
  obtain resolved st where r: "resolve_host_with_timeout lookup_host host port stats = (resolved, st)" by fastforce
  have "(case d of Allow ip \<Rightarrow> Ok (DialTo ip port) | _ \<Rightarrow> Ok (EndSession ''outbound_blocked'')) \<noteq> (Panic :: (string, dial) rust)" for d
    by (cases d) simp_all
  then have "check pol host port resolved = Panic" using assms by (auto simp: relay_dial_def pc r rust_bind_Panic_iff)
  then have "check_hostname pol host = Panic"
    by (auto simp: rust_bind_Panic_iff check_def split: option.splits list.splits if_splits)
  then have "parse_ip host = None" "any_matches (op_blocked_hostnames pol) host = Panic \<or> any_matches (op_allowed_hostnames pol) host = Panic"
    by (auto simp: check_hostname_def rust_bind_Panic_iff split: if_splits)
  moreover from this obtain p where "p \<in> set (op_blocked_hostnames pol @ op_allowed_hostnames pol)" "pattern_matches p host = Panic"
    using any_matches_Panic by fastforce
  ultimately show ?thesis using pc by (force simp: pattern_matches_cases Let_def split: if_splits)
qed

theorem relay_dial_panics_only_on_names_witness:
  "\<exists>pol host port p. extend_blocked_hostnames [ascii ''com''] permissive = (Ok (), pol)
     \<and> parse_connect [4, 0xC3, 0xA9, 0x61, 0x62, 1, 0xbb] = Ok (host, port) \<and> p \<in> set (op_blocked_hostnames pol @ op_allowed_hostnames pol)
     \<and> (let h = to_ascii_lowercase (trim_end_dots host) in \<not> is_char_boundary h (length h - length (hp_suffix p)))"
proof -
  let ?pol = "permissive\<lparr>op_blocked_hostnames := [\<lparr>hp_suffix = ascii ''com'', hp_strict_subdomain = False\<rparr>]\<rparr>"
  have e: "extend_blocked_hostnames [ascii ''com''] permissive = (Ok (), ?pol)" by code_simp
  have "relay_dial (Some ?pol) (\<lambda>_ _. LookupFailed) \<lparr>lookups_succeeded = 0, lookups_failed = 0, lookups_timed_out = 0\<rparr>
     [4, 0xC3, 0xA9, 0x61, 0x62, 1, 0xbb] = Panic" by code_simp
  from relay_dial_panics_only_on_names [OF this] show ?thesis using e by blast
qed

end
