(* ===== verification/Bootstrap.thy ===== *)
theory Bootstrap
  imports Relay_Target
begin

text \<open>
  How the client program finds the address of a server (\<open>bootstrap.rs\<close>): the reading of a
  \<open>host:port\<close> endpoint and its resolution under the policy of the configuration file.

  The system resolver is an argument; that an endpoint needs no DNS query is stated as
  independence of that argument.
\<close>

section \<open>Model\<close>

text \<open>\<open>u16::from_str\<close> and \<open>str::rsplit_once\<close>.\<close>

definition parse_u16 :: "bytes \<Rightarrow> u16 option" where
  "parse_u16 s =
     (let ds = (case s of c # cs \<Rightarrow> if c = 43 then cs else s | [] \<Rightarrow> []) in
      case read_number 10 (length ds) True 65535 ds of
        Some (n, []) \<Rightarrow> Some (word_of_int n)
      | _ \<Rightarrow> None)"

definition rsplit_once :: "'a \<Rightarrow> 'a list \<Rightarrow> ('a list \<times> 'a list) option" where
  "rsplit_once c s =
     (if c \<in> set s then Some (rev (tl (dropWhile (\<lambda>x. x \<noteq> c) (rev s))), rev (takeWhile (\<lambda>x. x \<noteq> c) (rev s))) else None)"

definition parse_host_port :: "bytes \<Rightarrow> (bytes \<times> u16) option" where
  "parse_host_port s =
     (if list_ex (\<lambda>b. b < 0x20 \<or> b = 0x7f) s then None
      else if starts_with s [91] then
        (let stripped = tl s in
         if 93 \<in> set stripped then
           (let host = takeWhile (\<lambda>c. c \<noteq> 93) stripped; rest = tl (dropWhile (\<lambda>c. c \<noteq> 93) stripped) in
            case (if starts_with rest [58] then parse_u16 (tl rest) else None) of
              Some port \<Rightarrow> if port = 0 \<or> host = [] then None else Some (host, port)
            | None \<Rightarrow> None)
         else None)
      else
        Option.bind (rsplit_once 58 s) (\<lambda>(host, port).
        Option.bind (parse_u16 port) (\<lambda>port.
        if host = [] \<or> port = 0 then None else Some (host, port))))"

definition parse_ip_literal :: "bytes \<Rightarrow> IpAddr option" where
  "parse_ip_literal host = parse_ip host"

definition endpoint_is_ip_literal :: "bytes \<Rightarrow> bool" where
  "endpoint_is_ip_literal ep =
     (case parse_host_port ep of Some (host, _) \<Rightarrow> parse_ip_literal host \<noteq> None | None \<Rightarrow> False)"

datatype BootstrapDnsCfg = System | DirectIp IpAddr

datatype ResolvedVia = IpLiteralInEndpoint | PinnedDirectIp | SystemResolver

record Resolved =
  rs_addr :: "IpAddr \<times> u16"
  rs_via :: ResolvedVia

definition SYSTEM_RESOLVER_TIMEOUT_SECS :: u64 where "SYSTEM_RESOLVER_TIMEOUT_SECS = 5"

datatype BootstrapError = BadEndpoint bytes | NoSystemAddresses bytes | SystemResolverTimeout u64 bytes | BootstrapIo

text \<open>What the system resolver answers within the deadline.\<close>

datatype answer = Addresses "(IpAddr \<times> u16) list" | ResolverError | NoAnswer

definition resolve_endpoint :: "(bytes \<Rightarrow> answer) \<Rightarrow> bytes \<Rightarrow> BootstrapDnsCfg option \<Rightarrow> (BootstrapError, Resolved) rust" where
  "resolve_endpoint lookup_host ep policy =
     (case parse_host_port ep of
        None \<Rightarrow> Err (BadEndpoint ep)
      | Some (host, port) \<Rightarrow>
          (case parse_ip_literal host of
             Some ip \<Rightarrow> Ok \<lparr>rs_addr = (ip, port), rs_via = IpLiteralInEndpoint\<rparr>
           | None \<Rightarrow>
               (case policy of
                  Some (DirectIp ip) \<Rightarrow> Ok \<lparr>rs_addr = (ip, port), rs_via = PinnedDirectIp\<rparr>
                | _ \<Rightarrow>
                    (case lookup_host ep of
                       Addresses [] \<Rightarrow> Err (NoSystemAddresses ep)
                     | Addresses (a # _) \<Rightarrow> Ok \<lparr>rs_addr = a, rs_via = SystemResolver\<rparr>
                     | ResolverError \<Rightarrow> Err BootstrapIo
                     | NoAnswer \<Rightarrow> Err (SystemResolverTimeout SYSTEM_RESOLVER_TIMEOUT_SECS ep)))))"

section \<open>Characters of printed addresses\<close>

definition hex_char :: "u8 \<Rightarrow> bool" where
  "hex_char c \<longleftrightarrow> (48 \<le> uint c \<and> uint c \<le> 57) \<or> (97 \<le> uint c \<and> uint c \<le> 102)"

lemma digit_char_hex:
  assumes "0 \<le> d" and "d < 16"
  shows "hex_char (digit_char d)"
proof -
  have "uint (word_of_int x :: u8) = x" if "0 \<le> x" "x < 256" for x using that by (simp add: uint_word_of_int)
  from this [of "48 + d"] this [of "87 + d"] show ?thesis
    using assms unfolding hex_char_def digit_char_def by auto
qed

lemma show_radix_hex: "2 \<le> b \<Longrightarrow> b \<le> 16 \<Longrightarrow> 0 \<le> n \<Longrightarrow> c \<in> set (show_radix b n) \<Longrightarrow> hex_char c"
  using radix_digits_facts [of b n] by (fastforce simp: show_radix_def intro!: digit_char_hex)

lemma set_join_sep: "set (join_sep c xs) \<subseteq> insert c (\<Union>x\<in>set xs. set x)"
  by (induction c xs rule: join_sep.induct) auto

lemma show_ipv4_chars: "c \<in> set (show_ipv4 a) \<Longrightarrow> hex_char c \<or> c = 46"
  using set_join_sep [of 46 "map (show_radix 10) (ipv4_octets a)"] radix_fixed_facts(2) [of 256 4 "uint a"]
  by (fastforce simp: show_ipv4_def dest: show_radix_hex [rotated 3])

lemma show_groups_chars: "\<forall>g\<in>set gs. 0 \<le> g \<Longrightarrow> c \<in> set (show_groups gs) \<Longrightarrow> hex_char c \<or> c = 58"
  using set_join_sep [of 58 "map (show_radix 16) gs"]
  by (fastforce simp: show_groups_def dest: show_radix_hex [rotated 3])

lemma show_ipv6_chars: "c \<in> set (show_ipv6 a) \<Longrightarrow> hex_char c \<or> c = 58 \<or> c = 46"
proof -
  have g: "\<forall>g\<in>set (ipv6_segments a). 0 \<le> g" using radix_fixed_facts(2) [of 65536 8 "uint a"] by auto
  have sub: "\<forall>g\<in>set (take n (ipv6_segments a)). 0 \<le> g" "\<forall>g\<in>set (drop n (ipv6_segments a)). 0 \<le> g" for n
    using g by (auto dest: in_set_takeD in_set_dropD)
  have "\<forall>c\<in>set (ascii ''::ffff:''). c = 58 \<or> c = 102" by (simp add: ascii_def)
  then have m: "c \<in> set (ascii ''::ffff:'') \<Longrightarrow> hex_char c \<or> c = 58" for c by (fastforce simp: hex_char_def)
  have t: "c \<in> set (ascii ''::'') \<Longrightarrow> c = 58" for c by (auto simp: ascii_def)
  show "c \<in> set (show_ipv6 a) \<Longrightarrow> hex_char c \<or> c = 58 \<or> c = 46"
    using show_groups_chars [OF g, of c] show_groups_chars [OF sub(1), of c] show_groups_chars [OF sub(2), of c] m [of c] t [of c] show_ipv4_chars [of c]
    by (auto simp: show_ipv6_def Let_def split: if_splits prod.splits)
qed

lemma hex_char_plain: "hex_char c \<Longrightarrow> \<not> (c < 0x20 \<or> c = 0x7f) \<and> c \<noteq> 58 \<and> c \<noteq> 91 \<and> c \<noteq> 93 \<and> c \<noteq> 43"
  by (auto simp: hex_char_def word_less_def)

section \<open>Reading an endpoint\<close>

text \<open>\<open>SocketAddr\<close> as it prints itself, and a name with a port.\<close>

definition show_port :: "u16 \<Rightarrow> bytes" where
  "show_port p = show_radix 10 (uint p)"

definition show_endpoint :: "IpAddr \<Rightarrow> u16 \<Rightarrow> bytes" where
  "show_endpoint ip p =
     (case ip of V4 a \<Rightarrow> show_ipv4 a @ 58 # show_port p | V6 a \<Rightarrow> 91 # show_ipv6 a @ 93 # 58 # show_port p)"

lemma show_port_chars: "c \<in> set (show_port p) \<Longrightarrow> hex_char c"
  using show_radix_hex [of 10 "uint p" c] by (simp add: show_port_def)

lemma radix_val_less:
  assumes "0 < b" and "\<forall>d\<in>set ds. d < b"
  shows "radix_val b ds < b ^ length ds"
  using assms(2)
proof (induction ds rule: rev_induct)
  case (snoc d ds)
  then have "radix_val b ds + 1 \<le> b ^ length ds" "d < b" by simp_all
  then have "(radix_val b ds + 1) * b \<le> b ^ length ds * b" "d < b" using assms(1) by (simp_all add: mult_right_mono)
  then show ?case by (simp add: algebra_simps)
qed simp

lemma read_number_whole:
  assumes "0 \<le> n" and "n \<le> limit"
  shows "read_number 10 (length (show_radix 10 n)) z limit (show_radix 10 n) = Some (n, [])"
proof -
  have "n < 10 ^ length (show_radix 10 n)" "show_radix 10 n \<noteq> []"
    using radix_val_less [of 10 "radix_digits 10 n"] radix_digits_facts [of 10 n] assms(1) by (auto simp: show_radix_def)
  then show ?thesis using read_number_show [of 10 "[]" n limit "length (show_radix 10 n)" z] assms by simp
qed

lemma parse_show_port [simp]: "parse_u16 (show_port p) = Some p"
proof -
  have b: "uint p \<le> 65535" using uint_lt2p [of p] by simp
  have "show_port p \<noteq> []" using radix_digits_facts [of 10 "uint p"] by (simp add: show_port_def show_radix_def)
  then have "(case show_port p of c # cs \<Rightarrow> if c = 43 then cs else show_port p | [] \<Rightarrow> []) = show_port p"
    using show_port_chars [of "hd (show_port p)" p] hex_char_plain by (cases "show_port p") auto
  then show ?thesis unfolding parse_u16_def Let_def using read_number_whole [OF _ b, of True] by (simp add: show_port_def)
qed

lemma rsplit_last: "c \<notin> set t \<Longrightarrow> rsplit_once c (h @ c # t) = Some (h, t)"
proof -
  assume "c \<notin> set t"
  then have "takeWhile (\<lambda>x. x \<noteq> c) (rev t @ c # rev h) = rev t" "dropWhile (\<lambda>x. x \<noteq> c) (rev t @ c # rev h) = c # rev h"
    by (auto simp: takeWhile_append dropWhile_append)
  then show ?thesis by (simp add: rsplit_once_def)
qed

lemma parse_named:
  assumes "host \<noteq> []" and "hd host \<noteq> 91" and "\<not> list_ex (\<lambda>b. b < 0x20 \<or> b = 0x7f) host" and "p \<noteq> 0"
  shows "parse_host_port (host @ 58 # show_port p) = Some (host, p)"
proof -
  have "\<not> list_ex (\<lambda>b. b < 0x20 \<or> b = 0x7f) (host @ 58 # show_port p)"
    using assms(3) show_port_chars hex_char_plain by (auto simp: list_ex_iff)
  moreover have "58 \<notin> set (show_port p)" using show_port_chars hex_char_plain by blast
  moreover have "\<not> starts_with (host @ 58 # show_port p) [91]" using assms(1,2) by (cases host) (auto simp: starts_with_def)
  ultimately show ?thesis using assms by (simp add: parse_host_port_def rsplit_last)
qed

lemma parse_bracketed:
  assumes "host \<noteq> []" and "93 \<notin> set host" and "\<not> list_ex (\<lambda>b. b < 0x20 \<or> b = 0x7f) host" and "p \<noteq> 0"
  shows "parse_host_port (91 # host @ 93 # 58 # show_port p) = Some (host, p)"
proof -
  have "\<not> list_ex (\<lambda>b. b < 0x20 \<or> b = 0x7f) (91 # host @ 93 # 58 # show_port p)"
    using assms(3) show_port_chars hex_char_plain by (auto simp: list_ex_iff)
  moreover have "takeWhile (\<lambda>c. c \<noteq> 93) (host @ 93 # 58 # show_port p) = host"
    "dropWhile (\<lambda>c. c \<noteq> 93) (host @ 93 # 58 # show_port p) = 93 # 58 # show_port p"
    using assms(2) by (auto simp: takeWhile_append dropWhile_append)
  ultimately show ?thesis using assms by (simp add: parse_host_port_def starts_with_def)
qed

lemma parse_show_endpoint:
  assumes "p \<noteq> 0"
  shows "parse_host_port (show_endpoint ip p) = Some (show_ip ip, p)"
proof (cases ip)
  case (V4 a)
  have "\<not> list_ex (\<lambda>b. b < 0x20 \<or> b = 0x7f) (show_ipv4 a)" "hd (show_ipv4 a) \<noteq> 91"
    using show_ipv4_chars [of _ a] hex_char_plain show_ipv4_facts [of a] hd_in_set by (fastforce simp: list_ex_iff)+
  then show ?thesis using parse_named show_ipv4_facts [of a] assms V4 by (simp add: show_endpoint_def show_ip_def)
next
  case (V6 a)
  have "\<not> list_ex (\<lambda>b. b < 0x20 \<or> b = 0x7f) (show_ipv6 a)" "93 \<notin> set (show_ipv6 a)"
    using show_ipv6_chars [of _ a] hex_char_plain by (fastforce simp: list_ex_iff)+
  then show ?thesis using parse_bracketed show_ipv6_facts [of a] assms V6 by (simp add: show_endpoint_def show_ip_def)
qed

text \<open>
  An endpoint written as an address and a port, the way they print, is resolved to exactly these
  whatever the policy and the system resolver; so is a name with a pinned address.  Only a name
  without one asks the resolver, for the endpoint as written, and takes its first answer.
\<close>

theorem endpoint_resolution:
  assumes "p \<noteq> 0"
  shows "resolve_endpoint dns (show_endpoint ip p) policy = Ok \<lparr>rs_addr = (ip, p), rs_via = IpLiteralInEndpoint\<rparr>
    \<and> (host \<noteq> [] \<and> hd host \<noteq> 91 \<and> \<not> list_ex (\<lambda>b. b < 0x20 \<or> b = 0x7f) host \<and> parse_ip host = None \<longrightarrow>
         resolve_endpoint dns (host @ 58 # show_port p) (Some (DirectIp ip)) = Ok \<lparr>rs_addr = (ip, p), rs_via = PinnedDirectIp\<rparr>
       \<and> (\<forall>a rest. dns (host @ 58 # show_port p) = Addresses (a # rest) \<longrightarrow>
            resolve_endpoint dns (host @ 58 # show_port p) None = Ok \<lparr>rs_addr = a, rs_via = SystemResolver\<rparr>))"
  using parse_show_endpoint [OF assms] show_ip_facts(1) [of ip] parse_named [OF _ _ _ assms]
  by (auto simp: resolve_endpoint_def parse_ip_literal_def)

theorem endpoint_resolution_witness:
  "resolve_endpoint (\<lambda>_. NoAnswer) (show_endpoint (V6 1) 8443) None = Ok \<lparr>rs_addr = (V6 1, 8443), rs_via = IpLiteralInEndpoint\<rparr>
   \<and> resolve_endpoint (\<lambda>_. NoAnswer) (ascii ''a.b'' @ 58 # show_port 8443) (Some (DirectIp (V4 1))) = Ok \<lparr>rs_addr = (V4 1, 8443), rs_via = PinnedDirectIp\<rparr>"
proof -
  have h: "ascii ''a.b'' \<noteq> [] \<and> hd (ascii ''a.b'') \<noteq> 91 \<and> \<not> list_ex (\<lambda>b. b < 0x20 \<or> b = 0x7f) (ascii ''a.b'') \<and> parse_ip (ascii ''a.b'') = None"
    by code_simp
  show ?thesis
    using endpoint_resolution [of 8443 "\<lambda>_. NoAnswer" "V6 1" None] endpoint_resolution [of 8443 "\<lambda>_. NoAnswer" "V4 1" None "ascii ''a.b''"] h
    by simp
qed

end
