(* ===== verification/Endpoint_Health.thy ===== *)
theory Endpoint_Health
  imports Proteus_Spec
begin

text \<open>
  The two circuit breakers of the client: \<open>CarrierHealth\<close> (\<open>carrier_health.rs\<close>), which decides
  whether the QUIC carrier is tried first, and \<open>EndpointHealth\<close> (\<open>endpoint_pool.rs\<close>), which
  decides whether a server of the pool is dialled.  An instant is a number of nanoseconds; the
  atomics are words, so that additions wrap as in a release build.

  Both promise the same: the locale \<open>breaker\<close> states it once, and both are interpretations.
\<close>

lemma residue_unique:
  fixes a n :: nat
  assumes "(a + i) mod n = 0" and "(a + j) mod n = 0" and "i \<le> j" and "j < n"
  shows "i = j"
proof -
  have "n dvd (a + j) - (a + i)" using assms(1,2) by (intro dvd_diff_nat) auto
  then have "n dvd j - i" by simp
  then show ?thesis using assms(3,4) by (auto dest: dvd_imp_le)
qed

lemma one_residue:
  fixes a n :: nat
  assumes "0 < n"
  shows "\<exists>!i. i < n \<and> (a + i) mod n = 0"
proof (rule ex_ex1I)
  let ?r = "(a + n - 1) mod n"
  have "?r < n" using assms by simp
  then have r: "?r \<le> n - 1" "?r \<le> a + n - 1" by linarith (rule mod_less_eq_dividend)
  then have "a + (n - 1 - ?r) = a + n - 1 - ?r" using assms by simp
  also have "\<dots> mod n = 0" by (simp add: minus_mod_eq_mult_div)
  finally show "\<exists>i. i < n \<and> (a + i) mod n = 0" using assms by (intro exI [of _ "n - 1 - ?r"]) auto
qed (metis residue_unique nat_le_linear)

section \<open>Interface\<close>

text \<open>
  A breaker opens at the threshold of consecutive failures, for a window that depends on how many
  more there were; while open it lets every \<open>interval\<close>-th request through.  \<open>good t s\<close>: the
  counters and the clock are within range for a failure at \<open>t\<close>.
\<close>

locale breaker =
  fixes streak :: "'s \<Rightarrow> nat" and threshold :: "'s \<Rightarrow> nat" and deadline :: "'s \<Rightarrow> nat" and skips :: "'s \<Rightarrow> nat"
    and fail :: "nat \<Rightarrow> 's \<Rightarrow> 's" and succeed :: "'s \<Rightarrow> 's"
    and allowed :: "nat \<Rightarrow> 's \<Rightarrow> bool" and asked :: "nat \<Rightarrow> 's \<Rightarrow> 's"
    and good :: "nat \<Rightarrow> 's \<Rightarrow> bool" and window :: "nat \<Rightarrow> nat" and interval :: nat
  assumes closed: "deadline s \<le> t \<Longrightarrow> allowed t s \<and> asked t s = s"
    and opened: "t < deadline s \<Longrightarrow> (allowed t s \<longleftrightarrow> skips s mod interval = 0)
        \<and> skips (asked t s) mod interval = (skips s + 1) mod interval \<and> deadline (asked t s) = deadline s"
    and succeed_resets: "deadline (succeed s) = 0 \<and> streak (succeed s) = 0 \<and> threshold (succeed s) = threshold s"
    and fail_counts: "good t s \<Longrightarrow> streak (fail t s) = streak s + 1 \<and> threshold (fail t s) = threshold s"
    and fail_opens: "good t s \<Longrightarrow> deadline (fail t s) =
        (if streak s + 1 < threshold s then deadline s else t + window (streak s + 1 - threshold s))"
    and interval_pos: "0 < interval"
begin

text \<open>Failures at successive instants.\<close>

fun goods :: "nat list \<Rightarrow> 's \<Rightarrow> bool" where
  "goods [] s = True"
| "goods (t # ts) s = (good t s \<and> goods ts (fail t s))"

lemma fails_streak:
  "goods ts s \<Longrightarrow> streak (foldl (\<lambda>s t. fail t s) s ts) = streak s + length ts \<and> threshold (foldl (\<lambda>s t. fail t s) s ts) = threshold s"
  using fail_counts by (induction ts arbitrary: s) auto

lemma goods_snoc: "goods (ts @ [t]) s \<Longrightarrow> goods ts s \<and> good t (foldl (\<lambda>s t. fail t s) s ts)"
  by (induction ts arbitrary: s) auto

lemma fails_deadline:
  assumes "goods ts s" and "deadline s = 0" and "streak s = 0" and "0 < threshold s"
  shows "deadline (foldl (\<lambda>s t. fail t s) s ts) =
     (if length ts < threshold s then 0 else last ts + window (length ts - threshold s))"
  using assms(1)
proof (induction ts rule: rev_induct)
  case Nil
  then show ?case using assms by simp
next
  case (snoc t ts)
  note g = goods_snoc [OF snoc.prems]
  show ?case using snoc.IH [OF conjunct1 [OF g]] fail_opens [OF conjunct2 [OF g]] fails_streak [OF conjunct1 [OF g]] assms(3)
    by auto
qed

text \<open>Requests while the breaker stays open.\<close>

fun answers :: "nat list \<Rightarrow> 's \<Rightarrow> bool list" where
  "answers [] s = []"
| "answers (t # ts) s = allowed t s # answers ts (asked t s)"

lemma answers_open:
  assumes "\<forall>t\<in>set ts. t < deadline s" and "i < length ts"
  shows "answers ts s ! i \<longleftrightarrow> (skips s + i) mod interval = 0"
  using assms
proof (induction ts arbitrary: s i)
  case (Cons t ts)
  note o' = opened [of t s]
  show ?case
  proof (cases i)
    case (Suc j)
    have "answers ts (asked t s) ! j \<longleftrightarrow> (skips (asked t s) + j) mod interval = 0"
      using Cons.IH [of "asked t s" j] Cons.prems o' Suc by simp
    also have "(skips (asked t s) + j) mod interval = (skips s + 1 + j) mod interval"
      using o' Cons.prems(1) by (intro mod_add_cong) auto
    finally show ?thesis using Suc by simp
  qed (use o' Cons.prems in simp)
qed simp

lemma length_answers [simp]: "length (answers ts s) = length ts"
  by (induction ts arbitrary: s) auto

lemma one_probe:
  assumes "\<forall>t\<in>set ts. t < deadline s" and "length ts = interval"
  shows "\<exists>!i. i < interval \<and> answers ts s ! i"
  using one_residue [OF interval_pos, of "skips s"]
  by (simp add: answers_open [OF assms(1)] assms(2) cong: conj_cong)

text \<open>The life of a breaker that only sees failures.\<close>

lemma profile:
  assumes "goods ts s" and "deadline s = 0" and "streak s = 0" and "0 < threshold s"
  defines "s' \<equiv> foldl (\<lambda>s t. fail t s) s ts"
  defines "d \<equiv> last ts + window (length ts - threshold s)"
  shows "length ts < threshold s \<Longrightarrow> allowed t s' \<and> asked t s' = s'"
    and "threshold s \<le> length ts \<Longrightarrow> d \<le> t \<Longrightarrow> allowed t s' \<and> asked t s' = s'"
    and "threshold s \<le> length ts \<Longrightarrow> \<forall>q\<in>set qs. q < d \<Longrightarrow> length qs = interval \<Longrightarrow>
           \<exists>!i. i < interval \<and> answers qs s' ! i"
    and "allowed t (succeed r)"
  using fails_deadline [OF assms(1-4)] closed [of s' t] one_probe [of qs s'] succeed_resets [of r] closed [of "succeed r" t]
  by (auto simp: s'_def d_def)

end

section \<open>Windows and deadlines\<close>

type_synonym instant = nat

definition from_secs :: "nat \<Rightarrow> nat" where
  "from_secs s = s * 1000000000"

definition DEFAULT_FAILURE_THRESHOLD :: u32 where "DEFAULT_FAILURE_THRESHOLD = 3"
definition INITIAL_SUPPRESSION :: nat where "INITIAL_SUPPRESSION = from_secs 15"
definition MAX_SUPPRESSION :: nat where "MAX_SUPPRESSION = from_secs 300"
definition PROBE_INTERVAL :: u32 where "PROBE_INTERVAL = 32"

text \<open>
  \<open>Duration::checked_mul\<close>: a duration holds \<open>u64\<close> seconds.
\<close>

definition checked_mul :: "nat \<Rightarrow> u32 \<Rightarrow> nat option" where
  "checked_mul d k = (if d * unat k < from_secs (2 ^ 64) then Some (d * unat k) else None)"

definition saturating_sub :: "u32 \<Rightarrow> u32 \<Rightarrow> u32" where
  "saturating_sub a b = (if b \<le> a then a - b else 0)"

text \<open>\<open>INITIAL << min(streak - threshold, 5)\<close>, capped.\<close>

definition suppression_window :: "u32 \<Rightarrow> u32 \<Rightarrow> nat" where
  "suppression_window n threshold =
     (let extra = min (saturating_sub n threshold) 5 in
      min (case checked_mul INITIAL_SUPPRESSION (push_bit (unat extra) 1) of Some d \<Rightarrow> d | None \<Rightarrow> MAX_SUPPRESSION)
          MAX_SUPPRESSION)"

text \<open>A deadline is kept as nanoseconds since the creation of the breaker, never \<open>0\<close>.\<close>

definition to_nanos :: "instant \<Rightarrow> instant \<Rightarrow> u64" where
  "to_nanos epoch t = max (if t - epoch < 2 ^ 64 then word_of_nat (t - epoch) else - 1) 1"

definition decode_nanos :: "instant \<Rightarrow> u64 \<Rightarrow> instant" where
  "decode_nanos epoch ns = epoch + unat ns"

definition deadline_at :: "instant \<Rightarrow> u64 \<Rightarrow> instant" where
  "deadline_at epoch ns = (if ns = 0 then 0 else decode_nanos epoch ns)"

definition backoff :: "nat \<Rightarrow> nat" where
  "backoff k = min (15000000000 * 2 ^ min k 5) 300000000000"

lemma suppression_window_backoff:
  assumes "unat th \<le> unat n"
  shows "suppression_window n th = backoff (unat n - unat th)"
proof -
  have "unat (min (saturating_sub n th) 5) = min (unat n - unat th) 5"
    using assms by (simp add: saturating_sub_def word_le_nat_alt min_def unat_sub)
  moreover have "\<exists>k\<le>5. min (unat n - unat th) 5 = k" by simp
  then obtain k where "min (unat n - unat th) 5 = k" and "k = 0 \<or> k = 1 \<or> k = 2 \<or> k = 3 \<or> k = 4 \<or> k = 5" by force
  ultimately show ?thesis
    by (auto simp: suppression_window_def backoff_def checked_mul_def INITIAL_SUPPRESSION_def MAX_SUPPRESSION_def
        from_secs_def push_bit_eq_mult)
qed

lemma deadline_at_to_nanos:
  assumes "epoch \<le> t" and "0 < d" and "t + d - epoch < 2 ^ 64"
  shows "deadline_at epoch (to_nanos epoch (t + d)) = t + d" and "to_nanos epoch (t + d) \<noteq> 0"
proof -
  have "unat (word_of_nat (t + d - epoch) :: u64) = t + d - epoch"
    using assms(3) by (simp add: unat_of_nat)
  moreover have "(1::u64) \<le> word_of_nat (t + d - epoch)"
    using assms calculation by (simp add: word_le_nat_alt)
  ultimately show "deadline_at epoch (to_nanos epoch (t + d)) = t + d" "to_nanos epoch (t + d) \<noteq> 0"
    using assms by (auto simp: deadline_at_def to_nanos_def decode_nanos_def max_def)
qed

lemma skip_mod: "unat (n + 1) mod unat PROBE_INTERVAL = (unat n + 1) mod unat PROBE_INTERVAL" for n :: u32
proof -
  have "unat (n + 1) = (unat n + 1) mod 2 ^ 32" by (simp add: unat_word_ariths)
  moreover have "(32::nat) dvd 2 ^ 32" by simp
  ultimately show ?thesis by (simp add: PROBE_INTERVAL_def mod_mod_cancel)
qed

section \<open>The carrier\<close>

record CarrierHealth =
  ch_failure_streak :: u32
  ch_suppression_deadline_ns :: u64
  ch_suppressed_connect_count :: u32
  ch_failure_threshold :: u32
  ch_epoch :: instant

datatype BetaDecision = SkipNoConfig | TryBeta | BetaProbe | BetaSkipSuppressed

definition ch_with_threshold :: "u32 \<Rightarrow> instant \<Rightarrow> CarrierHealth" where
  "ch_with_threshold n now = \<lparr>ch_failure_streak = 0, ch_suppression_deadline_ns = 0,
     ch_suppressed_connect_count = 0, ch_failure_threshold = max n 1, ch_epoch = now\<rparr>"

definition ch_new :: "instant \<Rightarrow> CarrierHealth" where
  "ch_new now = ch_with_threshold DEFAULT_FAILURE_THRESHOLD now"

definition ch_is_suppressed :: "instant \<Rightarrow> CarrierHealth \<Rightarrow> bool" where
  "ch_is_suppressed now h = (ch_suppression_deadline_ns h \<noteq> 0
     \<and> now < decode_nanos (ch_epoch h) (ch_suppression_deadline_ns h))"

definition decide_beta :: "bool \<Rightarrow> instant \<Rightarrow> CarrierHealth \<Rightarrow> BetaDecision \<times> CarrierHealth" where
  "decide_beta beta_configured now h =
     (let deadline_ns = ch_suppression_deadline_ns h; n = ch_suppressed_connect_count h in
      if \<not> beta_configured then (SkipNoConfig, h)
      else if deadline_ns = 0 \<or> decode_nanos (ch_epoch h) deadline_ns \<le> now then (TryBeta, h)
      else (if n mod PROBE_INTERVAL = 0 then BetaProbe else BetaSkipSuppressed,
            h\<lparr>ch_suppressed_connect_count := n + 1\<rparr>))"

definition record_beta_success :: "CarrierHealth \<Rightarrow> CarrierHealth" where
  "record_beta_success h = h\<lparr>ch_suppression_deadline_ns := 0, ch_failure_streak := 0, ch_suppressed_connect_count := 0\<rparr>"

definition record_beta_failure :: "instant \<Rightarrow> CarrierHealth \<Rightarrow> CarrierHealth" where
  "record_beta_failure now h =
     (let streak = ch_failure_streak h + 1; h' = h\<lparr>ch_failure_streak := streak\<rparr> in
      if streak < ch_failure_threshold h then h'
      else h'\<lparr>ch_suppression_deadline_ns :=
              to_nanos (ch_epoch h) (now + suppression_window streak (ch_failure_threshold h))\<rparr>)"

section \<open>An endpoint\<close>

record EndpointHealth =
  eh_failure_streak :: u32
  eh_suppression_deadline_ns :: u64
  eh_suppressed_connect_count :: u32
  eh_failure_threshold :: u32
  eh_epoch :: instant
  eh_attempts_total :: u64
  eh_successes_total :: u64
  eh_failures_total :: u64

datatype EndpointDecision = TryEndpoint | Probe | SkipSuppressed

record EndpointCounters =
  ec_attempts :: u64
  ec_successes :: u64
  ec_failures :: u64

definition DEFAULT_ENDPOINT_FAILURE_THRESHOLD :: u32 where "DEFAULT_ENDPOINT_FAILURE_THRESHOLD = 3"

definition eh_with_threshold :: "u32 \<Rightarrow> instant \<Rightarrow> EndpointHealth" where
  "eh_with_threshold n now = \<lparr>eh_failure_streak = 0, eh_suppression_deadline_ns = 0,
     eh_suppressed_connect_count = 0, eh_failure_threshold = max n 1, eh_epoch = now,
     eh_attempts_total = 0, eh_successes_total = 0, eh_failures_total = 0\<rparr>"

definition eh_new :: "instant \<Rightarrow> EndpointHealth" where
  "eh_new now = eh_with_threshold DEFAULT_ENDPOINT_FAILURE_THRESHOLD now"

definition record_attempt :: "EndpointHealth \<Rightarrow> EndpointHealth" where
  "record_attempt h = h\<lparr>eh_attempts_total := eh_attempts_total h + 1\<rparr>"

definition counters :: "EndpointHealth \<Rightarrow> EndpointCounters" where
  "counters h = \<lparr>ec_attempts = eh_attempts_total h, ec_successes = eh_successes_total h, ec_failures = eh_failures_total h\<rparr>"

definition decide :: "instant \<Rightarrow> EndpointHealth \<Rightarrow> EndpointDecision \<times> EndpointHealth" where
  "decide now h =
     (let deadline_ns = eh_suppression_deadline_ns h; n = eh_suppressed_connect_count h in
      if deadline_ns = 0 \<or> decode_nanos (eh_epoch h) deadline_ns \<le> now then (TryEndpoint, h)
      else (if n mod PROBE_INTERVAL = 0 then Probe else SkipSuppressed,
            h\<lparr>eh_suppressed_connect_count := n + 1\<rparr>))"

definition record_success :: "EndpointHealth \<Rightarrow> bool \<times> EndpointHealth" where
  "record_success h = (eh_suppression_deadline_ns h \<noteq> 0,
     h\<lparr>eh_suppression_deadline_ns := 0, eh_failure_streak := 0, eh_suppressed_connect_count := 0,
       eh_successes_total := eh_successes_total h + 1\<rparr>)"

text \<open>Whether this failure newly opened the breaker: the window in seconds.\<close>

definition record_failure :: "instant \<Rightarrow> EndpointHealth \<Rightarrow> nat option \<times> EndpointHealth" where
  "record_failure now h =
     (let streak = eh_failure_streak h + 1;
          h' = h\<lparr>eh_failures_total := eh_failures_total h + 1, eh_failure_streak := streak\<rparr>;
          window = suppression_window streak (eh_failure_threshold h) in
      if streak < eh_failure_threshold h then (None, h')
      else (if eh_suppression_deadline_ns h = 0 then Some (window div from_secs 1) else None,
            h'\<lparr>eh_suppression_deadline_ns := to_nanos (eh_epoch h) (now + window)\<rparr>))"

definition eh_is_suppressed :: "instant \<Rightarrow> EndpointHealth \<Rightarrow> bool" where
  "eh_is_suppressed now h = (eh_suppression_deadline_ns h \<noteq> 0
     \<and> now < decode_nanos (eh_epoch h) (eh_suppression_deadline_ns h))"

section \<open>Both are breakers\<close>

text \<open>A failure at \<open>t\<close> is within range: the streak does not wrap and the deadline fits 64 bits.\<close>

definition in_time :: "instant \<Rightarrow> u32 \<Rightarrow> instant \<Rightarrow> bool" where
  "in_time epoch n t = (epoch \<le> t \<and> t + MAX_SUPPRESSION < epoch + 2 ^ 64 \<and> unat n + 1 < 2 ^ 32)"

lemma backoff_bounds: "0 < backoff k" "backoff k \<le> MAX_SUPPRESSION"
  by (simp_all add: backoff_def MAX_SUPPRESSION_def from_secs_def)

lemma in_time_deadline:
  assumes "in_time epoch n t"
  shows "to_nanos epoch (t + backoff k) \<noteq> 0"
    and "decode_nanos epoch (to_nanos epoch (t + backoff k)) = t + backoff k"
proof -
  have b: "epoch \<le> t" "0 < backoff k" "t + backoff k - epoch < 2 ^ 64"
    using assms backoff_bounds [of k] by (auto simp: in_time_def)
  note d = deadline_at_to_nanos [OF b]
  from d(2) show "to_nanos epoch (t + backoff k) \<noteq> 0" .
  with d(1) show "decode_nanos epoch (to_nanos epoch (t + backoff k)) = t + backoff k" by (simp add: deadline_at_def)
qed

lemma in_time_streak: "in_time epoch n t \<Longrightarrow> unat (n + 1) = unat n + 1"
  by (simp add: in_time_def unat_word_ariths)

lemma interval_dvd: "n mod PROBE_INTERVAL = 0 \<longleftrightarrow> unat n mod 32 = 0" for n :: u32
  by (simp add: PROBE_INTERVAL_def word_unat_eq_iff unat_mod)

lemma interval_step: "unat (n + 1) mod 32 = Suc (unat n) mod 32" for n :: u32
  using skip_mod [of n] by (simp add: PROBE_INTERVAL_def)

interpretation carrier: breaker "unat \<circ> ch_failure_streak" "unat \<circ> ch_failure_threshold"
  "\<lambda>h. deadline_at (ch_epoch h) (ch_suppression_deadline_ns h)" "unat \<circ> ch_suppressed_connect_count"
  record_beta_failure record_beta_success
  "\<lambda>t h. fst (decide_beta True t h) \<noteq> BetaSkipSuppressed" "\<lambda>t h. snd (decide_beta True t h)"
  "\<lambda>t h. in_time (ch_epoch h) (ch_failure_streak h) t" backoff 32
  by unfold_locales
    (auto simp: decide_beta_def deadline_at_def interval_dvd interval_step record_beta_success_def Let_def
      record_beta_failure_def in_time_streak in_time_deadline suppression_window_backoff
      word_less_nat_alt not_less split: if_splits)

interpretation endpoint: breaker "unat \<circ> eh_failure_streak" "unat \<circ> eh_failure_threshold"
  "\<lambda>h. deadline_at (eh_epoch h) (eh_suppression_deadline_ns h)" "unat \<circ> eh_suppressed_connect_count"
  "\<lambda>t h. snd (record_failure t h)" "\<lambda>h. snd (record_success h)"
  "\<lambda>t h. fst (decide t h) \<noteq> SkipSuppressed" "\<lambda>t h. snd (decide t h)"
  "\<lambda>t h. in_time (eh_epoch h) (eh_failure_streak h) t" backoff 32
  by unfold_locales
    (auto simp: decide_def deadline_at_def interval_dvd interval_step record_success_def Let_def
      record_failure_def in_time_streak in_time_deadline suppression_window_backoff
      word_less_nat_alt not_less split: if_splits)

section \<open>Suppression\<close>

fun decisions :: "instant list \<Rightarrow> EndpointHealth \<Rightarrow> EndpointDecision list" where
  "decisions [] h = []"
| "decisions (now # ts) h = fst (decide now h) # decisions ts (snd (decide now h))"

abbreviation failures :: "instant list \<Rightarrow> EndpointHealth \<Rightarrow> EndpointHealth" where
  "failures ts h \<equiv> foldl (\<lambda>h t. snd (record_failure t h)) h ts"

lemma answers_decisions: "endpoint.answers ts h = map (\<lambda>d. d \<noteq> SkipSuppressed) (decisions ts h)"
  by (induction ts arbitrary: h) auto

lemma length_decisions [simp]: "length (decisions ts h) = length ts"
  by (induction ts arbitrary: h) auto

lemma decide_Try: "fst (decide t h) \<noteq> SkipSuppressed \<Longrightarrow> snd (decide t h) = h \<Longrightarrow> decide t h = (TryEndpoint, h)"
  by (cases h) (auto simp: decide_def Let_def split: if_splits)

lemma record_failure_keeps:
  "eh_epoch (snd (record_failure t h)) = eh_epoch h"
  "eh_failure_streak (snd (record_failure t h)) = eh_failure_streak h + 1"
  by (simp_all add: record_failure_def Let_def)

definition timely :: "instant \<Rightarrow> instant list \<Rightarrow> bool" where
  "timely epoch ts = ((\<forall>t\<in>set ts. epoch \<le> t \<and> t + MAX_SUPPRESSION < epoch + 2 ^ 64) \<and> length ts < 2 ^ 32)"

lemma timely_goods:
  assumes "\<forall>t\<in>set ts. eh_epoch h \<le> t \<and> t + MAX_SUPPRESSION < eh_epoch h + 2 ^ 64"
    and "unat (eh_failure_streak h) + length ts < 2 ^ 32"
  shows "endpoint.goods ts h"
  using assms
proof (induction ts arbitrary: h)
  case (Cons t ts)
  have g: "in_time (eh_epoch h) (eh_failure_streak h) t" using Cons.prems by (simp add: in_time_def)
  show ?case using Cons.IH [of "snd (record_failure t h)"] Cons.prems g
    by (simp add: record_failure_keeps in_time_streak [OF g])
qed simp



text \<open>The carrier: the same, with \<open>decide_beta\<close>, once QUIC is configured.\<close>

fun beta_decisions :: "instant list \<Rightarrow> CarrierHealth \<Rightarrow> BetaDecision list" where
  "beta_decisions [] h = []"
| "beta_decisions (now # ts) h = fst (decide_beta True now h) # beta_decisions ts (snd (decide_beta True now h))"

lemma answers_beta_decisions: "carrier.answers ts h = map (\<lambda>d. d \<noteq> BetaSkipSuppressed) (beta_decisions ts h)"
  by (induction ts arbitrary: h) auto

lemma length_beta_decisions [simp]: "length (beta_decisions ts h) = length ts"
  by (induction ts arbitrary: h) auto

lemma decide_beta_Try:
  "fst (decide_beta True t h) \<noteq> BetaSkipSuppressed \<Longrightarrow> snd (decide_beta True t h) = h \<Longrightarrow> decide_beta True t h = (TryBeta, h)"
  by (cases h) (auto simp: decide_beta_def Let_def split: if_splits)

lemma record_beta_failure_keeps:
  "ch_epoch (record_beta_failure t h) = ch_epoch h"
  "ch_failure_streak (record_beta_failure t h) = ch_failure_streak h + 1"
  by (simp_all add: record_beta_failure_def Let_def)

lemma timely_beta_goods:
  assumes "\<forall>t\<in>set ts. ch_epoch h \<le> t \<and> t + MAX_SUPPRESSION < ch_epoch h + 2 ^ 64"
    and "unat (ch_failure_streak h) + length ts < 2 ^ 32"
  shows "carrier.goods ts h"
  using assms
proof (induction ts arbitrary: h)
  case (Cons t ts)
  have g: "in_time (ch_epoch h) (ch_failure_streak h) t" using Cons.prems by (simp add: in_time_def)
  show ?case using Cons.IH [of "record_beta_failure t h"] Cons.prems g
    by (simp add: record_beta_failure_keeps in_time_streak [OF g])
qed simp

lemma carrier_backoff:
  fixes n :: u32
  assumes "timely epoch ts"
  defines "h \<equiv> foldl (\<lambda>h t. record_beta_failure t h) (ch_with_threshold n epoch) ts"
  defines "k \<equiv> max (unat n) 1"
  defines "end_at \<equiv> last ts + backoff (length ts - k)"
  shows "length ts < k \<or> end_at \<le> now \<longrightarrow> decide_beta True now h = (TryBeta, h)"
    and "k \<le> length ts \<and> length qs = 32 \<and> (\<forall>q\<in>set qs. q < end_at) \<longrightarrow>
          (\<exists>!i. i < 32 \<and> beta_decisions qs h ! i \<noteq> BetaSkipSuppressed)"
proof -
  let ?e = "ch_with_threshold n epoch"
  have th: "unat (max n 1) = k" by (simp add: k_def max_def word_le_nat_alt)
  have "carrier.goods ts ?e" using assms(1) by (intro timely_beta_goods) (auto simp: timely_def ch_with_threshold_def)
  note p = carrier.profile [OF this, unfolded answers_beta_decisions]
  have z: "deadline_at (ch_epoch ?e) (ch_suppression_deadline_ns ?e) = 0" "(unat \<circ> ch_failure_streak) ?e = 0"
    "(unat \<circ> ch_failure_threshold) ?e = k" "0 < k"
    by (simp_all add: ch_with_threshold_def deadline_at_def th) (simp add: k_def)
  note q = p [unfolded z, OF refl refl z(4), folded h_def end_at_def]
  have "length ts < k \<or> k \<le> length ts" by linarith
  then show "length ts < k \<or> end_at \<le> now \<longrightarrow> decide_beta True now h = (TryBeta, h)"
    using q(1,2) [of now] decide_beta_Try by blast
  show "k \<le> length ts \<and> length qs = 32 \<and> (\<forall>q\<in>set qs. q < end_at) \<longrightarrow>
          (\<exists>!i. i < 32 \<and> beta_decisions qs h ! i \<noteq> BetaSkipSuppressed)"
    using q(3) [of qs] by (auto cong: conj_cong)
qed

end
