(* ===== verification/Client_Dispatch.thy ===== *)
theory Client_Dispatch
  imports Bootstrap Endpoint_Health
begin

text \<open>
  How the client program reaches a server for one request of a local application: the pool of
  servers (\<open>endpoint_pool.rs\<close>) and the dispatch over it, QUIC first and TCP second
  (\<open>socks.rs\<close>).

  The health of an endpoint is shared between pools and sessions: a pool holds references into a heap.
  The world outside is the record \<open>env\<close>: what the clock says at its \<open>n\<close>-th reading and how the
  \<open>n\<close>-th dial goes.  Other sessions run while this one waits: \<open>en_others n\<close> is what they do
  to the shared health during the \<open>n\<close>-th dial.
\<close>

section \<open>The pool\<close>

type_synonym EndpointPool = "(bytes \<times> nat) list"

type_synonym health_heap = "EndpointHealth list"

definition pool_single :: "bytes \<Rightarrow> instant \<Rightarrow> health_heap \<Rightarrow> EndpointPool \<times> health_heap" where
  "pool_single ep now heap = ([(ep, length heap)], heap @ [eh_new now])"

definition pool_new :: "bytes list \<Rightarrow> instant \<Rightarrow> health_heap \<Rightarrow> EndpointPool option \<times> health_heap" where
  "pool_new endpoints now heap =
     (if endpoints = [] then (None, heap)
      else (Some (zip endpoints [length heap..<length heap + length endpoints]), heap @ map (\<lambda>_. eh_new now) endpoints))"

text \<open>The table by address is a \<open>HashMap\<close> built from the entries in order: the last one of an address stays.\<close>

definition carry_entry :: "EndpointPool \<Rightarrow> instant \<Rightarrow> bytes \<Rightarrow> health_heap \<Rightarrow> (bytes \<times> nat) \<times> health_heap" where
  "carry_entry prev now s heap =
     (case map_of (rev prev) s of
        Some r \<Rightarrow> ((s, r), heap)
      | None \<Rightarrow> ((s, length heap), heap @ [eh_new now]))"

fun carry_entries :: "EndpointPool \<Rightarrow> instant \<Rightarrow> bytes list \<Rightarrow> health_heap \<Rightarrow> EndpointPool \<times> health_heap" where
  "carry_entries prev now [] heap = ([], heap)"
| "carry_entries prev now (s # ss) heap =
     (case carry_entry prev now s heap of (e, heap) \<Rightarrow>
        case carry_entries prev now ss heap of (es, heap) \<Rightarrow> (e # es, heap))"

definition new_with_carryover :: "bytes list \<Rightarrow> EndpointPool \<Rightarrow> instant \<Rightarrow> health_heap \<Rightarrow> EndpointPool option \<times> health_heap" where
  "new_with_carryover endpoints prev now heap =
     (if endpoints = [] then (None, heap)
      else (case carry_entries prev now endpoints heap of (es, heap) \<Rightarrow> (Some es, heap)))"

definition addresses :: "EndpointPool \<Rightarrow> bytes list" where
  "addresses pool = map fst pool"

definition diagnostic_snapshot :: "EndpointPool \<Rightarrow> instant \<Rightarrow> health_heap \<Rightarrow> (bytes \<times> u32 \<times> bool) list" where
  "diagnostic_snapshot pool now heap =
     map (\<lambda>(a, r). (a, eh_failure_streak (heap ! r), eh_is_suppressed now (heap ! r))) pool"

text \<open>The slot the pool is swapped in while sessions hold the old one.\<close>

record ReloadablePool =
  rp_inner :: "EndpointPool option"
  rp_reload_attempts :: u64
  rp_reload_succeeded :: u64

definition rp_new :: "EndpointPool option \<Rightarrow> ReloadablePool" where
  "rp_new initial = \<lparr>rp_inner = initial, rp_reload_attempts = 0, rp_reload_succeeded = 0\<rparr>"

definition rp_reload :: "EndpointPool option \<Rightarrow> ReloadablePool \<Rightarrow> ReloadablePool" where
  "rp_reload new_pool p = p\<lparr>rp_reload_attempts := rp_reload_attempts p + 1, rp_inner := new_pool,
     rp_reload_succeeded := rp_reload_succeeded p + 1\<rparr>"

definition record_attempt_failed :: "ReloadablePool \<Rightarrow> ReloadablePool" where
  "record_attempt_failed p = p\<lparr>rp_reload_attempts := rp_reload_attempts p + 1\<rparr>"

definition reload_from_addrs ::
  "bytes list \<Rightarrow> instant \<Rightarrow> ReloadablePool \<Rightarrow> health_heap \<Rightarrow> (bytes list \<times> bytes list) \<times> ReloadablePool \<times> health_heap" where
  "reload_from_addrs endpoints now p heap =
     (let prev_addrs = (case rp_inner p of Some q \<Rightarrow> addresses q | None \<Rightarrow> []);
          (new_pool, heap') = (if endpoints = [] then (None, heap)
            else (case rp_inner p of Some q \<Rightarrow> new_with_carryover endpoints q now heap | None \<Rightarrow> pool_new endpoints now heap)) in
      ((prev_addrs, endpoints), rp_reload new_pool p, heap'))"

definition pool_addr_diff :: "bytes list \<Rightarrow> bytes list \<Rightarrow> bytes list \<times> bytes list" where
  "pool_addr_diff prev new = (filter (\<lambda>a. a \<notin> set prev) new, filter (\<lambda>a. a \<notin> set new) prev)"

text \<open>The generic walk: \<open>try_one\<close> sees the address, the reference and the decision.\<close>

fun dispatch_walk :: "instant \<Rightarrow> (bytes \<Rightarrow> nat \<Rightarrow> EndpointDecision \<Rightarrow> health_heap \<Rightarrow> 'a option \<times> health_heap)
    \<Rightarrow> EndpointPool \<Rightarrow> health_heap \<Rightarrow> 'a option \<times> health_heap" where
  "dispatch_walk now try_one [] heap = (None, heap)"
| "dispatch_walk now try_one ((addr, r) # es) heap =
     (case decide now (heap ! r) of (d, h) \<Rightarrow>
        if d = SkipSuppressed then dispatch_walk now try_one es (heap[r := h])
        else (case try_one addr r d (heap[r := h]) of
                (Some x, heap) \<Rightarrow> (Some x, heap)
              | (None, heap) \<Rightarrow> dispatch_walk now try_one es heap))"

definition dispatch_with :: "instant \<Rightarrow> (bytes \<Rightarrow> nat \<Rightarrow> EndpointDecision \<Rightarrow> health_heap \<Rightarrow> 'a option \<times> health_heap)
    \<Rightarrow> EndpointPool \<Rightarrow> health_heap \<Rightarrow> 'a option \<times> health_heap" where
  "dispatch_with now try_one pool heap =
     (case dispatch_walk now try_one pool heap of
        (Some x, heap) \<Rightarrow> (Some x, heap)
      | (None, heap) \<Rightarrow>
          (case pool of
             (addr, r) # _ \<Rightarrow> (None, snd (try_one addr r Probe heap))
           | [] \<Rightarrow> (None, heap)))"

section \<open>One request\<close>

record ClientCfg =
  cc_server_endpoint :: bytes
  cc_server_endpoint_beta :: "bytes option"
  cc_beta_server_name :: "bytes option"
  cc_tls_server_name :: "bytes option"
  cc_bootstrap_dns :: "BootstrapDnsCfg option"

text \<open>
  The world: \<open>en_config\<close> is the loading of the keys and certificates the handshake needs, \<open>en_open\<close> the
  connection and handshake with an address, \<open>en_send\<close> the sending of the connect record, each with
  the error it ends in, if any; \<open>en_app\<close>: the local application still takes bytes.
\<close>

datatype Carrier = Alpha | Beta

record env =
  en_clock :: "nat \<Rightarrow> instant"
  en_config :: "nat \<Rightarrow> SocksError option"
  en_dns :: "nat \<Rightarrow> bytes \<Rightarrow> answer"
  en_open :: "nat \<Rightarrow> Carrier \<Rightarrow> IpAddr \<times> u16 \<Rightarrow> SocksError option"
  en_send :: "nat \<Rightarrow> bytes \<Rightarrow> SocksError option"
  en_app :: "nat \<Rightarrow> bool"
  en_others :: "nat \<Rightarrow> health_heap \<times> CarrierHealth \<Rightarrow> health_heap \<times> CarrierHealth"

text \<open>\<open>ds_tried\<close> lists the endpoints of the pool in the order they were chosen, \<open>ds_out\<close> the bytes the application received.\<close>

record dispatch_state =
  ds_readings :: nat
  ds_dials :: nat
  ds_heap :: health_heap
  ds_carrier :: CarrierHealth
  ds_tried :: "bytes list"
  ds_out :: bytes

type_synonym 'a dispatch = "dispatch_state \<Rightarrow> (SocksError, 'a) rust \<times> dispatch_state"

definition instant_now :: "env \<Rightarrow> dispatch_state \<Rightarrow> instant \<times> dispatch_state" where
  "instant_now env st = (en_clock env (ds_readings st), st\<lparr>ds_readings := ds_readings st + 1\<rparr>)"

definition app_write :: "env \<Rightarrow> bytes \<Rightarrow> unit dispatch" where
  "app_write env bs st = (if en_app env (ds_dials st) then (Ok (), st\<lparr>ds_out := ds_out st @ bs\<rparr>) else (Err (SocksIo OtherKind), st))"

abbreviation fails_with :: "SocksError option \<Rightarrow> (SocksError, unit) rust" where
  "fails_with e \<equiv> (case e of Some e \<Rightarrow> Err e | None \<Rightarrow> Ok ())"

text \<open>From the session to the end of the relay: the errors of the relay itself end it without one.\<close>

definition carry_request :: "env \<Rightarrow> bytes \<Rightarrow> unit dispatch" where
  "carry_request env target st =
     (case en_send env (ds_dials st) target of
        Some e \<Rightarrow> (Err e, st)
      | None \<Rightarrow> app_write env (socks_reply 0) st)"

text \<open>What happens while a dial waits, and its number.\<close>

definition end_dial :: "env \<Rightarrow> (SocksError, unit) rust \<times> dispatch_state \<Rightarrow> (SocksError, unit) rust \<times> dispatch_state" where
  "end_dial env rs =
     (case rs of (r, st) \<Rightarrow> case en_others env (ds_dials st) (ds_heap st, ds_carrier st) of (heap, carrier) \<Rightarrow>
        (r, st\<lparr>ds_dials := ds_dials st + 1, ds_heap := heap, ds_carrier := carrier\<rparr>))"

definition resolve_for_client :: "env \<Rightarrow> ClientCfg \<Rightarrow> bytes \<Rightarrow> dispatch_state \<Rightarrow> (SocksError, Resolved) rust" where
  "resolve_for_client env cfg ep st =
     rust_map_err (\<lambda>_. SocksBootstrap) (resolve_endpoint (en_dns env (ds_dials st)) ep (cc_bootstrap_dns cfg))"

definition try_beta :: "env \<Rightarrow> ClientCfg \<Rightarrow> bytes \<Rightarrow> bytes option \<Rightarrow> unit dispatch" where
  "try_beta env cfg target endpoint_override st =
     end_dial env
      (case rust_bind (ok_or (case endpoint_override of Some e \<Rightarrow> Some e | None \<Rightarrow> cc_server_endpoint_beta cfg)
              (Socks ''server_endpoint_beta unset'')) (\<lambda>beta_endpoint.
            rust_bind (ok_or (case cc_beta_server_name cfg of Some n \<Rightarrow> Some n | None \<Rightarrow> cc_tls_server_name cfg)
              (Socks ''beta requires beta_server_name or tls.server_name'')) (\<lambda>server_name.
            rust_bind (resolve_for_client env cfg beta_endpoint st) (\<lambda>resolved.
            rust_bind (fails_with (en_config env (ds_dials st))) (\<lambda>_.
            fails_with (en_open env (ds_dials st) Beta (rs_addr resolved)))))) of
         Ok _ \<Rightarrow> carry_request env target st
       | Err e \<Rightarrow> (Err e, st)
       | Panic \<Rightarrow> (Panic, st))"

definition try_alpha :: "env \<Rightarrow> ClientCfg \<Rightarrow> bytes \<Rightarrow> bytes option \<Rightarrow> unit dispatch" where
  "try_alpha env cfg target endpoint_override st =
     end_dial env
      (case rust_bind (fails_with (en_config env (ds_dials st))) (\<lambda>_.
            let alpha_endpoint = (case endpoint_override of Some e \<Rightarrow> e | None \<Rightarrow> cc_server_endpoint cfg) in
            rust_bind (resolve_for_client env cfg alpha_endpoint st) (\<lambda>resolved.
            fails_with (en_open env (ds_dials st) Alpha (rs_addr resolved)))) of
         Ok _ \<Rightarrow> carry_request env target st
       | Err e \<Rightarrow> (Err e, st)
       | Panic \<Rightarrow> (Panic, st))"

section \<open>QUIC first, TCP second\<close>

text \<open>Common to the two callers below, which spell it out twice.\<close>

definition beta_then_alpha :: "env \<Rightarrow> ClientCfg \<Rightarrow> bytes \<Rightarrow> bytes option \<Rightarrow> unit dispatch" where
  "beta_then_alpha env cfg target endpoint_override st =
     (case instant_now env st of (now, st) \<Rightarrow>
      case decide_beta (cc_server_endpoint_beta cfg \<noteq> None) now (ds_carrier st) of (beta_decision, carrier) \<Rightarrow>
      let st = st\<lparr>ds_carrier := carrier\<rparr> in
      if beta_decision = TryBeta \<or> beta_decision = BetaProbe then
        (case try_beta env cfg target endpoint_override st of
           (Ok _, st) \<Rightarrow> (Ok (), st\<lparr>ds_carrier := record_beta_success (ds_carrier st)\<rparr>)
         | (Err e, st) \<Rightarrow>
             (case instant_now env st of (now, st) \<Rightarrow>
                try_alpha env cfg target endpoint_override
                  (st\<lparr>ds_carrier := record_beta_failure now (ds_carrier st)\<rparr>))
         | (Panic, st) \<Rightarrow> (Panic, st))
      else try_alpha env cfg target endpoint_override st)"

definition single_endpoint_dispatch :: "env \<Rightarrow> ClientCfg \<Rightarrow> bytes \<Rightarrow> unit dispatch" where
  "single_endpoint_dispatch env cfg target = beta_then_alpha env cfg target None"

definition attempt_one_pool_entry :: "env \<Rightarrow> ClientCfg \<Rightarrow> bytes \<Rightarrow> bytes \<Rightarrow> unit dispatch" where
  "attempt_one_pool_entry env cfg ep target = beta_then_alpha env cfg target (Some ep)"

section \<open>The walk over the pool\<close>

definition with_health :: "nat \<Rightarrow> (EndpointHealth \<Rightarrow> EndpointHealth) \<Rightarrow> dispatch_state \<Rightarrow> dispatch_state" where
  "with_health r f st = st\<lparr>ds_heap := (ds_heap st)[r := f (ds_heap st ! r)]\<rparr>"

text \<open>One chosen entry: counted as an attempt, dialled, and its outcome recorded.\<close>

definition dial_entry :: "env \<Rightarrow> ClientCfg \<Rightarrow> bytes \<Rightarrow> bytes \<Rightarrow> nat \<Rightarrow> unit dispatch" where
  "dial_entry env cfg target addr r st =
     (let st = with_health r record_attempt st in
      case attempt_one_pool_entry env cfg addr target (st\<lparr>ds_tried := ds_tried st @ [addr]\<rparr>) of
        (Ok _, st) \<Rightarrow> (Ok (), with_health r (\<lambda>h. snd (record_success h)) st)
      | (Err e, st) \<Rightarrow> (case instant_now env st of (now, st) \<Rightarrow> (Err e, with_health r (\<lambda>h. snd (record_failure now h)) st))
      | (Panic, st) \<Rightarrow> (Panic, st))"

text \<open>The result, once a dial succeeds; the last error; whether any endpoint was dialled.\<close>

fun pool_loop :: "env \<Rightarrow> ClientCfg \<Rightarrow> bytes \<Rightarrow> instant \<Rightarrow> SocksError option \<Rightarrow> bool \<Rightarrow> EndpointPool \<Rightarrow> dispatch_state
    \<Rightarrow> (SocksError, unit) rust option \<times> SocksError option \<times> bool \<times> dispatch_state" where
  "pool_loop env cfg target now last_err attempted [] st = (None, last_err, attempted, st)"
| "pool_loop env cfg target now last_err attempted ((addr, r) # es) st =
     (let decision = fst (decide now (ds_heap st ! r)); st = with_health r (\<lambda>h. snd (decide now h)) st in
      if decision = SkipSuppressed then pool_loop env cfg target now last_err attempted es st
      else
        (case dial_entry env cfg target addr r st of
           (Ok _, st) \<Rightarrow> (Some (Ok ()), last_err, True, st)
         | (Err e, st) \<Rightarrow> pool_loop env cfg target now (Some e) True es st
         | (Panic, st) \<Rightarrow> (Some Panic, last_err, True, st)))"

definition dispatch_via_pool :: "env \<Rightarrow> ClientCfg \<Rightarrow> EndpointPool \<Rightarrow> bytes \<Rightarrow> unit dispatch" where
  "dispatch_via_pool env cfg pool target st =
     (case instant_now env st of (now, st) \<Rightarrow>
      case pool_loop env cfg target now None False pool st of
        (Some r, _, _, st) \<Rightarrow> (r, st)
      | (None, last_err, any_endpoint_attempted, st) \<Rightarrow>
          if \<not> any_endpoint_attempted then
            (case pool of
               (addr, r) # _ \<Rightarrow> dial_entry env cfg target addr r st
             | [] \<Rightarrow> (Panic, st))
          else (Err (case last_err of Some e \<Rightarrow> e | None \<Rightarrow> Socks ''pool dispatch produced no result''), st))"

section \<open>The answer to the application\<close>

definition contains :: "string \<Rightarrow> string \<Rightarrow> bool" where
  "contains s w \<longleftrightarrow> list_ex (\<lambda>i. starts_with (drop i s) w) [0..<Suc (length s)]"

definition socks5_error_code_for :: "SocksError \<Rightarrow> u8" where
  "socks5_error_code_for e =
     (case e of
        SocksIo k \<Rightarrow>
          (case k of ConnectionRefused \<Rightarrow> 0x05 | TimedOut \<Rightarrow> 0x06 | NetworkUnreachable \<Rightarrow> 0x03 | HostUnreachable \<Rightarrow> 0x04 | _ \<Rightarrow> 0x01)
      | Socks msg \<Rightarrow> if contains msg ''timed out'' \<or> contains msg ''timeout'' then 0x06 else 0x01
      | SocksAlpha \<Rightarrow> 0x01
      | SocksConfig \<Rightarrow> 0x01
      | SocksBootstrap \<Rightarrow> 0x03)"

definition dispatch_request :: "env \<Rightarrow> ClientCfg \<Rightarrow> EndpointPool option \<Rightarrow> bytes \<Rightarrow> unit dispatch" where
  "dispatch_request env cfg pool target st =
     (case (case pool of
              Some p \<Rightarrow> dispatch_via_pool env cfg p target st
            | None \<Rightarrow> single_endpoint_dispatch env cfg target st) of
        (Err e, st) \<Rightarrow> (Err e, snd (app_write env (socks_reply (socks5_error_code_for e)) st))
      | (r, st) \<Rightarrow> (r, st))"

section \<open>What a dial changes\<close>

lemma resolve_endpoint_not_Panic: "resolve_endpoint dns ep policy \<noteq> Panic"
  by (auto simp: resolve_endpoint_def split: option.splits BootstrapDnsCfg.splits answer.splits list.splits)

lemma resolve_for_client_not_Panic [simp]: "resolve_for_client env cfg ep st \<noteq> Panic"
  by (simp add: resolve_for_client_def resolve_endpoint_not_Panic)

lemma end_dial_facts:
  assumes "end_dial env (r, st) = (r', st')"
  shows "r' = r \<and> ds_out st' = ds_out st \<and> ds_tried st' = ds_tried st \<and> ds_readings st' = ds_readings st
     \<and> ds_dials st' = ds_dials st + 1
     \<and> (ds_heap st', ds_carrier st') = en_others env (ds_dials st) (ds_heap st, ds_carrier st)"
  using assms by (auto simp: end_dial_def split: prod.splits)

text \<open>What every dial satisfies, with an application that keeps reading.\<close>

definition dialled :: "env \<Rightarrow> dispatch_state \<Rightarrow> (SocksError, unit) rust \<Rightarrow> dispatch_state \<Rightarrow> bool" where
  "dialled env st r st' \<longleftrightarrow> r \<noteq> Panic \<and> ds_dials st < ds_dials st' \<and> ds_tried st' = ds_tried st
     \<and> ((\<forall>n. en_app env n) \<longrightarrow> ds_out st' = ds_out st @ (if r = Ok () then socks_reply 0 else []))"

text \<open>The other sessions keep a property of the shared health.\<close>

definition others_keep :: "env \<Rightarrow> (health_heap \<Rightarrow> bool) \<Rightarrow> bool" where
  "others_keep env P \<longleftrightarrow> (\<forall>n h c. P h \<longrightarrow> P (fst (en_others env n (h, c))))"

definition dialled_within :: "env \<Rightarrow> (health_heap \<Rightarrow> bool) \<Rightarrow> dispatch_state \<Rightarrow> (SocksError, unit) rust \<Rightarrow> dispatch_state \<Rightarrow> bool" where
  "dialled_within env P st r st' \<longleftrightarrow> dialled env st r st' \<and> (P (ds_heap st) \<longrightarrow> P (ds_heap st'))"

lemma carry_request_facts:
  assumes "carry_request env target st = (r, st')"
  shows "r \<noteq> Panic \<and> ds_dials st' = ds_dials st \<and> ds_tried st' = ds_tried st \<and> ds_heap st' = ds_heap st \<and> ds_carrier st' = ds_carrier st
     \<and> ((\<forall>n. en_app env n) \<longrightarrow> ds_out st' = ds_out st @ (if r = Ok () then socks_reply 0 else []))"
  using assms by (auto simp: carry_request_def app_write_def split: option.splits if_splits)

lemma option_error_not_Panic [simp]: "fails_with e \<noteq> Panic"
  by (cases e) simp_all

lemma dial_facts:
  assumes "end_dial env (case m of Ok _ \<Rightarrow> carry_request env target st | Err e \<Rightarrow> (Err e, st) | Panic \<Rightarrow> (Panic, st)) = (r, st')"
    and "m \<noteq> Panic" and "others_keep env P"
  shows "dialled_within env P st r st'"
proof -
  obtain q qs where q: "(case m of Ok _ \<Rightarrow> carry_request env target st | Err e \<Rightarrow> (Err e, st) | Panic \<Rightarrow> (Panic, st)) = (q, qs)" by fastforce
  then have "q \<noteq> Panic \<and> ds_dials qs = ds_dials st \<and> ds_tried qs = ds_tried st \<and> ds_heap qs = ds_heap st \<and> ds_carrier qs = ds_carrier st
     \<and> ((\<forall>n. en_app env n) \<longrightarrow> ds_out qs = ds_out st @ (if q = Ok () then socks_reply 0 else []))"
    using carry_request_facts assms(2) by (cases m) auto
  moreover note end_dial_facts [OF assms(1) [unfolded q]]
  ultimately show ?thesis
    using assms(3) unfolding dialled_within_def dialled_def others_keep_def by (metis fst_conv less_add_one)
qed

lemma try_beta_facts: "try_beta env cfg target ep st = (r, st') \<Longrightarrow> others_keep env P \<Longrightarrow> dialled_within env P st r st'"
  unfolding try_beta_def by (erule dial_facts) (simp_all add: rust_bind_Panic_iff)

lemma try_alpha_facts: "try_alpha env cfg target ep st = (r, st') \<Longrightarrow> others_keep env P \<Longrightarrow> dialled_within env P st r st'"
  unfolding try_alpha_def by (erule dial_facts) (simp_all add: rust_bind_Panic_iff Let_def)

lemma instant_now_facts:
  "instant_now env st = (now, st') \<Longrightarrow> ds_heap st' = ds_heap st \<and> ds_dials st' = ds_dials st \<and> ds_tried st' = ds_tried st \<and> ds_out st' = ds_out st"
  by (auto simp: instant_now_def)

lemma dialled_within_same:
  assumes "ds_heap s = ds_heap st \<and> ds_dials s = ds_dials st \<and> ds_tried s = ds_tried st \<and> ds_out s = ds_out st"
  shows "dialled_within env P s r st' \<longleftrightarrow> dialled_within env P st r st'"
  using assms by (simp add: dialled_within_def dialled_def)

lemma dialled_within_after_error:
  assumes "dialled_within env P st (Err e) s" and "dialled_within env P s r st'"
  shows "dialled_within env P st r st'"
  using assms by (auto simp: dialled_within_def dialled_def)

lemma beta_then_alpha_facts:
  assumes "beta_then_alpha env cfg target ep st = (r, st')" and keep: "others_keep env P"
  shows "dialled_within env P st r st'"
proof -
  obtain now st1 where n: "instant_now env st = (now, st1)" by fastforce
  obtain d c where d: "decide_beta (cc_server_endpoint_beta cfg \<noteq> None) now (ds_carrier st1) = (d, c)" by fastforce
  let ?st = "st1\<lparr>ds_carrier := c\<rparr>"
  have "dialled_within env P ?st r st'"
  proof (cases "d = TryBeta \<or> d = BetaProbe")
    case True
    obtain q qs where q: "try_beta env cfg target ep ?st = (q, qs)" by fastforce
    note f = try_beta_facts [OF q keep]
    show ?thesis
    proof (cases q)
      case (Ok x)
      then have "r = Ok () \<and> st' = qs\<lparr>ds_carrier := record_beta_success (ds_carrier qs)\<rparr>"
        using assms(1) n d q True by (simp add: beta_then_alpha_def)
      then show ?thesis using f Ok by (simp add: dialled_within_def dialled_def)
    next
      case (Err e)
      obtain now' st2 where n2: "instant_now env qs = (now', st2)" by fastforce
      have a: "try_alpha env cfg target ep (st2\<lparr>ds_carrier := record_beta_failure now' (ds_carrier st2)\<rparr>) = (r, st')"
        using assms(1) n d q True Err n2 by (simp add: beta_then_alpha_def)
      from try_alpha_facts [OF a keep] have "dialled_within env P qs r st'"
        using instant_now_facts [OF n2] dialled_within_same by (metis dispatch_state.simps(3,2,5,6) dispatch_state.surjective dispatch_state.update_convs(4))
      then show ?thesis using f Err dialled_within_after_error by blast
    next
      case Panic
      then show ?thesis using f by (simp add: dialled_within_def dialled_def)
    qed
  next
    case False
    then have a: "try_alpha env cfg target ep ?st = (r, st')" using assms(1) n d by (simp add: beta_then_alpha_def)
    show ?thesis by (rule try_alpha_facts [OF a keep])
  qed
  then show ?thesis using instant_now_facts [OF n] by (simp add: dialled_within_def dialled_def)
qed

lemma with_health_facts [simp]:
  "ds_heap (with_health r f st) = (ds_heap st)[r := f (ds_heap st ! r)]"
  "ds_dials (with_health r f st) = ds_dials st" "ds_tried (with_health r f st) = ds_tried st"
  "ds_out (with_health r f st) = ds_out st"
  by (simp_all add: with_health_def)

text \<open>The outcomes recorded after a dial.\<close>

definition outcome_of :: "(SocksError, unit) rust \<Rightarrow> (EndpointHealth \<Rightarrow> EndpointHealth) \<Rightarrow> bool" where
  "outcome_of res g \<longleftrightarrow> (if res = Ok () then g = (\<lambda>h. snd (record_success h)) else (\<exists>now. g = (\<lambda>h. snd (record_failure now h))))"

lemma dial_entry_facts:
  assumes "dial_entry env cfg target addr r st = (res, st')" and keep: "others_keep env P"
    and "P ((ds_heap st)[r := record_attempt (ds_heap st ! r)])"
  shows "res \<noteq> Panic \<and> ds_tried st' = ds_tried st @ [addr]
     \<and> ((\<forall>n. en_app env n) \<longrightarrow> ds_out st' = ds_out st @ (if res = Ok () then socks_reply 0 else []))
     \<and> (\<exists>h g. P h \<and> outcome_of res g \<and> ds_heap st' = h[r := g (h ! r)])"
proof -
  let ?st = "(with_health r record_attempt st)\<lparr>ds_tried := ds_tried st @ [addr]\<rparr>"
  obtain q qs where q: "attempt_one_pool_entry env cfg addr target ?st = (q, qs)" by fastforce
  have f: "dialled_within env P ?st q qs"
    using beta_then_alpha_facts [OF q [unfolded attempt_one_pool_entry_def] keep] .
  then have h: "P (ds_heap qs)" using assms(3) by (simp add: dialled_within_def)
  show ?thesis
  proof (cases q)
    case (Ok x)
    then have e: "res = Ok () \<and> st' = with_health r (\<lambda>h. snd (record_success h)) qs"
      using assms(1) q by (simp add: dial_entry_def Let_def)
    then show ?thesis using f h Ok
      by (auto simp: dialled_within_def dialled_def outcome_of_def)
  next
    case (Err e)
    obtain now st2 where n: "instant_now env qs = (now, st2)" by fastforce
    then have e: "res = Err e \<and> st' = with_health r (\<lambda>h. snd (record_failure now h)) st2"
      using assms(1) q Err by (simp add: dial_entry_def Let_def)
    then show ?thesis using f h Err instant_now_facts [OF n]
      by (auto simp: dialled_within_def dialled_def outcome_of_def)
  next
    case Panic
    then show ?thesis using f by (simp add: dialled_within_def dialled_def)
  qed
qed

section \<open>One reply\<close>

lemma others_keep_True [simp]: "others_keep env (\<lambda>_. True)"
  by (simp add: others_keep_def)

lemma pool_loop_reply:
  assumes "pool_loop env cfg target now le att es st = (res, le', att', st')" and "\<forall>n. en_app env n"
  shows "(res = None \<or> res = Some (Ok ())) \<and> ds_out st' = ds_out st @ (if res = None then [] else socks_reply 0)"
  using assms(1)
proof (induction es arbitrary: le att st)
  case (Cons e es)
  obtain addr r where e: "e = (addr, r)" by fastforce
  let ?st = "with_health r (\<lambda>h. snd (decide now h)) st"
  show ?case
  proof (cases "fst (decide now (ds_heap st ! r)) = SkipSuppressed")
    case True
    then have l: "pool_loop env cfg target now le att es ?st = (res, le', att', st')" using Cons.prems e by simp
    show ?thesis using Cons.IH [OF l] by simp
  next
    case False
    obtain q qs where q: "dial_entry env cfg target addr r ?st = (q, qs)" by fastforce
    note f = dial_entry_facts [OF q others_keep_True TrueI]
    show ?thesis
    proof (cases q)
      case (Ok x)
      then show ?thesis using Cons.prems e False q f assms(2) by auto
    next
      case (Err er)
      then have l: "pool_loop env cfg target now (Some er) True es qs = (res, le', att', st')"
        using Cons.prems e False q by simp
      show ?thesis using Cons.IH [OF l] f Err assms(2) by simp
    next
      case Panic
      then show ?thesis using f by simp
    qed
  qed
qed simp

lemma dispatch_via_pool_reply:
  assumes "dispatch_via_pool env cfg pool target st = (r, st')" and "\<forall>n. en_app env n" and "pool \<noteq> []"
  shows "r \<noteq> Panic \<and> ds_out st' = ds_out st @ (if r = Ok () then socks_reply 0 else [])"
proof -
  obtain now st1 where n: "instant_now env st = (now, st1)" by fastforce
  obtain res le att st2 where l: "pool_loop env cfg target now None False pool st1 = (res, le, att, st2)"
    by (metis prod_cases4)
  note f = pool_loop_reply [OF l assms(2)] and i = instant_now_facts [OF n]
  obtain addr ref es where p: "pool = (addr, ref) # es" using assms(3) by (cases pool) auto
  show ?thesis
  proof (cases "res = None \<and> \<not> att")
    case True
    then have d: "dial_entry env cfg target addr ref st2 = (r, st')"
      using assms(1) n l p by (simp add: dispatch_via_pool_def)
    show ?thesis using dial_entry_facts [OF d others_keep_True TrueI] f i True assms(2) by simp
  next
    case False
    then show ?thesis using assms(1) n l f i by (auto simp: dispatch_via_pool_def split: option.splits if_splits)
  qed
qed

text \<open>
  C17. With a configured pool or without one, whatever the network and the other sessions do, a
  dispatch never panics and an application that keeps reading receives exactly one reply: success
  when a session carried its request, else the code of the error the dispatch ended in.
\<close>

theorem request_answered_once:
  assumes "dispatch_request env cfg pool target st = (r, st')" and "pool \<noteq> Some []" and "\<forall>n. en_app env n"
  shows "r \<noteq> Panic
     \<and> ds_out st' = ds_out st @ socks_reply (case r of Ok _ \<Rightarrow> 0 | Err e \<Rightarrow> socks5_error_code_for e | Panic \<Rightarrow> 0)
     \<and> (\<forall>e. socks5_error_code_for e \<noteq> 0)"
proof -
  obtain q qs where q: "(case pool of Some p \<Rightarrow> dispatch_via_pool env cfg p target st
      | None \<Rightarrow> single_endpoint_dispatch env cfg target st) = (q, qs)" by fastforce
  have f: "q \<noteq> Panic \<and> ds_out qs = ds_out st @ (if q = Ok () then socks_reply 0 else [])"
  proof (cases pool)
    case None
    then have b: "beta_then_alpha env cfg target None st = (q, qs)" using q by (simp add: single_endpoint_dispatch_def)
    show ?thesis using beta_then_alpha_facts [OF b others_keep_True] assms(3) by (simp add: dialled_within_def dialled_def)
  next
    case (Some p)
    then show ?thesis using dispatch_via_pool_reply [of env cfg p target st q qs] q assms(2,3) by simp
  qed
  have "socks5_error_code_for e \<noteq> 0" for e
    by (simp add: socks5_error_code_for_def split: SocksError.split ErrorKind.split)
  then show ?thesis
    using f assms(1,3) by (cases q) (auto simp: dispatch_request_def q app_write_def)
qed

text \<open>A world without a resolver in which every connection succeeds.\<close>

definition open_network :: env where
  "open_network = \<lparr>en_clock = (\<lambda>n. n), en_config = (\<lambda>_. None), en_dns = (\<lambda>_ _. NoAnswer), en_open = (\<lambda>_ _ _. None),
     en_send = (\<lambda>_ _. None), en_app = (\<lambda>_. True), en_others = (\<lambda>_ hc. hc)\<rparr>"

definition start_state :: "health_heap \<Rightarrow> dispatch_state" where
  "start_state heap = \<lparr>ds_readings = 0, ds_dials = 0, ds_heap = heap, ds_carrier = ch_new 0, ds_tried = [], ds_out = []\<rparr>"

definition plain_cfg :: ClientCfg where
  "plain_cfg = \<lparr>cc_server_endpoint = ascii ''10.0.0.1:443'', cc_server_endpoint_beta = None, cc_beta_server_name = None,
     cc_tls_server_name = None, cc_bootstrap_dns = None\<rparr>"

theorem request_answered_once_witness:
  "\<exists>r st'. dispatch_request open_network plain_cfg (Some [(ascii ''10.0.0.1:443'', 0)]) [] (start_state [eh_new 0]) = (r, st')
     \<and> r = Ok () \<and> ds_out st' = socks_reply 0"
proof -
  let ?d = "dispatch_request open_network plain_cfg (Some [(ascii ''10.0.0.1:443'', 0)]) [] (start_state [eh_new 0])"
  have r: "fst ?d = Ok ()" by code_simp
  obtain st' where d: "?d = (Ok (), st')" using r by (metis prod.collapse)
  have "\<forall>n. en_app open_network n" by (simp add: open_network_def)
  from request_answered_once [OF d _ this] have "ds_out st' = socks_reply 0"
    by (simp add: start_state_def)
  then show ?thesis using d by blast
qed

section \<open>Order of the endpoints\<close>

text \<open>The entries the health lets through, and the state they are in.\<close>

definition let_through :: "instant \<Rightarrow> EndpointPool \<Rightarrow> health_heap \<Rightarrow> bytes list" where
  "let_through now pool heap = map fst (filter (\<lambda>(a, r). fst (decide now (heap ! r)) \<noteq> SkipSuppressed) pool)"

lemma let_through_simps [simp]:
  "let_through now [] heap = []"
  "let_through now ((a, r) # es) heap =
     (if fst (decide now (heap ! r)) = SkipSuppressed then let_through now es heap else a # let_through now es heap)"
  by (simp_all add: let_through_def)

lemma let_through_other: "r \<notin> snd ` set es \<Longrightarrow> let_through now es (heap[r := h]) = let_through now es heap"
proof -
  assume "r \<notin> snd ` set es"
  then have "heap[r := h] ! snd e = heap ! snd e" if "e \<in> set es" for e
    using that by (intro nth_list_update_neq) auto
  then show ?thesis unfolding let_through_def by (intro arg_cong [of _ _ "map fst"] filter_cong) auto
qed

lemma alone_keep: "(\<forall>n hc. en_others env n hc = hc) \<Longrightarrow> others_keep env P"
  by (simp add: others_keep_def)

lemma pool_loop_order:
  assumes "pool_loop env cfg target now le att es st = (res, le', att', st')"
    and "\<forall>n hc. en_others env n hc = hc" and "distinct (map snd es)"
  shows "\<exists>k. let c = let_through now es (ds_heap st) in
     ds_tried st' = ds_tried st @ take k c \<and> k \<le> length c \<and> (res = None \<longrightarrow> k = length c \<and> (att' \<longleftrightarrow> att \<or> c \<noteq> []))
     \<and> (res \<noteq> None \<longrightarrow> res = Some (Ok ()) \<and> 0 < k)"
  using assms(1,3)
proof (induction es arbitrary: le att st)
  case (Cons e es)
  obtain addr r where e: "e = (addr, r)" by fastforce
  have r: "r \<notin> snd ` set es" and di: "distinct (map snd es)" using Cons.prems(2) e by simp_all
  let ?st = "with_health r (\<lambda>h. snd (decide now h)) st"
  show ?case
  proof (cases "fst (decide now (ds_heap st ! r)) = SkipSuppressed")
    case True
    then have l: "pool_loop env cfg target now le att es ?st = (res, le', att', st')" using Cons.prems e by simp
    show ?thesis using Cons.IH [OF l di] True e by (simp add: let_through_other [OF r])
  next
    case False
    obtain q qs where q: "dial_entry env cfg target addr r ?st = (q, qs)" by fastforce
    let ?h = "(ds_heap ?st)[r := record_attempt (ds_heap ?st ! r)]"
    note f = dial_entry_facts [OF q alone_keep [OF assms(2)], of "(=) ?h"]
    then have h: "let_through now es (ds_heap qs) = let_through now es (ds_heap st)"
      by (auto simp: let_through_other [OF r])
    show ?thesis
    proof (cases q)
      case (Ok x)
      then show ?thesis using Cons.prems e False q f by (auto intro!: exI [of _ 1] simp: Let_def)
    next
      case (Err er)
      then have l: "pool_loop env cfg target now (Some er) True es qs = (res, le', att', st')"
        using Cons.prems e False q by simp
      from Cons.IH [OF l di] obtain k where "ds_tried st' = ds_tried qs @ take k (let_through now es (ds_heap st))"
        "k \<le> length (let_through now es (ds_heap st))" "res = None \<longrightarrow> k = length (let_through now es (ds_heap st)) \<and> att'"
        "res \<noteq> None \<longrightarrow> res = Some (Ok ()) \<and> 0 < k"
        unfolding h Let_def by blast
      then show ?thesis using f False e by (intro exI [of _ "Suc k"]) (simp add: Let_def)
    next
      case Panic
      then show ?thesis using f by simp
    qed
  qed
qed simp



section \<open>Accounting\<close>

text \<open>Attempts without an outcome yet.\<close>

definition pending :: "EndpointHealth \<Rightarrow> u64" where
  "pending h = eh_attempts_total h - eh_successes_total h - eh_failures_total h"

definition pendings :: "(nat \<Rightarrow> u64) \<Rightarrow> health_heap \<Rightarrow> bool" where
  "pendings b heap \<longleftrightarrow> (\<forall>r<length heap. pending (heap ! r) = b r)"

lemma pending_simps:
  "pending (record_attempt h) = pending h + 1"
  "pending (snd (record_success h)) = pending h - 1"
  "pending (snd (record_failure now h)) = pending h - 1"
  "pending (snd (decide now h)) = pending h"
  by (simp_all add: pending_def record_attempt_def record_success_def record_failure_def decide_def Let_def)

lemma pendings_update: "pendings b heap \<Longrightarrow> pending h = c \<Longrightarrow> pendings (b(r := c)) (heap[r := h])"
  by (auto simp: pendings_def nth_list_update)

lemma dial_entry_pendings:
  assumes "dial_entry env cfg target addr r st = (res, st')" and "\<forall>b. others_keep env (pendings b)"
    and "pendings b (ds_heap st)" and "r < length (ds_heap st)" and "others_keep env (\<lambda>h. length h = n)" "length (ds_heap st) = n"
  shows "pendings b (ds_heap st') \<and> length (ds_heap st') = n"
proof -
  let ?P = "\<lambda>h. pendings (b(r := b r + 1)) h \<and> length h = n"
  have "others_keep env ?P" using assms(2,5) by (simp add: others_keep_def)
  moreover have "?P ((ds_heap st)[r := record_attempt (ds_heap st ! r)])"
    using pendings_update [OF assms(3), of _ "b r + 1" r] assms(3,4,6) by (simp add: pending_simps pendings_def)
  ultimately obtain h g where h: "?P h" "outcome_of res g" "ds_heap st' = h[r := g (h ! r)]"
    using dial_entry_facts [OF assms(1), of ?P] by blast
  have "pending (g (h ! r)) = b r"
    using h(1,2) assms(4,6) by (auto simp: outcome_of_def pending_simps pendings_def split: if_splits)
  then show ?thesis using pendings_update [of "b(r := b r + 1)" h _ "b r" r] h by simp
qed

lemma pool_loop_pendings:
  assumes "pool_loop env cfg target now le att es st = (res, le', att', st')"
    and "\<forall>b. others_keep env (pendings b)" and "others_keep env (\<lambda>h. length h = n)" and "\<forall>r\<in>snd ` set es. r < n"
    and "pendings b (ds_heap st) \<and> length (ds_heap st) = n"
  shows "pendings b (ds_heap st') \<and> length (ds_heap st') = n"
  using assms(1,4,5)
proof (induction es arbitrary: le att st)
  case (Cons e es)
  obtain addr r where e: "e = (addr, r)" by fastforce
  let ?st = "with_health r (\<lambda>h. snd (decide now h)) st"
  have r: "r < n" using Cons.prems(2) e by simp
  then have b: "pendings b (ds_heap ?st) \<and> length (ds_heap ?st) = n"
    using Cons.prems(3) pendings_update [of b "ds_heap st" "snd (decide now (ds_heap st ! r))" "b r" r]
    by (simp add: pending_simps pendings_def)
  show ?case
  proof (cases "fst (decide now (ds_heap st ! r)) = SkipSuppressed")
    case True
    then have l: "pool_loop env cfg target now le att es ?st = (res, le', att', st')" using Cons.prems e by simp
    show ?thesis using Cons.IH [OF l] Cons.prems(2) b by simp
  next
    case False
    obtain q qs where q: "dial_entry env cfg target addr r ?st = (q, qs)" by fastforce
    have b': "pendings b (ds_heap qs) \<and> length (ds_heap qs) = n"
      using dial_entry_pendings [OF q assms(2) conjunct1 [OF b]] b r assms(3) by blast
    show ?thesis
    proof (cases q)
      case (Err er)
      then have l: "pool_loop env cfg target now (Some er) True es qs = (res, le', att', st')"
        using Cons.prems e False q by simp
      show ?thesis using Cons.IH [OF l] Cons.prems(2) b' by simp
    qed (use Cons.prems e False q b' in auto)
  qed
qed simp

text \<open>
  The counters of an endpoint balance: a dispatch leaves attempts minus successes minus failures of
  every endpoint as it found it, so that the difference counts the dials still under way.
\<close>

theorem attempts_balance:
  assumes "dispatch_via_pool env cfg pool target st = (r, st')" and "pool \<noteq> []"
    and "\<forall>(a, i)\<in>set pool. i < length (ds_heap st)"
    and "\<forall>b. others_keep env (pendings b)" and "others_keep env (\<lambda>h. length h = length (ds_heap st))"
  shows "map pending (ds_heap st') = map pending (ds_heap st)"
proof -
  let ?n = "length (ds_heap st)" and ?b = "\<lambda>i. pending (ds_heap st ! i)"
  obtain now st1 where n: "instant_now env st = (now, st1)" by fastforce
  obtain res le att st2 where l: "pool_loop env cfg target now None False pool st1 = (res, le, att, st2)"
    by (metis prod_cases4)
  have refs: "\<forall>i\<in>snd ` set pool. i < ?n" using assms(3) by auto
  have "pendings ?b (ds_heap st1) \<and> length (ds_heap st1) = ?n" using instant_now_facts [OF n] by (simp add: pendings_def)
  note b = pool_loop_pendings [OF l assms(4,5) refs this]
  have "pendings ?b (ds_heap st') \<and> length (ds_heap st') = ?n"
  proof (cases "res = None \<and> \<not> att")
    case True
    obtain addr ref es where p: "pool = (addr, ref) # es" using assms(2) by (cases pool) auto
    have d: "dial_entry env cfg target addr ref st2 = (r, st')"
      using assms(1) n l p True by (simp add: dispatch_via_pool_def)
    show ?thesis using dial_entry_pendings [OF d assms(4) conjunct1 [OF b] _ assms(5)] refs p b by simp
  next
    case False
    then show ?thesis using assms(1) n l b by (auto simp: dispatch_via_pool_def split: option.splits if_splits)
  qed
  then show ?thesis by (intro nth_equalityI) (auto simp: pendings_def)
qed

theorem attempts_balance_witness:
  "map pending (ds_heap (snd (dispatch_via_pool open_network plain_cfg [(ascii ''10.0.0.1:443'', 0)] [] (start_state [eh_new 0])))) = [0]"
proof -
  let ?p = "[(ascii ''10.0.0.1:443'', 0)]"
  obtain r st' where d: "dispatch_via_pool open_network plain_cfg ?p [] (start_state [eh_new 0]) = (r, st')" by fastforce
  have n: "others_keep open_network P" for P by (simp add: open_network_def others_keep_def)
  show ?thesis using attempts_balance [OF d] n d by (simp add: start_state_def pending_def eh_new_def eh_with_threshold_def)
qed

section \<open>Changing the pool\<close>

lemma carry_entries_facts:
  assumes "carry_entries prev now ss heap = (es, heap')"
  shows "map fst es = ss \<and> (\<exists>new. heap' = heap @ new)
    \<and> (\<forall>(a, r)\<in>set es. case map_of (rev prev) a of Some r' \<Rightarrow> r = r'
          | None \<Rightarrow> length heap \<le> r \<and> r < length heap' \<and> heap' ! r = eh_new now)"
  using assms
proof (induction ss arbitrary: heap es)
  case (Cons s ss)
  obtain e heap1 where e: "carry_entry prev now s heap = (e, heap1)" by fastforce
  obtain es' where es: "carry_entries prev now ss heap1 = (es', heap')" "es = e # es'"
    using Cons.prems e by (auto split: prod.splits)
  show ?case
    using Cons.IH [OF es(1)] e es(2)
    by (fastforce simp: carry_entry_def nth_append split: option.splits)
qed simp

text \<open>
  Reloading the list of endpoints keeps what is known about the ones that stay: the new pool lists
  exactly the new endpoints in order; one the old pool had keeps its health, a new one starts with a
  closed breaker that has never failed, and nothing the old sessions still hold changes.  An empty
  list turns the pool off.
\<close>

theorem reload_keeps_health:
  assumes "reload_from_addrs endpoints now p heap = (diff, p', heap')" and "rp_inner p = Some prev"
  shows "diff = (addresses prev, endpoints) \<and> take (length heap) heap' = heap
    \<and> (case rp_inner p' of
         None \<Rightarrow> endpoints = []
       | Some q \<Rightarrow> endpoints \<noteq> [] \<and> addresses q = endpoints
           \<and> (\<forall>(a, r)\<in>set q. if a \<in> set (addresses prev) then (a, r) \<in> set prev else length heap \<le> r \<and> heap' ! r = eh_new now))"
proof (cases "endpoints = []")
  case True
  then show ?thesis using assms by (auto simp: reload_from_addrs_def rp_reload_def)
next
  case False
  obtain es h where c: "carry_entries prev now endpoints heap = (es, h)" by fastforce
  have r: "diff = (addresses prev, endpoints)" "rp_inner p' = Some es" "heap' = h"
    using assms False c by (auto simp: reload_from_addrs_def rp_reload_def new_with_carryover_def)
  note f = carry_entries_facts [OF c]
  have "if a \<in> set (addresses prev) then (a, r) \<in> set prev else length heap \<le> r \<and> h ! r = eh_new now" if "(a, r) \<in> set es" for a r
  proof -
    have m: "case map_of (rev prev) a of Some r' \<Rightarrow> r = r' | None \<Rightarrow> length heap \<le> r \<and> r < length h \<and> h ! r = eh_new now"
      using f that by blast
    show ?thesis
    proof (cases "map_of (rev prev) a")
      case None
      then show ?thesis using m None by (auto simp: addresses_def map_of_eq_None_iff)
    next
      case (Some r')
      then have "(a, r') \<in> set prev" using map_of_SomeD [OF Some] by simp
      moreover from this have "a \<in> set (addresses prev)" by (force simp: addresses_def)
      ultimately show ?thesis using m Some by simp
    qed
  qed
  then have all: "\<forall>(a, r)\<in>set es. if a \<in> set (addresses prev) then (a, r) \<in> set prev else length heap \<le> r \<and> h ! r = eh_new now"
    by (intro ballI) (simp only: split_paired_all prod.case)
  have "take (length heap) h = heap" "addresses es = endpoints" using f by (auto simp: addresses_def)
  then show ?thesis using r False all by (simp only: option.case simp_thms)
qed

theorem reload_keeps_health_witness:
  "\<exists>p' heap'. reload_from_addrs [[1], [2]] 5 (rp_new (Some [([1], 0)])) [eh_with_threshold 7 0] = (([[1]], [[1], [2]]), p', heap')
     \<and> take 1 heap' = [eh_with_threshold 7 0]"
proof -
  obtain diff p' heap' where r: "reload_from_addrs [[1], [2]] 5 (rp_new (Some [([1], 0)])) [eh_with_threshold 7 0] = (diff, p', heap')"
    by (metis prod_cases3)
  from reload_keeps_health [OF r] show ?thesis using r by (auto simp: rp_new_def addresses_def)
qed

text \<open>
  The generic walk gives up the result of its last resort: when the health lets no endpoint through it
  calls \<open>try_one\<close> on the first and returns \<open>None\<close> whatever the call returned.
\<close>

lemma dispatch_with_drops_last_resort:
  assumes "let_through now [(a, r)] heap = []"
  shows "dispatch_with now (\<lambda>_ _ _ h. (Some x, h)) [(a, r)] heap = (None, heap[r := snd (decide now (heap ! r))])"
  using assms by (auto simp: dispatch_with_def split: prod.splits if_splits)

end
