(* ===== verification/User_Id.thy ===== *)
theory User_Id
  imports Bootstrap
begin

text \<open>
  How the server writes and reads user ids and the lines of the quarantine file
  (\<open>per_user_bandwidth.rs\<close>, \<open>user_quarantine.rs\<close>).  A user id is eight bytes, a text its UTF-8
  bytes.
\<close>

section \<open>Model\<close>

definition hex_encode :: "bytes \<Rightarrow> bytes" where
  "hex_encode b = concat (map (\<lambda>x. [digit_char (uint (drop_bit 4 x)), digit_char (uint (x AND 0x0f))]) b)"

definition id_trimmed :: "bytes \<Rightarrow> bytes" where
  "id_trimmed uid = takeWhile (\<lambda>b. b \<noteq> 0) uid"

definition id_printable :: "bytes \<Rightarrow> bool" where
  "id_printable uid \<longleftrightarrow> id_trimmed uid \<noteq> []
     \<and> list_all (\<lambda>b. in_range 0x21 0x7E b \<and> b \<noteq> 34 \<and> b \<noteq> 92) (id_trimmed uid)"

definition render_user_id :: "bytes \<Rightarrow> bytes" where
  "render_user_id uid =
     (if uid = ascii ''OVERFLOW'' then ascii ''__overflow__''
      else if id_printable uid then id_trimmed uid
      else ascii ''hex:'' @ hex_encode uid)"

text \<open>\<open>&str[a..b]\<close> and \<open>u8::from_str_radix\<close>.\<close>

definition str_slice :: "bytes \<Rightarrow> nat \<Rightarrow> nat \<Rightarrow> ('e, bytes) rust" where
  "str_slice s a b = (if is_char_boundary s a \<and> is_char_boundary s b then slice s a b else Panic)"

definition from_str_radix_16 :: "bytes \<Rightarrow> u8 option" where
  "from_str_radix_16 s =
     (let ds = (case s of c # cs \<Rightarrow> if c = 43 then cs else s | [] \<Rightarrow> []) in
      case read_number 16 (length ds) True 255 ds of
        Some (n, []) \<Rightarrow> Some (word_of_int n)
      | _ \<Rightarrow> None)"

fun hex_bytes :: "bytes \<Rightarrow> nat list \<Rightarrow> (string, bytes) rust" where
  "hex_bytes hex [] = Ok []"
| "hex_bytes hex (i # is) =
     rust_bind (str_slice hex (i * 2) (i * 2 + 2)) (\<lambda>d.
     rust_bind (ok_or (from_str_radix_16 d) ''hex user_id decode'') (\<lambda>b.
     rust_bind (hex_bytes hex is) (\<lambda>bs. Ok (b # bs))))"

definition decode_user_id :: "bytes \<Rightarrow> (string, bytes) rust" where
  "decode_user_id s =
     (if starts_with s (ascii ''hex:'') then
        (let hex = drop 4 s in
         if length hex \<noteq> 16 then Err ''hex user_id must be 16 chars'' else hex_bytes hex [0..<8])
      else if 8 < length s then Err ''printable user_id > 8 bytes''
      else Ok (s @ replicate (8 - length s) 0))"

text \<open>\<open>str::find\<close> of a text.\<close>

fun find_sub :: "bytes \<Rightarrow> bytes \<Rightarrow> nat option" where
  "find_sub w [] = (if w = [] then Some 0 else None)"
| "find_sub w (c # s) = (if starts_with (c # s) w then Some 0 else map_option Suc (find_sub w s))"

definition extract_string_field :: "bytes \<Rightarrow> bytes \<Rightarrow> bytes option" where
  \<open>extract_string_field s name =
     (let needle = 34 # name @ ascii ''":"'' in
      case find_sub needle s of
        None \<Rightarrow> None
      | Some i \<Rightarrow>
          (let rest = drop (i + length needle) s in
           if 34 \<in> set rest then Some (takeWhile (\<lambda>c. c \<noteq> 34) rest) else None))\<close>

definition is_ascii_digit :: "u8 \<Rightarrow> bool" where
  "is_ascii_digit c \<longleftrightarrow> in_range 48 57 c"

definition parse_u64_digits :: "bytes \<Rightarrow> u64 option" where
  "parse_u64_digits ds =
     (case read_number 10 (length ds) True (2 ^ 64 - 1) ds of Some (n, []) \<Rightarrow> Some (word_of_int n) | _ \<Rightarrow> None)"

definition extract_u64_field :: "bytes \<Rightarrow> bytes \<Rightarrow> u64 option" where
  \<open>extract_u64_field s name =
     (let needle = 34 # name @ ascii ''":'' in
      case find_sub needle s of
        None \<Rightarrow> None
      | Some i \<Rightarrow> parse_u64_digits (takeWhile is_ascii_digit (drop (i + length needle) s)))\<close>

definition trigger_labels :: "string list" where
  "trigger_labels = [''byte_budget'', ''rate_limit'', ''per_user_bandwidth_rate'', ''test_trigger'', ''manual'']"

definition intern_triggered_by :: "bytes \<Rightarrow> string" where
  "intern_triggered_by label =
     (case filter (\<lambda>l. ascii l = label) trigger_labels of l # _ \<Rightarrow> l | [] \<Rightarrow> ''unknown'')"

definition parse_entry_line :: "bytes \<Rightarrow> (string, bytes \<times> u64 \<times> string) rust" where
  "parse_entry_line line =
     rust_bind (ok_or (extract_string_field line (ascii ''user_id'')) ''missing user_id field'') (\<lambda>uid_str.
     rust_bind (decode_user_id uid_str) (\<lambda>uid.
     rust_bind (ok_or (extract_u64_field line (ascii ''expires_unix_seconds'')) ''missing expires_unix_seconds field'') (\<lambda>expires_unix.
     rust_bind (ok_or (extract_string_field line (ascii ''triggered_by'')) ''missing triggered_by field'') (\<lambda>triggered_by.
     Ok (uid, expires_unix, intern_triggered_by triggered_by)))))"

definition entry_line :: "bytes \<Rightarrow> u64 \<Rightarrow> string \<Rightarrow> bytes" where
  \<open>entry_line uid expires_unix triggered_by =
     ascii ''{"user_id":"'' @ render_user_id uid @ ascii ''","expires_unix_seconds":'' @ show_radix 10 (uint expires_unix)
       @ ascii '',"triggered_by":"'' @ ascii triggered_by @ ascii ''"}''\<close>

section \<open>Ids\<close>

lemma nibbles:
  fixes b :: u8
  shows "uint (drop_bit 4 b) = uint b div 16" and "uint (b AND 0x0f) = uint b mod 16"
proof -
  show "uint (drop_bit 4 b) = uint b div 16"
    using uint_lt2p [of b] by (simp only: unsigned_drop_bit_eq) (simp add: drop_bit_eq_div take_bit_eq_mod mod_pos_pos_trivial)
  have "b AND 0x0f = take_bit 4 b" by (simp add: take_bit_eq_mask mask_numeral)
  then have "uint (b AND 0x0f) = take_bit 4 (uint b)" by (simp only: unsigned_take_bit_eq)
  then show "uint (b AND 0x0f) = uint b mod 16" by (simp add: take_bit_eq_mod)
qed

lemma nibble_bounds:
  fixes b :: u8
  shows "uint b div 16 < 16" "uint b mod 16 < 16" "0 \<le> uint b div 16" "0 \<le> uint b mod 16"
proof -
  have "0 \<le> uint b" "uint b < 256" using uint_lt2p [of b] by simp_all
  then show "uint b div 16 < 16" "uint b mod 16 < 16" "0 \<le> uint b div 16" "0 \<le> uint b mod 16" by linarith+
qed

lemma hex_pair:
  fixes b :: u8
  shows "from_str_radix_16 [digit_char (uint (drop_bit 4 b)), digit_char (uint (b AND 0x0f))] = Some b"
proof -
  let ?h = "uint b div 16" and ?l = "uint b mod 16"
  have c: "digit_char ?h \<noteq> 43" using digit_char_hex [OF nibble_bounds(3,1)] hex_char_plain by blast
  have "radix_val 16 [?h, ?l] = uint b" using radix_val_simps(3) [of 16 "[?h]" ?l] by simp
  moreover have "radix_val 16 [?h, ?l] \<le> 255" using calculation uint_lt2p [of b] by simp
  ultimately show ?thesis using c nibble_bounds [of b] by (simp add: nibbles from_str_radix_16_def read_number_def digit_char_facts)
qed

lemma hex_encode_ascii: "c \<in> set (hex_encode b) \<Longrightarrow> hex_char c"
  using digit_char_hex nibble_bounds by (auto simp: hex_encode_def nibbles)

lemma ascii_boundary:
  assumes "\<forall>c\<in>set s. hex_char c" and "i \<le> length s"
  shows "is_char_boundary s i"
proof (cases "i < length s")
  case True
  then have "hex_char (s ! i)" using assms(1) by simp
  then have "s ! i < 0x80" by (auto simp: hex_char_def word_less_def)
  then show ?thesis using True by (simp add: is_char_boundary_def not_le)
qed (use assms(2) in \<open>simp add: is_char_boundary_def\<close>)

lemma length_hex_encode [simp]: "length (hex_encode b) = 2 * length b"
  by (induction b) (auto simp: hex_encode_def)

lemma hex_encode_slice:
  "i < length b \<Longrightarrow> take 2 (drop (2 * i) (hex_encode b)) = [digit_char (uint (drop_bit 4 (b ! i))), digit_char (uint (b ! i AND 0x0f))]"
proof (induction b arbitrary: i)
  case (Cons x b)
  then show ?case by (cases i) (simp_all add: hex_encode_def)
qed simp

lemma hex_bytes_encode:
  assumes "\<forall>i\<in>set is. i < length b"
  shows "hex_bytes (hex_encode b) is = Ok (map ((!) b) is)"
  using assms
proof (induction "is")
  case (Cons i "is")
  have "str_slice (hex_encode b) (i * 2) (i * 2 + 2) =
     (Ok [digit_char (uint (drop_bit 4 (b ! i))), digit_char (uint (b ! i AND 0x0f))] :: (string, bytes) rust)"
    using Cons.prems hex_encode_slice [of i b] ascii_boundary [of "hex_encode b"] hex_encode_ascii
    by (simp add: str_slice_def mult.commute)
  then show ?case using Cons by (simp add: hex_pair)
qed simp

text \<open>The ids a rendered id is read back as.\<close>

definition id_survives :: "bytes \<Rightarrow> bool" where
  "id_survives uid \<longleftrightarrow> uid \<noteq> ascii ''OVERFLOW''
     \<and> (id_printable uid \<longrightarrow> \<not> starts_with uid (ascii ''hex:'') \<and> uid = id_trimmed uid @ replicate (8 - length (id_trimmed uid)) 0)"

lemma id_trimmed_length: "length uid = 8 \<Longrightarrow> length (id_trimmed uid) \<le> 8"
  using length_takeWhile_le [of "\<lambda>b. b \<noteq> 0" uid] by (simp add: id_trimmed_def)

lemma starts_with_trimmed: "starts_with (id_trimmed uid) (ascii ''hex:'') \<longleftrightarrow> starts_with uid (ascii ''hex:'')"
proof -
  have "take 4 uid = ascii ''hex:'' \<Longrightarrow> take 4 (takeWhile (\<lambda>b. b \<noteq> 0) uid) = ascii ''hex:''"
    by (cases uid; cases "tl uid"; cases "tl (tl uid)"; cases "tl (tl (tl uid))") (auto simp: ascii_def)
  moreover have "take 4 (takeWhile (\<lambda>b. b \<noteq> 0) uid) = ascii ''hex:'' \<Longrightarrow> take 4 uid = ascii ''hex:''"
    by (cases uid; cases "tl uid"; cases "tl (tl uid)"; cases "tl (tl (tl uid))") (auto simp: ascii_def split: if_splits)
  moreover have "length (ascii ''hex:'') = 4" by (simp add: ascii_def)
  ultimately show ?thesis unfolding starts_with_def id_trimmed_def by metis
qed

lemma decode_rendered:
  assumes "length uid = 8"
  shows "decode_user_id (render_user_id uid) =
     (if uid = ascii ''OVERFLOW'' then Err ''printable user_id > 8 bytes''
      else if id_printable uid then
        (if starts_with uid (ascii ''hex:'') then Err ''hex user_id must be 16 chars''
         else Ok (id_trimmed uid @ replicate (8 - length (id_trimmed uid)) 0))
      else Ok uid)"
proof -
  have hex: "length (ascii ''hex:'') = 4" "starts_with (ascii ''hex:'' @ s) (ascii ''hex:'')" for s
    by (simp_all add: ascii_def starts_with_def)
  have o: "decode_user_id (ascii ''__overflow__'') = Err ''printable user_id > 8 bytes''" by code_simp
  have m: "map ((!) uid) [0..<8] = uid" using assms map_nth [of uid] by simp
  have h: "decode_user_id (ascii ''hex:'' @ hex_encode uid) = Ok uid"
    using assms hex_bytes_encode [of "[0..<8]" uid] m by (simp add: decode_user_id_def hex)
  have "length (id_trimmed uid) - 4 \<noteq> 16" using id_trimmed_length [OF assms] by simp
  then show ?thesis
    using o h id_trimmed_length [OF assms] starts_with_trimmed [of uid]
    by (simp add: render_user_id_def) (simp add: decode_user_id_def)
qed

lemma decode_rendered_iff: "length uid = 8 \<Longrightarrow> decode_user_id (render_user_id uid) = Ok uid \<longleftrightarrow> id_survives uid"
  by (auto simp: decode_rendered id_survives_def)

section \<open>Lines\<close>

text \<open>What is left after the first occurrence of a text.\<close>

definition after_sub :: "bytes \<Rightarrow> bytes \<Rightarrow> bytes option" where
  "after_sub w s = map_option (\<lambda>i. drop (i + length w) s) (find_sub w s)"

lemma after_sub_Cons: "after_sub w (c # s) = (if starts_with (c # s) w then Some (drop (length w) (c # s)) else after_sub w s)"
  by (cases "find_sub w s") (simp_all add: after_sub_def)

lemma after_sub_skip: "c \<noteq> d \<Longrightarrow> after_sub (c # w) (d # s) = after_sub (c # w) s"
  by (simp add: after_sub_Cons starts_with_def)

lemma after_sub_skips: "c \<notin> set p \<Longrightarrow> after_sub (c # w) (p @ s) = after_sub (c # w) s"
  by (induction p) (auto simp: after_sub_skip)

lemma after_sub_hit: "after_sub (c # w) (c # w @ s) = Some s"
  by (simp add: after_sub_Cons starts_with_def)

text \<open>A quoted word that is not the one looked for.\<close>

lemma quoted_eq:
  assumes "take (length (name @ q # t)) (v @ q # s) = name @ q # t" and "q \<notin> set name" and "q \<notin> set v"
  shows "name = v"
  using assms
proof (induction name arbitrary: v)
  case Nil
  then show ?case by (cases v) auto
next
  case (Cons x name)
  then show ?case by (cases v) auto
qed

lemma after_sub_word:
  assumes "34 \<notin> set name" "34 \<notin> set v" "name \<noteq> v" "name \<noteq> []" "d \<noteq> hd name"
  shows "after_sub (34 # name @ 34 # t) (34 # v @ 34 # d # s) = after_sub (34 # name @ 34 # t) (d # s)"
proof -
  have "\<not> starts_with (34 # v @ 34 # d # s) (34 # name @ 34 # t)"
    using quoted_eq [of name 34 t v "d # s"] assms(1-3) by (auto simp: starts_with_def)
  moreover have "\<not> starts_with (34 # d # s) (34 # name @ 34 # t)" using assms(4,5) by (cases name) (auto simp: starts_with_def)
  ultimately have "after_sub (34 # name @ 34 # t) (34 # v @ 34 # d # s) = after_sub (34 # name @ 34 # t) (v @ 34 # d # s)"
    "after_sub (34 # name @ 34 # t) (34 # d # s) = after_sub (34 # name @ 34 # t) (d # s)"
    by (simp_all add: after_sub_Cons)
  then show ?thesis using after_sub_skips [OF assms(2)] by simp
qed

lemma extract_string_after:
  "extract_string_field s name =
     (case after_sub (34 # name @ [34, 58, 34]) s of None \<Rightarrow> None
      | Some rest \<Rightarrow> if 34 \<in> set rest then Some (takeWhile (\<lambda>c. c \<noteq> 34) rest) else None)"
proof -
  have "ascii ''\":\"'' = [34, 58, 34]" by (simp add: ascii_def)
  then show ?thesis by (simp add: extract_string_field_def after_sub_def Let_def split: option.split)
qed

lemma extract_u64_after:
  "extract_u64_field s name =
     (case after_sub (34 # name @ [34, 58]) s of None \<Rightarrow> None
      | Some rest \<Rightarrow> parse_u64_digits (takeWhile is_ascii_digit rest))"
proof -
  have "ascii ''\":'' = [34, 58]" by (simp add: ascii_def)
  then show ?thesis by (simp add: extract_u64_field_def after_sub_def Let_def split: option.split)
qed

lemma digit_ascii: "c \<in> set (show_radix 10 n) \<Longrightarrow> 0 \<le> n \<Longrightarrow> is_ascii_digit c"
proof -
  assume "c \<in> set (show_radix 10 n)" "0 \<le> n"
  then obtain d where d: "0 \<le> d" "d < 10" "c = digit_char d" using radix_digits_facts [of 10 n] by (auto simp: show_radix_def)
  have "uint (word_of_int x :: u8) = x" if "0 \<le> x" "x < 256" for x using that by (simp add: uint_word_of_int)
  from this [of "48 + d"] have "uint c = 48 + d" using d unfolding digit_char_def by auto
  then show "is_ascii_digit c" using d by (simp add: is_ascii_digit_def word_le_def)
qed

lemma parse_show_u64: "parse_u64_digits (show_radix 10 (uint x)) = Some x" for x :: u64
  using uint_lt2p [of x] read_number_whole [of "uint x" "2 ^ 64 - 1" True] by (simp add: parse_u64_digits_def)

lemma rendered_chars:
  assumes "c \<in> set (render_user_id uid)"
  shows "c \<noteq> 34 \<and> 0x20 < c \<and> c < 0x7f"
proof -
  have p: "id_printable uid \<Longrightarrow> c \<in> set (id_trimmed uid) \<Longrightarrow> ?thesis"
    by (auto simp: id_printable_def list_all_iff word_less_nat_alt word_le_nat_alt)
  have h: "hex_char c \<Longrightarrow> ?thesis" by (auto simp: hex_char_def word_less_def)
  have o: "\<forall>c\<in>set (ascii ''__overflow__'' @ ascii ''hex:''). c \<noteq> 34 \<and> 0x20 < c \<and> c < 0x7f" by code_simp
  show ?thesis using assms p h o hex_encode_ascii [of c uid] by (auto simp: render_user_id_def split: if_splits)
qed

abbreviation key_uid :: bytes where "key_uid \<equiv> ascii ''user_id''"
abbreviation key_expires :: bytes where "key_expires \<equiv> ascii ''expires_unix_seconds''"
abbreviation key_trigger :: bytes where "key_trigger \<equiv> ascii ''triggered_by''"

lemma keys_quote: "34 \<notin> set key_uid" "34 \<notin> set key_expires" "34 \<notin> set key_trigger"
  "key_uid \<noteq> []" "key_expires \<noteq> []" "key_trigger \<noteq> []" "hd key_uid = 117" "hd key_expires = 101" "hd key_trigger = 116"
  "key_uid \<noteq> key_expires" "key_uid \<noteq> key_trigger" "key_expires \<noteq> key_trigger" "length key_expires = 20" "length key_trigger = 12"
  by (simp_all add: ascii_def)

lemma rendered_not_key:
  assumes "length uid = 8"
  shows "render_user_id uid \<noteq> key_expires" "render_user_id uid \<noteq> key_trigger"
proof -
  have n: "hd (ascii ''__overflow__'') = 95" "hd (ascii ''hex:'' @ s) = 104" for s by (simp_all add: ascii_def)
  have l: "length (id_trimmed uid) \<noteq> 20" "length (id_trimmed uid) \<noteq> 12" using id_trimmed_length [OF assms] by auto
  have *: "ascii ''__overflow__'' \<noteq> key" "ascii ''hex:'' @ s \<noteq> key" if "hd key = 101 \<or> hd key = 116" for key s
    using that n n(2) [of s] by auto
  show "render_user_id uid \<noteq> key_expires"
    using * [of key_expires] keys_quote(8,13) l by (auto simp: render_user_id_def)
  show "render_user_id uid \<noteq> key_trigger"
    using * [of key_trigger] keys_quote(9,14) l by (auto simp: render_user_id_def)
qed

lemma entry_line_tokens:
  "entry_line uid e t = 123 # 34 # key_uid @ 34 # 58 # 34 # render_user_id uid @ 34 # 44 # 34 # key_expires @ 34 # 58
     # show_radix 10 (uint e) @ 44 # 34 # key_trigger @ 34 # 58 # 34 # ascii t @ [34, 125]"
  by (simp add: entry_line_def ascii_def)

text \<open>The value of each field of a written line.\<close>

lemma entry_fields:
  assumes "length uid = 8" and "34 \<notin> set (ascii t)"
  shows "extract_string_field (entry_line uid e t) key_uid = Some (render_user_id uid)"
    and "extract_u64_field (entry_line uid e t) key_expires = Some e"
    and "extract_string_field (entry_line uid e t) key_trigger = Some (ascii t)"
proof -
  let ?v = "render_user_id uid" and ?D = "show_radix 10 (uint e)"
  let ?T = "34 # key_trigger @ 34 # 58 # 34 # ascii t @ [34, 125]"
  let ?E = "34 # key_expires @ 34 # 58 # ?D @ 44 # ?T"
  have v: "34 \<notin> set ?v" using rendered_chars by blast
  have ne: "(123::u8) \<noteq> 34" "(58::u8) \<noteq> 34" "(44::u8) \<noteq> 34" by simp_all
  have dig: "is_ascii_digit c" if "c \<in> set ?D" for c using digit_ascii [OF that] by simp
  have d: "34 \<notin> set ?D" using dig [of 34] by (auto simp: is_ascii_digit_def)
  note k = keys_quote and r = rendered_not_key [OF assms(1)]
  have take: "takeWhile (\<lambda>c. c \<noteq> 34) (w @ 34 # s) = w" if "34 \<notin> set w" for w s :: bytes
    using that by (auto simp: takeWhile_append)
  show "extract_string_field (entry_line uid e t) key_uid = Some ?v"
    unfolding extract_string_after entry_line_tokens
    using after_sub_hit [of 34 "key_uid @ [34, 58, 34]"] take [OF v] by (simp add: after_sub_skip)
  have "after_sub (34 # key_expires @ 34 # [58]) (entry_line uid e t) = after_sub (34 # key_expires @ 34 # [58]) ?E"
    unfolding entry_line_tokens using k r v ne
    by (simp add: after_sub_skip [OF ne(1) [symmetric]] after_sub_skip [OF ne(2) [symmetric]] after_sub_skip [OF ne(3) [symmetric]] after_sub_word)
  moreover have "takeWhile is_ascii_digit (?D @ 44 # ?T) = ?D"
    using dig by (auto simp: takeWhile_append is_ascii_digit_def)
  ultimately show "extract_u64_field (entry_line uid e t) key_expires = Some e"
    unfolding extract_u64_after using after_sub_hit [of 34 "key_expires @ [34, 58]"] by (simp add: parse_show_u64)
  have "after_sub (34 # key_trigger @ 34 # [58, 34]) (entry_line uid e t) = after_sub (34 # key_trigger @ 34 # [58, 34]) ?T"
    unfolding entry_line_tokens using k r v d ne
    by (simp add: after_sub_skip [OF ne(1) [symmetric]] after_sub_skip [OF ne(2) [symmetric]] after_sub_skip [OF ne(3) [symmetric]]
        after_sub_word after_sub_skips)
  then show "extract_string_field (entry_line uid e t) key_trigger = Some (ascii t)"
    unfolding extract_string_after using after_sub_hit [of 34 "key_trigger @ [34, 58, 34]"] take [OF assms(2)] by simp
qed

lemma intern_label:
  "t \<in> set trigger_labels \<or> t = ''unknown'' \<Longrightarrow> intern_triggered_by (ascii t) = t \<and> 34 \<notin> set (ascii t)"
proof -
  have "\<forall>t\<in>set (''unknown'' # trigger_labels). intern_triggered_by (ascii t) = t \<and> 34 \<notin> set (ascii t)" by code_simp
  then show "t \<in> set trigger_labels \<or> t = ''unknown'' \<Longrightarrow> ?thesis" by auto
qed

lemma parse_written_line:
  assumes "length uid = 8" and "t \<in> set trigger_labels \<or> t = ''unknown''"
  shows "parse_entry_line (entry_line uid e t) =
      (if uid = ascii ''OVERFLOW'' then Err ''printable user_id > 8 bytes''
       else if id_printable uid then
         (if starts_with uid (ascii ''hex:'') then Err ''hex user_id must be 16 chars''
          else Ok (id_trimmed uid @ replicate (8 - length (id_trimmed uid)) 0, e, t))
       else Ok (uid, e, t))"
proof -
  note l = intern_label [OF assms(2)]
  have "parse_entry_line (entry_line uid e t) = rust_bind (decode_user_id (render_user_id uid)) (\<lambda>u. Ok (u, e, t))"
    using entry_fields [OF assms(1) conjunct2 [OF l]] l by (simp add: parse_entry_line_def)
  then show ?thesis unfolding decode_rendered [OF assms(1)] by simp
qed

lemma parse_survivor:
  assumes "length uid = 8" and "t \<in> set trigger_labels \<or> t = ''unknown''" and "id_survives uid"
  shows "parse_entry_line (entry_line uid e t) = Ok (uid, e, t)"
  using assms(3) unfolding parse_written_line [OF assms(1,2)] by (simp add: id_survives_def)

text \<open>
  A line of the quarantine file reads back as the ban it was written for exactly for the ids
  that survive: not the id \<open>OVERFLOW\<close>, not a printable one that starts with \<open>hex:\<close>, not a printable one
  with bytes after a NUL.  The other lines are refused, except the last kind, which is read as a
  ban of the id without those bytes.
\<close>

theorem entry_line_roundtrip:
  assumes "length uid = 8" and "t \<in> set trigger_labels \<or> t = ''unknown''"
  shows "(parse_entry_line (entry_line uid e t) = Ok (uid, e, t) \<longleftrightarrow> id_survives uid)
     \<and> (\<not> id_survives uid \<longrightarrow>
          (if uid \<noteq> ascii ''OVERFLOW'' \<and> \<not> starts_with uid (ascii ''hex:'')
           then parse_entry_line (entry_line uid e t) = Ok (id_trimmed uid @ replicate (8 - length (id_trimmed uid)) 0, e, t)
           else \<exists>msg. parse_entry_line (entry_line uid e t) = Err msg))"
proof (cases "uid = ascii ''OVERFLOW'' \<or> \<not> id_printable uid \<or> starts_with uid (ascii ''hex:'')")
  case True
  then show ?thesis unfolding parse_written_line [OF assms] id_survives_def by (simp split: if_split) blast
next
  case False
  then show ?thesis unfolding parse_written_line [OF assms] id_survives_def by (simp add: eq_commute)
qed

theorem entry_line_roundtrip_witness:
  "parse_entry_line (entry_line (ascii ''alice001'') 1700000000 ''manual'') = Ok (ascii ''alice001'', 1700000000, ''manual'')
   \<and> parse_entry_line (entry_line [97, 108, 0, 105, 99, 101, 0, 0] 5 ''manual'') = Ok ([97, 108, 0, 0, 0, 0, 0, 0], 5, ''manual'')"
proof -
  have t: "''manual'' \<in> set trigger_labels \<or> ''manual'' = ''unknown''" by (simp add: trigger_labels_def)
  have s: "length (ascii ''alice001'') = 8" "id_survives (ascii ''alice001'')" by code_simp+
  have n: "length [97, 108, 0, 105, 99, 101, 0, 0 :: u8] = 8" "\<not> id_survives [97, 108, 0, 105, 99, 101, 0, 0]"
    "[97, 108, 0, 105, 99, 101, 0, 0] \<noteq> ascii ''OVERFLOW'' \<and> \<not> starts_with [97, 108, 0, 105, 99, 101, 0, 0] (ascii ''hex:'')"
    "id_trimmed [97, 108, 0, 105, 99, 101, 0, 0] @ replicate (8 - length (id_trimmed [97, 108, 0, 105, 99, 101, 0, 0])) 0 = [97, 108, 0, 0, 0, 0, 0, 0]"
    by code_simp+
  show ?thesis using entry_line_roundtrip [OF s(1) t, of 1700000000] s(2) entry_line_roundtrip [OF n(1) t, of 5] n(2-4) by simp
qed

end
