(* ===== verification/Text_File.thy ===== *)
theory Text_File
  imports Outbound_Filter
begin

text \<open>
  Text files read line by line: \<open>str::lines\<close>, and what it and \<open>str::trim\<close> leave of lines that
  were written one after the other.  The state files, the quota and quarantine files and the
  watchlist share it.
\<close>

text \<open>\<open>str::lines\<close>.\<close>

definition strip_cr :: "bytes \<Rightarrow> bytes" where
  "strip_cr l = (if l \<noteq> [] \<and> last l = 13 then butlast l else l)"

definition text_lines :: "bytes \<Rightarrow> bytes list" where
  "text_lines raw =
     (let ls = split_on 10 raw in map strip_cr (if last ls = [] then butlast ls else ls))"

lemma split_on_line: "c \<notin> set l \<Longrightarrow> split_on c (l @ c # s) = l # split_on c s"
  by (induction l) auto

lemma split_on_lines: "\<forall>l\<in>set ls. c \<notin> set l \<Longrightarrow> split_on c (concat (map (\<lambda>l. l @ [c]) ls)) = ls @ [[]]"
  by (induction ls) (auto simp: split_on_line)

lemma text_lines_body:
  assumes "\<forall>l\<in>set ls. 10 \<notin> set l \<and> l \<noteq> [] \<and> last l \<noteq> 13"
  shows "text_lines (concat (map (\<lambda>l. l @ [10]) ls)) = ls"
proof -
  have "\<forall>l\<in>set ls. 10 \<notin> set l" using assms by blast
  moreover have "map strip_cr ls = ls" using assms by (intro map_idI) (simp add: strip_cr_def)
  ultimately show ?thesis by (simp add: text_lines_def split_on_lines)
qed

lemma trim_front_fixed: "\<forall>w\<in>set ws. w = [] \<or> hd w \<noteq> c \<Longrightarrow> trim_front ws (c # s) = c # s"
proof -
  assume w: "\<forall>w\<in>set ws. w = [] \<or> hd w \<noteq> c"
  have "\<not> (v \<noteq> [] \<and> starts_with (c # s) v)" if "v \<in> set ws" for v using w that by (cases v) (auto simp: starts_with_def)
  then have "filter (\<lambda>v. v \<noteq> [] \<and> starts_with (c # s) v) ws = []" by (simp add: filter_empty_conv)
  then show ?thesis by (subst trim_front.simps) simp
qed

text \<open>The visible ASCII characters.\<close>

definition graphic :: "u8 \<Rightarrow> bool" where
  "graphic c \<longleftrightarrow> 33 \<le> c \<and> c \<le> 126"

lemma graphic_not_white:
  assumes "graphic c"
  shows "\<forall>w\<in>set white_space. w = [] \<or> hd w \<noteq> c" and "\<forall>w\<in>set (map rev white_space). w = [] \<or> hd w \<noteq> c"
proof -
  have "list_all (\<lambda>w. \<not> graphic (hd w)) white_space" "list_all (\<lambda>w. \<not> graphic (hd w)) (map rev white_space)" by code_simp+
  then show "\<forall>w\<in>set white_space. w = [] \<or> hd w \<noteq> c" "\<forall>w\<in>set (map rev white_space). w = [] \<or> hd w \<noteq> c"
    using assms unfolding list_all_iff by metis+
qed

lemma trim_front_graphic: "graphic c \<Longrightarrow> trim_front white_space (c # s) = c # s"
  by (rule trim_front_fixed [OF graphic_not_white(1)])

lemma trim_back_graphic: "graphic d \<Longrightarrow> rev (trim_front (map rev white_space) (rev (s @ [d]))) = s @ [d]"
  using trim_front_fixed [OF graphic_not_white(2)] by simp

lemma trim_graphic: "graphic c \<Longrightarrow> graphic d \<Longrightarrow> trim (c # s @ [d]) = c # s @ [d]"
  using trim_back_graphic [of d "c # s"] by (simp add: trim_def trim_front_graphic)

lemma trim_graphic_ends:
  assumes "s \<noteq> []" and "graphic (hd s)" and "graphic (last s)"
  shows "trim s = s"
proof -
  have "trim_front white_space s = s" using assms(1,2) trim_front_graphic [of "hd s" "tl s"] by simp
  moreover have "rev (trim_front (map rev white_space) (rev s)) = s"
    by (rule trim_back_graphic [OF assms(3), of "butlast s", unfolded append_butlast_last_id [OF assms(1)]])
  ultimately show ?thesis by (simp add: trim_def)
qed

text \<open>Spaces in front go.\<close>

lemma trim_front_space: "trim_front white_space (32 # s) = trim_front white_space s"
proof -
  have "filter (\<lambda>w. w \<noteq> [] \<and> starts_with (32 # s) w) white_space = [[32]]"
    by (simp add: white_space_def starts_with_def)
  then show ?thesis by (subst trim_front.simps) simp
qed

lemma trim_space: "trim (32 # s) = trim s"
  by (simp add: trim_def trim_front_space)

end
