(* ===== verification/User_Quarantine.thy ===== *)
theory User_Quarantine
  imports User_Id Endpoint_Health Text_File
begin

text \<open>
  The quarantine of users whose sessions tripped an abuse detector (\<open>user_quarantine.rs\<close>): the bounded map
  of bans with its deadlines, the sessions to tear down, and the file the bans are kept in across
  restarts and edited by the operator in.

  An instant is a number of nanoseconds below \<open>2^63\<close> seconds; adding past that panics.  The record \<open>host\<close>
  is the world an operation runs in: both clocks, whether the file can be replaced, which sessions
  are alive and the order a \<open>HashMap\<close> is walked in.  The bodies for metrics and diagnosis are left out.
\<close>

section \<open>State\<close>

definition instant_add :: "instant \<Rightarrow> nat \<Rightarrow> ('e, instant) rust" where
  "instant_add t d = (if t + d < from_secs (2 ^ 63) then Ok (t + d) else Panic)"

definition VACUUM_INTERVAL :: nat where "VACUUM_INTERVAL = from_secs 30"

record ReloadOutcome =
  ro_added :: nat
  ro_removed :: nat
  ro_refreshed :: nat
  ro_skipped_expired :: nat
  ro_malformed :: nat

record QuarantineEntry =
  qe_expires_at :: instant
  qe_triggered_by_kind :: string

type_synonym bans = "(bytes, QuarantineEntry) hmap"

record UserQuarantineList =
  uq_ttl :: nat
  uq_max_entries :: nat
  uq_inner :: bans
  uq_session_notifiers :: "(bytes, nat list) hmap"
  uq_last_vacuum :: instant
  uq_inserted_total :: u64
  uq_refused_inserts_total :: u64
  uq_quarantine_hits_total :: u64
  uq_sessions_torn_down_total :: u64
  uq_persistence_path :: "bytes option"
  uq_persist_attempts_total :: u64
  uq_persist_failed_total :: u64
  uq_loaded_from_disk :: u64
  uq_manual_unquarantines_total :: u64
  uq_reload_attempts_total :: u64
  uq_reload_failed_total :: u64

record host =
  ho_now :: instant
  ho_unix :: u64
  ho_write_ok :: bool
  ho_live :: "nat \<Rightarrow> bool"
  ho_order :: "bans \<Rightarrow> bans"

text \<open>The file, and an operation on list and file.\<close>

datatype ban_file = Missing | Unreadable | File bytes

type_synonym 'a uq_call = "UserQuarantineList \<times> ban_file \<Rightarrow> 'a \<times> UserQuarantineList \<times> ban_file"

definition uq_new :: "nat \<Rightarrow> nat \<Rightarrow> instant \<Rightarrow> UserQuarantineList" where
  "uq_new ttl max_entries now = \<lparr>uq_ttl = ttl, uq_max_entries = max_entries, uq_inner = [], uq_session_notifiers = [],
     uq_last_vacuum = now, uq_inserted_total = 0, uq_refused_inserts_total = 0, uq_quarantine_hits_total = 0,
     uq_sessions_torn_down_total = 0, uq_persistence_path = None, uq_persist_attempts_total = 0, uq_persist_failed_total = 0,
     uq_loaded_from_disk = 0, uq_manual_unquarantines_total = 0, uq_reload_attempts_total = 0, uq_reload_failed_total = 0\<rparr>"

definition with_persistence :: "bytes \<Rightarrow> UserQuarantineList \<Rightarrow> UserQuarantineList" where
  "with_persistence path q = q\<lparr>uq_persistence_path := Some path\<rparr>"

section \<open>The file\<close>

text \<open>Blank lines, comments and the header are passed over.\<close>

definition header_line :: bytes where
  \<open>header_line = ascii ''{"kind":"header","schema_version":1,"format":"proteus_user_quarantine_v1"}''\<close>

definition passed_over :: "bytes \<Rightarrow> bool" where
  \<open>passed_over line \<longleftrightarrow> line = [] \<or> starts_with line [35] \<or> starts_with line (ascii ''{"kind":"header"'')\<close>

fun load_lines :: "instant \<Rightarrow> u64 \<Rightarrow> nat \<Rightarrow> bytes list \<Rightarrow> bans \<Rightarrow> u64 \<Rightarrow> (unit, bans \<times> u64) rust" where
  "load_lines now now_unix max_entries [] g loaded = Ok (g, loaded)"
| "load_lines now now_unix max_entries (l # ls) g loaded =
     (let line = trim l in
      if passed_over line then load_lines now now_unix max_entries ls g loaded
      else
        (case parse_entry_line line of
           Ok (uid, expires_unix, triggered_by) \<Rightarrow>
             if expires_unix \<le> now_unix then load_lines now now_unix max_entries ls g loaded
             else
               rust_bind (instant_add now (from_secs (unat (expires_unix - now_unix)))) (\<lambda>expires_at.
               let g = hm_insert uid \<lparr>qe_expires_at = expires_at, qe_triggered_by_kind = triggered_by\<rparr> g in
               if max_entries \<le> hm_len g then Ok (g, loaded + 1)
               else load_lines now now_unix max_entries ls g (loaded + 1))
         | Err e \<Rightarrow> load_lines now now_unix max_entries ls g loaded
         | Panic \<Rightarrow> Panic))"

definition load_from_disk :: "host \<Rightarrow> ban_file \<Rightarrow> bytes \<Rightarrow> nat \<Rightarrow> nat \<Rightarrow> (unit, UserQuarantineList) rust" where
  "load_from_disk ho fl path ttl max_entries =
     (let q = with_persistence path (uq_new ttl max_entries (ho_now ho)) in
      case fl of
        Missing \<Rightarrow> Ok q
      | Unreadable \<Rightarrow> Ok (q\<lparr>uq_persist_failed_total := uq_persist_failed_total q + 1\<rparr>)
      | File raw \<Rightarrow>
          rust_bind (load_lines (ho_now ho) (ho_unix ho) max_entries (text_lines raw) [] 0) (\<lambda>(g, loaded).
          Ok (q\<lparr>uq_inner := g, uq_loaded_from_disk := loaded\<rparr>)))"

definition saturating_add :: "u64 \<Rightarrow> nat \<Rightarrow> u64" where
  "saturating_add a n = (if unat a + n < 2 ^ 64 then a + word_of_nat n else - 1)"

definition entry_text :: "host \<Rightarrow> bytes \<times> QuarantineEntry \<Rightarrow> bytes" where
  "entry_text ho e =
     entry_line (fst e) (saturating_add (ho_unix ho) ((qe_expires_at (snd e) - ho_now ho) div from_secs 1))
       (qe_triggered_by_kind (snd e))"

definition file_body :: "host \<Rightarrow> bans \<Rightarrow> bytes" where
  "file_body ho g =
     concat (map (\<lambda>l. l @ [10])
       (header_line # map (entry_text ho) (filter (\<lambda>e. ho_now ho < qe_expires_at (snd e)) (ho_order ho g))))"

text \<open>The new body goes to a temporary file that is renamed over the old one: all or nothing.\<close>

definition persist :: "host \<Rightarrow> bool uq_call" where
  "persist ho = (\<lambda>(q, fl).
     let q = q\<lparr>uq_persist_attempts_total := uq_persist_attempts_total q + 1\<rparr> in
     case uq_persistence_path q of
       None \<Rightarrow> (True, q, fl)
     | Some path \<Rightarrow>
         if ho_write_ok ho then (True, q, File (file_body ho (uq_inner q)))
         else (False, q\<lparr>uq_persist_failed_total := uq_persist_failed_total q + 1\<rparr>, fl))"

section \<open>Sessions to tear down\<close>

definition register_session :: "host \<Rightarrow> bytes \<Rightarrow> nat \<Rightarrow> UserQuarantineList \<Rightarrow> UserQuarantineList" where
  "register_session ho uid session q =
     (let entry = (case hm_get (uq_session_notifiers q) uid of Some e \<Rightarrow> e | None \<Rightarrow> []) in
      q\<lparr>uq_session_notifiers := hm_insert uid (filter (ho_live ho) entry @ [session]) (uq_session_notifiers q)\<rparr>)"

text \<open>The sessions woken, and the list without the dead ones.\<close>

definition tear_down_user :: "host \<Rightarrow> bytes \<Rightarrow> UserQuarantineList \<Rightarrow> nat list \<times> UserQuarantineList" where
  "tear_down_user ho uid q =
     (case hm_get (uq_session_notifiers q) uid of
        None \<Rightarrow> ([], q)
      | Some entry \<Rightarrow>
          (let woken = filter (ho_live ho) entry in
           (woken, q\<lparr>uq_session_notifiers :=
                (if woken = [] then hm_remove uid (uq_session_notifiers q) else hm_insert uid woken (uq_session_notifiers q)),
              uq_sessions_torn_down_total := uq_sessions_torn_down_total q + word_of_nat (length woken)\<rparr>)))"

section \<open>Operations\<close>

text \<open>
  \<open>insert_at\<close>: whether the ban stands, and the sessions woken.  The clock of the deadline is an
  argument, the file is written with the clock of the host.
\<close>

definition insert_at :: "host \<Rightarrow> bytes \<Rightarrow> string \<Rightarrow> instant \<Rightarrow> ((unit, bool) rust \<times> nat list) uq_call" where
  "insert_at ho uid triggered_by now = (\<lambda>(q, fl).
     if uq_ttl q = 0 then ((Ok False, []), q, fl)
     else
       (case instant_add now (uq_ttl q) of
          Ok expires_at \<Rightarrow>
            if \<not> hm_contains (uq_inner q) uid \<and> uq_max_entries q \<le> hm_len (uq_inner q) then
              ((Ok False, []), q\<lparr>uq_refused_inserts_total := uq_refused_inserts_total q + 1\<rparr>, fl)
            else
              (let q = q\<lparr>uq_inner := hm_insert uid \<lparr>qe_expires_at = expires_at, qe_triggered_by_kind = triggered_by\<rparr> (uq_inner q),
                   uq_inserted_total := uq_inserted_total q + 1\<rparr>;
                   (woken, q) = tear_down_user ho uid q in
               ((Ok True, woken), snd (persist ho (q, fl))))
        | Err e \<Rightarrow> ((Err e, []), q, fl)
        | Panic \<Rightarrow> ((Panic, []), q, fl)))"

definition maybe_vacuum :: "instant \<Rightarrow> UserQuarantineList \<Rightarrow> UserQuarantineList" where
  "maybe_vacuum now q =
     (if now - uq_last_vacuum q < VACUUM_INTERVAL then q
      else q\<lparr>uq_last_vacuum := now, uq_inner := hm_retain (\<lambda>_ e. now < qe_expires_at e) (uq_inner q)\<rparr>)"

text \<open>The seconds left, when the user is banned.\<close>

definition check_at :: "bytes \<Rightarrow> instant \<Rightarrow> UserQuarantineList \<Rightarrow> nat option \<times> UserQuarantineList" where
  "check_at uid now q =
     (if uq_ttl q = 0 then (None, q)
      else
        (let q = maybe_vacuum now q in
         case hm_get (uq_inner q) uid of
           None \<Rightarrow> (None, q)
         | Some e \<Rightarrow>
             if qe_expires_at e \<le> now then (None, q)
             else (Some ((qe_expires_at e - now) div from_secs 1),
                   q\<lparr>uq_quarantine_hits_total := uq_quarantine_hits_total q + 1\<rparr>)))"

definition unquarantine :: "host \<Rightarrow> bytes \<Rightarrow> bool uq_call" where
  "unquarantine ho uid = (\<lambda>(q, fl).
     let removed = hm_contains (uq_inner q) uid; q = q\<lparr>uq_inner := hm_remove uid (uq_inner q)\<rparr> in
     if removed then
       (True, snd (persist ho (q\<lparr>uq_manual_unquarantines_total := uq_manual_unquarantines_total q + 1\<rparr>, fl)))
     else (False, q, fl))"

definition active_count_at :: "instant \<Rightarrow> UserQuarantineList \<Rightarrow> nat" where
  "active_count_at now q = length (filter (\<lambda>e. now < qe_expires_at (snd e)) (uq_inner q))"

section \<open>Reloading the file\<close>

text \<open>The bans of the file with the numbers of expired and malformed lines.\<close>

fun desired_bans :: "instant \<Rightarrow> u64 \<Rightarrow> bytes list \<Rightarrow> bans \<Rightarrow> nat \<Rightarrow> nat \<Rightarrow> (unit, bans \<times> nat \<times> nat) rust" where
  "desired_bans now now_unix [] desired skipped malformed = Ok (desired, skipped, malformed)"
| "desired_bans now now_unix (l # ls) desired skipped malformed =
     (let line = trim l in
      if passed_over line then desired_bans now now_unix ls desired skipped malformed
      else
        (case parse_entry_line line of
           Ok (uid, expires_unix, triggered_by) \<Rightarrow>
             if expires_unix \<le> now_unix then desired_bans now now_unix ls desired (skipped + 1) malformed
             else
               rust_bind (instant_add now (from_secs (unat (expires_unix - now_unix)))) (\<lambda>expires_at.
               desired_bans now now_unix ls
                 (hm_insert uid \<lparr>qe_expires_at = expires_at, qe_triggered_by_kind = triggered_by\<rparr> desired) skipped malformed)
         | Err e \<Rightarrow> desired_bans now now_unix ls desired skipped (malformed + 1)
         | Panic \<Rightarrow> Panic))"

text \<open>One ban of the file against the map: the map, added, refreshed, and the users to tear down.\<close>

type_synonym merged = "bans \<times> nat \<times> nat \<times> bytes list"

definition merge_ban :: "nat \<Rightarrow> bytes \<times> QuarantineEntry \<Rightarrow> merged \<Rightarrow> merged" where
  "merge_ban max_entries d = (\<lambda>(g, added, refreshed, torn).
     case hm_get g (fst d) of
       Some existing \<Rightarrow>
         if qe_expires_at (snd d) \<noteq> qe_expires_at existing \<or> qe_triggered_by_kind existing \<noteq> qe_triggered_by_kind (snd d) then
           (hm_insert (fst d) (snd d) g, added, refreshed + 1,
            torn @ (if qe_expires_at existing < qe_expires_at (snd d) then [fst d] else []))
         else (g, added, refreshed, torn)
     | None \<Rightarrow>
         if max_entries \<le> hm_len g then (g, added, refreshed, torn)
         else (hm_insert (fst d) (snd d) g, added + 1, refreshed, torn @ [fst d]))"

fun tear_down_users :: "host \<Rightarrow> bytes list \<Rightarrow> UserQuarantineList \<Rightarrow> nat list \<times> UserQuarantineList" where
  "tear_down_users ho [] q = ([], q)"
| "tear_down_users ho (uid # uids) q =
     (case tear_down_user ho uid q of (w, q) \<Rightarrow> case tear_down_users ho uids q of (ws, q) \<Rightarrow> (w @ ws, q))"

definition reload_from_disk :: "host \<Rightarrow> ((unit, ReloadOutcome) rust \<times> nat list) uq_call" where
  "reload_from_disk ho = (\<lambda>(q, fl).
     let q = q\<lparr>uq_reload_attempts_total := uq_reload_attempts_total q + 1\<rparr>;
         nothing = \<lparr>ro_added = 0, ro_removed = 0, ro_refreshed = 0, ro_skipped_expired = 0, ro_malformed = 0\<rparr> in
     if uq_persistence_path q = None then ((Ok nothing, []), q, fl)
     else
       (case fl of
          Missing \<Rightarrow>
            ((Ok (nothing\<lparr>ro_removed := hm_len (uq_inner q)\<rparr>), []), snd (persist ho (q\<lparr>uq_inner := []\<rparr>, fl)))
        | Unreadable \<Rightarrow> ((Err (), []), q\<lparr>uq_reload_failed_total := uq_reload_failed_total q + 1\<rparr>, fl)
        | File raw \<Rightarrow>
            (case desired_bans (ho_now ho) (ho_unix ho) (text_lines raw) [] 0 0 of
               Ok (desired, skipped, malformed) \<Rightarrow>
                 (let (g, added, refreshed, torn) = fold (merge_ban (uq_max_entries q)) (ho_order ho desired) (uq_inner q, 0, 0, []);
                      kept = hm_retain (\<lambda>k _. hm_contains desired k) g;
                      (woken, q) = tear_down_users ho torn (q\<lparr>uq_inner := kept\<rparr>) in
                  ((Ok \<lparr>ro_added = added, ro_removed = hm_len g - hm_len kept, ro_refreshed = refreshed,
                        ro_skipped_expired = skipped, ro_malformed = malformed\<rparr>, woken), snd (persist ho (q, fl))))
             | Err e \<Rightarrow> ((Err e, []), q, fl)
             | Panic \<Rightarrow> ((Panic, []), q, fl))))"

section \<open>What the operations keep\<close>

lemma persist_keeps:
  "uq_inner (fst (snd (persist ho (q, fl)))) = uq_inner q" "uq_max_entries (fst (snd (persist ho (q, fl)))) = uq_max_entries q"
  "uq_ttl (fst (snd (persist ho (q, fl)))) = uq_ttl q"
  by (simp_all add: persist_def Let_def split: option.split)

lemma tear_down_user_keeps:
  "uq_inner (snd (tear_down_user ho uid q)) = uq_inner q" "uq_max_entries (snd (tear_down_user ho uid q)) = uq_max_entries q"
  "uq_ttl (snd (tear_down_user ho uid q)) = uq_ttl q"
  by (simp_all add: tear_down_user_def Let_def split: option.split)

lemma tear_down_users_keeps:
  "uq_inner (snd (tear_down_users ho uids q)) = uq_inner q \<and> uq_max_entries (snd (tear_down_users ho uids q)) = uq_max_entries q
   \<and> uq_ttl (snd (tear_down_users ho uids q)) = uq_ttl q"
proof (induction uids arbitrary: q)
  case (Cons uid uids)
  show ?case using Cons.IH [of "snd (tear_down_user ho uid q)"] tear_down_user_keeps [of ho uid q]
    by (simp add: case_prod_beta)
qed simp

lemmas uq_keeps = persist_keeps tear_down_user_keeps tear_down_users_keeps

datatype uq_event =
    UqInsert host bytes string instant
  | UqCheck bytes instant
  | UqLift host bytes
  | UqReload host
  | UqRegister host bytes nat

fun uq_step :: "UserQuarantineList \<times> ban_file \<Rightarrow> uq_event \<Rightarrow> UserQuarantineList \<times> ban_file" where
  "uq_step s (UqInsert ho uid trigger now) = snd (insert_at ho uid trigger now s)"
| "uq_step s (UqCheck uid now) = (snd (check_at uid now (fst s)), snd s)"
| "uq_step s (UqLift ho uid) = snd (unquarantine ho uid s)"
| "uq_step s (UqReload ho) = snd (reload_from_disk ho s)"
| "uq_step s (UqRegister ho uid session) = (register_session ho uid session (fst s), snd s)"

definition uq_inv :: "UserQuarantineList \<times> ban_file \<Rightarrow> bool" where
  "uq_inv s \<longleftrightarrow> hm_ok (uq_inner (fst s)) \<and> hm_len (uq_inner (fst s)) \<le> uq_max_entries (fst s)"

lemma insert_at_state:
  "uq_inner (fst (snd (insert_at ho uid trigger now (q, fl)))) =
     (if 0 < uq_ttl q \<and> now + uq_ttl q < from_secs (2 ^ 63) \<and> (hm_contains (uq_inner q) uid \<or> hm_len (uq_inner q) < uq_max_entries q)
      then hm_insert uid \<lparr>qe_expires_at = now + uq_ttl q, qe_triggered_by_kind = trigger\<rparr> (uq_inner q) else uq_inner q)
   \<and> uq_max_entries (fst (snd (insert_at ho uid trigger now (q, fl)))) = uq_max_entries q
   \<and> uq_ttl (fst (snd (insert_at ho uid trigger now (q, fl)))) = uq_ttl q"
  by (auto simp: insert_at_def instant_add_def Let_def case_prod_beta uq_keeps)

lemma maybe_vacuum_inner:
  "uq_inner (maybe_vacuum now q) = uq_inner q \<or> uq_inner (maybe_vacuum now q) = hm_retain (\<lambda>_ e. now < qe_expires_at e) (uq_inner q)"
  by (simp add: maybe_vacuum_def)

lemma maybe_vacuum_keeps [simp]:
  "uq_max_entries (maybe_vacuum now q) = uq_max_entries q" "uq_ttl (maybe_vacuum now q) = uq_ttl q"
  by (simp_all add: maybe_vacuum_def)

lemma check_at_state:
  "(uq_inner (snd (check_at uid now q)) = uq_inner q \<or> uq_inner (snd (check_at uid now q)) = uq_inner (maybe_vacuum now q))
   \<and> uq_max_entries (snd (check_at uid now q)) = uq_max_entries q \<and> uq_ttl (snd (check_at uid now q)) = uq_ttl q"
  by (simp add: check_at_def Let_def split: option.split)

lemma merge_ban_ok:
  assumes "hm_ok g \<and> hm_len g \<le> n" and "merge_ban n d (g, a, r, t) = (g', a', r', t')"
  shows "hm_ok g' \<and> hm_len g' \<le> n"
  using assms by (auto simp: merge_ban_def hm_len_insert hm_contains_def split: option.splits if_splits)

lemma merge_bans_ok: "hm_ok (fst m) \<and> hm_len (fst m) \<le> n \<Longrightarrow> hm_ok (fst (fold (merge_ban n) ds m)) \<and> hm_len (fst (fold (merge_ban n) ds m)) \<le> n"
proof (induction ds arbitrary: m)
  case (Cons d ds)
  obtain g a r t where m: "m = (g, a, r, t)" by (metis prod_cases4)
  obtain g' a' r' t' where m': "merge_ban n d m = (g', a', r', t')" by (metis prod_cases4)
  have "hm_ok g' \<and> hm_len g' \<le> n" using merge_ban_ok [OF _ m' [unfolded m]] Cons.prems m by simp
  then show ?case using Cons.IH [of "(g', a', r', t')"] m' by simp
qed simp

text \<open>The map after a reload.\<close>

lemma reload_state:
  fixes q fl ho
  defines "q' \<equiv> fst (snd (reload_from_disk ho (q, fl)))"
  shows "(uq_inner q' = uq_inner q \<or> uq_inner q' = []
      \<or> (\<exists>raw desired k m. fl = File raw \<and> desired_bans (ho_now ho) (ho_unix ho) (text_lines raw) [] 0 0 = Ok (desired, k, m)
           \<and> uq_inner q' = hm_retain (\<lambda>k _. hm_contains desired k)
               (fst (fold (merge_ban (uq_max_entries q)) (ho_order ho desired) (uq_inner q, 0, 0, [])))))
    \<and> uq_max_entries q' = uq_max_entries q \<and> uq_ttl q' = uq_ttl q"
proof (cases "uq_persistence_path q = None")
  case False
  show ?thesis
  proof (cases fl)
    case (File raw)
    show ?thesis
    proof (cases "desired_bans (ho_now ho) (ho_unix ho) (text_lines raw) [] 0 0")
      case (Ok r)
      obtain desired k m where r: "r = (desired, k, m)" by (metis prod_cases3)
      show ?thesis using False File Ok r
        by (simp add: q'_def reload_from_disk_def Let_def case_prod_beta uq_keeps)
    qed (use False File in \<open>simp_all add: q'_def reload_from_disk_def Let_def\<close>)
  qed (use False in \<open>simp_all add: q'_def reload_from_disk_def Let_def uq_keeps\<close>)
qed (simp add: q'_def reload_from_disk_def Let_def)

lemma unquarantine_state:
  "uq_inner (fst (snd (unquarantine ho uid (q, fl)))) = hm_remove uid (uq_inner q)
   \<and> uq_max_entries (fst (snd (unquarantine ho uid (q, fl)))) = uq_max_entries q \<and> uq_ttl (fst (snd (unquarantine ho uid (q, fl)))) = uq_ttl q"
  by (simp add: unquarantine_def Let_def uq_keeps)

lemma register_session_keeps [simp]:
  "uq_inner (register_session ho uid session q) = uq_inner q" "uq_max_entries (register_session ho uid session q) = uq_max_entries q"
  "uq_ttl (register_session ho uid session q) = uq_ttl q"
  by (simp_all add: register_session_def Let_def)

lemma uq_step_keeps: "uq_max_entries (fst (uq_step s e)) = uq_max_entries (fst s) \<and> uq_ttl (fst (uq_step s e)) = uq_ttl (fst s)"
  by (cases s; cases e) (simp_all add: insert_at_state check_at_state reload_state unquarantine_state)

lemma uq_step_inv:
  assumes "uq_inv s"
  shows "uq_inv (uq_step s e)"
proof -
  obtain q fl where s: "s = (q, fl)" by fastforce
  have ok: "hm_ok (uq_inner q)" "hm_len (uq_inner q) \<le> uq_max_entries q" using assms by (simp_all add: uq_inv_def s)
  have v: "hm_ok (uq_inner (maybe_vacuum now q)) \<and> hm_len (uq_inner (maybe_vacuum now q)) \<le> uq_max_entries q" for now
    using maybe_vacuum_inner [of now q] ok hm_len_retain_le le_trans by (metis hm_ok_retain)
  show ?thesis
  proof (cases e)
    case (UqInsert ho uid trigger now)
    then show ?thesis using ok insert_at_state [of ho uid trigger now q fl] by (auto simp: uq_inv_def s hm_len_insert)
  next
    case (UqCheck uid now)
    then show ?thesis using ok v check_at_state [of uid now q] by (auto simp: uq_inv_def s)
  next
    case (UqLift ho uid)
    then show ?thesis using ok unquarantine_state [of ho uid q fl] le_trans [OF hm_len_remove_le ok(2)] by (simp add: uq_inv_def s)
  next
    case (UqReload ho)
    have "hm_ok (hm_retain P (fst (fold (merge_ban (uq_max_entries q)) ds (uq_inner q, 0, 0, []))))
       \<and> hm_len (hm_retain P (fst (fold (merge_ban (uq_max_entries q)) ds (uq_inner q, 0, 0, [])))) \<le> uq_max_entries q" for P ds
    proof -
      have "hm_ok (fst (fold (merge_ban (uq_max_entries q)) ds (uq_inner q, 0, 0, [])))
         \<and> hm_len (fst (fold (merge_ban (uq_max_entries q)) ds (uq_inner q, 0, 0, []))) \<le> uq_max_entries q"
        using merge_bans_ok [of "(uq_inner q, 0, 0, [])" "uq_max_entries q" ds] ok by simp
      then show ?thesis by (simp add: le_trans [OF hm_len_retain_le])
    qed
    then show ?thesis using ok UqReload reload_state [of ho q fl] by (fastforce simp: uq_inv_def s)
  next
    case (UqRegister ho uid session)
    then show ?thesis using ok by (simp add: uq_inv_def s)
  qed
qed

lemma uq_inv_len: "uq_inv s \<Longrightarrow> hm_len (uq_inner (fst s)) \<le> uq_max_entries (fst s)"
  by (simp add: uq_inv_def)

interpretation quarantine: bounded_machine uq_step uq_inv "\<lambda>s. hm_len (uq_inner (fst s))" "\<lambda>s. uq_max_entries (fst s)"
proof unfold_locales
  fix s e
  show "uq_inv s \<Longrightarrow> uq_inv (uq_step s e)" by (rule uq_step_inv)
  show "uq_inv s \<Longrightarrow> hm_len (uq_inner (fst s)) \<le> uq_max_entries (fst s)" by (rule uq_inv_len)
  show "uq_max_entries (fst (uq_step s e)) = uq_max_entries (fst s)" by (rule conjunct1 [OF uq_step_keeps])
qed


section \<open>A ban holds\<close>

text \<open>Events at times from \<open>t\<close> to \<open>t'\<close> that neither lift the ban of \<open>uid\<close> nor reload the file.\<close>

definition harmless :: "bytes \<Rightarrow> instant \<Rightarrow> instant \<Rightarrow> uq_event \<Rightarrow> bool" where
  "harmless uid t t' e =
     (case e of
        UqInsert ho u trigger now \<Rightarrow> t \<le> now \<and> now \<le> t'
      | UqCheck u now \<Rightarrow> t \<le> now \<and> now \<le> t'
      | UqLift ho u \<Rightarrow> u \<noteq> uid
      | UqReload ho \<Rightarrow> False
      | UqRegister ho u session \<Rightarrow> True)"

definition banned_until :: "bytes \<Rightarrow> instant \<Rightarrow> UserQuarantineList \<times> ban_file \<Rightarrow> bool" where
  "banned_until uid d s \<longleftrightarrow> hm_ok (uq_inner (fst s)) \<and> (\<exists>e. hm_get (uq_inner (fst s)) uid = Some e \<and> d \<le> qe_expires_at e)"

lemma maybe_vacuum_banned:
  assumes "banned_until uid d (q, fl)" and "now < d"
  shows "banned_until uid d (maybe_vacuum now q, fl)"
  using assms by (auto simp: banned_until_def maybe_vacuum_def hmap_simps hmap_ok)

lemma harmless_step:
  assumes "banned_until uid d s" and "harmless uid t t' e" and "d = t + uq_ttl (fst s)" and "t' < d"
  shows "banned_until uid d (uq_step s e)"
proof -
  obtain q fl where s: "s = (q, fl)" by fastforce
  have b: "banned_until uid d (q, fl)" using assms(1) s by simp
  show ?thesis
  proof (cases e)
    case (UqInsert ho u trigger now)
    then show ?thesis using assms(2-3) b insert_at_state [of ho u trigger now q fl]
      by (auto simp: banned_until_def harmless_def s hmap_simps hmap_ok)
  next
    case (UqCheck u now)
    then have "now < d" using assms(2,4) by (auto simp: harmless_def)
    then show ?thesis using UqCheck b maybe_vacuum_banned [OF b] check_at_state [of u now q] by (auto simp: banned_until_def s)
  next
    case (UqLift ho u)
    then show ?thesis using assms(2) b unquarantine_state [of ho u q fl] by (auto simp: banned_until_def harmless_def s hmap_simps hmap_ok)
  next
    case (UqRegister ho u session)
    then show ?thesis using b by (simp add: banned_until_def s)
  qed (use assms(2) in \<open>simp add: harmless_def\<close>)
qed

text \<open>
  What a list of bans promises: a ban that stands until \<open>d\<close> is kept by every step that does not lift it, and
  as long as it stands its key is denied.
\<close>

locale timed_ban =
  fixes step :: "'s \<Rightarrow> 'e \<Rightarrow> 's"
    and banned :: "'k \<Rightarrow> instant \<Rightarrow> 's \<Rightarrow> bool"
    and keeps :: "'k \<Rightarrow> instant \<Rightarrow> 'e \<Rightarrow> bool"
    and denied :: "'k \<Rightarrow> instant \<Rightarrow> 's \<Rightarrow> bool"
  assumes step_banned: "banned k d s \<Longrightarrow> keeps k d e \<Longrightarrow> banned k d (step s e)"
    and banned_denied: "banned k d s \<Longrightarrow> now < d \<Longrightarrow> denied k now s"
begin

lemma run_banned: "banned k d s \<Longrightarrow> \<forall>e\<in>set es. keeps k d e \<Longrightarrow> banned k d (foldl step s es)"
  by (induction es arbitrary: s) (auto intro: step_banned)

lemma run_denied: "banned k d s \<Longrightarrow> \<forall>e\<in>set es. keeps k d e \<Longrightarrow> now < d \<Longrightarrow> denied k now (foldl step s es)"
  using run_banned banned_denied by blast

end

text \<open>The seconds left of a standing ban are at least those until \<open>d\<close>.\<close>

lemma banned_check:
  assumes "banned_until uid d s" and "uq_ttl (fst s) \<noteq> 0" and "now < d"
  shows "\<exists>secs. fst (check_at uid now (fst s)) = Some secs \<and> d < now + from_secs (secs + 1)"
proof -
  have "banned_until uid d (fst s, snd s)" using assms(1) by simp
  from maybe_vacuum_banned [OF this assms(3)] obtain e
    where e: "hm_get (uq_inner (maybe_vacuum now (fst s))) uid = Some e" "d \<le> qe_expires_at e"
    by (auto simp: banned_until_def)
  let ?n = "qe_expires_at e - now" and ?k = "from_secs 1"
  have "?n < ?k * (?n div ?k + 1)" by (simp add: from_secs_def dividend_less_times_div)
  then have "d < now + from_secs (?n div ?k + 1)" using e(2) by (simp add: from_secs_def)
  moreover have "fst (check_at uid now (fst s)) = Some (?n div ?k)"
    using e assms(2,3) by (simp add: check_at_def Let_def)
  ultimately show ?thesis by blast
qed

definition quarantined :: "nat \<Rightarrow> bytes \<Rightarrow> instant \<Rightarrow> UserQuarantineList \<times> ban_file \<Rightarrow> bool" where
  "quarantined ttl uid d s \<longleftrightarrow> banned_until uid d s \<and> uq_ttl (fst s) = ttl \<and> ttl \<noteq> 0"

definition keeps_ban :: "nat \<Rightarrow> bytes \<Rightarrow> instant \<Rightarrow> uq_event \<Rightarrow> bool" where
  "keeps_ban ttl uid d e \<longleftrightarrow> (\<exists>t t'. d = t + ttl \<and> t' < d \<and> harmless uid t t' e)"

interpretation quarantine_bans: timed_ban uq_step "quarantined ttl" "keeps_ban ttl"
    "\<lambda>uid now s. \<exists>secs. fst (check_at uid now (fst s)) = Some secs" for ttl
proof unfold_locales
  fix uid d s e
  assume q: "quarantined ttl uid d s" and "keeps_ban ttl uid d e"
  then obtain t t' where "d = t + ttl" "t' < d" "harmless uid t t' e" by (auto simp: keeps_ban_def)
  then show "quarantined ttl uid d (uq_step s e)"
    using q harmless_step [of uid d s t t' e] uq_step_keeps [of s e] by (simp add: quarantined_def)
next
  fix uid d s now
  assume "quarantined ttl uid d s" "now < d"
  then show "\<exists>secs. fst (check_at uid now (fst s)) = Some secs"
    using banned_check [of uid d s now] by (auto simp: quarantined_def)
qed

text \<open>
  C26. A ban that was accepted at \<open>t\<close> wakes every live session of the user, and until \<open>t + ttl\<close> every check
  answers that the user is banned, whatever other bans, refreshes, checks and sweeps come between;
  only lifting that ban or editing the file ends it sooner.
\<close>

theorem ban_enforced:
  assumes "insert_at ho uid trigger t (q, fl) = ((Ok True, woken), s)" and "hm_ok (uq_inner q)"
    and "\<forall>e\<in>set es. harmless uid t t' e" and "t' < t + uq_ttl q"
  shows "(\<exists>secs. fst (check_at uid t' (fst (foldl uq_step s es))) = Some secs \<and> t + uq_ttl q < t' + from_secs (secs + 1))
    \<and> (\<forall>sessions. hm_get (uq_session_notifiers q) uid = Some sessions \<longrightarrow> woken = filter (ho_live ho) sessions)"
proof -
  let ?ttl = "uq_ttl q"
  have ttl: "?ttl \<noteq> 0" "t + ?ttl < from_secs (2 ^ 63)" "hm_contains (uq_inner q) uid \<or> hm_len (uq_inner q) < uq_max_entries q"
    using assms(1) by (auto simp: insert_at_def instant_add_def split: if_splits)
  have s: "s = snd (insert_at ho uid trigger t (q, fl))" using assms(1) by simp
  have "quarantined ?ttl uid (t + ?ttl) s"
    using insert_at_state [of ho uid trigger t q fl] ttl assms(2) unfolding s by (auto simp: quarantined_def banned_until_def hmap_simps hmap_ok)
  then have "quarantined ?ttl uid (t + ?ttl) (foldl uq_step s es)"
    using quarantine_bans.run_banned assms(3,4) unfolding keeps_ban_def by blast
  then have "\<exists>secs. fst (check_at uid t' (fst (foldl uq_step s es))) = Some secs \<and> t + ?ttl < t' + from_secs (secs + 1)"
    using banned_check assms(4) by (simp add: quarantined_def)
  moreover have "woken = filter (ho_live ho) sessions" if "hm_get (uq_session_notifiers q) uid = Some sessions" for sessions
    using assms(1) ttl that by (auto simp: insert_at_def instant_add_def tear_down_user_def Let_def split: if_splits)
  ultimately show ?thesis by blast
qed

definition idle_host :: "instant \<Rightarrow> u64 \<Rightarrow> host" where
  "idle_host now now_unix = \<lparr>ho_now = now, ho_unix = now_unix, ho_write_ok = True, ho_live = (\<lambda>_. True), ho_order = remdups\<rparr>"

lemma idle_host_simps [simp]:
  "ho_now (idle_host a b) = a" "ho_unix (idle_host a b) = b" "ho_write_ok (idle_host a b)" "ho_live (idle_host a b) n"
  "ho_order (idle_host a b) = remdups"
  by (simp_all add: idle_host_def)

theorem ban_enforced_witness:
  "\<exists>s. insert_at (idle_host 10 0) [7] ''manual'' 10 (uq_new 100 5 0, Missing) = ((Ok True, []), s)
     \<and> (\<exists>secs. fst (check_at [7] 50 (fst (foldl uq_step s [UqCheck [7] 20, UqInsert (idle_host 30 0) [8] ''manual'' 30]))) = Some secs)"
proof -
  let ?q = "uq_new 100 5 0"
  have q: "uq_ttl ?q = 100" "hm_ok (uq_inner ?q)" by (simp_all add: uq_new_def)
  have "fst (insert_at (idle_host 10 0) [7] ''manual'' 10 (?q, Missing)) = (Ok True, [])"
    by (simp add: insert_at_def instant_add_def uq_new_def tear_down_user_def from_secs_def Let_def hm_contains_def)
  then obtain s where i: "insert_at (idle_host 10 0) [7] ''manual'' 10 (?q, Missing) = ((Ok True, []), s)" by (metis prod.collapse)
  have "\<forall>e\<in>set [UqCheck [7] 20, UqInsert (idle_host 30 0) [8] ''manual'' 30]. harmless [7] 10 50 e" by (simp add: harmless_def)
  from ban_enforced [OF i q(2) this] show ?thesis using i q(1) by auto
qed

section \<open>Across a restart\<close>

lemma trim_fixed: "trim (123 # s @ [125]) = 123 # s @ [125]"
  by (rule trim_graphic) (simp_all add: graphic_def)

lemma line_frames:
  "\<exists>s. header_line = 123 # s @ [125]" "\<exists>s. entry_line uid e t = 123 # s @ [125]"
proof -
  have "header_line = 123 # butlast (tl header_line) @ [125]" by code_simp
  then show "\<exists>s. header_line = 123 # s @ [125]" by blast
  show "\<exists>s. entry_line uid e t = 123 # s @ [125]"
    unfolding entry_line_tokens by (rule exI [of _ "34 # key_uid @ 34 # 58 # 34 # render_user_id uid @ 34 # 44 # 34 # key_expires @ 34 # 58
     # show_radix 10 (uint e) @ 44 # 34 # key_trigger @ 34 # 58 # 34 # ascii t @ [34]"]) simp
qed

lemma passed_over_lines: "passed_over header_line" "\<not> passed_over (entry_line uid e t)"
proof -
  show "passed_over header_line" by code_simp
  let ?h = \<open>ascii ''{"kind":"header"''\<close>
  have "take 3 (entry_line uid e t) = [123, 34, 117]" by (simp add: entry_line_def ascii_def)
  moreover have h: "take 3 ?h = [123, 34, 107]" "3 \<le> length ?h" by (simp_all add: ascii_def)
  moreover have "take 3 (entry_line uid e t) = take 3 ?h" if "starts_with (entry_line uid e t) ?h"
  proof -
    have "take 3 (take (length ?h) (entry_line uid e t)) = take 3 ?h" using that by (simp add: starts_with_def)
    then show ?thesis by (simp only: take_take min_absorb1 [OF h(2)])
  qed
  ultimately have "\<not> starts_with (entry_line uid e t) ?h" by auto
  then show "\<not> passed_over (entry_line uid e t)"
    unfolding passed_over_def by (simp add: entry_line_tokens starts_with_def)
qed

text \<open>The bans that can be written and read back, and the deadline they are written with.\<close>

definition writable :: "bytes \<times> QuarantineEntry \<Rightarrow> bool" where
  "writable ue \<longleftrightarrow> length (fst ue) = 8 \<and> id_survives (fst ue)
     \<and> (qe_triggered_by_kind (snd ue) \<in> set trigger_labels \<or> qe_triggered_by_kind (snd ue) = ''unknown'')"

definition written_deadline :: "host \<Rightarrow> QuarantineEntry \<Rightarrow> u64" where
  "written_deadline ho e = saturating_add (ho_unix ho) ((qe_expires_at e - ho_now ho) div from_secs 1)"

definition restored :: "instant \<Rightarrow> u64 \<Rightarrow> host \<Rightarrow> QuarantineEntry \<Rightarrow> QuarantineEntry" where
  "restored now now_unix ho e = \<lparr>qe_expires_at = now + from_secs (unat (written_deadline ho e - now_unix)),
     qe_triggered_by_kind = qe_triggered_by_kind e\<rparr>"

lemma entry_text_facts:
  assumes "writable ue"
  shows "trim (entry_text ho ue) = entry_text ho ue" "\<not> passed_over (entry_text ho ue)"
    "parse_entry_line (entry_text ho ue) = Ok (fst ue, written_deadline ho (snd ue), qe_triggered_by_kind (snd ue))"
proof -
  obtain s where s: "entry_text ho ue = 123 # s @ [125]" using line_frames(2) unfolding entry_text_def by blast
  show "trim (entry_text ho ue) = entry_text ho ue" unfolding s by (rule trim_fixed)
  show "\<not> passed_over (entry_text ho ue)" by (simp add: entry_text_def passed_over_lines)
  show "parse_entry_line (entry_text ho ue) = Ok (fst ue, written_deadline ho (snd ue), qe_triggered_by_kind (snd ue))"
    using assms parse_survivor by (simp add: entry_text_def written_deadline_def writable_def)
qed

lemma load_entries:
  assumes "\<forall>ue\<in>set es. writable ue" and "distinct (map fst es)" and "hm_len g + length es \<le> cap"
    and "load_lines now now_unix cap (map (entry_text ho) es) g n = Ok (g', n')"
  shows "hm_get g' u = (case map_of es u of
      Some e \<Rightarrow> if now_unix < written_deadline ho e then Some (restored now now_unix ho e) else hm_get g u
    | None \<Rightarrow> hm_get g u)"
  using assms
proof (induction es arbitrary: g n)
  case (Cons ue es)
  obtain v e where ue: "ue = (v, e)" by fastforce
  note f = entry_text_facts [of ue ho]
  have fresh: "map_of es v = None" using Cons.prems(2) ue by (simp add: map_of_eq_None_iff)
  show ?case
  proof (cases "now_unix < written_deadline ho e")
    case False
    then have "load_lines now now_unix cap (map (entry_text ho) es) g n = Ok (g', n')"
      using Cons.prems(1,4) f ue by (simp add: not_less)
    then show ?thesis using Cons.IH [of g n] Cons.prems False ue fresh by (auto split: option.splits)
  next
    case True
    let ?g = "hm_insert v (restored now now_unix ho e) g"
    have a: "instant_add now (from_secs (unat (written_deadline ho e - now_unix))) = (Ok (qe_expires_at (restored now now_unix ho e)) :: (unit, instant) rust)"
      using Cons.prems(1,4) f ue True by (auto simp: instant_add_def restored_def not_less [symmetric] split: if_splits)
    have l: "hm_len ?g + length es \<le> cap" using Cons.prems(3) hm_len_insert_le [of v "restored now now_unix ho e" g] by simp
    have "(if cap \<le> hm_len ?g then Ok (?g, n + 1) else load_lines now now_unix cap (map (entry_text ho) es) ?g (n + 1)) = Ok (g', n')"
      using Cons.prems(1,4) f ue True a by (simp add: not_less [symmetric] restored_def Let_def split: if_splits)
    moreover have "load_lines now now_unix cap (map (entry_text ho) es) ?g (n + 1) = Ok (?g, n + 1)" if "cap \<le> hm_len ?g"
    proof -
      have "length es = 0" using l that by linarith
      then show ?thesis by simp
    qed
    ultimately have "load_lines now now_unix cap (map (entry_text ho) es) ?g (n + 1) = Ok (g', n')" by (auto split: if_splits)
    then show ?thesis using Cons.IH [OF _ _ l] Cons.prems(1,2) True ue fresh by (auto simp: hmap_simps split: option.splits)
  qed
qed simp

lemma entry_text_line:
  assumes "writable ue"
  shows "10 \<notin> set (entry_text ho ue) \<and> entry_text ho ue \<noteq> [] \<and> last (entry_text ho ue) \<noteq> 13"
proof -
  let ?e = "written_deadline ho (snd ue)"
  have "\<forall>t\<in>set (''unknown'' # trigger_labels). 10 \<notin> set (ascii t)" by code_simp
  then have t: "10 \<notin> set (ascii (qe_triggered_by_kind (snd ue)))" using assms by (auto simp: writable_def)
  have k: "10 \<notin> set key_uid" "10 \<notin> set key_expires" "10 \<notin> set key_trigger" by (simp_all add: ascii_def)
  have d: "10 \<notin> set (show_radix 10 (uint ?e))" using digit_ascii [of 10 "uint ?e"] by (auto simp: is_ascii_digit_def)
  have r: "10 \<notin> set (render_user_id (fst ue))" using rendered_chars [of 10 "fst ue"] by auto
  obtain s where s: "entry_text ho ue = 123 # s @ [125]" using line_frames(2) unfolding entry_text_def by blast
  have "10 \<notin> set (entry_text ho ue)"
    using t k d r by (simp add: entry_text_def entry_line_tokens written_deadline_def)
  then show ?thesis using s by simp
qed

lemma file_lines:
  assumes "\<forall>ue\<in>set es. writable ue"
  shows "text_lines (concat (map (\<lambda>l. l @ [10]) (header_line # map (entry_text ho) es))) = header_line # map (entry_text ho) es"
proof (rule text_lines_body)
  have "10 \<notin> set header_line \<and> header_line \<noteq> [] \<and> last header_line \<noteq> 13" by code_simp
  then show "\<forall>l\<in>set (header_line # map (entry_text ho) es). 10 \<notin> set l \<and> l \<noteq> [] \<and> last l \<noteq> 13"
    using assms entry_text_line by auto
qed

lemma header_skipped: "load_lines now now_unix cap (header_line # ls) g n = load_lines now now_unix cap ls g n"
proof -
  have "trim header_line = header_line" using line_frames(1) trim_fixed by metis
  then show ?thesis by (simp add: passed_over_lines)
qed

lemma filtered_get: "distinct (map fst m) \<Longrightarrow> map_of (filter P m) u = (case map_of m u of Some e \<Rightarrow> if P (u, e) then Some e else None | None \<Rightarrow> None)"
  by (induction m) (force simp: map_of_eq_None_iff split: option.splits)+

text \<open>A walk over the map meets every entry once.\<close>

definition walks :: "host \<Rightarrow> bans \<Rightarrow> bool" where
  "walks ho m \<longleftrightarrow> distinct (ho_order ho m) \<and> set (ho_order ho m) = set m"

lemma walks_facts:
  assumes "walks ho m" and "hm_ok m"
  shows "hm_ok (ho_order ho m) \<and> map_of (ho_order ho m) = map_of m \<and> length (ho_order ho m) = length m"
proof -
  let ?m = "ho_order ho m"
  have m: "distinct ?m" "set ?m = set m" using assms(1) by (simp_all add: walks_def)
  have "inj_on fst (set m)" "distinct m" using assms(2) by (simp_all add: hm_ok_def distinct_map)
  then have "hm_ok ?m" "length ?m = length m" using m distinct_card [of ?m] distinct_card [of m] by (simp_all add: hm_ok_def distinct_map)
  then show ?thesis using assms(2) m(2) by (simp add: hm_ok_def map_of_inject_set)
qed



text \<open>
  The comment on the check says that a stale entry goes away with the next sweep or the next ban past
  the cap.  It does not with the latter: a full map refuses new bans though every ban in it ran out.
\<close>

lemma full_of_expired_refuses:
  assumes "uq_max_entries q \<le> hm_len (uq_inner q)" and "\<not> hm_contains (uq_inner q) uid" and "now + uq_ttl q < from_secs (2 ^ 63)"
  shows "insert_at ho uid trigger now (q, fl) =
     ((Ok False, []), (if uq_ttl q = 0 then q else q\<lparr>uq_refused_inserts_total := uq_refused_inserts_total q + 1\<rparr>), fl)"
  using assms by (simp add: insert_at_def instant_add_def)

section \<open>Reloading\<close>

lemma merge_full:
  assumes "n \<le> hm_len g" and "\<forall>d\<in>set ds. hm_get g (fst d) = None"
  shows "fold (merge_ban n) ds (g, a, r, t) = (g, a, r, t)"
  using assms by (induction ds) (auto simp: merge_ban_def)

lemma hm_retain_none: "\<forall>d\<in>set g. \<not> P (fst d) (snd d) \<Longrightarrow> hm_retain P g = []"
  by (auto simp: hm_retain_def filter_empty_conv)

lemma merge_room:
  assumes "hm_ok g" and "distinct (map fst ds)" and "hm_len g + length ds \<le> n"
  shows "\<exists>a' r' t'. \<exists>g'. fold (merge_ban n) ds (g, a, r, t) = (g', a', r', t') \<and> hm_ok g'
     \<and> (\<forall>u. hm_get g' u = (case map_of ds u of Some e \<Rightarrow> Some e | None \<Rightarrow> hm_get g u))"
  using assms
proof (induction ds arbitrary: g a r t)
  case (Cons d ds)
  obtain u e where d: "d = (u, e)" by fastforce
  have fresh: "map_of ds u = None" using Cons.prems(2) d by (simp add: map_of_eq_None_iff)
  obtain g1 a1 r1 t1 where m: "merge_ban n d (g, a, r, t) = (g1, a1, r1, t1)" by (metis prod_cases4)
  have g1: "hm_ok g1" "hm_len g1 + length ds \<le> n" "\<forall>x. hm_get g1 x = (if x = u then Some e else hm_get g x)"
    using m Cons.prems hm_len_insert_le [of u e g]
    by (auto simp: merge_ban_def d hm_len_insert hm_contains_def hmap_simps split: option.splits if_splits)
  from Cons.IH [OF g1(1) _ g1(2), of a1 r1 t1] Cons.prems(2)
  obtain a' r' t' g' where f: "fold (merge_ban n) ds (g1, a1, r1, t1) = (g', a', r', t')" "hm_ok g'"
    "\<forall>x. hm_get g' x = (case map_of ds x of Some e \<Rightarrow> Some e | None \<Rightarrow> hm_get g1 x)" by auto
  then show ?case using m g1(3) d fresh by (auto split: option.splits)
qed simp

lemma desired_bans_ok:
  assumes "hm_ok d" and "desired_bans now now_unix ls d k m = Ok (d', k', m')"
  shows "hm_ok d'"
  using assms
proof (induction ls arbitrary: d k m)
  case (Cons l ls)
  show ?case
  proof (cases "passed_over (trim l)")
    case False
    show ?thesis
    proof (cases "parse_entry_line (trim l)")
      case (Ok r)
      obtain u e t where r: "r = (u, e, t)" by (metis prod_cases3)
      show ?thesis
      proof (cases "e \<le> now_unix")
        case True
        then have "desired_bans now now_unix ls d (k + 1) m = Ok (d', k', m')" using Cons.prems(2) False Ok r by simp
        then show ?thesis by (rule Cons.IH [OF Cons.prems(1)])
      next
        case late: False
        then obtain x where "desired_bans now now_unix ls (hm_insert u x d) k m = Ok (d', k', m')"
          using Cons.prems(2) False Ok r by (auto simp: rust_bind_Ok_iff)
        then show ?thesis by (rule Cons.IH [OF hm_ok_insert [OF Cons.prems(1)]])
      qed
    qed (use Cons False in \<open>simp_all add: Let_def\<close>)
  qed (use Cons in \<open>simp add: Let_def\<close>)
qed simp

lemma select_inner: "uq_inner (q\<lparr>uq_reload_attempts_total := n, uq_inner := g\<rparr>) = g"
  by simp

text \<open>
  C28. Reloading the file makes the map exactly the bans of the file while both fit together under the
  cap.  A map at its cap whose users are not in the file comes out empty: the bans that go make room
  too late for the ones that come, and the file is rewritten without them.
\<close>

theorem reload_reconciles:
  assumes "uq_persistence_path q = Some path" and "hm_ok (uq_inner q)" and "\<forall>m. walks ho m"
    and "desired_bans (ho_now ho) (ho_unix ho) (text_lines raw) [] 0 0 = Ok (desired, k, m)"
    and "reload_from_disk ho (q, File raw) = (res, q', fl')"
  shows "(hm_len (uq_inner q) + hm_len desired \<le> uq_max_entries q \<longrightarrow> (\<forall>u. hm_get (uq_inner q') u = hm_get desired u))
    \<and> (uq_max_entries q \<le> hm_len (uq_inner q) \<and> (\<forall>u. hm_contains (uq_inner q) u \<longrightarrow> \<not> hm_contains desired u) \<longrightarrow>
         uq_inner q' = [] \<and> (ho_write_ok ho \<longrightarrow> fl' = File (header_line @ [10])))"
proof -
  have ok: "hm_ok desired" using desired_bans_ok [OF _ assms(4)] by simp
  note o = walks_facts [OF spec [OF assms(3)] ok]
  let ?ds = "ho_order ho desired"
  obtain g a r t where f: "fold (merge_ban (uq_max_entries q)) ?ds (uq_inner q, 0, 0, []) = (g, a, r, t)" by (metis prod_cases4)
  let ?kept = "hm_retain (\<lambda>k _. hm_contains desired k) g"
  let ?q = "q\<lparr>uq_reload_attempts_total := uq_reload_attempts_total q + 1, uq_inner := ?kept\<rparr>"
  have e: "(q', fl') = snd (persist ho (snd (tear_down_users ho t ?q), File raw))"
    using assms(5) by (auto simp: reload_from_disk_def assms(1,4) f Let_def case_prod_beta)
  then have i: "uq_inner q' = ?kept" using uq_keeps(1) [of ho "snd (tear_down_users ho t ?q)" "File raw"] tear_down_users_keeps [of ho t ?q] by (metis fst_conv select_inner)
  show ?thesis
  proof (rule conjI; rule impI)
    assume room: "hm_len (uq_inner q) + hm_len desired \<le> uq_max_entries q"
    have "distinct (map fst ?ds)" "hm_len (uq_inner q) + length ?ds \<le> uq_max_entries q" using o room by (simp_all add: hm_ok_def)
    from merge_room [OF assms(2) this, of 0 0 "[]"] f o
    have "hm_ok g" "\<forall>u. hm_get g u = (case hm_get desired u of Some e \<Rightarrow> Some e | None \<Rightarrow> hm_get (uq_inner q) u)" by auto
    then show "\<forall>u. hm_get (uq_inner q') u = hm_get desired u"
      by (auto simp: i hm_get_retain hm_contains_def split: option.splits)
  next
    assume full: "uq_max_entries q \<le> hm_len (uq_inner q) \<and> (\<forall>u. hm_contains (uq_inner q) u \<longrightarrow> \<not> hm_contains desired u)"
    have "hm_get (uq_inner q) (fst d) = None" if "d \<in> set ?ds" for d
    proof -
      have "d \<in> set desired" using that assms(3) by (simp add: walks_def)
      then have "hm_contains desired (fst d)" using hm_ok_entry [OF ok, of "fst d" "snd d"] by (simp add: hm_contains_def)
      then show ?thesis using full by (auto simp: hm_contains_def)
    qed
    then have g: "g = uq_inner q" "t = []" using merge_full [of "uq_max_entries q" "uq_inner q" ?ds 0 0 "[]"] full f by auto
    have "\<not> hm_contains desired (fst d)" if "d \<in> set (uq_inner q)" for d
      using full that hm_ok_entry [OF assms(2), of "fst d" "snd d"] by (simp add: hm_contains_def)
    then have k: "?kept = []" unfolding g by (intro hm_retain_none) simp
    have "ho_order ho [] = []" using assms(3) [rule_format, of "[]"] by (simp add: walks_def)
    then have "ho_write_ok ho \<Longrightarrow> fl' = File (header_line @ [10])"
      using e k g assms(1) by (simp add: persist_def file_body_def Let_def)
    then show "uq_inner q' = [] \<and> (ho_write_ok ho \<longrightarrow> fl' = File (header_line @ [10]))" using i k by simp
  qed
qed

lemma desired_header: "desired_bans now now_unix (header_line # ls) d k m = desired_bans now now_unix ls d k m"
proof -
  have "trim header_line = header_line" using line_frames(1) trim_fixed by metis
  then show ?thesis by (simp add: passed_over_lines)
qed

text \<open>A list with one place, taken by \<open>bob00001\<close>, and a file that bans only \<open>alice001\<close>.\<close>

theorem reload_reconciles_witness:
  "\<exists>q raw res q' fl' desired. uq_max_entries q = 1
     \<and> desired_bans 5 1001 (text_lines raw) [] 0 0 = Ok (desired, 0, 0) \<and> hm_contains desired (ascii ''alice001'')
     \<and> reload_from_disk (idle_host 5 1001) (q, File raw) = (res, q', fl')
     \<and> uq_inner q' = [] \<and> fl' = File (header_line @ [10])"
proof -
  let ?e = "\<lparr>qe_expires_at = 60000000010, qe_triggered_by_kind = ''manual''\<rparr>"
  let ?q = "(with_persistence [] (uq_new 100 1 0))\<lparr>uq_inner := [(ascii ''bob00001'', ?e)]\<rparr>"
  let ?ho = "idle_host 10 1000" and ?ho' = "idle_host 5 1001"
  let ?raw = "concat (map (\<lambda>l. l @ [10]) (header_line # map (entry_text ?ho) [(ascii ''alice001'', ?e)]))"
  have al: "length (ascii ''alice001'') = 8" "id_survives (ascii ''alice001'')" "ascii ''bob00001'' \<noteq> ascii ''alice001''" by code_simp+
  have w: "writable (ascii ''alice001'', ?e)" using al by (simp add: writable_def trigger_labels_def)
  have dl: "written_deadline ?ho ?e = 1060" by (simp add: written_deadline_def saturating_add_def from_secs_def)
  note f = entry_text_facts [OF w, of ?ho]
  have "\<forall>ue\<in>set [(ascii ''alice001'', ?e)]. writable ue" using w by simp
  note tl = file_lines [OF this, of ?ho]
  let ?d = "[(ascii ''alice001'', restored 5 1001 ?ho ?e)]"
  have d: "desired_bans (ho_now ?ho') (ho_unix ?ho') (text_lines ?raw) [] 0 0 = Ok (?d, 0, 0)"
    unfolding tl desired_header using w f dl
    by (simp add: instant_add_def from_secs_def restored_def hm_insert_def)
  obtain res q' fl' where r: "reload_from_disk ?ho' (?q, File ?raw) = (res, q', fl')" by (metis prod_cases3)
  have q: "uq_persistence_path ?q = Some []" "hm_ok (uq_inner ?q)" "\<forall>m. walks ?ho' m" "uq_max_entries ?q = 1"
    by (simp_all add: with_persistence_def uq_new_def hm_ok_def walks_def)
  have n: "uq_max_entries ?q \<le> hm_len (uq_inner ?q)" "\<forall>u. hm_contains (uq_inner ?q) u \<longrightarrow> \<not> hm_contains ?d u"
    using al(3) by (auto simp: with_persistence_def uq_new_def hm_contains_def)
  have "uq_inner q' = [] \<and> fl' = File (header_line @ [10])"
    using reload_reconciles [OF q(1-3) d r] n by simp
  moreover have "hm_contains ?d (ascii ''alice001'')" by (simp add: hm_contains_def)
  ultimately show ?thesis using q(4) d r
    by (intro exI [of _ ?q] exI [of _ ?raw] exI [of _ res] exI [of _ q'] exI [of _ fl'] exI [of _ ?d]) simp
qed

text \<open>
  A deadline past the range of instants, such as the largest number written for a ban without end,
  panics: at the start of the server, and at every reload.
\<close>

lemma far_deadline_panics:
  assumes "length uid = 8" and "id_survives uid" and "t \<in> set trigger_labels"
    and "from_secs (2 ^ 63) \<le> now + from_secs (unat (e - now_unix))" and "now_unix < e"
  shows "load_lines now now_unix cap (entry_line uid e t # ls) g n = Panic"
    and "desired_bans now now_unix (entry_line uid e t # ls) d k m = Panic"
proof -
  have t: "trim (entry_line uid e t) = entry_line uid e t" using line_frames(2) [of uid e t] trim_fixed by metis
  have p: "parse_entry_line (entry_line uid e t) = Ok (uid, e, t)" using parse_survivor assms(1-3) by blast
  have l: "\<not> e \<le> now_unix" using assms(5) by simp
  show "load_lines now now_unix cap (entry_line uid e t # ls) g n = Panic"
    "desired_bans now now_unix (entry_line uid e t # ls) d k m = Panic"
    using assms(4) l by (simp_all add: t p passed_over_lines instant_add_def)
qed

end
