(* ===== verification/User_Quota.thy ===== *)
theory User_Quota
  imports User_Quarantine
begin

text \<open>
  The period quota of every user (\<open>user_quota.rs\<close>): bytes used and the start of the current period, the
  bucket that users past the size of the map share, and the file the buckets survive a restart in.

  An instant is a number of nanoseconds, which may be negative (before the boot of the machine); one
  at or past \<open>2^63\<close> seconds panics, and a call that panics leaves no state here.  \<open>quota_host\<close> is the world a
  call runs in: both clocks, whether the file can be replaced and the order a \<open>HashMap\<close> is walked in.  The
  errors of a line carry no text, and the bodies for metrics and diagnosis are left out.
\<close>

section \<open>State\<close>

record UserBucket =
  ub_used_bytes :: u64
  ub_period_started_at :: int
  ub_cap_override :: "u64 option"

type_synonym buckets = "(bytes, UserBucket) hmap"

record PerUserQuotaTracker =
  pq_period :: nat
  pq_default_cap_bytes :: u64
  pq_max_entries :: nat
  pq_inner :: buckets
  pq_overflow :: UserBucket
  pq_persistence_path :: "bytes option"
  pq_over_quota_transitions_total :: u64
  pq_over_quota_admission_blocks_total :: u64
  pq_persist_attempts_total :: u64
  pq_persist_failed_total :: u64
  pq_loaded_from_disk :: u64
  pq_reload_attempts_total :: u64
  pq_reload_failed_total :: u64
  pq_period_rollovers_total :: u64

record quota_host =
  qh_now :: int
  qh_unix :: u64
  qh_write_ok :: bool
  qh_order :: "buckets \<Rightarrow> buckets"

type_synonym 'a quota_call = "PerUserQuotaTracker \<times> ban_file \<Rightarrow> (unit, 'a \<times> PerUserQuotaTracker \<times> ban_file) rust"

text \<open>\<open>Instant + Duration\<close>, \<open>Instant::checked_sub\<close> and \<open>Duration * u32\<close>.\<close>

definition at_plus :: "int \<Rightarrow> nat \<Rightarrow> ('e, int) rust" where
  "at_plus t d = (if t + int d < int (from_secs (2 ^ 63)) then Ok (t + int d) else Panic)"

definition at_checked_sub :: "int \<Rightarrow> nat \<Rightarrow> int option" where
  "at_checked_sub t d = (if - int (from_secs (2 ^ 63)) \<le> t - int d then Some (t - int d) else None)"

definition duration_mul :: "nat \<Rightarrow> u32 \<Rightarrow> ('e, nat) rust" where
  "duration_mul d k = (case checked_mul d k of Some x \<Rightarrow> Ok x | None \<Rightarrow> Panic)"

definition quota_new :: "nat \<Rightarrow> u64 \<Rightarrow> nat \<Rightarrow> int \<Rightarrow> PerUserQuotaTracker" where
  "quota_new period default_cap_bytes max_entries now =
     \<lparr>pq_period = period, pq_default_cap_bytes = default_cap_bytes, pq_max_entries = max_entries, pq_inner = [],
      pq_overflow = \<lparr>ub_used_bytes = 0, ub_period_started_at = now, ub_cap_override = None\<rparr>, pq_persistence_path = None,
      pq_over_quota_transitions_total = 0, pq_over_quota_admission_blocks_total = 0, pq_persist_attempts_total = 0,
      pq_persist_failed_total = 0, pq_loaded_from_disk = 0, pq_reload_attempts_total = 0, pq_reload_failed_total = 0,
      pq_period_rollovers_total = 0\<rparr>"

definition quota_with_persistence :: "bytes \<Rightarrow> PerUserQuotaTracker \<Rightarrow> PerUserQuotaTracker" where
  "quota_with_persistence path q = q\<lparr>pq_persistence_path := Some path\<rparr>"

text \<open>A host for examples.\<close>

definition plain_host :: "int \<Rightarrow> u64 \<Rightarrow> quota_host" where
  "plain_host now unix = \<lparr>qh_now = now, qh_unix = unix, qh_write_ok = True, qh_order = (\<lambda>g. g)\<rparr>"

lemma plain_host_simps [simp]:
  "qh_now (plain_host now unix) = now" "qh_unix (plain_host now unix) = unix" "qh_write_ok (plain_host now unix)"
  "qh_order (plain_host now unix) = (\<lambda>g. g)"
  by (simp_all add: plain_host_def)

section \<open>The file\<close>

record ParsedEntry =
  pe_user_id :: bytes
  pe_used_bytes :: u64
  pe_period_started_unix :: u64
  pe_cap_override :: "u64 option"

definition quota_decode_user_id :: "bytes \<Rightarrow> (unit, bytes) rust" where
  "quota_decode_user_id s = rust_map_err (\<lambda>_. ()) (decode_user_id s)"

definition quota_parse_entry_line :: "bytes \<Rightarrow> (unit, ParsedEntry) rust" where
  "quota_parse_entry_line line =
     rust_bind (ok_or (extract_string_field line (ascii ''user_id'')) ()) (\<lambda>user_id.
     rust_bind (ok_or (extract_u64_field line (ascii ''used_bytes'')) ()) (\<lambda>used_bytes.
     rust_bind (ok_or (extract_u64_field line (ascii ''period_started_unix'')) ()) (\<lambda>period_started_unix.
     let cap_override = extract_u64_field line (ascii ''cap_override'') in
     rust_bind (quota_decode_user_id user_id) (\<lambda>user_id.
     Ok \<lparr>pe_user_id = user_id, pe_used_bytes = used_bytes, pe_period_started_unix = period_started_unix,
          pe_cap_override = cap_override\<rparr>))))"

definition quota_header :: bytes where
  \<open>quota_header = ascii ''{"kind":"header","schema_version":1,"format":"proteus_user_quota_v1"}''\<close>

definition started_unix :: "quota_host \<Rightarrow> UserBucket \<Rightarrow> u64" where
  "started_unix ho b =
     (if ub_period_started_at b \<le> qh_now ho then
        (let secs = nat (qh_now ho - ub_period_started_at b) div from_secs 1 in
         if secs \<le> unat (qh_unix ho) then qh_unix ho - word_of_nat secs else 0)
      else qh_unix ho)"

definition quota_line :: "bytes \<Rightarrow> u64 \<Rightarrow> u64 \<Rightarrow> u64 option \<Rightarrow> bytes" where
  \<open>quota_line uid used started cap_override =
     ascii ''{"user_id":"'' @ render_user_id uid @ ascii ''","used_bytes":'' @ show_radix 10 (uint used)
       @ ascii '',"period_started_unix":'' @ show_radix 10 (uint started)
       @ (case cap_override of Some c \<Rightarrow> ascii '',"cap_override":'' @ show_radix 10 (uint c) | None \<Rightarrow> []) @ ascii ''}''\<close>

definition quota_body :: "quota_host \<Rightarrow> buckets \<Rightarrow> bytes" where
  "quota_body ho g =
     concat (map (\<lambda>l. l @ [10])
       (quota_header # map (\<lambda>(uid, b). quota_line uid (ub_used_bytes b) (started_unix ho b) (ub_cap_override b)) (qh_order ho g)))"

text \<open>The new body goes to a temporary file that is renamed over the old one: all or nothing.\<close>

definition quota_persist :: "quota_host \<Rightarrow> PerUserQuotaTracker \<times> ban_file \<Rightarrow> PerUserQuotaTracker \<times> ban_file" where
  "quota_persist ho = (\<lambda>(q, fl).
     let q = q\<lparr>pq_persist_attempts_total := pq_persist_attempts_total q + 1\<rparr> in
     case pq_persistence_path q of
       None \<Rightarrow> (q, fl)
     | Some path \<Rightarrow>
         if qh_write_ok ho then (q, File (quota_body ho (pq_inner q)))
         else (q\<lparr>pq_persist_failed_total := pq_persist_failed_total q + 1\<rparr>, fl))"

section \<open>Operations\<close>

definition set_user_cap :: "quota_host \<Rightarrow> bytes \<Rightarrow> u64 \<Rightarrow> PerUserQuotaTracker \<times> ban_file \<Rightarrow> PerUserQuotaTracker \<times> ban_file" where
  "set_user_cap ho uid cap_bytes = (\<lambda>(q, fl).
     let bucket = (case hm_get (pq_inner q) uid of
           Some b \<Rightarrow> b
         | None \<Rightarrow> \<lparr>ub_used_bytes = 0, ub_period_started_at = qh_now ho, ub_cap_override = None\<rparr>) in
     quota_persist ho (q\<lparr>pq_inner := hm_insert uid (bucket\<lparr>ub_cap_override := Some cap_bytes\<rparr>) (pq_inner q)\<rparr>, fl))"

definition maybe_roll_period :: "int \<Rightarrow> UserBucket \<Rightarrow> PerUserQuotaTracker \<Rightarrow> (unit, UserBucket \<times> PerUserQuotaTracker) rust" where
  "maybe_roll_period now bucket q =
     rust_bind (at_plus (ub_period_started_at bucket) (pq_period q)) (\<lambda>period_end.
     if period_end \<le> now then
       (let elapsed = nat (now - ub_period_started_at bucket);
            periods_elapsed = (elapsed div from_secs 1) div max (pq_period q div from_secs 1) 1 in
        rust_bind (duration_mul (pq_period q) (word_of_nat (max periods_elapsed 1))) (\<lambda>d.
        rust_bind (at_plus (ub_period_started_at bucket) d) (\<lambda>started.
        Ok (bucket\<lparr>ub_used_bytes := 0, ub_period_started_at := started\<rparr>,
            q\<lparr>pq_period_rollovers_total := pq_period_rollovers_total q + 1\<rparr>))))
     else Ok (bucket, q))"

definition sat_add_u64 :: "u64 \<Rightarrow> u64 \<Rightarrow> u64" where
  "sat_add_u64 a b = (if unat a + unat b < 2 ^ 64 then a + b else - 1)"

definition acquire_bucket :: "bytes \<Rightarrow> int \<Rightarrow> PerUserQuotaTracker \<Rightarrow> (unit, UserBucket \<times> PerUserQuotaTracker) rust" where
  "acquire_bucket uid now q =
     (case hm_get (pq_inner q) uid of
        Some b \<Rightarrow>
          rust_bind (maybe_roll_period now b q) (\<lambda>(b, q). Ok (b, q\<lparr>pq_inner := hm_insert uid b (pq_inner q)\<rparr>))
      | None \<Rightarrow>
          if pq_max_entries q \<le> hm_len (pq_inner q) then
            rust_bind (maybe_roll_period now (pq_overflow q) q) (\<lambda>(og, q). Ok (og, q\<lparr>pq_overflow := og\<rparr>))
          else
            (let b = \<lparr>ub_used_bytes = 0, ub_period_started_at = now, ub_cap_override = None\<rparr> in
             Ok (b, q\<lparr>pq_inner := hm_insert uid b (pq_inner q)\<rparr>)))"

definition peek_state :: "bytes \<Rightarrow> PerUserQuotaTracker \<Rightarrow> u64 \<times> u64" where
  "peek_state uid q =
     (case hm_get (pq_inner q) uid of
        Some b \<Rightarrow> (ub_used_bytes b, case ub_cap_override b of Some c \<Rightarrow> c | None \<Rightarrow> pq_default_cap_bytes q)
      | None \<Rightarrow> (0, pq_default_cap_bytes q))"

text \<open>The bytes are added to the bucket as it is when the lock is taken again.\<close>

definition add_bytes :: "bytes \<Rightarrow> u64 \<Rightarrow> int \<Rightarrow> PerUserQuotaTracker \<Rightarrow> (unit, (u64 option \<times> u64) \<times> PerUserQuotaTracker) rust" where
  "add_bytes uid bytes now q =
     (case hm_get (pq_inner q) uid of
        Some b \<Rightarrow>
          rust_bind (maybe_roll_period now b q) (\<lambda>(b, q).
          let b = b\<lparr>ub_used_bytes := sat_add_u64 (ub_used_bytes b) bytes\<rparr> in
          Ok ((Some (ub_used_bytes b), ub_used_bytes b), q\<lparr>pq_inner := hm_insert uid b (pq_inner q)\<rparr>))
      | None \<Rightarrow>
          rust_bind (maybe_roll_period now (pq_overflow q) q) (\<lambda>(og, q).
          let og = og\<lparr>ub_used_bytes := sat_add_u64 (ub_used_bytes og) bytes\<rparr> in
          Ok ((None, ub_used_bytes og), q\<lparr>pq_overflow := og\<rparr>)))"

definition quota_record_at :: "quota_host \<Rightarrow> bytes \<Rightarrow> u64 \<Rightarrow> int \<Rightarrow> (u64 \<times> u64) quota_call" where
  "quota_record_at ho uid bytes now = (\<lambda>(q, fl).
     if bytes = 0 then Ok (peek_state uid q, q, fl)
     else
       rust_bind (acquire_bucket uid now q) (\<lambda>(bucket, q).
       let cap = (case ub_cap_override bucket of Some c \<Rightarrow> c | None \<Rightarrow> pq_default_cap_bytes q);
           was_under = (ub_used_bytes bucket < cap \<or> cap = 0) in
       rust_bind (add_bytes uid bytes now q) (\<lambda>((fetched, used_after), q).
       let new_used = (case fetched of Some u \<Rightarrow> u | None \<Rightarrow> sat_add_u64 (ub_used_bytes bucket) bytes);
           is_over_now = (0 < cap \<and> cap \<le> used_after);
           q = (if was_under \<and> is_over_now then q\<lparr>pq_over_quota_transitions_total := pq_over_quota_transitions_total q + 1\<rparr> else q);
           prev_used = ub_used_bytes bucket;
           first_record_for_user = (prev_used = 0 \<and> 0 < new_used);
           crossed_64mb_boundary = (new_used div (64 * 1024 * 1024) \<noteq> prev_used div (64 * 1024 * 1024));
           should_persist = ((was_under \<and> is_over_now) \<or> crossed_64mb_boundary \<or> first_record_for_user) in
       Ok ((used_after, cap), if should_persist then quota_persist ho (q, fl) else (q, fl)))))"

definition is_over_quota_at :: "bytes \<Rightarrow> int \<Rightarrow> PerUserQuotaTracker \<Rightarrow> (unit, bool \<times> PerUserQuotaTracker) rust" where
  "is_over_quota_at uid now q =
     (case hm_get (pq_inner q) uid of
        None \<Rightarrow> Ok (False, q)
      | Some b \<Rightarrow>
          rust_bind (at_plus (ub_period_started_at b) (pq_period q)) (\<lambda>period_end.
          let effective_used = (if period_end \<le> now then 0 else ub_used_bytes b);
              cap = (case ub_cap_override b of Some c \<Rightarrow> c | None \<Rightarrow> pq_default_cap_bytes q);
              over = (0 < cap \<and> cap \<le> effective_used) in
          Ok (over, if over then q\<lparr>pq_over_quota_admission_blocks_total := pq_over_quota_admission_blocks_total q + 1\<rparr> else q)))"

definition reset_user :: "quota_host \<Rightarrow> bytes \<Rightarrow> PerUserQuotaTracker \<times> ban_file \<Rightarrow> bool \<times> PerUserQuotaTracker \<times> ban_file" where
  "reset_user ho uid = (\<lambda>(q, fl).
     case hm_get (pq_inner q) uid of
       Some b \<Rightarrow>
         (True, quota_persist ho (q\<lparr>pq_inner := hm_insert uid (b\<lparr>ub_used_bytes := 0, ub_period_started_at := qh_now ho\<rparr>) (pq_inner q)\<rparr>, fl))
     | None \<Rightarrow> (False, q, fl))"

record ActiveQuota =
  aq_user_id :: bytes
  aq_used_bytes :: u64
  aq_cap_bytes :: u64
  aq_remaining_period_secs :: nat
  aq_over_quota :: bool

definition active_quota :: "int \<Rightarrow> PerUserQuotaTracker \<Rightarrow> bytes \<times> UserBucket \<Rightarrow> (unit, ActiveQuota) rust" where
  "active_quota now q = (\<lambda>(uid, b).
     rust_bind (at_plus (ub_period_started_at b) (pq_period q)) (\<lambda>period_end.
     let cap = (case ub_cap_override b of Some c \<Rightarrow> c | None \<Rightarrow> pq_default_cap_bytes q);
         effective_used = (if period_end \<le> now then 0 else ub_used_bytes b) in
     Ok \<lparr>aq_user_id = render_user_id uid, aq_used_bytes = effective_used, aq_cap_bytes = cap,
          aq_remaining_period_secs = (if period_end \<le> now then pq_period q div from_secs 1 else nat (period_end - now) div from_secs 1),
          aq_over_quota = (0 < cap \<and> cap \<le> effective_used)\<rparr>))"

fun rust_all :: "('e, 'a) rust list \<Rightarrow> ('e, 'a list) rust" where
  "rust_all [] = Ok []"
| "rust_all (r # rs) = rust_bind r (\<lambda>x. rust_bind (rust_all rs) (\<lambda>xs. Ok (x # xs)))"

definition active_snapshot_at :: "(buckets \<Rightarrow> buckets) \<Rightarrow> nat \<Rightarrow> int \<Rightarrow> PerUserQuotaTracker \<Rightarrow> (unit, ActiveQuota list) rust" where
  "active_snapshot_at order limit now q =
     rust_bind (rust_all (map (active_quota now q) (order (pq_inner q)))) (\<lambda>out.
     Ok (take limit (sort_key (\<lambda>b. - uint (aq_used_bytes b)) out)))"

section \<open>Reading the file back\<close>

text \<open>The start of the period of a line, on the clock of this process.\<close>

definition line_start :: "quota_host \<Rightarrow> ParsedEntry \<Rightarrow> int" where
  "line_start ho parsed =
     (if pe_period_started_unix parsed \<le> qh_unix ho then
        (case at_checked_sub (qh_now ho) (from_secs (unat (qh_unix ho - pe_period_started_unix parsed))) of
           Some t \<Rightarrow> t
         | None \<Rightarrow> qh_now ho)
      else qh_now ho)"

fun quota_load_lines :: "quota_host \<Rightarrow> nat \<Rightarrow> nat \<Rightarrow> bytes list \<Rightarrow> buckets \<Rightarrow> u64 \<Rightarrow> (unit, buckets \<times> u64) rust" where
  "quota_load_lines ho period max_entries [] g loaded = Ok (g, loaded)"
| "quota_load_lines ho period max_entries (l # ls) g loaded =
     (let line = trim l in
      if passed_over line then quota_load_lines ho period max_entries ls g loaded
      else
        (case quota_parse_entry_line line of
           Ok parsed \<Rightarrow>
             rust_bind (at_plus (line_start ho parsed) period) (\<lambda>period_end.
             if period_end \<le> qh_now ho then quota_load_lines ho period max_entries ls g loaded
             else
               (let g = hm_insert (pe_user_id parsed) \<lparr>ub_used_bytes = pe_used_bytes parsed,
                      ub_period_started_at = line_start ho parsed, ub_cap_override = pe_cap_override parsed\<rparr> g in
                if max_entries \<le> hm_len g then Ok (g, loaded + 1)
                else quota_load_lines ho period max_entries ls g (loaded + 1)))
         | Err e \<Rightarrow> quota_load_lines ho period max_entries ls g loaded
         | Panic \<Rightarrow> Panic))"

definition quota_load_from_disk :: "quota_host \<Rightarrow> ban_file \<Rightarrow> bytes \<Rightarrow> nat \<Rightarrow> u64 \<Rightarrow> nat \<Rightarrow> (unit, PerUserQuotaTracker) rust" where
  "quota_load_from_disk ho fl path period default_cap_bytes max_entries =
     (let tracker = quota_with_persistence path (quota_new period default_cap_bytes max_entries (qh_now ho)) in
      case fl of
        Missing \<Rightarrow> Ok tracker
      | Unreadable \<Rightarrow> Ok (tracker\<lparr>pq_persist_failed_total := pq_persist_failed_total tracker + 1\<rparr>)
      | File raw \<Rightarrow>
          rust_bind (quota_load_lines ho period max_entries (text_lines raw) [] 0) (\<lambda>(g, loaded).
          Ok (tracker\<lparr>pq_inner := g, pq_loaded_from_disk := loaded\<rparr>)))"

text \<open>One line of the file against the map and the number of updates.\<close>

definition quota_merge_entry :: "quota_host \<Rightarrow> nat \<Rightarrow> ParsedEntry \<Rightarrow> buckets \<times> u64 \<Rightarrow> (unit, buckets \<times> u64) rust" where
  "quota_merge_entry ho period parsed = (\<lambda>(g, updates).
     rust_bind (at_plus (line_start ho parsed) period) (\<lambda>period_end.
     if period_end \<le> qh_now ho then Ok (g, updates)
     else
       (let entry = (case hm_get g (pe_user_id parsed) of
              Some b \<Rightarrow> b
            | None \<Rightarrow> \<lparr>ub_used_bytes = 0, ub_period_started_at = line_start ho parsed,
                       ub_cap_override = pe_cap_override parsed\<rparr>);
            new_used = max (ub_used_bytes entry) (pe_used_bytes parsed); new_cap = pe_cap_override parsed in
        if new_used \<noteq> ub_used_bytes entry \<or> new_cap \<noteq> ub_cap_override entry then
          Ok (hm_insert (pe_user_id parsed) (entry\<lparr>ub_used_bytes := new_used, ub_cap_override := new_cap\<rparr>) g, updates + 1)
        else Ok (hm_insert (pe_user_id parsed) entry g, updates))))"

fun quota_merge_lines :: "quota_host \<Rightarrow> nat \<Rightarrow> bytes list \<Rightarrow> buckets \<times> u64 \<Rightarrow> (unit, buckets \<times> u64) rust" where
  "quota_merge_lines ho period [] s = Ok s"
| "quota_merge_lines ho period (l # ls) s =
     (let line = trim l in
      if passed_over line then quota_merge_lines ho period ls s
      else
        (case quota_parse_entry_line line of
           Ok parsed \<Rightarrow> rust_bind (quota_merge_entry ho period parsed s) (quota_merge_lines ho period ls)
         | Err e \<Rightarrow> quota_merge_lines ho period ls s
         | Panic \<Rightarrow> Panic))"

definition quota_reload_from_disk :: "quota_host \<Rightarrow> (unit + u64) quota_call" where
  "quota_reload_from_disk ho = (\<lambda>(q, fl).
     let q = q\<lparr>pq_reload_attempts_total := pq_reload_attempts_total q + 1\<rparr> in
     if pq_persistence_path q = None then Ok (Inr 0, q, fl)
     else
       (case fl of
          Missing \<Rightarrow> Ok (Inr 0, q, fl)
        | Unreadable \<Rightarrow> Ok (Inl (), q\<lparr>pq_reload_failed_total := pq_reload_failed_total q + 1\<rparr>, fl)
        | File raw \<Rightarrow>
            rust_bind (quota_merge_lines ho (pq_period q) (text_lines raw) (pq_inner q, 0)) (\<lambda>(g, updates).
            Ok (Inr updates, quota_persist ho (q\<lparr>pq_inner := g\<rparr>, fl)))))"

end
