(* ===== verification/Quota_Exact.thy ===== *)
theory Quota_Exact
  imports User_Quota
begin

text \<open>
  What the quota tracker answers, from the history of the records and caps alone.
\<close>

section \<open>Reference\<close>

text \<open>A session of a user ends and its bytes are recorded, or the operator sets a cap.\<close>

datatype quota_event = QRecord quota_host bytes u64 int | QCap quota_host bytes u64

fun ev_user :: "quota_event \<Rightarrow> bytes" where
  "ev_user (QRecord ho uid b t) = uid"
| "ev_user (QCap ho uid c) = uid"

fun ev_time :: "quota_event \<Rightarrow> int" where
  "ev_time (QRecord ho uid b t) = t"
| "ev_time (QCap ho uid c) = qh_now ho"

fun quota_step :: "quota_event \<Rightarrow> PerUserQuotaTracker \<times> ban_file \<Rightarrow> (unit, PerUserQuotaTracker \<times> ban_file) rust" where
  "quota_step (QRecord ho uid b t) s = rust_bind (quota_record_at ho uid b t s) (\<lambda>(_, s). Ok s)"
| "quota_step (QCap ho uid c) s = Ok (set_user_cap ho uid c s)"

fun quota_run :: "quota_event list \<Rightarrow> PerUserQuotaTracker \<times> ban_file \<Rightarrow> (unit, PerUserQuotaTracker \<times> ban_file) rust" where
  "quota_run [] s = Ok s"
| "quota_run (e # es) s = rust_bind (quota_step e s) (quota_run es)"

text \<open>
  The periods of a user begin with the first event that concerns it and follow each other without gaps; a user is over
  quota when the bytes of the current period have reached the last cap set.
\<close>

fun opens_bucket :: "bytes \<Rightarrow> quota_event \<Rightarrow> bool" where
  "opens_bucket u (QRecord ho uid b t) \<longleftrightarrow> uid = u \<and> b \<noteq> 0"
| "opens_bucket u (QCap ho uid c) \<longleftrightarrow> uid = u"

definition quota_start :: "bytes \<Rightarrow> quota_event list \<Rightarrow> int option" where
  "quota_start u es = (case filter (opens_bucket u) es of [] \<Rightarrow> None | e # _ \<Rightarrow> Some (ev_time e))"

fun cap_set :: "bytes \<Rightarrow> quota_event list \<Rightarrow> u64 option \<Rightarrow> u64 option" where
  "cap_set u [] c = c"
| "cap_set u (QCap ho uid c' # es) c = cap_set u es (if uid = u then Some c' else c)"
| "cap_set u (QRecord ho uid b t # es) c = cap_set u es c"

fun bytes_in :: "bytes \<Rightarrow> nat \<Rightarrow> int \<Rightarrow> int \<Rightarrow> quota_event \<Rightarrow> nat" where
  "bytes_in u P s k (QRecord ho uid b t) = (if uid = u \<and> (t - s) div int P = k then unat b else 0)"
| "bytes_in u P s k (QCap ho uid c) = 0"

definition usage_in :: "bytes \<Rightarrow> nat \<Rightarrow> int \<Rightarrow> int \<Rightarrow> quota_event list \<Rightarrow> nat" where
  "usage_in u P s k es = sum_list (map (bytes_in u P s k) es)"

definition over_quota :: "nat \<Rightarrow> u64 \<Rightarrow> quota_event list \<Rightarrow> bytes \<Rightarrow> int \<Rightarrow> bool" where
  "over_quota P default_cap es u now =
     (case quota_start u es of
        None \<Rightarrow> False
      | Some s \<Rightarrow>
          (let cap = (case cap_set u es None of Some c \<Rightarrow> c | None \<Rightarrow> default_cap) in
           0 < cap \<and> unat cap \<le> usage_in u P s ((now - s) div int P) es))"

section \<open>Rolling over\<close>

definition rolled :: "nat \<Rightarrow> int \<Rightarrow> UserBucket \<Rightarrow> UserBucket" where
  "rolled P now b =
     (let k = (now - ub_period_started_at b) div int P in
      if k = 0 then b else b\<lparr>ub_used_bytes := 0, ub_period_started_at := ub_period_started_at b + k * int P\<rparr>)"

definition clock_ok :: "nat \<Rightarrow> int \<Rightarrow> bool" where
  "clock_ok P now \<longleftrightarrow> (\<exists>p > 0. P = from_secs p) \<and> now < 2 ^ 32 * int P \<and> now + int P < int (from_secs (2 ^ 63))"

lemma maybe_roll_period_rolled:
  assumes "clock_ok (pq_period q) now" and "0 \<le> ub_period_started_at b" and "ub_period_started_at b \<le> now"
  shows "\<exists>n. maybe_roll_period now b q = Ok (rolled (pq_period q) now b, q\<lparr>pq_period_rollovers_total := n\<rparr>)"
proof -
  obtain p where p: "0 < p" and P: "pq_period q = p * 1000000000" using assms(1) by (auto simp: clock_ok_def from_secs_def)
  let ?s = "ub_period_started_at b" and ?P = "pq_period q"
  have now: "now < 2 ^ 32 * int ?P" "now + int ?P < int (from_secs (2 ^ 63))" using assms(1) by (simp_all add: clock_ok_def)
  have Ppos: "0 < ?P" using p P by simp
  let ?k = "nat (now - ?s) div ?P"
  have k: "int ?k = (now - ?s) div int ?P" using assms(3) by (simp add: zdiv_int)
  show ?thesis
  proof (cases "?s + int ?P \<le> now")
    case False
    then have "(now - ?s) div int ?P = 0" using assms(3) Ppos by (simp add: div_pos_pos_trivial)
    then show ?thesis using False now assms(3)
      by (intro exI [of _ "pq_period_rollovers_total q"]) (simp add: maybe_roll_period_def at_plus_def rolled_def)
  next
    case True
    have kpos: "0 < ?k" using True Ppos by (simp add: div_greater_zero_iff le_nat_iff)
    have "nat (now - ?s) div 1000000000 div (max p 1) = ?k" using p by (simp add: P div_mult2_eq mult.commute [of p])
    then have pe: "nat (now - ?s) div from_secs 1 div max (?P div from_secs 1) 1 = ?k" by (simp add: from_secs_def P)
    have "int (nat (now - ?s)) < int (2 ^ 32 * ?P)" using now(1) assms(2,3) by (simp del: of_nat_power)
    then have "nat (now - ?s) < 2 ^ 32 * ?P" by (simp only: of_nat_less_iff)
    then have "?k < 2 ^ 32" using Ppos by (simp add: less_mult_imp_div_less)
    then have u: "unat (word_of_nat (max ?k 1) :: u32) = ?k" using kpos by (simp add: unsigned_of_nat take_bit_nat_eq_self_iff max_def)
    have "?P * ?k \<le> nat (now - ?s)" by (simp add: mult.commute [of ?P])
    then have le: "int (?P * ?k) \<le> now - ?s" using assms(3) by linarith
    then have "?s + int (?P * ?k) < int (from_secs (2 ^ 63))" using now(2) Ppos by linarith
    then have e: "at_plus ?s (?P * ?k) = (Ok (?s + int (?P * ?k)) :: (unit, int) rust)" by (simp add: at_plus_def)
    have "int (from_secs (2 ^ 63)) \<le> int (from_secs (2 ^ 64))" by (simp add: from_secs_def)
    then have "int (?P * ?k) < int (from_secs (2 ^ 64))" using le now(2) assms(2) Ppos by linarith
    then have "?P * ?k < from_secs (2 ^ 64)" by (simp only: of_nat_less_iff)
    then have m: "duration_mul ?P (word_of_nat (max ?k 1)) = (Ok (?P * ?k) :: (unit, nat) rust)"
      unfolding duration_mul_def checked_mul_def u by simp
    have a: "at_plus ?s ?P = (Ok (?s + int ?P) :: (unit, int) rust)" using now(2) assms(3) by (simp add: at_plus_def)
    have kz: "(now - ?s) div int ?P \<noteq> 0" using k kpos by linarith
    have "maybe_roll_period now b q = Ok (b\<lparr>ub_used_bytes := 0, ub_period_started_at := ?s + int (?P * ?k)\<rparr>,
        q\<lparr>pq_period_rollovers_total := pq_period_rollovers_total q + 1\<rparr>)"
      unfolding maybe_roll_period_def Let_def pe a m using True e by simp
    then show ?thesis using kz by (intro exI) (simp add: rolled_def Let_def k [symmetric] mult.commute)
  qed
qed

lemma rolled_started:
  assumes "clock_ok P now" and "0 \<le> ub_period_started_at b" and "ub_period_started_at b \<le> now"
  shows "0 \<le> ub_period_started_at (rolled P now b)" and "ub_period_started_at (rolled P now b) \<le> now"
    and "rolled P now (rolled P now b) = rolled P now b"
proof -
  have P: "0 < int P" using assms(1) by (auto simp: clock_ok_def from_secs_def)
  let ?s = "ub_period_started_at b" and ?k = "(now - ub_period_started_at b) div int P"
  have k: "0 \<le> ?k" "?k * int P \<le> now - ?s" using P assms(3) by (simp_all add: pos_imp_zdiv_nonneg_iff minus_mod_eq_div_mult [symmetric])
  have "now - (?s + ?k * int P) = (now - ?s) mod int P" by (simp add: minus_div_mult_eq_mod [symmetric])
  then have "(now - (?s + ?k * int P)) div int P = 0" using P by (simp add: div_pos_pos_trivial)
  then show "rolled P now (rolled P now b) = rolled P now b" by (simp add: rolled_def Let_def)
  show "0 \<le> ub_period_started_at (rolled P now b)" "ub_period_started_at (rolled P now b) \<le> now"
    using k assms(2,3) P by (simp_all add: rolled_def Let_def)
qed

section \<open>One call\<close>

definition same_config :: "PerUserQuotaTracker \<Rightarrow> PerUserQuotaTracker \<Rightarrow> bool" where
  "same_config q q' \<longleftrightarrow> pq_period q' = pq_period q \<and> pq_default_cap_bytes q' = pq_default_cap_bytes q \<and> pq_max_entries q' = pq_max_entries q"

lemma quota_persist_keeps [simp]:
  "pq_inner (fst (quota_persist ho s)) = pq_inner (fst s)" "pq_period (fst (quota_persist ho s)) = pq_period (fst s)"
  "pq_default_cap_bytes (fst (quota_persist ho s)) = pq_default_cap_bytes (fst s)"
  "pq_max_entries (fst (quota_persist ho s)) = pq_max_entries (fst s)"
  by (cases s; simp add: quota_persist_def Let_def split: option.split)+

lemma unat_sat_add_u64: "unat (sat_add_u64 a b) = min (2 ^ 64 - 1) (unat a + unat b)"
proof (cases "unat a + unat b < 2 ^ 64")
  case True
  then have "unat (a + b) = unat a + unat b" by (subst unat_add_lem [symmetric]) simp
  then show ?thesis using True by (simp add: sat_add_u64_def)
next
  case False
  have "unat (- 1 :: u64) = 2 ^ 64 - 1" by (simp add: unsigned_minus_1_eq_mask mask_eq_exp_minus_1)
  then show ?thesis using False by (simp add: sat_add_u64_def)
qed

lemma sat_add_u64_0 [simp]: "sat_add_u64 0 b = b"
  using unat_u64_less [of b] by (simp add: sat_add_u64_def)

lemma record_rest:
  assumes "acquire_bucket uid now q = Ok (b, q1)" and "hm_get (pq_inner q1) uid = Some b" and "same_config q q1"
    and "clock_ok (pq_period q) now" and "0 \<le> ub_period_started_at b" and "ub_period_started_at b \<le> now"
    and "rolled (pq_period q) now b = b" and "bytes \<noteq> 0"
  shows "\<exists>r q' fl'. quota_record_at ho uid bytes now (q, fl) = Ok (r, q', fl') \<and> same_config q q'
    \<and> pq_inner q' = hm_insert uid (b\<lparr>ub_used_bytes := sat_add_u64 (ub_used_bytes b) bytes\<rparr>) (pq_inner q1)"
proof -
  have P: "pq_period q1 = pq_period q" using assms(3) by (simp add: same_config_def)
  obtain n where n: "maybe_roll_period now b q1 = Ok (b, q1\<lparr>pq_period_rollovers_total := n\<rparr>)"
    using maybe_roll_period_rolled [of q1 now b] assms(4-7) P by auto
  let ?b = "b\<lparr>ub_used_bytes := sat_add_u64 (ub_used_bytes b) bytes\<rparr>"
  let ?q = "q1\<lparr>pq_period_rollovers_total := n, pq_inner := hm_insert uid ?b (pq_inner q1)\<rparr>"
  have "add_bytes uid bytes now q1 = Ok ((Some (ub_used_bytes ?b), ub_used_bytes ?b), ?q)"
    using assms(2) n by (simp add: add_bytes_def)
  then have "\<exists>r s. quota_record_at ho uid bytes now (q, fl) = Ok (r, s) \<and> pq_inner (fst s) = hm_insert uid ?b (pq_inner q1) \<and> same_config q (fst s)"
    using assms(1,3,8) by (simp add: quota_record_at_def Let_def same_config_def split: if_split)
  then show ?thesis by (metis prod.collapse)
qed

lemma record_existing:
  assumes "clock_ok (pq_period q) now" and "hm_get (pq_inner q) uid = Some b" and "0 \<le> ub_period_started_at b"
    and "ub_period_started_at b \<le> now" and "bytes \<noteq> 0"
  shows "\<exists>r q' fl'. quota_record_at ho uid bytes now (q, fl) = Ok (r, q', fl') \<and> same_config q q'
    \<and> pq_inner q' = (let b = rolled (pq_period q) now b in
         hm_insert uid (b\<lparr>ub_used_bytes := sat_add_u64 (ub_used_bytes b) bytes\<rparr>) (hm_insert uid b (pq_inner q)))"
proof -
  obtain n where "maybe_roll_period now b q = Ok (rolled (pq_period q) now b, q\<lparr>pq_period_rollovers_total := n\<rparr>)"
    using maybe_roll_period_rolled [of q now b] assms by auto
  then have "acquire_bucket uid now q = Ok (rolled (pq_period q) now b,
      q\<lparr>pq_period_rollovers_total := n, pq_inner := hm_insert uid (rolled (pq_period q) now b) (pq_inner q)\<rparr>)"
    using assms(2) by (simp add: acquire_bucket_def)
  from record_rest [OF this] show ?thesis
    using rolled_started [OF assms(1,3,4)] assms(1,5) by (simp add: hm_get_insert same_config_def Let_def)
qed

lemma record_fresh:
  assumes "clock_ok (pq_period q) now" and "hm_get (pq_inner q) uid = None" and "hm_len (pq_inner q) < pq_max_entries q"
    and "0 \<le> now" and "bytes \<noteq> 0"
  shows "\<exists>r q' fl'. quota_record_at ho uid bytes now (q, fl) = Ok (r, q', fl') \<and> same_config q q'
    \<and> pq_inner q' = (let b = \<lparr>ub_used_bytes = 0, ub_period_started_at = now, ub_cap_override = None\<rparr> in
         hm_insert uid (b\<lparr>ub_used_bytes := bytes\<rparr>) (hm_insert uid b (pq_inner q)))"
proof -
  let ?b = "\<lparr>ub_used_bytes = 0, ub_period_started_at = now, ub_cap_override = None\<rparr>"
  have "acquire_bucket uid now q = Ok (?b, q\<lparr>pq_inner := hm_insert uid ?b (pq_inner q)\<rparr>)"
    using assms(2,3) by (simp add: acquire_bucket_def Let_def)
  from record_rest [OF this] show ?thesis
    using assms by (simp add: hm_get_insert same_config_def Let_def rolled_def)
qed

section \<open>The history and the map\<close>

lemma quota_start_snoc:
  "quota_start u (es @ [e]) = (case quota_start u es of Some s \<Rightarrow> Some s | None \<Rightarrow> if opens_bucket u e then Some (ev_time e) else None)"
  by (simp add: quota_start_def split: list.split)

lemma usage_in_snoc [simp]: "usage_in u P s k (es @ [e]) = usage_in u P s k es + bytes_in u P s k e"
  by (simp add: usage_in_def)

lemma cap_set_snoc:
  "cap_set u (es @ [e]) c = (case e of QCap ho uid c' \<Rightarrow> if uid = u then Some c' else cap_set u es c | _ \<Rightarrow> cap_set u es c)"
proof (induction es arbitrary: c)
  case Nil then show ?case by (cases e) simp_all
next
  case (Cons x es) then show ?case by (cases x; cases e) simp_all
qed

lemma bytes_in_0: "\<not> opens_bucket u e \<Longrightarrow> bytes_in u P s k e = 0"
  by (cases e) auto

lemma not_started:
  assumes "quota_start u es = None"
  shows "usage_in u P s k es = 0" and "cap_set u es None = None"
proof -
  have no: "\<not> opens_bucket u e" if "e \<in> set es" for e
    using assms that by (auto simp: quota_start_def filter_empty_conv split: list.splits)
  then show "usage_in u P s k es = 0" by (simp add: usage_in_def bytes_in_0)
  have "(\<forall>e \<in> set es. \<not> opens_bucket u e) \<Longrightarrow> cap_set u es c = c" for c by (induction es c rule: cap_set.induct) auto
  then show "cap_set u es None = None" using no by blast
qed

text \<open>A bucket holds the bytes of the last period in which the user was seen.\<close>

definition bucket_for :: "nat \<Rightarrow> quota_event list \<Rightarrow> bytes \<Rightarrow> int \<Rightarrow> UserBucket \<Rightarrow> bool" where
  "bucket_for P es u s b \<longleftrightarrow> 0 \<le> s \<and> ub_cap_override b = cap_set u es None
     \<and> (\<exists>j \<ge> 0. ub_period_started_at b = s + j * int P \<and> unat (ub_used_bytes b) = min (2 ^ 64 - 1) (usage_in u P s j es)
          \<and> (\<forall>k > j. usage_in u P s k es = 0))
     \<and> (\<forall>T. (\<forall>e \<in> set es. ev_time e \<le> T) \<longrightarrow> ub_period_started_at b \<le> T)"

definition quota_inv :: "nat \<Rightarrow> u64 \<Rightarrow> nat \<Rightarrow> quota_event list \<Rightarrow> PerUserQuotaTracker \<Rightarrow> bool" where
  "quota_inv P d mx es q \<longleftrightarrow> pq_period q = P \<and> pq_default_cap_bytes q = d \<and> pq_max_entries q = mx \<and> hm_ok (pq_inner q)
     \<and> (\<forall>u. quota_start u es = None \<longrightarrow> hm_get (pq_inner q) u = None)
     \<and> (\<forall>u s. quota_start u es = Some s \<longrightarrow> (\<exists>b. hm_get (pq_inner q) u = Some b \<and> bucket_for P es u s b))"

lemma quota_inv_get:
  assumes "quota_inv P d mx es q"
  shows "quota_start u es = None \<Longrightarrow> hm_get (pq_inner q) u = None"
    and "quota_start u es = Some s \<Longrightarrow> \<exists>b. hm_get (pq_inner q) u = Some b \<and> bucket_for P es u s b"
  using assms by (simp_all add: quota_inv_def)

lemma bucket_for_other:
  assumes "bucket_for P es u s b" and "\<not> opens_bucket u e"
  shows "bucket_for P (es @ [e]) u s b"
proof -
  have "cap_set u (es @ [e]) None = cap_set u es None" using assms(2) by (cases e) (auto simp: cap_set_snoc)
  then show ?thesis using assms by (auto simp: bucket_for_def bytes_in_0)
qed

lemma quota_inv_upd:
  assumes "quota_inv P d mx es q" and "same_config q q'" and "hm_ok (pq_inner q')" and "opens_bucket u e"
    and "\<forall>x. hm_get (pq_inner q') x = (if x = u then Some b else hm_get (pq_inner q) x)"
    and "bucket_for P (es @ [e]) u (case quota_start u es of Some s \<Rightarrow> s | None \<Rightarrow> ev_time e) b"
  shows "quota_inv P d mx (es @ [e]) q'"
proof -
  have "(quota_start x (es @ [e]) = None \<longrightarrow> hm_get (pq_inner q') x = None)
    \<and> (\<forall>s. quota_start x (es @ [e]) = Some s \<longrightarrow> (\<exists>b. hm_get (pq_inner q') x = Some b \<and> bucket_for P (es @ [e]) x s b))" for x
  proof (cases "x = u")
    case True
    then show ?thesis using assms(4-6) by (cases "quota_start u es") (simp_all add: quota_start_snoc)
  next
    case False
    then have no: "\<not> opens_bucket x e" using assms(4) by (cases e) auto
    then have "quota_start x (es @ [e]) = quota_start x es" by (simp add: quota_start_snoc split: option.split)
    then show ?thesis using assms(1,5) False bucket_for_other [OF _ no] unfolding quota_inv_def by metis
  qed
  then show ?thesis using assms(1-3) by (simp add: quota_inv_def same_config_def)
qed

lemma quota_inv_skip:
  assumes "quota_inv P d mx es q" and "\<not> opens_bucket (ev_user e) e"
  shows "quota_inv P d mx (es @ [e]) q"
proof -
  have no: "\<not> opens_bucket x e" for x using assms(2) by (cases e) auto
  then have "quota_start x (es @ [e]) = quota_start x es" for x by (simp add: quota_start_snoc split: option.split)
  then show ?thesis using assms(1) bucket_for_other [OF _ no] unfolding quota_inv_def by metis
qed

text \<open>There is room for a user who is not in the map.\<close>

lemma quota_inv_room:
  assumes "quota_inv P d mx es q" and "hm_get (pq_inner q) u = None" and "card (insert u (ev_user ` set es)) \<le> mx"
  shows "hm_len (pq_inner q) < mx"
proof -
  let ?U = "ev_user ` set es"
  have "x \<in> ?U" if got: "hm_get (pq_inner q) x \<noteq> None" for x
  proof -
    obtain s where "quota_start x es = Some s" using quota_inv_get(1) [OF assms(1), of x] got by (cases "quota_start x es") simp_all
    then have "filter (opens_bucket x) es \<noteq> []" by (auto simp: quota_start_def)
    then obtain e where e: "e \<in> set es" "opens_bucket x e" by (meson filter_False)
    from e(2) have "ev_user e = x" by (cases e) simp_all
    then show ?thesis using e(1) by (metis image_eqI)
  qed
  then have sub: "fst ` set (pq_inner q) \<subseteq> ?U - {u}" using assms(2) by (auto simp: map_of_eq_None_iff)
  have "distinct (map fst (pq_inner q))" using assms(1) unfolding quota_inv_def hm_ok_def by blast
  then have "hm_len (pq_inner q) = card (fst ` set (pq_inner q))" using distinct_card [of "map fst (pq_inner q)"] by simp
  also have "\<dots> \<le> card (?U - {u})" using sub by (intro card_mono) auto
  also have "\<dots> < card (insert u ?U)" by (intro psubset_card_mono) auto
  finally show ?thesis using assms(3) by simp
qed

section \<open>Every step\<close>

lemma bucket_for_opened:
  assumes "quota_start u es = None" and "0 \<le> s" and "opens_bucket u e" and "ev_time e = s" and "0 < P"
  shows "bucket_for P (es @ [e]) u s \<lparr>ub_used_bytes = (case e of QRecord ho uid b t \<Rightarrow> b | _ \<Rightarrow> 0), ub_period_started_at = s,
      ub_cap_override = (case e of QCap ho uid c \<Rightarrow> Some c | _ \<Rightarrow> None)\<rparr>"
proof -
  have "bytes_in u P s k e = (if k = 0 then unat (case e of QRecord ho uid b t \<Rightarrow> b | _ \<Rightarrow> 0) else 0)" for k
    using assms(3,4) by (cases e) auto
  moreover have "cap_set u (es @ [e]) None = (case e of QCap ho uid c \<Rightarrow> Some c | _ \<Rightarrow> None)"
    using assms(3) by (cases e) (simp_all add: cap_set_snoc not_started [OF assms(1)])
  moreover have "unat b \<le> 2 ^ 64 - 1" for b :: u64 using unat_u64_less [of b] by simp
  ultimately show ?thesis using assms(2,4)
    by (auto simp: bucket_for_def not_started [OF assms(1)] intro!: exI [of _ 0])
qed

lemma bucket_for_record:
  assumes "bucket_for P es u s b" and "\<forall>e \<in> set es. ev_time e \<le> t" and "0 < P"
  shows "bucket_for P (es @ [QRecord ho u bytes t]) u s
    ((rolled P t b)\<lparr>ub_used_bytes := sat_add_u64 (ub_used_bytes (rolled P t b)) bytes\<rparr>)"
proof -
  obtain j where j: "0 \<le> j" "ub_period_started_at b = s + j * int P" "unat (ub_used_bytes b) = min (2 ^ 64 - 1) (usage_in u P s j es)"
      "\<forall>k > j. usage_in u P s k es = 0" and s: "0 \<le> s" and cap: "ub_cap_override b = cap_set u es None"
    using assms(1) by (auto simp: bucket_for_def)
  have le: "s + j * int P \<le> t" using assms(1,2) j(2) by (auto simp: bucket_for_def)
  let ?k = "(t - s) div int P"
  have "t - (s + j * int P) = (t - s) + (- j) * int P" by (simp add: algebra_simps)
  then have k: "(t - (s + j * int P)) div int P = ?k - j" using assms(3) by (simp only: div_mult_self1)
  define m where "m = (t - (s + j * int P)) div int P"
  have k': "?k = j + m" using k by (simp add: m_def)
  have jk: "j \<le> ?k" using le assms(3) k [symmetric] pos_imp_zdiv_nonneg_iff [of "int P" "t - (s + j * int P)"] by simp
  have now: "s + ?k * int P \<le> t" using assms(3) by (metis add.commute diff_add_cancel add_le_cancel_left div_mult_mod_eq zle_add1_eq_le le_add_same_cancel1 pos_mod_sign of_nat_0_less_iff)
  have started: "ub_period_started_at (rolled P t b) = s + ?k * int P"
    unfolding k' by (simp add: rolled_def Let_def j(2) m_def [symmetric] distrib_right)
  have used: "unat (ub_used_bytes (rolled P t b)) = min (2 ^ 64 - 1) (usage_in u P s ?k es)"
    using k' jk j(3,4) by (simp add: rolled_def Let_def j(2) m_def [symmetric])
  have "ub_cap_override (rolled P t b) = cap_set u es None" using cap by (simp add: rolled_def Let_def)
  then show ?thesis
    using s jk j(1,4) started used now
    by (auto simp: bucket_for_def cap_set_snoc unat_sat_add_u64 intro!: exI [of _ ?k])
qed

lemma bucket_for_cap:
  assumes "bucket_for P es u s b"
  shows "bucket_for P (es @ [QCap ho u c]) u s (b\<lparr>ub_cap_override := Some c\<rparr>)"
  using assms by (auto simp: bucket_for_def cap_set_snoc)

lemma quota_step_inv:
  assumes inv: "quota_inv P d mx es q" and past: "\<forall>e' \<in> set es. ev_time e' \<le> ev_time e" and t: "0 \<le> ev_time e" and clock: "clock_ok P (ev_time e)"
    and room: "card (insert (ev_user e) (ev_user ` set es)) \<le> mx"
  shows "\<exists>q' fl'. quota_step e (q, fl) = Ok (q', fl') \<and> quota_inv P d mx (es @ [e]) q'"
proof (cases e)
  case (QCap ho u c)
  let ?b0 = "case hm_get (pq_inner q) u of Some b \<Rightarrow> b | None \<Rightarrow> \<lparr>ub_used_bytes = 0, ub_period_started_at = qh_now ho, ub_cap_override = None\<rparr>"
  let ?b = "?b0\<lparr>ub_cap_override := Some c\<rparr>"
  obtain q' fl' where q': "set_user_cap ho u c (q, fl) = (q', fl')" by fastforce
  then have "quota_persist ho (q\<lparr>pq_inner := hm_insert u ?b (pq_inner q)\<rparr>, fl) = (q', fl')" by (simp add: set_user_cap_def Let_def)
  then have inner: "pq_inner q' = hm_insert u ?b (pq_inner q)" "same_config q q'"
    using quota_persist_keeps [of ho "(q\<lparr>pq_inner := hm_insert u ?b (pq_inner q)\<rparr>, fl)"] by (simp_all add: same_config_def)
  have P: "0 < P" using clock by (auto simp: clock_ok_def from_secs_def)
  have "bucket_for P (es @ [e]) u (case quota_start u es of Some s \<Rightarrow> s | None \<Rightarrow> ev_time e) ?b"
  proof (cases "quota_start u es")
    case None
    moreover from this have "hm_get (pq_inner q) u = None" using inv by (simp add: quota_inv_def)
    ultimately show ?thesis using bucket_for_opened [OF None t _ refl P] QCap by simp
  next
    case (Some s)
    then obtain b where "hm_get (pq_inner q) u = Some b" "bucket_for P es u s b" using quota_inv_get(2) [OF inv] by blast
    then show ?thesis using bucket_for_cap Some QCap by simp
  qed
  then have "quota_inv P d mx (es @ [e]) q'"
    using inv inner QCap by (intro quota_inv_upd [OF inv]) (auto simp: hm_get_insert quota_inv_def)
  then show ?thesis using q' QCap by simp
next
  case (QRecord ho u bytes t)
  have P: "0 < P" "pq_period q = P" "pq_max_entries q = mx" using clock inv by (auto simp: clock_ok_def from_secs_def quota_inv_def)
  show ?thesis
  proof (cases "bytes = 0")
    case True
    then have "quota_inv P d mx (es @ [e]) q" using QRecord by (intro quota_inv_skip [OF inv]) simp
    then show ?thesis using True QRecord by (simp add: quota_record_at_def)
  next
    case False
    have "\<exists>r q' fl' b. quota_record_at ho u bytes t (q, fl) = Ok (r, q', fl') \<and> same_config q q' \<and> hm_ok (pq_inner q')
      \<and> (\<forall>x. hm_get (pq_inner q') x = (if x = u then Some b else hm_get (pq_inner q) x))
      \<and> bucket_for P (es @ [e]) u (case quota_start u es of Some s \<Rightarrow> s | None \<Rightarrow> ev_time e) b"
    proof (cases "quota_start u es")
      case None
      then have "hm_get (pq_inner q) u = None" using inv by (simp add: quota_inv_def)
      with record_fresh [of q t u bytes ho fl] quota_inv_room [OF inv this]
      show ?thesis using None False bucket_for_opened [OF None t _ refl P(1)] inv clock t room QRecord P
        by (fastforce simp: hm_get_insert quota_inv_def)
    next
      case (Some s)
      then obtain b where b: "hm_get (pq_inner q) u = Some b" "bucket_for P es u s b" using quota_inv_get(2) [OF inv] by blast
      then have "0 \<le> ub_period_started_at b" "ub_period_started_at b \<le> t" using past QRecord by (auto simp: bucket_for_def)
      with record_existing [of q t u b bytes ho fl] b bucket_for_record [OF b(2), of t ho bytes]
      show ?thesis using Some False past inv clock QRecord P
        by (fastforce simp: hm_get_insert quota_inv_def Let_def)
    qed
    then obtain r q' fl' b where q': "quota_record_at ho u bytes t (q, fl) = Ok (r, q', fl')" "same_config q q'" "hm_ok (pq_inner q')"
      "\<forall>x. hm_get (pq_inner q') x = (if x = u then Some b else hm_get (pq_inner q) x)"
      "bucket_for P (es @ [e]) u (case quota_start u es of Some s \<Rightarrow> s | None \<Rightarrow> ev_time e) b" by blast
    have "quota_inv P d mx (es @ [e]) q'" using quota_inv_upd [OF inv q'(2,3) _ q'(4,5)] False QRecord by simp
    then show ?thesis using q'(1) QRecord by simp
  qed
qed

section \<open>The answers are exact\<close>

lemma quota_run_snoc: "quota_run (es @ [e]) s = rust_bind (quota_run es s) (quota_step e)"
proof (induction es arbitrary: s)
  case Nil then show ?case by (cases "quota_step e s") simp_all
next
  case (Cons x es) then show ?case by (cases "quota_step x s") simp_all
qed

lemma clock_ok_earlier: "clock_ok P now \<Longrightarrow> t \<le> now \<Longrightarrow> clock_ok P t"
  by (auto simp: clock_ok_def)

lemma quota_run_inv:
  assumes "clock_ok P now" and "sorted (map ev_time es)" and "\<forall>e \<in> set es. 0 \<le> ev_time e \<and> ev_time e \<le> now"
    and "card (ev_user ` set es) \<le> mx" and "quota_inv P d mx [] q"
  shows "\<exists>q' fl'. quota_run es (q, fl) = Ok (q', fl') \<and> quota_inv P d mx es q'"
  using assms(2-4)
proof (induction es rule: rev_induct)
  case Nil then show ?case using assms(5) by simp
next
  case (snoc e es)
  have "card (ev_user ` set es) \<le> card (ev_user ` set (es @ [e]))" by (intro card_mono) auto
  then obtain q' fl' where IH: "quota_run es (q, fl) = Ok (q', fl')" "quota_inv P d mx es q'"
    using snoc by (auto simp: sorted_append)
  have "\<forall>e' \<in> set es. ev_time e' \<le> ev_time e" "0 \<le> ev_time e" "clock_ok P (ev_time e)"
    using snoc.prems clock_ok_earlier [OF assms(1)] by (auto simp: sorted_append)
  from quota_step_inv [OF IH(2) this, of fl'] snoc.prems(3) show ?case by (simp add: quota_run_snoc IH(1))
qed

text \<open>
  Whatever records and caps reach a new tracker in the order of their times, none of the calls panics, and while the users fit
  into the map a user is refused exactly when the bytes of its current period have reached the last cap set for it, the
  default where none was.  The periods of a user follow each other from its first event without drift, no
  matter how late the records come; a cap of zero is no cap.
\<close>

lemma quota_exact:
  assumes "clock_ok P now" and "sorted (map ev_time es)" and "\<forall>e \<in> set es. 0 \<le> ev_time e \<and> ev_time e \<le> now"
    and "card (ev_user ` set es) \<le> max_entries"
  shows "\<exists>q fl'. quota_run es ((quota_new P d max_entries t0)\<lparr>pq_persistence_path := path\<rparr>, fl) = Ok (q, fl')
     \<and> (\<exists>q'. is_over_quota_at u now q = Ok (over_quota P d es u now, q'))"
proof -
  have "quota_inv P d max_entries [] ((quota_new P d max_entries t0)\<lparr>pq_persistence_path := path\<rparr>)"
    by (simp add: quota_inv_def quota_new_def quota_start_def)
  then obtain q fl' where run: "quota_run es ((quota_new P d max_entries t0)\<lparr>pq_persistence_path := path\<rparr>, fl) = Ok (q, fl')"
    and inv: "quota_inv P d max_entries es q"
    using quota_run_inv [OF assms] by blast
  have q: "pq_period q = P" "pq_default_cap_bytes q = d" using inv by (simp_all add: quota_inv_def)
  have "\<exists>q'. is_over_quota_at u now q = Ok (over_quota P d es u now, q')"
  proof (cases "quota_start u es")
    case None
    then show ?thesis using quota_inv_get(1) [OF inv] by (simp add: is_over_quota_at_def over_quota_def)
  next
    case (Some s)
    then obtain b j where b: "hm_get (pq_inner q) u = Some b" "ub_cap_override b = cap_set u es None" and j: "0 \<le> j"
        "ub_period_started_at b = s + j * int P" "unat (ub_used_bytes b) = min (2 ^ 64 - 1) (usage_in u P s j es)"
        "\<forall>k > j. usage_in u P s k es = 0" and le: "ub_period_started_at b \<le> now" and s: "0 \<le> s"
      using quota_inv_get(2) [OF inv, of u s] assms(3) by (auto simp: bucket_for_def)
    have P: "0 < int P" and fits: "now + int P < int (from_secs (2 ^ 63))" using assms(1) by (auto simp: clock_ok_def from_secs_def)
    have slot: "(now - s) div int P = j + (now - ub_period_started_at b) div int P"
      using P div_mult_self1 [of "int P" "now - ub_period_started_at b" j] by (simp add: j(2) algebra_simps)
    have used: "unat (if ub_period_started_at b + int P \<le> now then 0 else ub_used_bytes b) = min (2 ^ 64 - 1) (usage_in u P s ((now - s) div int P) es)"
    proof (cases "ub_period_started_at b + int P \<le> now")
      case True
      then have "1 \<le> (now - ub_period_started_at b) div int P" using P pos_imp_zdiv_pos_iff [OF P, of "now - ub_period_started_at b"] by simp
      then show ?thesis using True j(4) slot by simp
    next
      case False
      then have "(now - ub_period_started_at b) div int P = 0" using le by (intro div_pos_pos_trivial) auto
      then show ?thesis using False j(3) slot by simp
    qed
    have cap: "unat c \<le> min (2 ^ 64 - 1) n \<longleftrightarrow> unat c \<le> n" for c :: u64 and n using unat_u64_less [of c] by auto
    show ?thesis using Some b le fits cap
      by (cases "cap_set u es None") (auto simp: is_over_quota_at_def over_quota_def at_plus_def q Let_def word_le_nat_alt used)
  qed
  then show ?thesis using run by blast
qed

section \<open>A full map\<close>

lemma maybe_roll_keeps:
  "maybe_roll_period now b q = Ok (b', q') \<Longrightarrow> pq_inner q' = pq_inner q \<and> pq_max_entries q' = pq_max_entries q"
  by (auto simp: maybe_roll_period_def Let_def rust_bind_Ok_iff split: if_splits)

lemma record_full:
  assumes "quota_record_at ho v n t (q, fl) = Ok (r, q', fl')" and "pq_max_entries q \<le> hm_len (pq_inner q)"
  shows "pq_max_entries q' = pq_max_entries q \<and> (\<forall>u. hm_contains (pq_inner q') u = hm_contains (pq_inner q) u)
    \<and> hm_len (pq_inner q') = hm_len (pq_inner q)"
proof (cases "n = 0")
  case True
  then show ?thesis using assms(1) by (simp add: quota_record_at_def)
next
  case False
  have ins: "(\<forall>u. hm_contains (hm_insert v b g) u = hm_contains g u) \<and> hm_len (hm_insert v b g) = hm_len g" if "hm_get g v \<noteq> None" for b and g :: buckets
    using that by (auto simp: hm_contains_insert hm_len_insert) (auto simp: hm_contains_def)
  obtain b q1 where a: "acquire_bucket v t q = Ok (b, q1)" using assms(1) False by (auto simp: quota_record_at_def rust_bind_Ok_iff)
  then have q1: "pq_max_entries q1 = pq_max_entries q" "\<forall>u. hm_contains (pq_inner q1) u = hm_contains (pq_inner q) u" "hm_len (pq_inner q1) = hm_len (pq_inner q)"
    using assms(2) ins by (auto simp: acquire_bucket_def rust_bind_Ok_iff dest!: maybe_roll_keeps split: option.splits)
  obtain x q2 where b: "add_bytes v n t q1 = Ok (x, q2)" using assms(1) False a
    by (cases "add_bytes v n t q1") (auto simp: quota_record_at_def Let_def)
  then have q2: "pq_max_entries q2 = pq_max_entries q1" "\<forall>u. hm_contains (pq_inner q2) u = hm_contains (pq_inner q1) u" "hm_len (pq_inner q2) = hm_len (pq_inner q1)"
    using ins by (auto simp: add_bytes_def rust_bind_Ok_iff Let_def dest!: maybe_roll_keeps split: option.splits)
  have "\<exists>s. quota_record_at ho v n t (q, fl) = Ok s \<and> pq_inner (fst (snd s)) = pq_inner q2 \<and> pq_max_entries (fst (snd s)) = pq_max_entries q2"
    using False a b by (simp add: quota_record_at_def Let_def case_prod_beta split: if_split)
  then have "pq_inner q' = pq_inner q2 \<and> pq_max_entries q' = pq_max_entries q2" using assms(1) by auto
  then show ?thesis using q1 q2 by simp
qed

text \<open>
  A user without a bucket when the map is full is never refused, however many bytes are recorded for it: they go to the
  bucket that all such users share, where the check of the quota does not look.
\<close>

lemma full_map_unlimited:
  assumes "quota_run es (q, fl) = Ok (q', fl')" and "\<not> hm_contains (pq_inner q) u" and "pq_max_entries q \<le> hm_len (pq_inner q)"
    and "\<forall>ho c. QCap ho u c \<notin> set es"
  shows "is_over_quota_at u now q' = Ok (False, q')"
  using assms
proof (induction es arbitrary: q fl)
  case Nil
  then show ?case by (simp add: is_over_quota_at_def hm_contains_def)
next
  case (Cons e es)
  show ?case
  proof (cases e)
    case (QCap ho v c)
    obtain q1 fl1 where q1: "set_user_cap ho v c (q, fl) = (q1, fl1)" by fastforce
    have "pq_inner q1 = hm_insert v ((case hm_get (pq_inner q) v of Some b \<Rightarrow> b
        | None \<Rightarrow> \<lparr>ub_used_bytes = 0, ub_period_started_at = qh_now ho, ub_cap_override = None\<rparr>)\<lparr>ub_cap_override := Some c\<rparr>) (pq_inner q)"
      "pq_max_entries q1 = pq_max_entries q"
      using q1 by (auto simp: set_user_cap_def Let_def quota_persist_def split: option.splits if_splits)
    moreover have "v \<noteq> u" using Cons.prems(4) QCap by auto
    ultimately show ?thesis using Cons.IH [of q1 fl1] Cons.prems QCap q1
      by (auto simp: hm_contains_insert hm_len_insert)
  next
    case (QRecord ho v n t)
    obtain r q1 fl1 where q1: "quota_record_at ho v n t (q, fl) = Ok (r, q1, fl1)" "quota_run es (q1, fl1) = Ok (q', fl')"
      using Cons.prems(1) QRecord by (auto simp: rust_bind_Ok_iff)
    then show ?thesis using Cons.IH [OF q1(2)] record_full [OF q1(1) Cons.prems(3)] Cons.prems(2-4) by simp
  qed
qed

end
