(* ===== verification/Burst_Window.thy ===== *)
theory Burst_Window
  imports Endpoint_Health Net_Addr
begin

text \<open>
  The two detectors of bursts: abuse by a user (\<open>abuse_detector.rs\<close>) and probing from an address
  prefix (\<open>probe_anomaly.rs\<close>).  Both keep, per key, the instants of the last events inside a sliding
  window and a flag that the current burst has been reported.  The second has a cap on its keys and
  a ring of the last alerts.

  Shown: an alert is raised exactly as a reference over the whole history says, once per burst.
  Subtraction of instants saturates, as \<open>duration_since\<close> does.
\<close>

section \<open>The window of one key\<close>

record UserState =
  us_timestamps :: "instant list"
  us_alerted :: bool

type_synonym windows = "(bytes, UserState) hmap"

definition window_retain :: "nat \<Rightarrow> instant \<Rightarrow> windows \<Rightarrow> windows" where
  "window_retain window now = hm_retain (\<lambda>_ state. us_timestamps state \<noteq> [] \<and> now - last (us_timestamps state) < window)"

definition window_get :: "bytes \<Rightarrow> windows \<Rightarrow> UserState" where
  "window_get k g = (case hm_get g k of Some state \<Rightarrow> state | None \<Rightarrow> \<lparr>us_timestamps = [], us_alerted = False\<rparr>)"

text \<open>Expire, push, cut to the threshold, and report the first crossing of a burst.\<close>

definition window_push :: "nat \<Rightarrow> nat \<Rightarrow> instant \<Rightarrow> UserState \<Rightarrow> bool \<times> UserState" where
  "window_push window threshold now state =
     (let fresh = dropWhile (\<lambda>front. window \<le> now - front) (us_timestamps state);
          alerted = (us_alerted state \<and> fresh \<noteq> []);
          pushed = fresh @ [now];
          kept = drop (length pushed - threshold) pushed in
      if threshold \<le> length kept \<and> \<not> alerted then (True, \<lparr>us_timestamps = kept, us_alerted = True\<rparr>)
      else (False, \<lparr>us_timestamps = kept, us_alerted = alerted\<rparr>))"

section \<open>Abuse by a user\<close>

record AbuseDetector =
  ad_window :: nat
  ad_threshold :: nat
  ad_events :: windows

definition abuse_new :: "nat \<Rightarrow> nat \<Rightarrow> AbuseDetector" where
  "abuse_new window threshold = \<lparr>ad_window = window, ad_threshold = threshold, ad_events = []\<rparr>"

definition abuse_record_at :: "bytes \<Rightarrow> instant \<Rightarrow> AbuseDetector \<Rightarrow> bool \<times> AbuseDetector" where
  "abuse_record_at user_id now d =
     (let events = window_retain (ad_window d) now (ad_events d);
          (crossed, state) = window_push (ad_window d) (ad_threshold d) now (window_get user_id events) in
      (crossed, d\<lparr>ad_events := hm_insert user_id state events\<rparr>))"

definition tracked_users :: "AbuseDetector \<Rightarrow> nat" where
  "tracked_users d = hm_len (ad_events d)"

definition abuse_clear :: "AbuseDetector \<Rightarrow> AbuseDetector" where
  "abuse_clear d = d\<lparr>ad_events := []\<rparr>"

section \<open>Probing from a prefix\<close>

text \<open>\<open>octets\<close>, and the first three of an IPv4 address padded with zeros or the first six of an IPv6 address.\<close>

fun octets :: "IpAddr \<Rightarrow> bytes" where
  "octets (V4 a) = be_bytes 4 (unat a)"
| "octets (V6 a) = be_bytes 16 (unat a)"

fun prefix_key :: "IpAddr \<Rightarrow> bytes" where
  "prefix_key (V4 a) = copy_into (replicate 6 0) 0 (take 3 (octets (V4 a)))"
| "prefix_key (V6 a) = copy_into (replicate 6 0) 0 (take 6 (octets (V6 a)))"

datatype IpFamily = FamilyV4 | FamilyV6

fun family_of :: "IpAddr \<Rightarrow> IpFamily" where
  "family_of (V4 a) = FamilyV4"
| "family_of (V6 a) = FamilyV6"

record RecentFire =
  rf_prefix :: bytes
  rf_family :: IpFamily
  rf_fired_at :: instant

definition DEFAULT_WINDOW :: nat where "DEFAULT_WINDOW = from_secs 300"
definition DEFAULT_THRESHOLD :: nat where "DEFAULT_THRESHOLD = 8"
definition DEFAULT_MAX_PREFIXES :: nat where "DEFAULT_MAX_PREFIXES = 16 * 1024"
definition DEFAULT_RECENT_FIRES_CAP :: nat where "DEFAULT_RECENT_FIRES_CAP = 64"

record ProbeAnomalyDetector =
  pa_window :: nat
  pa_threshold :: nat
  pa_events :: windows
  pa_max_prefixes :: nat
  pa_dropped_prefix_inserts :: u64
  pa_recent_fires :: "RecentFire list"
  pa_recent_fires_cap :: nat

definition new_with_recent_cap :: "nat \<Rightarrow> nat \<Rightarrow> nat \<Rightarrow> nat \<Rightarrow> ProbeAnomalyDetector" where
  "new_with_recent_cap window threshold max_prefixes recent_fires_cap =
     \<lparr>pa_window = window, pa_threshold = threshold, pa_events = [], pa_max_prefixes = max_prefixes,
      pa_dropped_prefix_inserts = 0, pa_recent_fires = [], pa_recent_fires_cap = max recent_fires_cap 1\<rparr>"

definition probe_new :: "nat \<Rightarrow> nat \<Rightarrow> nat \<Rightarrow> ProbeAnomalyDetector" where
  "probe_new window threshold max_prefixes = new_with_recent_cap window threshold max_prefixes DEFAULT_RECENT_FIRES_CAP"

definition probe_with_defaults :: ProbeAnomalyDetector where
  "probe_with_defaults = probe_new DEFAULT_WINDOW DEFAULT_THRESHOLD DEFAULT_MAX_PREFIXES"

definition push_recent_fire :: "RecentFire \<Rightarrow> ProbeAnomalyDetector \<Rightarrow> ProbeAnomalyDetector" where
  "push_recent_fire fire d =
     (let ring = pa_recent_fires d;
          ring = (if pa_recent_fires_cap d \<le> length ring then tl ring else ring) in
      d\<lparr>pa_recent_fires := ring @ [fire]\<rparr>)"

definition probe_record_at :: "IpAddr \<Rightarrow> instant \<Rightarrow> ProbeAnomalyDetector \<Rightarrow> bytes option \<times> ProbeAnomalyDetector" where
  "probe_record_at ip now d =
     (let key = prefix_key ip; events = window_retain (pa_window d) now (pa_events d) in
      if \<not> hm_contains events key \<and> pa_max_prefixes d \<le> hm_len events then
        (None, d\<lparr>pa_events := events, pa_dropped_prefix_inserts := pa_dropped_prefix_inserts d + 1\<rparr>)
      else
        (let (crossed, state) = window_push (pa_window d) (pa_threshold d) now (window_get key events);
             d = d\<lparr>pa_events := hm_insert key state events\<rparr> in
         if crossed then (Some key, push_recent_fire \<lparr>rf_prefix = key, rf_family = family_of ip, rf_fired_at = now\<rparr> d)
         else (None, d)))"

definition probe_tracked :: "ProbeAnomalyDetector \<Rightarrow> nat" where
  "probe_tracked d = hm_len (pa_events d)"

section \<open>The reference\<close>

text \<open>
  A history lists the instants of the events of one key, the latest first.  An event at \<open>t\<close> continues
  the burst of its predecessor when the window from it is still open.
\<close>

definition recent :: "nat \<Rightarrow> instant \<Rightarrow> instant list \<Rightarrow> nat" where
  "recent w t h = length (filter (\<lambda>s. t - s < w) h)"

definition continues :: "nat \<Rightarrow> instant \<Rightarrow> instant list \<Rightarrow> bool" where
  "continues w t past \<longleftrightarrow> past \<noteq> [] \<and> t - hd past < w"

text \<open>Whether the burst at the end of the history has been reported, and whether its last event reports it.\<close>

fun reported :: "nat \<Rightarrow> nat \<Rightarrow> instant list \<Rightarrow> bool" where
  "reported w th [] = False"
| "reported w th (t # past) \<longleftrightarrow> continues w t past \<and> reported w th past \<or> th \<le> recent w t (t # past)"

fun alarm :: "nat \<Rightarrow> nat \<Rightarrow> instant list \<Rightarrow> bool" where
  "alarm w th [] = False"
| "alarm w th (t # past) \<longleftrightarrow> th \<le> recent w t (t # past) \<and> \<not> (continues w t past \<and> reported w th past)"

definition history :: "('k \<times> instant) list \<Rightarrow> 'k \<Rightarrow> instant list" where
  "history es k = rev (map snd (filter (\<lambda>e. fst e = k) es))"

lemma history_simps [simp]:
  "history [] k = []" "history (es @ [(k', t)]) k = (if k' = k then t # history es k else history es k)"
  by (auto simp: history_def)

lemma history_set: "s \<in> set (history es k) \<Longrightarrow> s \<in> set (map snd es)"
  by (auto simp: history_def)

lemma reported_alarm: "alarm w th h \<Longrightarrow> reported w th h"
  by (cases h) auto

text \<open>Events (the latest first) each less than a window after the one before.\<close>

fun steady :: "nat \<Rightarrow> instant list \<Rightarrow> bool" where
  "steady w (t # s # past) \<longleftrightarrow> t - s < w \<and> steady w (s # past)"
| "steady w _ = True"

text \<open>Between two alarms of a key there is a silence of a whole window.\<close>

lemma reported_until_silence:
  assumes "reported w th (t # past)" and "steady w (later @ [t])"
  shows "reported w th (later @ t # past)"
  using assms(2)
proof (induction later)
  case (Cons s later)
  have "steady w (later @ [t])" and "continues w s (later @ t # past)"
    using Cons.prems by (cases later; simp add: continues_def)+
  then show ?case using Cons.IH by simp
qed (use assms(1) in simp)

lemma no_alarm_without_silence:
  assumes "alarm w th (t # past)" and "steady w (now # later @ [t])"
  shows "\<not> alarm w th (now # later @ t # past)"
proof -
  have "steady w (later @ [t])" and "continues w now (later @ t # past)"
    using assms(2) by (cases later; simp add: continues_def)+
  then show ?thesis using reported_until_silence [OF reported_alarm [OF assms(1)]] by simp
qed

section \<open>The window of a key against its history\<close>

lemma takeWhile_take: "takeWhile P (take n xs) = take n (takeWhile P xs)"
proof (induction xs arbitrary: n)
  case (Cons x xs) then show ?case by (cases n) auto
qed simp

lemma takeWhile_takeWhile: "(\<And>x. P x \<Longrightarrow> Q x) \<Longrightarrow> takeWhile P (takeWhile Q xs) = takeWhile P xs"
  by (induction xs) auto

lemma filter_takeWhile_down:
  assumes "sorted_wrt (\<ge>) xs" and "\<And>x y. x \<le> y \<Longrightarrow> P x \<Longrightarrow> P (y :: nat)"
  shows "filter P xs = takeWhile P xs"
  using assms(1)
proof (induction xs)
  case (Cons x xs)
  have "filter P xs = []" if "\<not> P x" using that Cons.prems assms(2) by (auto simp: filter_empty_conv)
  then show ?case using Cons by auto
qed simp

lemma dropWhile_rev_takeWhile:
  assumes "filter P xs = takeWhile P xs"
  shows "dropWhile (\<lambda>x. \<not> P x) (rev xs) = rev (takeWhile P xs)"
proof -
  have split: "xs = takeWhile P xs @ dropWhile P xs" by simp
  have "filter P (takeWhile P xs) = takeWhile P xs" by (rule filter_True) (auto dest: set_takeWhileD)
  moreover have "filter P xs = filter P (takeWhile P xs) @ filter P (dropWhile P xs)"
    by (metis filter_append split)
  ultimately have "filter P (dropWhile P xs) = []" using assms by simp
  then have old: "\<not> P x" if "x \<in> set (dropWhile P xs)" for x using that by (simp add: filter_empty_conv)
  have "dropWhile (\<lambda>x. \<not> P x) (rev (dropWhile P xs) @ rev (takeWhile P xs)) = dropWhile (\<lambda>x. \<not> P x) (rev (takeWhile P xs))"
    by (rule dropWhile_append2) (use old in simp)
  also have "\<dots> = rev (takeWhile P xs)"
  proof (cases "rev (takeWhile P xs)")
    case (Cons a as)
    have "a \<in> set (rev (takeWhile P xs))" unfolding Cons by simp
    then have "P a" by (auto dest: set_takeWhileD)
    then show ?thesis unfolding Cons by simp
  qed simp
  finally show ?thesis by (metis rev_append split)
qed

definition window_inv :: "nat \<Rightarrow> nat \<Rightarrow> instant \<Rightarrow> instant list \<Rightarrow> UserState option \<Rightarrow> bool" where
  "window_inv w th T h entry \<longleftrightarrow> sorted_wrt (\<ge>) h \<and> (\<forall>s \<in> set h. s \<le> T) \<and>
     (case entry of
        None \<Rightarrow> \<not> continues w T h
      | Some state \<Rightarrow> h \<noteq> [] \<and> us_timestamps state = rev (take th (takeWhile (\<lambda>s. hd h - s < w) h)) \<and> us_alerted state = reported w th h)"

lemma continues_takeWhile: "continues w t h \<longleftrightarrow> takeWhile (\<lambda>s. t - s < w) h \<noteq> []"
  by (cases h) (auto simp: continues_def)

lemma continues_later: "continues w t h \<Longrightarrow> T \<le> t \<Longrightarrow> continues w T h"
  by (auto simp: continues_def)

text \<open>The entry of a key when an event at \<open>now\<close> arrives, and after it.\<close>

lemma window_inv_retain:
  assumes inv: "window_inv w th T h entry" and "0 < th" "T \<le> now" "0 < w"
  shows "window_inv w th now h
     (case entry of None \<Rightarrow> None
      | Some state \<Rightarrow> if us_timestamps state \<noteq> [] \<and> now - last (us_timestamps state) < w then Some state else None)"
proof (cases entry)
  case None
  then have "\<not> continues w now h" using inv continues_later [OF _ assms(3)] by (auto simp: window_inv_def)
  then show ?thesis using inv None assms(3) by (auto simp: window_inv_def intro: order_trans)
next
  case (Some state)
  obtain a h' where h: "h = a # h'" using inv Some by (cases h) (auto simp: window_inv_def)
  obtain n where n: "th = Suc n" using assms(2) gr0_implies_Suc by blast
  have l: "us_timestamps state \<noteq> []" "last (us_timestamps state) = a"
    using inv Some assms(4) by (auto simp: window_inv_def h n)
  have "\<forall>s \<in> set h. s \<le> now" using inv assms(3) by (auto simp: window_inv_def)
  then show ?thesis using inv Some l by (simp add: window_inv_def h continues_def)
qed

lemma drop_to_last: "drop (length (rev xs @ [a]) - n) (rev xs @ [a]) = rev (take n (a # xs))"
proof -
  have "drop (length (rev (a # xs)) - n) (rev (a # xs)) = rev (take (min n (length (a # xs))) (a # xs))"
    by (simp only: drop_rev length_rev) (simp add: min_def)
  then show ?thesis by (simp add: min_def split: if_splits)
qed

text \<open>What is left of the window of a key, and the flag.\<close>

lemma window_fresh:
  assumes inv: "window_inv w th now h entry" and pos: "0 < th"
  defines "state \<equiv> (case entry of Some state \<Rightarrow> state | None \<Rightarrow> \<lparr>us_timestamps = [], us_alerted = False\<rparr>)"
  shows "dropWhile (\<lambda>front. w \<le> now - front) (us_timestamps state) = rev (take th (takeWhile (\<lambda>s. now - s < w) h))"
    and "us_alerted state \<and> rev (take th (takeWhile (\<lambda>s. now - s < w) h)) \<noteq> [] \<longleftrightarrow> continues w now h \<and> reported w th h"
proof -
  let ?P = "\<lambda>s. now - s < w" and ?H = "take th (takeWhile (\<lambda>s. hd h - s < w) h)"
  have sorted: "sorted_wrt (\<ge>) h" and le: "\<forall>s \<in> set h. s \<le> now" using inv by (simp_all add: window_inv_def)
  show "dropWhile (\<lambda>front. w \<le> now - front) (us_timestamps state) = rev (take th (takeWhile ?P h))"
  proof (cases entry)
    case None
    then show ?thesis using inv by (simp add: state_def window_inv_def continues_takeWhile)
  next
    case (Some st)
    have "hd h \<le> now" using inv Some le by (simp add: window_inv_def)
    then have wider: "\<And>s. ?P s \<Longrightarrow> hd h - s < w" by (rule le_less_trans [OF diff_le_mono])
    have "sorted_wrt (\<ge>) ?H" by (subst takeWhile_eq_take) (intro sorted_wrt_take sorted)
    then have "filter ?P ?H = takeWhile ?P ?H" by (rule filter_takeWhile_down) linarith
    from dropWhile_rev_takeWhile [OF this]
    have "dropWhile (\<lambda>front. \<not> ?P front) (rev ?H) = rev (take th (takeWhile ?P h))"
      by (simp only: takeWhile_take takeWhile_takeWhile [where P = ?P, OF wider])
    then show ?thesis using inv Some by (simp add: state_def window_inv_def not_less)
  qed
  show "us_alerted state \<and> rev (take th (takeWhile ?P h)) \<noteq> [] \<longleftrightarrow> continues w now h \<and> reported w th h"
  proof (cases entry)
    case None
    then show ?thesis using inv by (simp add: state_def window_inv_def)
  next
    case (Some st)
    have "rev (take th (takeWhile ?P h)) \<noteq> [] \<longleftrightarrow> continues w now h" using pos by (simp add: continues_takeWhile)
    then show ?thesis using inv Some by (simp add: state_def window_inv_def conj_commute)
  qed
qed

lemma window_push_inv:
  assumes inv: "window_inv w th now h entry" and pos: "0 < th" "0 < w"
  defines "state \<equiv> (case entry of Some state \<Rightarrow> state | None \<Rightarrow> \<lparr>us_timestamps = [], us_alerted = False\<rparr>)"
  shows "fst (window_push w th now state) = alarm w th (now # h)
    \<and> window_inv w th now (now # h) (Some (snd (window_push w th now state)))"
proof -
  let ?P = "\<lambda>s. now - s < w"
  let ?K = "rev (take th (takeWhile ?P (now # h)))"
  have sorted: "sorted_wrt (\<ge>) (now # h)" "\<forall>s \<in> set h. s \<le> now" using inv by (simp_all add: window_inv_def)
  have "take th (now # take th (takeWhile ?P h)) = take th (takeWhile ?P (now # h))"
    using pos by (cases th) (simp_all add: min_def)
  then have kept: "drop (length (rev (take th (takeWhile ?P h)) @ [now]) - th) (rev (take th (takeWhile ?P h)) @ [now]) = ?K"
    by (simp only: drop_to_last)
  have "filter ?P (now # h) = takeWhile ?P (now # h)" by (rule filter_takeWhile_down [OF sorted(1)]) linarith
  then have count: "th \<le> length ?K \<longleftrightarrow> th \<le> recent w now (now # h)" by (simp add: recent_def)
  have "window_push w th now state =
      (if th \<le> recent w now (now # h) \<and> \<not> (continues w now h \<and> reported w th h)
       then (True, \<lparr>us_timestamps = ?K, us_alerted = True\<rparr>)
       else (False, \<lparr>us_timestamps = ?K, us_alerted = continues w now h \<and> reported w th h\<rparr>))"
    unfolding window_push_def Let_def state_def window_fresh [OF inv pos(1)] kept count ..
  then show ?thesis using sorted by (auto simp: window_inv_def)
qed

section \<open>What a detector promises\<close>

text \<open>
  The interface of a detector: as long as the events recorded so far (\<open>holds\<close>) leave room for the next
  and the clock does not run backwards, an event raises an alert exactly when the reference does.
\<close>

locale burst_detector =
  fixes record_event :: "'e \<Rightarrow> instant \<Rightarrow> 'd \<Rightarrow> bool \<times> 'd"
    and key :: "'e \<Rightarrow> 'k"
    and w :: nat and th :: nat
    and room :: "('k \<times> instant) list \<Rightarrow> bool"
    and holds :: "('k \<times> instant) list \<Rightarrow> 'd \<Rightarrow> bool"
  assumes record_alarm: "holds es d \<Longrightarrow> \<forall>x \<in> set es. snd x \<le> now \<Longrightarrow> room (es @ [(key e, now)]) \<Longrightarrow>
        fst (record_event e now d) = alarm w th (now # history es (key e))"
    and record_holds: "holds es d \<Longrightarrow> \<forall>x \<in> set es. snd x \<le> now \<Longrightarrow> room (es @ [(key e, now)]) \<Longrightarrow>
        holds (es @ [(key e, now)]) (snd (record_event e now d))"
    and room_before: "room (es @ [x]) \<Longrightarrow> room es"
begin

lemma room_prefix: "room (es @ es') \<Longrightarrow> room es"
proof (induction es' rule: rev_induct)
  case (snoc x es')
  then show ?case using room_before [of "es @ es'" x] by simp
qed simp

abbreviation run where "run \<equiv> foldl (\<lambda>d x. snd (record_event (fst x) (snd x) d))"

abbreviation keyed where "keyed \<equiv> map (\<lambda>x. (key (fst x), snd x))"

lemma run_holds:
  "holds [] d \<Longrightarrow> sorted (map snd es) \<Longrightarrow> room (keyed es) \<Longrightarrow> holds (keyed es) (run d es)"
proof (induction es rule: rev_induct)
  case (snoc x es)
  have "holds (keyed es) (run d es)"
    using snoc room_before [of "keyed es" "(key (fst x), snd x)"] by (simp add: sorted_append)
  then show ?case
    using record_holds [of "keyed es" "run d es" "snd x" "fst x"] snoc.prems by (auto simp: sorted_append)
qed simp

lemma run_alarm:
  assumes "holds [] d" and "sorted (map snd es @ [now])" and "room (keyed (es @ [(e, now)]))"
  shows "fst (record_event e now (run d es)) = alarm w th (now # history (keyed es) (key e))"
proof (rule record_alarm)
  show "holds (keyed es) (run d es)"
    using assms room_before [of "keyed es" "(key e, now)"] by (intro run_holds) (simp_all add: sorted_append)
  show "\<forall>x \<in> set (keyed es). snd x \<le> now" using assms(2) by (auto simp: sorted_append)
  show "room (keyed es @ [(key e, now)])" using assms(3) by simp
qed

text \<open>Inside a burst that has been reported, further events of the same key raise nothing.\<close>

lemma reported_once:
  assumes "holds [] d" and "sorted (map snd (es @ [(e, t)] @ later) @ [now])"
    and "room (keyed (es @ [(e, t)] @ later @ [(e', now)]))" and "key e' = key e"
    and fired: "fst (record_event e t (run d es))"
    and busy: "steady w (now # history (keyed later) (key e) @ [t])"
  shows "\<not> fst (record_event e' now (run d (es @ [(e, t)] @ later)))"
proof -
  let ?h = "history (keyed es) (key e)"
  have room: "room (keyed (es @ [(e, t)]))"
    using assms(3) room_prefix [of "keyed (es @ [(e, t)])" "keyed (later @ [(e', now)])"] by simp
  have "alarm w th (t # ?h)"
    using fired run_alarm [OF assms(1), of es t e] assms(2) room by (simp add: sorted_append)
  from no_alarm_without_silence [OF this busy]
  have "\<not> alarm w th (now # history (keyed (es @ [(e, t)] @ later)) (key e))" by (simp add: history_def)
  moreover have "fst (record_event e' now (run d (es @ [(e, t)] @ later)))
      = alarm w th (now # history (keyed (es @ [(e, t)] @ later)) (key e'))"
    by (rule run_alarm [OF assms(1)]) (use assms(2,3) in simp_all)
  ultimately show ?thesis using assms(4) by simp
qed

end

text \<open>Both detectors keep each window in step with the history of its key.\<close>

definition windows_hold :: "nat \<Rightarrow> nat \<Rightarrow> (bytes \<times> instant) list \<Rightarrow> windows \<Rightarrow> bool" where
  "windows_hold w th es g \<longleftrightarrow> hm_ok g \<and>
     (\<forall>k. window_inv w th (if es = [] then 0 else snd (last es)) (history es k) (hm_get g k))"

lemma windows_hold_Nil [simp]: "windows_hold w th [] []"
  by (simp add: windows_hold_def window_inv_def continues_def)

lemma windows_hold_step:
  assumes hold: "windows_hold w th es g" and pos: "0 < w" "0 < th" and mono: "\<forall>x \<in> set es. snd x \<le> now"
  defines "g' \<equiv> window_retain w now g"
  shows "fst (window_push w th now (window_get k g')) = alarm w th (now # history es k)"
    and "windows_hold w th (es @ [(k, now)]) (hm_insert k (snd (window_push w th now (window_get k g'))) g')"
proof -
  have ok: "hm_ok g" "hm_ok g'" using hold by (simp_all add: windows_hold_def g'_def window_retain_def)
  have T: "(if es = [] then 0 else snd (last es)) \<le> now" using mono by simp
  have inv: "window_inv w th now (history es x) (hm_get g' x)" for x
  proof -
    have "window_inv w th (if es = [] then 0 else snd (last es)) (history es x) (hm_get g x)"
      using hold by (simp add: windows_hold_def)
    from window_inv_retain [OF this pos(2) T pos(1)] show ?thesis
      using ok(1) by (simp add: g'_def window_retain_def hm_get_retain)
  qed
  note pushed = window_push_inv [OF inv [of k] pos(2) pos(1), folded window_get_def]
  then show "fst (window_push w th now (window_get k g')) = alarm w th (now # history es k)" by blast
  show "windows_hold w th (es @ [(k, now)]) (hm_insert k (snd (window_push w th now (window_get k g'))) g')"
    using pushed ok inv by (simp add: windows_hold_def hm_get_insert)
qed

section \<open>Abuse alerts\<close>

definition abuse_holds :: "nat \<Rightarrow> nat \<Rightarrow> (bytes \<times> instant) list \<Rightarrow> AbuseDetector \<Rightarrow> bool" where
  "abuse_holds w th es d \<longleftrightarrow> 0 < w \<and> 0 < th \<and> ad_window d = w \<and> ad_threshold d = th \<and> windows_hold w th es (ad_events d)"

interpretation abuse: burst_detector abuse_record_at "\<lambda>user. user" w th "\<lambda>_. True" "abuse_holds w th" for w th
proof unfold_locales
  fix es d now and user :: bytes
  assume "abuse_holds w th es d" and "\<forall>x \<in> set es. snd x \<le> now"
  note step = this [unfolded abuse_holds_def] and pushed = windows_hold_step [of w th es "ad_events d" now user]
  show "fst (abuse_record_at user now d) = alarm w th (now # history es user)"
    using step pushed(1) by (simp add: abuse_record_at_def Let_def case_prod_beta)
  show "abuse_holds w th (es @ [(user, now)]) (snd (abuse_record_at user now d))"
    using step pushed(2) by (simp add: abuse_record_at_def abuse_holds_def Let_def case_prod_beta)
qed simp

definition abuse_run :: "AbuseDetector \<Rightarrow> (bytes \<times> instant) list \<Rightarrow> AbuseDetector" where
  "abuse_run = foldl (\<lambda>d x. snd (abuse_record_at (fst x) (snd x) d))"

text \<open>
  C20. The abuse detector keeps at most the threshold of instants per user and forgets users that went
  quiet, yet raises an alert exactly when the whole history says so: the events of the user inside the window have reached the
  threshold, and nothing has been raised since the user was last silent for a window.
\<close>

theorem abuse_alerts_once_per_burst:
  assumes "0 < window" and "0 < threshold" and "sorted (map snd es @ [now])"
  shows "fst (abuse_record_at user now (abuse_run (abuse_new window threshold) es))
       = alarm window threshold (now # history es user)"
proof -
  have "abuse_holds window threshold [] (abuse_new window threshold)"
    using assms(1,2) by (simp add: abuse_holds_def abuse_new_def)
  then show ?thesis
    using abuse.run_alarm [of window threshold "abuse_new window threshold" es now user] assms(3) by (simp add: abuse_run_def)
qed

lemma abuse_alerts_once_per_burst_witness:
  "map (\<lambda>n. fst (abuse_record_at [7] (4 + n) (abuse_run (abuse_new 10 3) [([7], 1), ([8], 2), ([7], 3)]))) [0, 20]
   = [True, False]
   \<and> alarm 10 3 (4 # history [([7 :: u8], 1), ([8], 2), ([7], 3)] [7])"
  using abuse_alerts_once_per_burst [of 10 3 "[([7], 1), ([8], 2), ([7], 3)]" 4 "[7]"]
    abuse_alerts_once_per_burst [of 10 3 "[([7], 1), ([8], 2), ([7], 3)]" 24 "[7]"]
  by (simp add: history_def recent_def continues_def)

section \<open>Probe alerts\<close>

definition probe_alert :: "IpAddr \<Rightarrow> instant \<Rightarrow> ProbeAnomalyDetector \<Rightarrow> bool \<times> ProbeAnomalyDetector" where
  "probe_alert ip now d = (fst (probe_record_at ip now d) \<noteq> None, snd (probe_record_at ip now d))"

definition probe_run :: "ProbeAnomalyDetector \<Rightarrow> (IpAddr \<times> instant) list \<Rightarrow> ProbeAnomalyDetector" where
  "probe_run = foldl (\<lambda>d x. snd (probe_record_at (fst x) (snd x) d))"

definition probe_holds :: "nat \<Rightarrow> nat \<Rightarrow> nat \<Rightarrow> (bytes \<times> instant) list \<Rightarrow> ProbeAnomalyDetector \<Rightarrow> bool" where
  "probe_holds cap w th es d \<longleftrightarrow> 0 < w \<and> 0 < th \<and> pa_window d = w \<and> pa_threshold d = th \<and> pa_max_prefixes d = cap
     \<and> windows_hold w th es (pa_events d)"

text \<open>A key with an entry has a history, so the prefixes seen leave room for every new one.\<close>

lemma windows_hold_keys: "windows_hold w th es g \<Longrightarrow> fst ` set g \<subseteq> fst ` set es"
proof
  fix k assume hold: "windows_hold w th es g" and "k \<in> fst ` set g"
  then obtain st where "hm_get g k = Some st" by (metis (no_types, opaque_lifting) map_of_eq_None_iff not_Some_eq)
  then have "history es k \<noteq> []" using hold by (force simp: windows_hold_def window_inv_def dest: spec [of _ k])
  then show "k \<in> fst ` set es" by (auto simp: history_def filter_empty_conv)
qed

lemma windows_hold_room:
  assumes hold: "windows_hold w th es g" and room: "card (fst ` set (es @ [(k, now)])) \<le> cap"
    and absent: "\<not> hm_contains (window_retain w now g) k"
  shows "hm_len (window_retain w now g) < cap"
proof -
  let ?g = "window_retain w now g"
  have "hm_ok ?g" using hold by (simp add: windows_hold_def window_retain_def)
  then have "hm_len ?g = card (fst ` set ?g)" by (metis distinct_card hm_ok_def length_map list.set_map)
  moreover have "fst ` set ?g \<subseteq> fst ` set es"
    using windows_hold_keys [OF hold] by (auto simp: window_retain_def hm_retain_def)
  moreover have "k \<notin> fst ` set ?g" using absent by (simp add: hm_contains_def map_of_eq_None_iff)
  ultimately have "hm_len ?g < card (insert k (fst ` set es))" by (auto intro!: psubset_card_mono)
  then show ?thesis using room by simp
qed

text \<open>A recorded event, when its prefix has an entry or there is room.\<close>

lemma probe_record_open:
  fixes d :: ProbeAnomalyDetector and ip :: IpAddr and now :: instant
  defines "g \<equiv> window_retain (pa_window d) now (pa_events d)"
  defines "p \<equiv> window_push (pa_window d) (pa_threshold d) now (window_get (prefix_key ip) g)"
  assumes "hm_contains g (prefix_key ip) \<or> hm_len g < pa_max_prefixes d"
  shows "fst (probe_record_at ip now d) = (if fst p then Some (prefix_key ip) else None)"
    and "pa_events (snd (probe_record_at ip now d)) = hm_insert (prefix_key ip) (snd p) g"
proof -
  have "(\<not> hm_contains g (prefix_key ip) \<and> pa_max_prefixes d \<le> hm_len g) = False" using assms(3) by auto
  note simps = probe_record_at_def Let_def case_prod_beta g_def [symmetric] p_def [symmetric] this if_False
  show "fst (probe_record_at ip now d) = (if fst p then Some (prefix_key ip) else None)"
    unfolding simps by simp
  show "pa_events (snd (probe_record_at ip now d)) = hm_insert (prefix_key ip) (snd p) g"
    unfolding simps by (simp add: push_recent_fire_def Let_def)
qed

lemma probe_record_keeps:
  "pa_window (snd (probe_record_at ip now d)) = pa_window d" "pa_threshold (snd (probe_record_at ip now d)) = pa_threshold d"
  "pa_max_prefixes (snd (probe_record_at ip now d)) = pa_max_prefixes d"
  "pa_recent_fires_cap (snd (probe_record_at ip now d)) = pa_recent_fires_cap d"
  by (simp_all add: probe_record_at_def push_recent_fire_def Let_def case_prod_beta)

interpretation probe: burst_detector probe_alert prefix_key w th "\<lambda>es. card (fst ` set es) \<le> cap" "probe_holds cap w th" for cap w th
proof unfold_locales
  fix es d now ip
  assume "probe_holds cap w th es d" and "\<forall>x \<in> set es. snd x \<le> now" and room: "card (fst ` set (es @ [(prefix_key ip, now)])) \<le> cap"
  then have cfg: "pa_window d = w" "pa_threshold d = th" "pa_max_prefixes d = cap" and pos: "0 < w" "0 < th"
    and hold: "windows_hold w th es (pa_events d)" and mono: "\<forall>x \<in> set es. snd x \<le> now"
    by (simp_all only: probe_holds_def)
  note pushed = windows_hold_step [OF hold pos mono, of "prefix_key ip"]
  have "hm_contains (window_retain (pa_window d) now (pa_events d)) (prefix_key ip)
      \<or> hm_len (window_retain (pa_window d) now (pa_events d)) < pa_max_prefixes d"
    unfolding cfg using windows_hold_room [OF hold room] by argo
  note recorded = probe_record_open [OF this, unfolded cfg]
  show "fst (probe_alert ip now d) = alarm w th (now # history es (prefix_key ip))"
    unfolding probe_alert_def fst_conv recorded(1) pushed(1) by simp
  show "probe_holds cap w th (es @ [(prefix_key ip, now)]) (snd (probe_alert ip now d))"
    unfolding probe_alert_def snd_conv probe_holds_def probe_record_keeps recorded(2) cfg using pos pushed(2) by blast
next
  fix es :: "(bytes \<times> instant) list" and x
  assume "card (fst ` set (es @ [x])) \<le> cap"
  moreover have "card (fst ` set es) \<le> card (fst ` set (es @ [x]))" by (rule card_mono) auto
  ultimately show "card (fst ` set es) \<le> cap" by simp
qed

lemma probe_run_alt: "foldl (\<lambda>d x. snd (probe_alert (fst x) (snd x) d)) d es = probe_run d es"
  by (simp add: probe_run_def probe_alert_def)

lemma probe_new_holds: "0 < w \<Longrightarrow> 0 < th \<Longrightarrow> probe_holds cap w th [] (probe_new w th cap)"
  by (simp add: probe_holds_def probe_new_def new_with_recent_cap_def)

text \<open>
  As long as its table has room for the prefixes seen, the probe detector raises an alert exactly
  when the reference over the whole history of the prefix does.
\<close>

theorem probe_alerts_once_per_burst:
  assumes "0 < window" and "0 < threshold" and "sorted (map snd es @ [now])"
    and "card (insert (prefix_key ip) (prefix_key ` fst ` set es)) \<le> max_prefixes"
  shows "(fst (probe_record_at ip now (probe_run (probe_new window threshold max_prefixes) es)) = Some (prefix_key ip))
       = alarm window threshold (now # history (map (\<lambda>x. (prefix_key (fst x), snd x)) es) (prefix_key ip))"
proof -
  let ?d = "probe_run (probe_new window threshold max_prefixes) es"
  have "fst (probe_record_at ip now ?d) = None \<or> fst (probe_record_at ip now ?d) = Some (prefix_key ip)"
    by (simp add: probe_record_at_def Let_def case_prod_beta)
  then have "(fst (probe_record_at ip now ?d) = Some (prefix_key ip)) = fst (probe_alert ip now ?d)"
    by (auto simp: probe_alert_def)
  then show ?thesis
    using probe.run_alarm [OF probe_new_holds [OF assms(1,2), of max_prefixes], of es now ip] assms(3,4)
    by (simp add: probe_run_alt image_image)
qed

lemma probe_alerts_once_per_burst_witness:
  "fst (probe_record_at (V4 0x304) 5 (probe_run (probe_new 10 2 4) [(V4 0x306, 1), (V4 0x406, 2)])) = Some [0, 0, 3, 0, 0, 0]"
proof -
  have "prefix_key (V4 0x304) = [0, 0, 3, 0, 0, 0]" "prefix_key (V4 0x306) = [0, 0, 3, 0, 0, 0]"
    "prefix_key (V4 0x406) = [0, 0, 4, 0, 0, 0]" by code_simp+
  then show ?thesis
    using probe_alerts_once_per_burst [of 10 2 "[(V4 0x306, 1), (V4 0x406, 2)]" 5 "V4 0x304" 4]
    by (simp add: history_def recent_def continues_def del: prefix_key.simps)
qed

section \<open>Bounded memory\<close>

definition probe_inv :: "ProbeAnomalyDetector \<Rightarrow> bool" where
  "probe_inv d \<longleftrightarrow> hm_ok (pa_events d) \<and> hm_len (pa_events d) \<le> pa_max_prefixes d
     \<and> (\<forall>e \<in> set (pa_events d). length (us_timestamps (snd e)) \<le> pa_threshold d)
     \<and> length (pa_recent_fires d) \<le> pa_recent_fires_cap d \<and> 0 < pa_recent_fires_cap d"

lemma window_push_short: "length (us_timestamps (snd (window_push w th now st))) \<le> th"
proof -
  have short: "length (drop (length xs - th) xs) \<le> th" for xs :: "instant list" by simp
  let ?p = "dropWhile (\<lambda>front. w \<le> now - front) (us_timestamps st) @ [now]"
  have "us_timestamps (snd (window_push w th now st)) = drop (length ?p - th) ?p"
    by (simp add: window_push_def Let_def)
  then show ?thesis using short [of ?p] by (simp only:)
qed

lemma set_hm_insert: "set (hm_insert k v g) \<subseteq> insert (k, v) (set g)"
proof (induction g)
  case (Cons a g) then show ?case by (cases a) (auto simp: hm_insert_def)
qed (simp add: hm_insert_def)

lemma probe_record_inv:
  assumes "probe_inv d"
  shows "probe_inv (snd (probe_record_at ip now d))"
proof -
  let ?g = "window_retain (pa_window d) now (pa_events d)"
  have ok: "hm_ok ?g" and len: "hm_len ?g \<le> pa_max_prefixes d" and sub: "set ?g \<subseteq> set (pa_events d)"
    using assms le_trans [OF hm_len_retain_le] by (auto simp: probe_inv_def window_retain_def hm_retain_def hm_ok_filter)
  show ?thesis
  proof (cases "hm_contains ?g (prefix_key ip) \<or> hm_len ?g < pa_max_prefixes d")
    case True
    note recorded = probe_record_open(2) [OF True]
    have "hm_len (pa_events (snd (probe_record_at ip now d))) \<le> pa_max_prefixes d"
      unfolding recorded using True len by (auto simp: hm_len_insert)
    moreover have "length (us_timestamps (snd e)) \<le> pa_threshold d"
      if "e \<in> set (pa_events (snd (probe_record_at ip now d)))" for e
    proof -
      have "e \<in> set ?g \<or> snd e = snd (window_push (pa_window d) (pa_threshold d) now (window_get (prefix_key ip) ?g))"
        using that unfolding recorded by (auto dest: subsetD [OF set_hm_insert])
      then show ?thesis using assms sub window_push_short by (auto simp: probe_inv_def)
    qed
    moreover have "length (pa_recent_fires (snd (probe_record_at ip now d))) \<le> pa_recent_fires_cap d"
      using assms by (auto simp: probe_inv_def probe_record_at_def push_recent_fire_def Let_def case_prod_beta)
    ultimately show ?thesis using ok assms unfolding probe_inv_def probe_record_keeps recorded by auto
  next
    case False
    then have "\<not> hm_contains ?g (prefix_key ip) \<and> pa_max_prefixes d \<le> hm_len ?g" by auto
    then show ?thesis using assms ok len sub by (auto simp: probe_inv_def probe_record_at_def Let_def)
  qed
qed

interpretation probe_memory: bounded_machine "\<lambda>d x. snd (probe_record_at (fst x) (snd x) d)" probe_inv
    "\<lambda>d. hm_len (pa_events d)" pa_max_prefixes
  by unfold_locales (simp_all add: probe_record_inv probe_record_keeps, simp add: probe_inv_def)

text \<open>
  Whatever addresses knock and whatever the clock says, the probe detector tracks at most its cap of
  prefixes, at most the threshold of instants for each, and its ring holds at most its capacity of alerts.
\<close>

theorem probe_memory_bounded:
  "hm_len (pa_events (probe_run (new_with_recent_cap window threshold max_prefixes ring) es)) \<le> max_prefixes
   \<and> (\<forall>e \<in> set (pa_events (probe_run (new_with_recent_cap window threshold max_prefixes ring) es)). length (us_timestamps (snd e)) \<le> threshold)
   \<and> length (pa_recent_fires (probe_run (new_with_recent_cap window threshold max_prefixes ring) es)) \<le> max ring 1"
proof -
  let ?d = "new_with_recent_cap window threshold max_prefixes ring"
  have "probe_inv ?d" by (simp add: probe_inv_def new_with_recent_cap_def)
  from probe_memory.run_inv [OF this, of es] have "probe_inv (probe_run ?d es)" by (simp add: probe_run_def)
  moreover have "pa_max_prefixes (probe_run ?d es) = max_prefixes \<and> pa_threshold (probe_run ?d es) = threshold
      \<and> pa_recent_fires_cap (probe_run ?d es) = max ring 1"
    unfolding probe_run_def by (induction es rule: rev_induct) (simp_all add: probe_record_keeps new_with_recent_cap_def)
  ultimately show ?thesis by (auto simp: probe_inv_def)
qed

text \<open>
  The key does not carry the family: an IPv4 /24 and an IPv6 /48 can share it.  The IPv4 addresses a dual-stack
  socket reports (\<open>::ffff:a.b.c.d\<close>) all have the key of zeros.
\<close>

lemma prefix_key_crosses_families:
  assumes "octets (V6 a) = [0, 0, 2, 0, 0, 0] @ rest"
  shows "prefix_key (V6 a) = prefix_key (V4 0x201)"
proof -
  have k: "prefix_key (V4 0x201) = [0, 0, 2, 0, 0, 0]" by code_simp
  show ?thesis using assms unfolding k by (simp add: copy_into_def del: octets.simps)
qed

lemma prefix_key_mapped: "octets (V6 a) = replicate 10 0 @ [255, 255] @ v4 \<Longrightarrow> prefix_key (V6 a) = replicate 6 0"
  by (simp add: copy_into_def del: octets.simps)

end
