(* ===== verification/Auto_Deny.thy ===== *)
theory Auto_Deny
  imports Burst_Window User_Quarantine
begin

text \<open>
  The list of denied address prefixes (\<open>auto_deny.rs\<close>): a bounded map from prefix keys to deadlines, filled when
  the probe detector raises an alert and asked for every connection.

  Shown: it is a \<open>timed_ban\<close> like the quarantine of users and stays within its cap.
  The text for metrics is left out, the order of a \<open>HashMap\<close> walk is an argument.
\<close>

section \<open>State and operations\<close>

record AutoDenyList =
  dl_entries :: "(bytes, instant \<times> IpFamily) hmap"
  dl_last_vacuum :: instant
  dl_ttl :: nat
  dl_max_entries :: nat
  dl_refused_inserts :: u64
  dl_inserted_total :: u64

record ActiveDenial =
  act_prefix :: bytes
  act_expires_in_secs :: nat

definition DENY_VACUUM_INTERVAL :: nat where "DENY_VACUUM_INTERVAL = from_secs 30"
definition DEFAULT_MAX_ENTRIES :: nat where "DEFAULT_MAX_ENTRIES = 4096"

definition deny_new :: "nat \<Rightarrow> nat \<Rightarrow> instant \<Rightarrow> AutoDenyList" where
  "deny_new ttl max_entries now = \<lparr>dl_entries = [], dl_last_vacuum = now, dl_ttl = ttl, dl_max_entries = max max_entries 1,
     dl_refused_inserts = 0, dl_inserted_total = 0\<rparr>"

definition deny_is_enabled :: "AutoDenyList \<Rightarrow> bool" where
  "deny_is_enabled l \<longleftrightarrow> dl_ttl l \<noteq> 0"

definition deny_vacuum :: "instant \<Rightarrow> AutoDenyList \<Rightarrow> AutoDenyList" where
  "deny_vacuum now l =
     (if now - dl_last_vacuum l < DENY_VACUUM_INTERVAL then l
      else l\<lparr>dl_last_vacuum := now, dl_entries := hm_retain (\<lambda>_ v. now < fst v) (dl_entries l)\<rparr>)"

definition is_denied :: "IpAddr \<Rightarrow> instant \<Rightarrow> AutoDenyList \<Rightarrow> bool \<times> AutoDenyList" where
  "is_denied peer_ip now l =
     (if \<not> deny_is_enabled l then (False, l)
      else
        (let key = prefix_key peer_ip; l = deny_vacuum now l in
         case hm_get (dl_entries l) key of
           Some (deadline, family) \<Rightarrow> (now < deadline, l)
         | None \<Rightarrow> (False, l)))"

definition deny_insert :: "IpAddr \<Rightarrow> instant \<Rightarrow> AutoDenyList \<Rightarrow> (unit, bool) rust \<times> AutoDenyList" where
  "deny_insert peer_ip now l =
     (if \<not> deny_is_enabled l then (Ok False, l)
      else
        (let key = prefix_key peer_ip in
         if dl_max_entries l \<le> hm_len (dl_entries l) \<and> \<not> hm_contains (dl_entries l) key then
           (Ok False, l\<lparr>dl_refused_inserts := dl_refused_inserts l + 1\<rparr>)
         else
           (case instant_add now (dl_ttl l) of
              Ok deadline \<Rightarrow>
                (Ok True, l\<lparr>dl_entries := hm_insert key (deadline, family_of peer_ip) (dl_entries l),
                   dl_inserted_total := dl_inserted_total l + 1\<rparr>)
            | Err e \<Rightarrow> (Err e, l)
            | Panic \<Rightarrow> (Panic, l))))"

definition deny_tracked :: "AutoDenyList \<Rightarrow> nat" where
  "deny_tracked l = hm_len (dl_entries l)"

text \<open>\<open>render_prefix\<close> and \<open>RecentFire::prefix_string\<close>, the prefix in text.\<close>

fun render_prefix :: "bytes \<Rightarrow> IpFamily \<Rightarrow> bytes" where
  "render_prefix key FamilyV4 =
     join_sep 46 (map (\<lambda>b. show_radix 10 (uint b)) (take 3 key)) @ ascii ''.0/24''"
| "render_prefix key FamilyV6 =
     join_sep 58 (map (\<lambda>i. show_radix 16 (int (be_val (take 2 (drop (2 * i) key))))) [0, 1, 2]) @ ascii ''::/48''"

definition prefix_string :: "RecentFire \<Rightarrow> bytes" where
  "prefix_string fire = render_prefix (rf_prefix fire) (rf_family fire)"

definition active_snapshot :: "((bytes, instant \<times> IpFamily) hmap \<Rightarrow> (bytes, instant \<times> IpFamily) hmap) \<Rightarrow> instant \<Rightarrow> AutoDenyList
    \<Rightarrow> ActiveDenial list" where
  "active_snapshot order now l =
     sort_key act_expires_in_secs
       (map (\<lambda>(key, deadline, family). \<lparr>act_prefix = render_prefix key family, act_expires_in_secs = (deadline - now) div from_secs 1\<rparr>)
         (filter (\<lambda>(key, deadline, family). now \<le> deadline) (order (dl_entries l))))"

section \<open>Bounded, and bans hold\<close>

datatype deny_event = DenyCheck IpAddr instant | DenyInsert IpAddr instant

fun deny_step :: "AutoDenyList \<Rightarrow> deny_event \<Rightarrow> AutoDenyList" where
  "deny_step l (DenyCheck ip now) = snd (is_denied ip now l)"
| "deny_step l (DenyInsert ip now) = snd (deny_insert ip now l)"

definition deny_inv :: "AutoDenyList \<Rightarrow> bool" where
  "deny_inv l \<longleftrightarrow> hm_ok (dl_entries l) \<and> hm_len (dl_entries l) \<le> dl_max_entries l"

lemma deny_insert_state:
  "deny_insert ip now l =
     (if dl_ttl l = 0 then (Ok False, l)
      else if \<not> hm_contains (dl_entries l) (prefix_key ip) \<and> dl_max_entries l \<le> hm_len (dl_entries l) then
        (Ok False, l\<lparr>dl_refused_inserts := dl_refused_inserts l + 1\<rparr>)
      else if now + dl_ttl l < from_secs (2 ^ 63) then
        (Ok True, l\<lparr>dl_entries := hm_insert (prefix_key ip) (now + dl_ttl l, family_of ip) (dl_entries l),
                   dl_inserted_total := dl_inserted_total l + 1\<rparr>)
      else (Panic, l))"
  by (auto simp: deny_insert_def deny_is_enabled_def instant_add_def Let_def)

lemma is_denied_state: "snd (is_denied ip now l) = (if dl_ttl l = 0 then l else deny_vacuum now l)"
  by (simp add: is_denied_def deny_is_enabled_def Let_def split: option.split prod.split)

lemma deny_vacuum_keeps [simp]:
  "dl_ttl (deny_vacuum now l) = dl_ttl l" "dl_max_entries (deny_vacuum now l) = dl_max_entries l"
  by (simp_all add: deny_vacuum_def)

lemma deny_step_keeps: "dl_ttl (deny_step l e) = dl_ttl l \<and> dl_max_entries (deny_step l e) = dl_max_entries l"
  by (cases e) (simp_all add: is_denied_state deny_insert_state)

lemma deny_step_inv: "deny_inv l \<Longrightarrow> deny_inv (deny_step l e)"
proof (cases e)
  case (DenyCheck ip now)
  assume "deny_inv l"
  then show ?thesis using DenyCheck by (auto simp: deny_inv_def is_denied_state deny_vacuum_def intro: le_trans [OF hm_len_retain_le])
next
  case (DenyInsert ip now)
  assume "deny_inv l"
  then show ?thesis using DenyInsert by (auto simp: deny_inv_def deny_insert_state hm_len_insert)
qed

interpretation deny_memory: bounded_machine deny_step deny_inv "\<lambda>l. hm_len (dl_entries l)" dl_max_entries
  by unfold_locales (simp_all add: deny_step_inv deny_step_keeps, simp add: deny_inv_def)

lemma deny_bounded: "hm_len (dl_entries (foldl deny_step (deny_new ttl max_entries now) es)) \<le> max max_entries 1"
  using deny_memory.run_bounded [of "deny_new ttl max_entries now" es] by (simp add: deny_inv_def deny_new_def)

text \<open>The prefix has a deadline at \<open>d\<close> or later; an insert of it that comes in time does not move it before \<open>d\<close>.\<close>

definition denied_until :: "nat \<Rightarrow> bytes \<Rightarrow> instant \<Rightarrow> AutoDenyList \<Rightarrow> bool" where
  "denied_until ttl key d l \<longleftrightarrow> dl_ttl l = ttl \<and> ttl \<noteq> 0 \<and> hm_ok (dl_entries l)
     \<and> (\<exists>e family. hm_get (dl_entries l) key = Some (e, family) \<and> d \<le> e)"

fun keeps_denial :: "nat \<Rightarrow> bytes \<Rightarrow> instant \<Rightarrow> deny_event \<Rightarrow> bool" where
  "keeps_denial ttl key d (DenyCheck ip now) \<longleftrightarrow> now < d"
| "keeps_denial ttl key d (DenyInsert ip now) \<longleftrightarrow> d \<le> now + ttl"

lemma deny_vacuum_denied: "denied_until ttl key d l \<Longrightarrow> now < d \<Longrightarrow> denied_until ttl key d (deny_vacuum now l)"
  by (auto simp: denied_until_def deny_vacuum_def hmap_simps hmap_ok)

interpretation denials: timed_ban deny_step "denied_until ttl" "keeps_denial ttl"
    "\<lambda>key now l. \<forall>ip. prefix_key ip = key \<longrightarrow> fst (is_denied ip now l)" for ttl
proof unfold_locales
  fix key d l e
  assume d: "denied_until ttl key d l" and k: "keeps_denial ttl key d e"
  show "denied_until ttl key d (deny_step l e)"
  proof (cases e)
    case (DenyCheck ip now)
    then show ?thesis using d k deny_vacuum_denied by (simp add: is_denied_state)
  next
    case (DenyInsert ip now)
    then show ?thesis using d k by (auto simp: denied_until_def deny_insert_state hmap_simps hmap_ok)
  qed
next
  fix key d l now
  assume "denied_until ttl key d l" and "now < d"
  from deny_vacuum_denied [OF this] this
  show "\<forall>ip. prefix_key ip = key \<longrightarrow> fst (is_denied ip now l)"
    by (auto simp: denied_until_def is_denied_def deny_is_enabled_def Let_def split: option.split)
qed

lemma deny_insert_denied:
  assumes "fst (deny_insert ip t l) = Ok True" and "hm_ok (dl_entries l)"
  shows "denied_until (dl_ttl l) (prefix_key ip) (t + dl_ttl l) (snd (deny_insert ip t l))"
proof -
  have "dl_ttl l \<noteq> 0 \<and> snd (deny_insert ip t l) = l\<lparr>dl_entries := hm_insert (prefix_key ip) (t + dl_ttl l, family_of ip) (dl_entries l),
      dl_inserted_total := dl_inserted_total l + 1\<rparr>"
    using assms(1) by (auto simp: deny_insert_state split: if_splits)
  then show ?thesis using assms(2) by (simp add: denied_until_def hm_get_insert)
qed

text \<open>The snapshot lists what is denied, and what expires at this very instant.\<close>

lemma active_snapshot_denied:
  assumes "hm_ok (dl_entries l)" and "dl_ttl l \<noteq> 0" and "\<And>g. set (order g) = set g"
    and "a \<in> set (active_snapshot order now l)"
  shows "\<exists>key deadline family. act_prefix a = render_prefix key family \<and> hm_get (dl_entries l) key = Some (deadline, family)
     \<and> (now = deadline \<or> (\<forall>ip. prefix_key ip = key \<longrightarrow> fst (is_denied ip now l)))"
proof -
  obtain key deadline family where e: "(key, deadline, family) \<in> set (dl_entries l)" "now \<le> deadline"
      "act_prefix a = render_prefix key family"
    using assms(3,4) by (auto simp: active_snapshot_def)
  then have g: "hm_get (dl_entries l) key = Some (deadline, family)" using assms(1) by (simp add: hm_ok_entry)
  have "\<forall>ip. prefix_key ip = key \<longrightarrow> fst (is_denied ip now l)" if "now < deadline"
    using g that assms(1,2) by (intro denials.banned_denied [of "dl_ttl l" key deadline]) (simp_all add: denied_until_def)
  then show ?thesis using e g le_neq_implies_less by blast
qed

end
