(* ===== verification/Admission.thy ===== *)
theory Admission
  imports Quota_Exact Auto_Deny
begin

text \<open>
  Who gets in (\<open>server.rs\<close>): the gates before the handshake, the routing of the rest to a cover server
  (\<open>cover_pool.rs\<close>), the recording of probes, the slots for connections and cover tasks, and the check of the user
  after the handshake with the ring of recent abuse (\<open>abuse_fires.rs\<close>).

  The token buckets compute in floating point: their answers are arguments (\<open>verdicts\<close>).  The hash of the
  standard library is an argument too.  Log lines are left out, each reading of the clock is an argument.
\<close>

section \<open>The cover pool\<close>

text \<open>\<open>new\<close> refuses the empty list.\<close>

record CoverEndpointPool =
  cp_endpoints :: "bytes list"

definition cover_pool_new :: "bytes list \<Rightarrow> CoverEndpointPool option" where
  "cover_pool_new endpoints = (if endpoints = [] then None else Some \<lparr>cp_endpoints = endpoints\<rparr>)"

definition cover_pool_single :: "bytes \<Rightarrow> CoverEndpointPool" where
  "cover_pool_single endpoint = \<lparr>cp_endpoints = [endpoint]\<rparr>"

fun affinity_key :: "IpAddr \<Rightarrow> bytes" where
  "affinity_key (V4 a) = take 3 (octets (V4 a))"
| "affinity_key (V6 a) = take 6 (octets (V6 a))"

definition select_for :: "(bytes \<Rightarrow> u64) \<Rightarrow> IpAddr \<Rightarrow> CoverEndpointPool \<Rightarrow> (unit, bytes) rust" where
  "select_for hash peer_ip pool =
     (if length (cp_endpoints pool) = 1 then index (cp_endpoints pool) 0
      else if cp_endpoints pool = [] then Panic
      else index (cp_endpoints pool) (unat (hash (affinity_key peer_ip)) mod length (cp_endpoints pool)))"

definition select_canonical :: "CoverEndpointPool \<Rightarrow> (unit, bytes) rust" where
  "select_canonical pool = index (cp_endpoints pool) 0"

lemma select_for_pool:
  assumes "cover_pool_new endpoints = Some pool"
  shows "\<exists>e \<in> set endpoints. \<forall>ip'. affinity_key ip' = affinity_key ip \<longrightarrow> select_for hash ip' pool = Ok e"
proof -
  have p: "cp_endpoints pool = endpoints" "endpoints \<noteq> []" using assms by (auto simp: cover_pool_new_def split: if_splits)
  let ?i = "if length endpoints = 1 then 0 else unat (hash (affinity_key ip)) mod length endpoints"
  have "?i < length endpoints" using p(2) by simp
  moreover have "select_for hash ip' pool = index endpoints ?i" if "affinity_key ip' = affinity_key ip" for ip'
    using that p by (simp add: select_for_def)
  ultimately show ?thesis by (intro bexI [of _ "endpoints ! ?i"]) simp_all
qed

section \<open>Recent abuse\<close>

datatype AbuseFireKind = ByteBudget | RateLimit | PerUserBandwidthRate

fun as_label :: "AbuseFireKind \<Rightarrow> string" where
  "as_label ByteBudget = ''byte_budget''"
| "as_label RateLimit = ''rate_limit''"
| "as_label PerUserBandwidthRate = ''per_user_bandwidth_rate''"

record AbuseFire =
  af_at_unix_seconds :: u64
  af_kind :: AbuseFireKind
  af_user_id :: bytes
  af_context_value :: u64

record AbuseFireBuffer =
  fb_inner :: "AbuseFire list"
  fb_capacity :: nat

definition fires_new :: "nat \<Rightarrow> AbuseFireBuffer" where
  "fires_new capacity = \<lparr>fb_inner = [], fb_capacity = capacity\<rparr>"

definition fires_push_at :: "AbuseFireKind \<Rightarrow> bytes \<Rightarrow> u64 \<Rightarrow> u64 \<Rightarrow> AbuseFireBuffer \<Rightarrow> AbuseFireBuffer" where
  "fires_push_at kind user_id context_value at_unix_seconds b =
     (if fb_capacity b = 0 then b
      else
        (let g = fb_inner b; g = (if fb_capacity b \<le> length g then tl g else g) in
         b\<lparr>fb_inner := g @ [\<lparr>af_at_unix_seconds = at_unix_seconds, af_kind = kind, af_user_id = user_id,
                             af_context_value = context_value\<rparr>]\<rparr>))"

text \<open>The buffer holds the last fires.\<close>

lemma fires_push_at_last:
  "fb_inner b = rev (take (fb_capacity b) fs) \<Longrightarrow> \<exists>f. fb_inner (fires_push_at k u v t b) = rev (take (fb_capacity b) (f # fs))
     \<and> af_kind f = k \<and> af_user_id f = u"
proof -
  assume b: "fb_inner b = rev (take (fb_capacity b) fs)"
  let ?f = "\<lparr>af_at_unix_seconds = t, af_kind = k, af_user_id = u, af_context_value = v\<rparr>"
  have "fb_inner (fires_push_at k u v t b) = rev (take (fb_capacity b) (?f # fs))"
  proof (cases "fb_capacity b")
    case (Suc n)
    have "tl (rev (take (Suc n) fs)) = rev (take n fs)" if "Suc n \<le> length fs"
      using that by (simp add: take_Suc_conv_app_nth)
    then show ?thesis using b Suc by (auto simp: fires_push_at_def Let_def)
  qed (use b in \<open>simp add: fires_push_at_def\<close>)
  then show ?thesis by (intro exI [of _ ?f]) simp
qed

section \<open>The server's gates\<close>

record ServerMetrics =
  mt_firewall_denied :: u64
  mt_handshake_budget_rejected :: u64
  mt_rate_limited :: u64
  mt_conn_limit_rejected :: u64
  mt_cover_forwards_rejected :: u64
  mt_probe_anomalies_fired :: u64
  mt_user_quarantine_rejected :: u64
  mt_user_quota_admission_rejected :: u64
  mt_user_rate_rejected :: u64
  mt_abuse_alerts_rate_limit :: u64

record AdmissionCtx =
  ac_auto_deny :: "AutoDenyList option"
  ac_firewall :: ReloadableFirewall
  ac_metrics :: "ServerMetrics option"
  ac_probe_anomaly :: "ProbeAnomalyDetector option"
  ac_cover_endpoint :: "CoverEndpointPool option"
  ac_cover_forward_limit :: "nat option"
  ac_conn_limit :: "nat option"
  ac_user_quarantine :: "(UserQuarantineList \<times> ban_file) option"
  ac_user_quota :: "PerUserQuotaTracker option"
  ac_quarantine_on_kinds :: "string list"
  ac_abuse_detector_rate_limit :: "AbuseDetector option"
  ac_abuse_fires :: "AbuseFireBuffer option"

text \<open>The answers of the token buckets, each used at most once per connection, and the clock when the quota is asked.\<close>

record verdicts =
  vd_handshake_budget :: bool
  vd_rate_limit :: bool
  vd_quota_now :: int
  vd_user_rate :: bool

definition bump_metric :: "(ServerMetrics \<Rightarrow> ServerMetrics) \<Rightarrow> AdmissionCtx \<Rightarrow> AdmissionCtx" where
  "bump_metric f ctx = ctx\<lparr>ac_metrics := map_option f (ac_metrics ctx)\<rparr>"

text \<open>The list is asked when there is one.\<close>

definition auto_denied :: "IpAddr \<Rightarrow> instant \<Rightarrow> AdmissionCtx \<Rightarrow> bool \<times> AdmissionCtx" where
  "auto_denied peer_ip now ctx =
     (case ac_auto_deny ctx of
        Some l \<Rightarrow> (let (denied, l) = is_denied peer_ip now l in (denied, ctx\<lparr>ac_auto_deny := Some l\<rparr>))
      | None \<Rightarrow> (False, ctx))"

definition admission_ok :: "verdicts \<Rightarrow> IpAddr \<Rightarrow> instant \<Rightarrow> AdmissionCtx \<Rightarrow> bool \<times> AdmissionCtx" where
  "admission_ok vd peer_ip now ctx =
     (let (denied, ctx) = auto_denied peer_ip now ctx in
      if denied then (False, bump_metric (\<lambda>m. m\<lparr>mt_firewall_denied := mt_firewall_denied m + 1\<rparr>) ctx)
      else if is_active (rf_inner (ac_firewall ctx)) \<and> \<not> admit (rf_inner (ac_firewall ctx)) peer_ip then
        (False, bump_metric (\<lambda>m. m\<lparr>mt_firewall_denied := mt_firewall_denied m + 1\<rparr>) ctx)
      else if \<not> vd_handshake_budget vd then
        (False, bump_metric (\<lambda>m. m\<lparr>mt_handshake_budget_rejected := mt_handshake_budget_rejected m + 1\<rparr>) ctx)
      else if \<not> vd_rate_limit vd then
        (False, bump_metric (\<lambda>m. m\<lparr>mt_rate_limited := mt_rate_limited m + 1\<rparr>) ctx)
      else (True, ctx))"

definition record_probe_anomaly :: "IpAddr \<Rightarrow> instant \<Rightarrow> AdmissionCtx \<Rightarrow> (unit, unit) rust \<times> AdmissionCtx" where
  "record_probe_anomaly peer_ip now ctx =
     (case ac_probe_anomaly ctx of
        None \<Rightarrow> (Ok (), ctx)
      | Some detector \<Rightarrow>
          (let (fired, detector) = probe_record_at peer_ip now detector; ctx = ctx\<lparr>ac_probe_anomaly := Some detector\<rparr> in
           if fired = None then (Ok (), ctx)
           else
             (let ctx = bump_metric (\<lambda>m. m\<lparr>mt_probe_anomalies_fired := mt_probe_anomalies_fired m + 1\<rparr>) ctx in
              case ac_auto_deny ctx of
                None \<Rightarrow> (Ok (), ctx)
              | Some l \<Rightarrow>
                  (let (inserted, l) = deny_insert peer_ip now l in
                   (rust_bind inserted (\<lambda>_. Ok ()), ctx\<lparr>ac_auto_deny := Some l\<rparr>)))))"

text \<open>\<open>ConnGate\<close>, and the three-valued answer of the cover slots.\<close>

datatype ConnGate = Unbounded | Allowed | GateRejected

definition try_acquire_connection :: "AdmissionCtx \<Rightarrow> ConnGate \<times> AdmissionCtx" where
  "try_acquire_connection ctx =
     (case ac_conn_limit ctx of
        Some permits \<Rightarrow> if 0 < permits then (Allowed, ctx\<lparr>ac_conn_limit := Some (permits - 1)\<rparr>) else (GateRejected, ctx)
      | None \<Rightarrow> (Unbounded, ctx))"

definition try_acquire_cover_forward :: "AdmissionCtx \<Rightarrow> bool option \<times> AdmissionCtx" where
  "try_acquire_cover_forward ctx =
     (case ac_cover_forward_limit ctx of
        Some permits \<Rightarrow>
          if 0 < permits then (Some True, ctx\<lparr>ac_cover_forward_limit := Some (permits - 1)\<rparr>) else (None, ctx)
      | None \<Rightarrow> (Some False, ctx))"

text \<open>What becomes of a connection, and whether it holds a permit.\<close>

datatype disposition = Handshake bool | Covered bytes bool | Dropped

definition route_to_cover_or_drop :: "(bytes \<Rightarrow> u64) \<Rightarrow> IpAddr \<Rightarrow> instant \<Rightarrow> AdmissionCtx \<Rightarrow> (unit, disposition) rust \<times> AdmissionCtx" where
  "route_to_cover_or_drop hash peer_ip now ctx =
     (let (recorded, ctx) = record_probe_anomaly peer_ip now ctx in
      if recorded \<noteq> Ok () then (Panic, ctx)
      else
        (case ac_cover_endpoint ctx of
           None \<Rightarrow> (Ok Dropped, ctx)
         | Some pool \<Rightarrow>
             (case select_for hash peer_ip pool of
                Ok cover \<Rightarrow>
                  (let (permit, ctx) = try_acquire_cover_forward ctx in
                   case permit of
                     Some p \<Rightarrow> (Ok (Covered cover p), ctx)
                   | None \<Rightarrow>
                       (Ok Dropped,
                        bump_metric (\<lambda>m. m\<lparr>mt_cover_forwards_rejected := mt_cover_forwards_rejected m + 1\<rparr>) ctx))
              | Err e \<Rightarrow> (Err e, ctx)
              | Panic \<Rightarrow> (Panic, ctx))))"

text \<open>One turn of the accept loop; the clock is read by the first gate and again when a probe is recorded.\<close>

definition accept_connection ::
    "(bytes \<Rightarrow> u64) \<Rightarrow> verdicts \<Rightarrow> IpAddr \<Rightarrow> instant \<Rightarrow> instant \<Rightarrow> AdmissionCtx \<Rightarrow> (unit, disposition) rust \<times> AdmissionCtx" where
  "accept_connection hash vd peer_ip now later ctx =
     (let (ok, ctx) = admission_ok vd peer_ip now ctx in
      if \<not> ok then route_to_cover_or_drop hash peer_ip later ctx
      else
        (let (gate, ctx) = try_acquire_connection ctx in
         case gate of
           Unbounded \<Rightarrow> (Ok (Handshake False), ctx)
         | Allowed \<Rightarrow> (Ok (Handshake True), ctx)
         | GateRejected \<Rightarrow>
             route_to_cover_or_drop hash peer_ip later
               (bump_metric (\<lambda>m. m\<lparr>mt_conn_limit_rejected := mt_conn_limit_rejected m + 1\<rparr>) ctx)))"

definition should_quarantine_on :: "string \<Rightarrow> AdmissionCtx \<Rightarrow> bool" where
  "should_quarantine_on kind ctx \<longleftrightarrow> kind \<in> set (ac_quarantine_on_kinds ctx)"

text \<open>
  The abuse side of a refused user: the alert, the ring, the ban.  A panic of the ban (a deadline past the range of
  \<open>Instant\<close>) is the panic of the call.
\<close>

definition note_rate_abuse :: "host \<Rightarrow> bytes \<Rightarrow> instant \<Rightarrow> AdmissionCtx \<Rightarrow> (unit, unit) rust \<times> AdmissionCtx" where
  "note_rate_abuse ho uid now ctx =
     (case ac_abuse_detector_rate_limit ctx of
        None \<Rightarrow> (Ok (), ctx)
      | Some detector \<Rightarrow>
          (let (fired, detector) = abuse_record_at uid now detector; ctx = ctx\<lparr>ac_abuse_detector_rate_limit := Some detector\<rparr> in
           if \<not> fired then (Ok (), ctx)
           else
             (let ctx = bump_metric (\<lambda>m. m\<lparr>mt_abuse_alerts_rate_limit := mt_abuse_alerts_rate_limit m + 1\<rparr>) ctx;
                  ctx = ctx\<lparr>ac_abuse_fires := map_option (fires_push_at RateLimit uid 0 (ho_unix ho)) (ac_abuse_fires ctx)\<rparr> in
              if should_quarantine_on (as_label RateLimit) ctx then
                (case ac_user_quarantine ctx of
                   None \<Rightarrow> (Ok (), ctx)
                 | Some q \<Rightarrow>
                     (let ((inserted, woken), q) = insert_at ho uid (as_label RateLimit) (ho_now ho) q in
                      (rust_bind inserted (\<lambda>_. Ok ()), ctx\<lparr>ac_user_quarantine := Some q\<rparr>)))
              else (Ok (), ctx))))"

definition over_user_quota :: "bytes \<Rightarrow> int \<Rightarrow> AdmissionCtx \<Rightarrow> (unit, bool) rust \<times> AdmissionCtx" where
  "over_user_quota uid now ctx =
     (case ac_user_quota ctx of
        None \<Rightarrow> (Ok False, ctx)
      | Some quota \<Rightarrow>
          (case is_over_quota_at uid now quota of
             Ok (over, quota) \<Rightarrow> (Ok over, ctx\<lparr>ac_user_quota := Some quota\<rparr>)
           | Err e \<Rightarrow> (Err e, ctx)
           | Panic \<Rightarrow> (Panic, ctx)))"

definition user_admission_ok ::
    "host \<Rightarrow> verdicts \<Rightarrow> bytes option \<Rightarrow> instant \<Rightarrow> instant \<Rightarrow> AdmissionCtx \<Rightarrow> (unit, bool) rust \<times> AdmissionCtx" where
  "user_admission_ok ho vd user_id now later ctx =
     (case user_id of
        None \<Rightarrow> (Ok True, ctx)
      | Some uid \<Rightarrow>
          (let (remaining, ctx) = (case ac_user_quarantine ctx of
                 Some (q, fl) \<Rightarrow> (let (r, q) = check_at uid now q in (r, ctx\<lparr>ac_user_quarantine := Some (q, fl)\<rparr>))
               | None \<Rightarrow> (None, ctx)) in
           if remaining \<noteq> None then
             (Ok False, bump_metric (\<lambda>m. m\<lparr>mt_user_quarantine_rejected := mt_user_quarantine_rejected m + 1\<rparr>) ctx)
           else
             (case over_user_quota uid (vd_quota_now vd) ctx of
                (Ok over, ctx) \<Rightarrow>
                  if over then
                    (Ok False, bump_metric (\<lambda>m. m\<lparr>mt_user_quota_admission_rejected := mt_user_quota_admission_rejected m + 1\<rparr>) ctx)
                  else if vd_user_rate vd then (Ok True, ctx)
                  else
                    (let (noted, ctx) = note_rate_abuse ho uid later
                           (bump_metric (\<lambda>m. m\<lparr>mt_user_rate_rejected := mt_user_rate_rejected m + 1\<rparr>) ctx) in
                     (rust_bind noted (\<lambda>_. Ok False), ctx))
              | (Err e, ctx) \<Rightarrow> (Err e, ctx)
              | (Panic, ctx) \<Rightarrow> (Panic, ctx))))"

section \<open>A run of the server\<close>

text \<open>
  A connection arrives; a handshake fails and is forwarded to the cover server; a connection or a cover task ends and gives
  back its permit.  The state is the context with the permits out for connections and for cover tasks.
\<close>

datatype sv_event = Accept verdicts IpAddr instant instant | Failed IpAddr instant | ConnDone | CoverDone

type_synonym server = "AdmissionCtx \<times> nat \<times> nat"

fun sv_step :: "(bytes \<Rightarrow> u64) \<Rightarrow> server \<Rightarrow> sv_event \<Rightarrow> server" where
  "sv_step hash (ctx, conns, covers) (Accept vd ip now later) =
     (case accept_connection hash vd ip now later ctx of
        (Ok (Handshake True), ctx) \<Rightarrow> (ctx, conns + 1, covers)
      | (Ok (Covered cover True), ctx) \<Rightarrow> (ctx, conns, covers + 1)
      | (_, ctx) \<Rightarrow> (ctx, conns, covers))"
| "sv_step hash (ctx, conns, covers) (Failed ip now) = (snd (record_probe_anomaly ip now ctx), conns, covers)"
| "sv_step hash (ctx, conns, covers) ConnDone =
     (if 0 < conns then (ctx\<lparr>ac_conn_limit := map_option Suc (ac_conn_limit ctx)\<rparr>, conns - 1, covers) else (ctx, conns, covers))"
| "sv_step hash (ctx, conns, covers) CoverDone =
     (if 0 < covers then (ctx\<lparr>ac_cover_forward_limit := map_option Suc (ac_cover_forward_limit ctx)\<rparr>, conns, covers - 1)
      else (ctx, conns, covers))"

subsection \<open>What the calls leave alone\<close>

lemma bump_metric_keeps [simp]:
  "ac_auto_deny (bump_metric f ctx) = ac_auto_deny ctx" "ac_firewall (bump_metric f ctx) = ac_firewall ctx"
  "ac_probe_anomaly (bump_metric f ctx) = ac_probe_anomaly ctx" "ac_cover_endpoint (bump_metric f ctx) = ac_cover_endpoint ctx"
  "ac_cover_forward_limit (bump_metric f ctx) = ac_cover_forward_limit ctx" "ac_conn_limit (bump_metric f ctx) = ac_conn_limit ctx"
  "ac_user_quarantine (bump_metric f ctx) = ac_user_quarantine ctx" "ac_user_quota (bump_metric f ctx) = ac_user_quota ctx"
  "ac_quarantine_on_kinds (bump_metric f ctx) = ac_quarantine_on_kinds ctx"
  "ac_abuse_detector_rate_limit (bump_metric f ctx) = ac_abuse_detector_rate_limit ctx"
  "ac_abuse_fires (bump_metric f ctx) = ac_abuse_fires ctx"
  by (simp_all add: bump_metric_def)

lemma admission_ok_keeps:
  "ac_conn_limit (snd (admission_ok vd ip now ctx)) = ac_conn_limit ctx"
  "ac_cover_forward_limit (snd (admission_ok vd ip now ctx)) = ac_cover_forward_limit ctx"
  by (simp_all add: admission_ok_def auto_denied_def Let_def case_prod_beta split: option.split)

lemma record_probe_keeps:
  "ac_conn_limit (snd (record_probe_anomaly ip now ctx)) = ac_conn_limit ctx"
  "ac_cover_forward_limit (snd (record_probe_anomaly ip now ctx)) = ac_cover_forward_limit ctx"
  by (simp_all add: record_probe_anomaly_def Let_def case_prod_beta split: option.split)

subsection \<open>Permits\<close>

definition permits_ok :: "nat option \<Rightarrow> nat \<Rightarrow> nat option \<Rightarrow> bool" where
  "permits_ok limit out free \<longleftrightarrow> (case limit of None \<Rightarrow> free = None \<and> out = 0 | Some n \<Rightarrow> \<exists>p. free = Some p \<and> p + out = n)"

definition sv_inv :: "nat option \<Rightarrow> nat option \<Rightarrow> server \<Rightarrow> bool" where
  "sv_inv conn_limit cover_limit s \<longleftrightarrow> (case s of (ctx, conns, covers) \<Rightarrow>
     permits_ok conn_limit conns (ac_conn_limit ctx) \<and> permits_ok cover_limit covers (ac_cover_forward_limit ctx))"

text \<open>The permit a routed connection takes.\<close>

lemma route_permits:
  "ac_conn_limit (snd (route_to_cover_or_drop hash ip now ctx)) = ac_conn_limit ctx"
  "\<exists>cover p. case route_to_cover_or_drop hash ip now ctx of (r, ctx') \<Rightarrow>
     (r = Ok (Covered cover True) \<and> ac_cover_forward_limit ctx = Some (Suc p) \<and> ac_cover_forward_limit ctx' = Some p)
     \<or> ((\<forall>c. r \<noteq> Ok (Covered c True)) \<and> ac_cover_forward_limit ctx' = ac_cover_forward_limit ctx)"
  "fst (route_to_cover_or_drop hash ip now ctx) \<noteq> Ok (Handshake b)"
  using record_probe_keeps [of ip now ctx] gr0_implies_Suc
  by (auto simp: route_to_cover_or_drop_def try_acquire_cover_forward_def Let_def case_prod_beta
      split: option.splits rust.splits)

lemma sv_step_inv:
  assumes inv: "sv_inv conn_limit cover_limit s"
  shows "sv_inv conn_limit cover_limit (sv_step hash s e)"
proof -
  obtain ctx conns covers where s: "s = (ctx, conns, covers)" by (metis prod_cases3)
  have p: "permits_ok conn_limit conns (ac_conn_limit ctx)" "permits_ok cover_limit covers (ac_cover_forward_limit ctx)"
    using inv by (simp_all add: sv_inv_def s)
  have routed: "sv_inv conn_limit cover_limit
      (case route_to_cover_or_drop hash ip t c of
        (Ok (Handshake True), ctx) \<Rightarrow> (ctx, conns + 1, covers)
      | (Ok (Covered cover True), ctx) \<Rightarrow> (ctx, conns, covers + 1)
      | (_, ctx) \<Rightarrow> (ctx, conns, covers))"
    if "ac_conn_limit c = ac_conn_limit ctx" "ac_cover_forward_limit c = ac_cover_forward_limit ctx" for ip t c
  proof -
    obtain r c' where r: "route_to_cover_or_drop hash ip t c = (r, c')" by fastforce
    note keeps = route_permits [where hash = hash and ip = ip and now = t and ctx = c, unfolded r prod.case fst_conv snd_conv]
    from keeps(2) consider cover q where "r = Ok (Covered cover True)" "ac_cover_forward_limit c = Some (Suc q)" "ac_cover_forward_limit c' = Some q"
      | "\<forall>x. r \<noteq> Ok (Covered x True)" "ac_cover_forward_limit c' = ac_cover_forward_limit c" by blast
    then show ?thesis
    proof cases
      case 1
      then show ?thesis using p keeps(1) that by (auto simp: r sv_inv_def permits_ok_def split: option.splits)
    next
      case 2
      then show ?thesis using p keeps(1,3) that
        by (auto simp: r sv_inv_def split: rust.splits disposition.splits bool.splits)
    qed
  qed
  show ?thesis
  proof (cases e)
    case (Accept vd ip now later)
    let ?c = "snd (admission_ok vd ip now ctx)"
    note k = admission_ok_keeps [of vd ip now ctx]
    show ?thesis
    proof (cases "fst (admission_ok vd ip now ctx)")
      case False
      then show ?thesis using routed [OF k] by (simp add: s Accept accept_connection_def case_prod_beta)
    next
      case True
      show ?thesis
      proof (cases "fst (try_acquire_connection ?c) = GateRejected")
        case full: True
        then have "snd (try_acquire_connection ?c) = ?c" by (auto simp: try_acquire_connection_def split: option.splits if_splits)
        then show ?thesis
          using True full routed [of "bump_metric (\<lambda>m. m\<lparr>mt_conn_limit_rejected := mt_conn_limit_rejected m + 1\<rparr>) ?c"] k
          by (simp add: s Accept accept_connection_def case_prod_beta)
      next
        case False
        then show ?thesis using True p k
          by (auto simp: s Accept accept_connection_def try_acquire_connection_def sv_inv_def permits_ok_def case_prod_beta
              split: option.splits if_splits)
      qed
    qed
  next
    case (Failed ip now)
    then show ?thesis using p record_probe_keeps [of ip now ctx] by (simp add: s sv_inv_def)
  qed (use p in \<open>auto simp: s sv_inv_def permits_ok_def split: option.splits\<close>)
qed

interpretation server_permits: invariant_machine "sv_step hash" "sv_inv conn_limit cover_limit" for hash conn_limit cover_limit
  by unfold_locales (rule sv_step_inv)

text \<open>
  In any run of the server the connections that hold a permit never exceed the configured limit, the same for cover tasks,
  every permit comes back when its connection ends, and once the gates let a connection pass it is refused for want of a permit exactly
  when all are out.
\<close>

theorem permits_never_exceed:
  assumes "foldl (sv_step hash) (ctx\<lparr>ac_conn_limit := Some n, ac_cover_forward_limit := Some m\<rparr>, 0, 0) es = (ctx', conns, covers)"
  shows "conns \<le> n \<and> covers \<le> m \<and> ac_conn_limit ctx' = Some (n - conns) \<and> ac_cover_forward_limit ctx' = Some (m - covers)
    \<and> (fst (admission_ok vd ip now ctx') \<longrightarrow>
       (fst (accept_connection hash vd ip now later ctx') = Ok (Handshake True)) = (conns < n))"
proof -
  have "sv_inv (Some n) (Some m) (ctx\<lparr>ac_conn_limit := Some n, ac_cover_forward_limit := Some m\<rparr>, 0, 0)"
    by (simp add: sv_inv_def permits_ok_def)
  then have "sv_inv (Some n) (Some m) (foldl (sv_step hash) (ctx\<lparr>ac_conn_limit := Some n, ac_cover_forward_limit := Some m\<rparr>, 0, 0) es)"
    by (rule server_permits.run_inv)
  then have "sv_inv (Some n) (Some m) (ctx', conns, covers)" unfolding assms .
  then obtain p q where p: "ac_conn_limit ctx' = Some p" "p + conns = n" and q: "ac_cover_forward_limit ctx' = Some q" "q + covers = m"
    by (auto simp: sv_inv_def permits_ok_def)
  have "(fst (accept_connection hash vd ip now later ctx') = Ok (Handshake True)) = (0 < p)" if "fst (admission_ok vd ip now ctx')"
    using that p(1) admission_ok_keeps(1) [of vd ip now ctx'] route_permits(3)
    by (auto simp: accept_connection_def try_acquire_connection_def case_prod_beta)
  then show ?thesis using p q by auto
qed

section \<open>A probing prefix is denied\<close>

text \<open>What a step does to the deny list: checks and inserts at the instants of the event.\<close>

fun sv_times :: "sv_event \<Rightarrow> instant list" where
  "sv_times (Accept vd ip now later) = [now, later]"
| "sv_times (Failed ip now) = [now]"
| "sv_times _ = []"

fun deny_time :: "deny_event \<Rightarrow> instant" where
  "deny_time (DenyCheck ip now) = now"
| "deny_time (DenyInsert ip now) = now"

definition deny_moves :: "instant list \<Rightarrow> AdmissionCtx \<Rightarrow> AdmissionCtx \<Rightarrow> bool" where
  "deny_moves ts ctx ctx' \<longleftrightarrow> (\<forall>l. ac_auto_deny ctx = Some l \<longrightarrow>
     (\<exists>ds. ac_auto_deny ctx' = Some (foldl deny_step l ds) \<and> deny_time ` set ds \<subseteq> set ts))"

lemma deny_moves_refl: "ac_auto_deny ctx' = ac_auto_deny ctx \<Longrightarrow> deny_moves ts ctx ctx'"
  by (auto simp: deny_moves_def intro!: exI [of _ "[]"])

lemma deny_moves_trans:
  assumes "deny_moves ts a b" and "deny_moves us b c" and "set ts \<union> set us \<subseteq> set vs"
  shows "deny_moves vs a c"
  unfolding deny_moves_def
proof (intro allI impI)
  fix l assume "ac_auto_deny a = Some l"
  then obtain ds where d: "ac_auto_deny b = Some (foldl deny_step l ds)" "deny_time ` set ds \<subseteq> set ts"
    using assms(1) by (auto simp: deny_moves_def)
  then obtain ds' where "ac_auto_deny c = Some (foldl deny_step (foldl deny_step l ds) ds')" "deny_time ` set ds' \<subseteq> set us"
    using assms(2) unfolding deny_moves_def by blast
  then show "\<exists>ds. ac_auto_deny c = Some (foldl deny_step l ds) \<and> deny_time ` set ds \<subseteq> set vs"
    using d(2) assms(3) by (intro exI [of _ "ds @ ds'"]) auto
qed

lemma admission_moves: "deny_moves [now] ctx (snd (admission_ok vd ip now ctx))"
proof -
  have "deny_moves [now] ctx (snd (auto_denied ip now ctx))"
    by (auto simp: deny_moves_def auto_denied_def case_prod_beta intro!: exI [of _ "[DenyCheck ip now]"])
  moreover have "ac_auto_deny (snd (admission_ok vd ip now ctx)) = ac_auto_deny (snd (auto_denied ip now ctx))"
    by (simp add: admission_ok_def Let_def case_prod_beta)
  ultimately show ?thesis by (simp add: deny_moves_def)
qed

lemma record_moves: "deny_moves [now] ctx (snd (record_probe_anomaly ip now ctx))"
  by (auto simp: deny_moves_def record_probe_anomaly_def Let_def case_prod_beta split: option.split
      intro: exI [of _ "[DenyInsert ip now]"] exI [of _ "[]"])

lemma route_moves: "deny_moves [now] ctx (snd (route_to_cover_or_drop hash ip now ctx))"
proof -
  have "ac_auto_deny (snd (route_to_cover_or_drop hash ip now ctx)) = ac_auto_deny (snd (record_probe_anomaly ip now ctx))"
    by (auto simp: route_to_cover_or_drop_def try_acquire_cover_forward_def Let_def case_prod_beta split: option.splits rust.splits)
  then show ?thesis using record_moves [of now ctx ip] by (simp add: deny_moves_def)
qed

lemma accept_moves: "deny_moves [now, later] ctx (snd (accept_connection hash vd ip now later ctx))"
proof -
  let ?c = "snd (admission_ok vd ip now ctx)"
  have gate: "ac_auto_deny (snd (try_acquire_connection c)) = ac_auto_deny c" for c
    by (auto simp: try_acquire_connection_def split: option.splits)
  have "snd (accept_connection hash vd ip now later ctx) = snd (try_acquire_connection ?c)
      \<or> (\<exists>c. ac_auto_deny c = ac_auto_deny ?c \<and> snd (accept_connection hash vd ip now later ctx) = snd (route_to_cover_or_drop hash ip later c))"
  proof (cases "fst (admission_ok vd ip now ctx) \<and> fst (try_acquire_connection ?c) = GateRejected")
    case True
    let ?d = "bump_metric (\<lambda>m. m\<lparr>mt_conn_limit_rejected := mt_conn_limit_rejected m + 1\<rparr>) (snd (try_acquire_connection ?c))"
    have "snd (accept_connection hash vd ip now later ctx) = snd (route_to_cover_or_drop hash ip later ?d)"
      using True by (simp add: accept_connection_def case_prod_beta)
    moreover have "ac_auto_deny ?d = ac_auto_deny ?c" by (simp add: gate)
    ultimately show ?thesis by blast
  next
    case False
    then show ?thesis by (auto simp: accept_connection_def case_prod_beta split: ConnGate.split)
  qed
  then have "deny_moves [later] ?c (snd (accept_connection hash vd ip now later ctx))"
  proof (elim disjE exE conjE)
    assume "snd (accept_connection hash vd ip now later ctx) = snd (try_acquire_connection ?c)"
    then show ?thesis using gate by (intro deny_moves_refl) simp
  next
    fix c assume c: "ac_auto_deny c = ac_auto_deny ?c" "snd (accept_connection hash vd ip now later ctx) = snd (route_to_cover_or_drop hash ip later c)"
    show ?thesis using route_moves [of later c hash ip] c by (simp add: deny_moves_def)
  qed
  then show ?thesis by (rule deny_moves_trans [OF admission_moves]) simp
qed

lemma sv_step_moves: "deny_moves (sv_times e) (fst s) (fst (sv_step hash s e))"
proof -
  obtain ctx conns covers where s: "s = (ctx, conns, covers)" by (metis prod_cases3)
  show ?thesis
  proof (cases e)
    case (Accept vd ip now later)
    have "fst (sv_step hash s e) = snd (accept_connection hash vd ip now later ctx)"
      by (auto simp: s Accept split: prod.splits rust.splits disposition.splits bool.splits)
    then show ?thesis using accept_moves by (simp add: s Accept)
  next
    case (Failed ip now)
    then show ?thesis using record_moves by (simp add: s)
  qed (auto simp: s intro: deny_moves_refl)
qed

lemma sv_run_moves: "deny_moves (concat (map sv_times es)) (fst s) (fst (foldl (sv_step hash) s es))"
proof (induction es arbitrary: s)
  case (Cons e es)
  show ?case using deny_moves_trans [OF sv_step_moves [of e s hash] Cons.IH [of "sv_step hash s e"]] by simp
qed (simp add: deny_moves_refl)

text \<open>
  C15. When the probe detector raises an alert and its prefix enters the deny list, no connection from that prefix
  gets a handshake until the time to live has passed, whatever the other gates say and whatever else
  the server does in between.
\<close>

theorem probing_prefix_denied:
  assumes "ac_probe_anomaly ctx = Some d" and "ac_auto_deny ctx = Some l" and "deny_inv l" and "dl_ttl l \<noteq> 0"
    and "fst (probe_record_at ip t d) \<noteq> None" and "fst (deny_insert ip t l) = Ok True"
    and "\<forall>e\<in>set es. \<forall>x\<in>set (sv_times e). t \<le> x \<and> x < t + dl_ttl l"
    and "prefix_key ip' = prefix_key ip" and "now < t + dl_ttl l"
  shows "fst (accept_connection hash vd ip' now later
      (fst (foldl (sv_step hash) (snd (record_probe_anomaly ip t ctx), conns, covers) es))) \<noteq> Ok (Handshake b)"
proof -
  let ?ctx = "snd (record_probe_anomaly ip t ctx)" and ?ttl = "dl_ttl l"
  let ?after = "fst (foldl (sv_step hash) (?ctx, conns, covers) es)"
  have l: "ac_auto_deny ?ctx = Some (snd (deny_insert ip t l))"
    using assms(1,2,5) by (auto simp: record_probe_anomaly_def Let_def case_prod_beta)
  have "denied_until ?ttl (prefix_key ip) (t + ?ttl) (snd (deny_insert ip t l))"
    using deny_insert_denied assms(3,6) by (simp add: deny_inv_def)
  note base = this
  obtain ds where ds: "ac_auto_deny ?after = Some (foldl deny_step (snd (deny_insert ip t l)) ds)"
      "deny_time ` set ds \<subseteq> set (concat (map sv_times es))"
    using sv_run_moves [of es "(?ctx, conns, covers)" hash, unfolded deny_moves_def fst_conv, rule_format, OF l] by blast
  have "\<forall>x\<in>set ds. keeps_denial ?ttl (prefix_key ip) (t + ?ttl) x"
  proof
    fix x assume "x \<in> set ds"
    then have "deny_time x \<in> set (concat (map sv_times es))" using ds(2) by blast
    then have "t \<le> deny_time x" "deny_time x < t + ?ttl" using assms(7) by auto
    then show "keeps_denial ?ttl (prefix_key ip) (t + ?ttl) x" by (cases x) simp_all
  qed
  from denials.run_denied [OF base this assms(9)]
  have "\<forall>i. prefix_key i = prefix_key ip \<longrightarrow> fst (is_denied i now (foldl deny_step (snd (deny_insert ip t l)) ds))" .
  then have "fst (auto_denied ip' now ?after)" using ds(1) assms(8) by (simp add: auto_denied_def case_prod_beta)
  then have "\<not> fst (admission_ok vd ip' now ?after)" by (simp add: admission_ok_def case_prod_beta)
  then have "accept_connection hash vd ip' now later ?after = route_to_cover_or_drop hash ip' later (snd (admission_ok vd ip' now ?after))"
    by (simp add: accept_connection_def case_prod_beta)
  then show ?thesis using route_permits(3) by metis
qed

section \<open>The denial of a steady prober is not renewed\<close>

definition record_run :: "AdmissionCtx \<Rightarrow> (IpAddr \<times> instant) list \<Rightarrow> AdmissionCtx" where
  "record_run = foldl (\<lambda>ctx x. snd (record_probe_anomaly (fst x) (snd x) ctx))"

definition denied_at_most :: "nat \<Rightarrow> bytes \<Rightarrow> instant \<Rightarrow> AutoDenyList \<Rightarrow> bool" where
  "denied_at_most ttl key d l \<longleftrightarrow> dl_ttl l = ttl \<and> hm_ok (dl_entries l)
     \<and> (\<forall>e family. hm_get (dl_entries l) key = Some (e, family) \<longrightarrow> e \<le> d)"

lemma denied_at_most_over: "denied_at_most ttl (prefix_key ip) d l \<Longrightarrow> d \<le> now \<Longrightarrow> \<not> fst (is_denied ip now l)"
  by (auto simp: denied_at_most_def is_denied_def deny_vacuum_def Let_def hm_get_retain split: option.splits if_splits)

lemma record_parts:
  assumes "ac_probe_anomaly ctx = Some d" and "ac_auto_deny ctx = Some l"
  shows "ac_probe_anomaly (snd (record_probe_anomaly ip now ctx)) = Some (snd (probe_record_at ip now d))"
    and "ac_auto_deny (snd (record_probe_anomaly ip now ctx)) = Some (if fst (probe_alert ip now d) then snd (deny_insert ip now l) else l)"
  using assms by (simp_all add: record_probe_anomaly_def probe_alert_def Let_def case_prod_beta)

lemma record_run_denials:
  assumes "ac_probe_anomaly ctx = Some d" and "ac_auto_deny ctx = Some l" and "denied_at_most ttl key (t + ttl) l"
    and "\<forall>i < length es. prefix_key (fst (es ! i)) = key \<and> fst (probe_alert (fst (es ! i)) (snd (es ! i)) (probe_run d (take i es)))
      \<longrightarrow> snd (es ! i) \<le> t"
  shows "ac_probe_anomaly (record_run ctx es) = Some (probe_run d es)
    \<and> (\<exists>l'. ac_auto_deny (record_run ctx es) = Some l' \<and> denied_at_most ttl key (t + ttl) l')"
  using assms(4)
proof (induction es rule: rev_induct)
  case (snoc x es)
  have "\<forall>i < length es. prefix_key (fst (es ! i)) = key \<and> fst (probe_alert (fst (es ! i)) (snd (es ! i)) (probe_run d (take i es)))
      \<longrightarrow> snd (es ! i) \<le> t"
  proof (intro allI impI)
    fix i assume "i < length es" and "prefix_key (fst (es ! i)) = key \<and> fst (probe_alert (fst (es ! i)) (snd (es ! i)) (probe_run d (take i es)))"
    then show "snd (es ! i) \<le> t" using snoc.prems [rule_format, of i] by (simp add: nth_append)
  qed
  then obtain l' where l': "ac_probe_anomaly (record_run ctx es) = Some (probe_run d es)" "ac_auto_deny (record_run ctx es) = Some l'"
      "denied_at_most ttl key (t + ttl) l'" using snoc.IH by blast
  have late: "prefix_key (fst x) = key \<Longrightarrow> fst (probe_alert (fst x) (snd x) (probe_run d es)) \<Longrightarrow> snd x \<le> t"
    using snoc.prems [rule_format, of "length es"] by simp
  have "denied_at_most ttl key (t + ttl) (snd (deny_insert (fst x) (snd x) l'))"
    if "fst (probe_alert (fst x) (snd x) (probe_run d es))"
    using l'(3) late that by (auto simp: denied_at_most_def deny_insert_state hm_get_insert)
  then show ?case using record_parts [OF l'(1,2), of "fst x" "snd x"] l'(3) by (auto simp: record_run_def probe_run_def)
qed (use assms(1-3) in \<open>simp add: record_run_def probe_run_def\<close>)

lemma steady_suffix: "steady w (xs @ ys) \<Longrightarrow> steady w ys"
proof (induction xs)
  case (Cons x xs) then show ?case by (cases "xs @ ys") auto
qed simp

text \<open>
  C21. Connections that are denied are recorded as probes too, so a prefix that keeps knocking less than a window apart stays in the burst its alert
  was raised for: it raises no second alert, its denial runs from the first, and once that has run out the list lets it
  through for as long as it keeps knocking.
\<close>

theorem steady_prober_not_denied_again:
  assumes "0 < window" and "0 < threshold" and "sorted (map snd (es @ [(ip, t)] @ later))"
    and "card (prefix_key ` fst ` set (es @ [(ip, t)] @ later)) \<le> max_prefixes"
    and "ac_probe_anomaly ctx = Some (probe_new window threshold max_prefixes)" and "ac_auto_deny ctx = Some (deny_new ttl max_entries start)"
    and fired: "fst (probe_record_at ip t (probe_run (probe_new window threshold max_prefixes) es)) \<noteq> None"
    and busy: "steady window (history (map (\<lambda>x. (prefix_key (fst x), snd x)) later) (prefix_key ip) @ [t])"
    and "t + ttl \<le> now"
  shows "\<exists>l. ac_auto_deny (record_run ctx (es @ [(ip, t)] @ later)) = Some l \<and> \<not> fst (is_denied ip now l)"
proof -
  let ?d = "probe_new window threshold max_prefixes" and ?xs = "es @ [(ip, t)] @ later" and ?key = "prefix_key ip"
  let ?keyed = "map (\<lambda>x. (prefix_key (fst x), snd x))"
  have early: "snd (?xs ! i) \<le> t"
    if i: "i < length ?xs" and k: "prefix_key (fst (?xs ! i)) = ?key" and a: "fst (probe_alert (fst (?xs ! i)) (snd (?xs ! i)) (probe_run ?d (take i ?xs)))"
    for i
  proof (cases "i \<le> length es")
    case True
    then show ?thesis using assms(3) by (cases "i = length es") (auto simp: nth_append sorted_append)
  next
    case False
    define j where "j = i - length es - 1"
    have j: "j < length later" "?xs ! i = later ! j" "take i ?xs = es @ [(ip, t)] @ take j later"
      using i False by (auto simp: j_def nth_append take_Cons' not_le)
    obtain ip' s where x: "later ! j = (ip', s)" by fastforce
    let ?ys = "es @ [(ip, t)] @ take j later" and ?h = "history (?keyed (take j later)) ?key"
    have split: "take j later @ (ip', s) # drop (Suc j) later = later" using id_take_nth_drop [OF j(1)] by (simp add: x)
    then have xs: "(?ys @ [(ip', s)]) @ drop (Suc j) later = ?xs" by simp
    have key: "prefix_key ip' = ?key" using k unfolding j(2) x by simp
    have "history (?keyed (take j later @ (ip', s) # drop (Suc j) later)) ?key
        = history (?keyed (drop (Suc j) later)) ?key @ s # ?h" by (simp add: history_def key)
    then have "steady window (history (?keyed (drop (Suc j) later)) ?key @ (s # ?h @ [t]))" using busy by (simp add: split)
    then have steady: "steady window (s # ?h @ [t])" by (rule steady_suffix)
    have "sorted (map snd (?ys @ [(ip', s)]) @ map snd (drop (Suc j) later))" using assms(3) by (simp only: xs flip: map_append)
    then have "sorted (map snd (?ys @ [(ip', s)]))" by (rule sorted_append [THEN iffD1, THEN conjunct1])
    then have sorted: "sorted (map snd ?ys @ [s])" by simp
    have "set (?ys @ [(ip', s)]) \<subseteq> set ?xs" by (subst xs [symmetric]) auto
    then have "fst ` set (?keyed (es @ [(ip, t)] @ take j later @ [(ip', s)])) \<subseteq> prefix_key ` fst ` set ?xs"
      by (force simp: image_image)
    then have room: "card (fst ` set (?keyed (es @ [(ip, t)] @ take j later @ [(ip', s)]))) \<le> max_prefixes"
      using assms(4) by (meson card_mono finite_imageI finite_set le_trans)
    have "fst (probe_alert ip t (foldl (\<lambda>d x. snd (probe_alert (fst x) (snd x) d)) ?d es))"
      using fired unfolding probe_run_alt by (simp add: probe_alert_def)
    from probe.reported_once [OF probe_new_holds [OF assms(1,2)] sorted room key this steady]
    have "\<not> fst (probe_alert ip' s (probe_run ?d ?ys))" unfolding probe_run_alt .
    then show ?thesis using a unfolding j(2,3) x by simp
  qed
  have "denied_at_most ttl ?key (t + ttl) (deny_new ttl max_entries start)" by (simp add: denied_at_most_def deny_new_def)
  from record_run_denials [OF assms(5,6) this] early
  show ?thesis using denied_at_most_over assms(9) by blast
qed

section \<open>The quota at the door\<close>

lemma over_user_quota_answer:
  assumes "fst (over_user_quota uid t ctx) = Ok over" and "ac_user_quota ctx' = ac_user_quota ctx"
  shows "\<exists>r. over_user_quota uid t ctx' = (Ok over, ctx'\<lparr>ac_user_quota := r\<rparr>)"
  using assms
  by (cases "ac_user_quota ctx"; auto simp: over_user_quota_def split: rust.splits prod.splits) (metis AdmissionCtx.surjective AdmissionCtx.update_convs(9))+

text \<open>A session of a user over quota is refused, whatever the rate limiter says.\<close>

lemma over_quota_refused:
  assumes "fst (over_user_quota uid (vd_quota_now vd) ctx) = Ok True"
  shows "fst (user_admission_ok ho vd (Some uid) now later ctx) = Ok False"
proof -
  have over: "fst (over_user_quota uid (vd_quota_now vd) (ctx\<lparr>ac_user_quarantine := s\<rparr>)) = Ok True" for s
    using over_user_quota_answer [OF assms, of "ctx\<lparr>ac_user_quarantine := s\<rparr>"] by auto
  show ?thesis
    using assms over by (auto simp: user_admission_ok_def Let_def case_prod_beta split: option.split)
qed

text \<open>
  C22. The quota holds at the door.  Whatever records and caps reached the tracker in the order of their times, no call panicked,
  and while its users fit into the map a session of a user is refused once the bytes of the user's current period have
  reached the last cap set for it (the default where none was, and zero for no cap), and only then, if no ban and no rate limit stands against it.
  The periods of a user follow each other from its first event without drift, no matter how late the records come.
\<close>

theorem quota_enforced:
  assumes "clock_ok P now" and "sorted (map ev_time es)" and "\<forall>e \<in> set es. 0 \<le> ev_time e \<and> ev_time e \<le> now"
    and "card (ev_user ` set es) \<le> max_entries"
  shows "\<exists>q fl'. quota_run es ((quota_new P d max_entries t0)\<lparr>pq_persistence_path := path\<rparr>, fl) = Ok (q, fl')
     \<and> (\<forall>ctx vd ho t later. ac_user_quota ctx = Some q \<and> vd_quota_now vd = now \<longrightarrow>
          (over_quota P d es u now \<longrightarrow> fst (user_admission_ok ho vd (Some u) t later ctx) = Ok False)
        \<and> (\<not> over_quota P d es u now \<and> ac_user_quarantine ctx = None \<and> vd_user_rate vd \<longrightarrow>
             fst (user_admission_ok ho vd (Some u) t later ctx) = Ok True))"
proof -
  obtain q fl' q' where run: "quota_run es ((quota_new P d max_entries t0)\<lparr>pq_persistence_path := path\<rparr>, fl) = Ok (q, fl')"
    and over: "is_over_quota_at u now q = Ok (over_quota P d es u now, q')"
    using quota_exact [OF assms] by blast
  have "fst (over_user_quota u now ctx) = Ok (over_quota P d es u now)" if "ac_user_quota ctx = Some q" for ctx
    using that over by (simp add: over_user_quota_def)
  then show ?thesis using run over_quota_refused
    by (intro exI [of _ q] exI [of _ fl']) (auto simp: user_admission_ok_def Let_def case_prod_beta)
qed

section \<open>Abuse of the rate limit leads to a ban\<close>

text \<open>
  C16. When a user's refused session raises a rate-limit alert and that kind is opted in, the user enters the quarantine: until
  the time to live has passed every later session of the user is refused, also when the rate limiter and the quota would
  let it in, whatever happens to the list in between short of lifting the ban.
\<close>

theorem rate_abuse_bans_user:
  assumes "ac_user_quarantine ctx = Some (q, fl)" and "ac_abuse_detector_rate_limit ctx = Some detector"
    and "should_quarantine_on (as_label RateLimit) ctx"
    and "hm_ok (uq_inner q)" and "hm_len (uq_inner q) < uq_max_entries q" and "uq_ttl q \<noteq> 0" and "ho_now ho + uq_ttl q < from_secs (2 ^ 63)"
    and "fst (check_at uid now q) = None" and "fst (over_user_quota uid (vd_quota_now vd) ctx) = Ok False" and "\<not> vd_user_rate vd"
    and "fst (abuse_record_at uid later detector)"
    and "\<forall>e\<in>set es. harmless uid (ho_now ho) t' e" and "t' < ho_now ho + uq_ttl q"
    and next_ctx: "ac_user_quarantine ctx' = map_option (\<lambda>s. foldl uq_step s es) (ac_user_quarantine (snd (user_admission_ok ho vd (Some uid) now later ctx)))"
  shows "fst (user_admission_ok ho vd (Some uid) now later ctx) = Ok False
    \<and> fst (user_admission_ok ho' vd' (Some uid) t' later' ctx') = Ok False"
proof -
  let ?q = "snd (check_at uid now q)" and ?label = "as_label RateLimit" and ?ttl = "uq_ttl q"
  let ?ins = "insert_at ho uid ?label (ho_now ho) (?q, fl)"
  have q: "hm_ok (uq_inner ?q)" "hm_len (uq_inner ?q) < uq_max_entries ?q" "uq_ttl ?q = ?ttl"
    using assms(4,5) check_at_state [of uid now q] maybe_vacuum_inner [of now q] le_less_trans [OF hm_len_retain_le] by auto
  note state = insert_at_state [of ho uid ?label "ho_now ho" ?q fl]
  have inserted: "fst (fst ?ins) = Ok True"
    using q assms(6,7) by (simp add: insert_at_def instant_add_def Let_def case_prod_beta)
  have "uq_inner (fst (snd ?ins)) = hm_insert uid \<lparr>qe_expires_at = ho_now ho + ?ttl, qe_triggered_by_kind = ?label\<rparr> (uq_inner ?q)"
    and "uq_ttl (fst (snd ?ins)) = ?ttl" using state q assms(6,7) by simp_all
  then have base: "quarantined ?ttl uid (ho_now ho + ?ttl) (snd ?ins)"
    using q(1) assms(6) by (simp add: quarantined_def banned_until_def hm_get_insert)
  have keeps: "\<forall>e\<in>set es. keeps_ban ?ttl uid (ho_now ho + ?ttl) e" using assms(12,13) unfolding keeps_ban_def by blast
  obtain r where over: "over_user_quota uid (vd_quota_now vd) (ctx\<lparr>ac_user_quarantine := Some (?q, fl)\<rparr>)
      = (Ok False, ctx\<lparr>ac_user_quarantine := Some (?q, fl), ac_user_quota := r\<rparr>)"
    using over_user_quota_answer [OF assms(9), of "ctx\<lparr>ac_user_quarantine := Some (?q, fl)\<rparr>"] by auto
  have call: "user_admission_ok ho vd (Some uid) now later ctx
      = (Ok False, snd (user_admission_ok ho vd (Some uid) now later ctx))
      \<and> ac_user_quarantine (snd (user_admission_ok ho vd (Some uid) now later ctx)) = Some (snd ?ins)"
    using assms(1-3,8,10,11) inserted over
    by (simp add: user_admission_ok_def note_rate_abuse_def should_quarantine_on_def Let_def case_prod_beta)
  then have "ac_user_quarantine ctx' = Some (foldl uq_step (snd ?ins) es)" using next_ctx by simp
  moreover obtain secs where "fst (check_at uid t' (fst (foldl uq_step (snd ?ins) es))) = Some secs"
    using quarantine_bans.run_denied [OF base keeps assms(13)] by blast
  ultimately have "fst (user_admission_ok ho' vd' (Some uid) t' later' ctx') = Ok False"
    by (simp add: user_admission_ok_def Let_def case_prod_beta)
  then show ?thesis using call by (metis fst_conv)
qed

section \<open>Witnesses\<close>

definition open_ctx :: AdmissionCtx where
  "open_ctx = \<lparr>ac_auto_deny = Some (deny_new 20 5 0), ac_firewall = \<lparr>rf_inner = firewall_new\<rparr>, ac_metrics = None,
     ac_probe_anomaly = Some (probe_new 10 1 4), ac_cover_endpoint = None, ac_cover_forward_limit = None, ac_conn_limit = None,
     ac_user_quarantine = Some (uq_new 100 5 0, Missing), ac_user_quota = None, ac_quarantine_on_kinds = [''rate_limit''],
     ac_abuse_detector_rate_limit = Some (abuse_new 10 1), ac_abuse_fires = Some (fires_new 4)\<rparr>"

definition passing :: verdicts where
  "passing = \<lparr>vd_handshake_budget = True, vd_rate_limit = True, vd_quota_now = 0, vd_user_rate = True\<rparr>"

lemma example_keys: "prefix_key (V4 0x304) = [0, 0, 3, 0, 0, 0]" "prefix_key (V4 0x3fe) = [0, 0, 3, 0, 0, 0]"
    "prefix_key (V4 0x406) = [0, 0, 4, 0, 0, 0]"
  by code_simp+

lemma permits_never_exceed_witness:
  "\<exists>ctx' conns covers. foldl (sv_step (\<lambda>_. 0)) (open_ctx\<lparr>ac_conn_limit := Some 1, ac_cover_forward_limit := Some 1\<rparr>, 0, 0)
       [Accept passing (V4 0x304) 1 2] = (ctx', conns, covers) \<and> conns = 1 \<and> ac_conn_limit ctx' = Some 0"
proof -
  obtain ctx' conns covers where run: "foldl (sv_step (\<lambda>_. 0)) (open_ctx\<lparr>ac_conn_limit := Some 1, ac_cover_forward_limit := Some 1\<rparr>, 0, 0)
       [Accept passing (V4 0x304) 1 2] = (ctx', conns, covers)" by (metis prod_cases3)
  moreover have "conns = 1"
    using run by (simp add: open_ctx_def passing_def accept_connection_def admission_ok_def auto_denied_def is_denied_def deny_new_def
        deny_is_enabled_def deny_vacuum_def DENY_VACUUM_INTERVAL_def from_secs_def is_active_def firewall_new_def
        try_acquire_connection_def Let_def del: prefix_key.simps)
  ultimately show ?thesis using permits_never_exceed [OF run] by auto
qed

lemma probing_prefix_denied_witness:
  "fst (accept_connection (\<lambda>_. 0) passing (V4 0x3fe) 25 26
      (fst (foldl (sv_step (\<lambda>_. 0)) (snd (record_probe_anomaly (V4 0x304) 10 open_ctx), 0, 0)
        [Accept passing (V4 0x406) 20 21, Failed (V4 0x3fe) 22]))) \<noteq> Ok (Handshake False)"
proof (rule probing_prefix_denied [where l = "deny_new 20 5 0" and d = "probe_new 10 1 4"])
  show "fst (probe_record_at (V4 0x304) 10 (probe_new 10 1 4)) \<noteq> None"
    by (simp add: probe_record_at_def probe_new_def new_with_recent_cap_def window_retain_def hm_retain_def hm_contains_def
        window_get_def window_push_def Let_def del: prefix_key.simps)
  show "fst (deny_insert (V4 0x304) 10 (deny_new 20 5 0)) = Ok True"
    by (simp add: deny_insert_state deny_new_def from_secs_def del: prefix_key.simps)
  show "prefix_key (V4 0x3fe) = prefix_key (V4 0x304)" by (simp only: example_keys)
qed (simp_all add: open_ctx_def deny_inv_def deny_new_def)

lemma steady_prober_not_denied_again_witness:
  "\<exists>l. ac_auto_deny (record_run open_ctx [(V4 0x304, 2), (V4 0x3fe, 8), (V4 0x304, 16)]) = Some l \<and> \<not> fst (is_denied (V4 0x304) 22 l)"
proof -
  have fired: "fst (probe_record_at (V4 0x304) 2 (probe_run (probe_new 10 1 4) [])) \<noteq> None"
    by (simp add: probe_run_def probe_record_at_def probe_new_def new_with_recent_cap_def window_retain_def hm_retain_def hm_contains_def
        window_get_def window_push_def Let_def del: prefix_key.simps)
  show ?thesis
    using steady_prober_not_denied_again [of 10 1 "[]" "V4 0x304" 2 "[(V4 0x3fe, 8), (V4 0x304, 16)]" 4 open_ctx 20 5 0 22] fired
    by (simp add: example_keys open_ctx_def history_def del: prefix_key.simps)
qed

lemma rate_abuse_bans_user_witness:
  "fst (user_admission_ok (idle_host 10 0) (passing\<lparr>vd_user_rate := False\<rparr>) (Some [7]) 10 11 open_ctx) = Ok False
   \<and> fst (user_admission_ok (idle_host 50 0) passing (Some [7]) 50 51
        (snd (user_admission_ok (idle_host 10 0) (passing\<lparr>vd_user_rate := False\<rparr>) (Some [7]) 10 11 open_ctx))) = Ok False"
proof (rule rate_abuse_bans_user [where es = "[]" and q = "uq_new 100 5 0" and fl = Missing and detector = "abuse_new 10 1"])
  show "fst (check_at [7] 10 (uq_new 100 5 0)) = None"
    by (simp add: check_at_def uq_new_def maybe_vacuum_def VACUUM_INTERVAL_def from_secs_def Let_def)
  show "fst (abuse_record_at [7] 11 (abuse_new 10 1))"
    by (simp add: abuse_record_at_def abuse_new_def window_retain_def hm_retain_def window_get_def window_push_def Let_def)
qed (simp_all add: open_ctx_def over_user_quota_def passing_def should_quarantine_on_def uq_new_def from_secs_def option.map_ident)

lemma quota_enforced_witness:
  "\<exists>q fl'. quota_run [QRecord (plain_host 0 5) [7] 60 1000000000, QCap (plain_host 2000000000 7) [8] 0, QRecord (plain_host 0 5) [7] 50 4000000000]
       ((quota_new (from_secs 10) 100 4 0)\<lparr>pq_persistence_path := None\<rparr>, Missing) = Ok (q, fl')
     \<and> fst (user_admission_ok (idle_host 9000000000 0) (passing\<lparr>vd_quota_now := 9000000000\<rparr>) (Some [7]) 9000000000 9000000001
          (open_ctx\<lparr>ac_user_quota := Some q\<rparr>)) = Ok False"
proof -
  let ?es = "[QRecord (plain_host 0 5) [7] 60 1000000000, QCap (plain_host 2000000000 7) [8] 0, QRecord (plain_host 0 5) [7] 50 4000000000]"
  have "clock_ok (from_secs 10) 9000000000" by (auto simp: clock_ok_def from_secs_def)
  moreover have "sorted (map ev_time ?es)" "\<forall>e \<in> set ?es. 0 \<le> ev_time e \<and> ev_time e \<le> 9000000000" "card (ev_user ` set ?es) \<le> 4"
    by (simp_all add: card_insert_if)
  moreover have "over_quota (from_secs 10) 100 ?es [7] 9000000000"
    by (simp add: over_quota_def quota_start_def usage_in_def from_secs_def)
  ultimately obtain q fl' where "quota_run ?es ((quota_new (from_secs 10) 100 4 0)\<lparr>pq_persistence_path := None\<rparr>, Missing) = Ok (q, fl')"
      "\<And>ctx vd ho t later. ac_user_quota ctx = Some q \<Longrightarrow> vd_quota_now vd = 9000000000
         \<Longrightarrow> fst (user_admission_ok ho vd (Some [7]) t later ctx) = Ok False"
    using quota_enforced [of "from_secs 10" 9000000000 ?es 4, where d = 100 and ?t0.0 = 0 and path = None and fl = Missing and u = "[7]"] by metis
  then show ?thesis by (intro exI [of _ q] exI [of _ fl']) simp
qed

end
