(* ===== verification/Conn_Limit.thy ===== *)
theory Conn_Limit
  imports Proteus_Spec "HOL-Library.Multiset"
begin

text \<open>
  The limit on concurrent sessions of a user (\<open>per_user_conn_limit.rs\<close>): a count per user, raised when a
  session acquires a guard and lowered when the guard is dropped.

  Shown: the counts are exactly the live guards, so that a session is refused exactly when the user holds the
  maximum, and the map has no entry for a user without one.  The text for metrics is left out.
\<close>

record PerUserConnLimiter =
  cl_inner :: "(bytes, nat) hmap"
  cl_max_per_user :: nat
  cl_rejections :: u64

text \<open>A guard is the id it will release.\<close>

datatype AcquireOutcome = Acquired bytes | Rejected nat

definition limiter_new :: "nat \<Rightarrow> PerUserConnLimiter" where
  "limiter_new max_per_user = \<lparr>cl_inner = [], cl_max_per_user = max_per_user, cl_rejections = 0\<rparr>"

definition active_users :: "PerUserConnLimiter \<Rightarrow> nat" where
  "active_users l = hm_len (cl_inner l)"

definition limiter_try_acquire :: "bytes \<Rightarrow> PerUserConnLimiter \<Rightarrow> AcquireOutcome \<times> PerUserConnLimiter" where
  "limiter_try_acquire user_id l =
     (if cl_max_per_user l = 0 then (Acquired user_id, l)
      else
        (let c = (case hm_get (cl_inner l) user_id of Some c \<Rightarrow> c | None \<Rightarrow> 0);
             g = hm_insert user_id c (cl_inner l) in
         if cl_max_per_user l \<le> c then
           (Rejected (cl_max_per_user l),
            l\<lparr>cl_inner := (if c = 0 then hm_remove user_id g else g), cl_rejections := cl_rejections l + 1\<rparr>)
         else (Acquired user_id, l\<lparr>cl_inner := hm_insert user_id (c + 1) g\<rparr>)))"

text \<open>\<open>release\<close>, called when a guard is dropped.\<close>

definition limiter_release :: "bytes \<Rightarrow> PerUserConnLimiter \<Rightarrow> PerUserConnLimiter" where
  "limiter_release user_id l =
     (if cl_max_per_user l = 0 then l
      else
        (case hm_get (cl_inner l) user_id of
           Some c \<Rightarrow>
             (let c' = (if 0 < c then c - 1 else c); g = hm_insert user_id c' (cl_inner l) in
              l\<lparr>cl_inner := (if c' = 0 then hm_remove user_id g else g)\<rparr>)
         | None \<Rightarrow> l))"

section \<open>The counts are the live guards\<close>

text \<open>Sessions come and go: the limiter with the guards that are alive.  A guard is dropped once.\<close>

datatype limit_event = Arrive bytes | Leave bytes

fun limit_step :: "PerUserConnLimiter \<times> bytes multiset \<Rightarrow> limit_event \<Rightarrow> PerUserConnLimiter \<times> bytes multiset" where
  "limit_step (l, live) (Arrive u) =
     (case limiter_try_acquire u l of (Acquired g, l') \<Rightarrow> (l', add_mset g live) | (Rejected c, l') \<Rightarrow> (l', live))"
| "limit_step (l, live) (Leave u) = (if u \<in># live then (limiter_release u l, live - {#u#}) else (l, live))"

text \<open>The entries of a map that counts the live guards.\<close>

definition counts :: "(bytes, nat) hmap \<Rightarrow> (bytes \<Rightarrow> nat) \<Rightarrow> bool" where
  "counts g f \<longleftrightarrow> hm_ok g \<and> (\<forall>u. hm_get g u = (if f u = 0 then None else Some (f u)))"

lemma counts_insert: "counts g f \<Longrightarrow> c \<noteq> 0 \<Longrightarrow> counts (hm_insert u c g) (f(u := c))"
  by (simp add: counts_def hm_get_insert)

lemma counts_insert_twice: "counts g f \<Longrightarrow> c \<noteq> 0 \<Longrightarrow> counts (hm_insert u c (hm_insert u k g)) (f(u := c))"
  by (simp add: counts_def hm_get_insert)

lemma counts_remove: "counts g f \<Longrightarrow> counts (hm_remove u (hm_insert u k g)) (f(u := 0))"
  by (simp add: counts_def hm_get_insert hm_get_remove)

lemma acquire_counts:
  assumes counts: "counts (cl_inner l) f" and max: "cl_max_per_user l = n" "n \<noteq> 0"
  shows "f u < n \<Longrightarrow> \<exists>g. limiter_try_acquire u l = (Acquired u, l\<lparr>cl_inner := g\<rparr>) \<and> counts g (f(u := f u + 1))"
    and "n \<le> f u \<Longrightarrow> \<exists>g. limiter_try_acquire u l = (Rejected n, l\<lparr>cl_inner := g, cl_rejections := cl_rejections l + 1\<rparr>) \<and> counts g f"
proof -
  have get: "(case hm_get (cl_inner l) u of Some c \<Rightarrow> c | None \<Rightarrow> 0) = f u" using counts by (simp add: counts_def)
  show "\<exists>g. limiter_try_acquire u l = (Acquired u, l\<lparr>cl_inner := g\<rparr>) \<and> counts g (f(u := f u + 1))" if "f u < n"
  proof -
    have "limiter_try_acquire u l = (Acquired u, l\<lparr>cl_inner := hm_insert u (f u + 1) (hm_insert u (f u) (cl_inner l))\<rparr>)"
      using that max by (simp add: limiter_try_acquire_def get Let_def)
    then show ?thesis using counts_insert_twice [OF counts, of "f u + 1"] by auto
  qed
  show "\<exists>g. limiter_try_acquire u l = (Rejected n, l\<lparr>cl_inner := g, cl_rejections := cl_rejections l + 1\<rparr>) \<and> counts g f"
    if "n \<le> f u"
  proof -
    have "limiter_try_acquire u l = (Rejected n, l\<lparr>cl_inner := hm_insert u (f u) (cl_inner l), cl_rejections := cl_rejections l + 1\<rparr>)"
      using that max by (simp add: limiter_try_acquire_def get Let_def)
    then show ?thesis using counts_insert [OF counts, of "f u" u] that max(2) by auto
  qed
qed

lemma release_counts:
  assumes counts: "counts (cl_inner l) f" and "cl_max_per_user l \<noteq> 0" and "f u = Suc k"
  shows "\<exists>g. limiter_release u l = l\<lparr>cl_inner := g\<rparr> \<and> counts g (f(u := k))"
proof -
  have "hm_get (cl_inner l) u = Some (Suc k)" using counts assms(3) by (simp add: counts_def)
  then have r: "limiter_release u l = l\<lparr>cl_inner := (if k = 0 then hm_remove u (hm_insert u k (cl_inner l)) else hm_insert u k (cl_inner l))\<rparr>"
    using assms(2) by (simp add: limiter_release_def Let_def)
  then show ?thesis using counts_remove [OF counts, of u k] counts_insert [OF counts, of k u] by (cases "k = 0") auto
qed

definition limit_inv :: "nat \<Rightarrow> PerUserConnLimiter \<times> bytes multiset \<Rightarrow> bool" where
  "limit_inv n s \<longleftrightarrow> cl_max_per_user (fst s) = n \<and>
     (if n = 0 then cl_inner (fst s) = [] else counts (cl_inner (fst s)) (count (snd s)) \<and> (\<forall>u. count (snd s) u \<le> n))"

lemma limit_step_inv: "limit_inv n s \<Longrightarrow> limit_inv n (limit_step s e)"
proof -
  assume inv: "limit_inv n s"
  obtain l live where s: "s = (l, live)" by fastforce
  show ?thesis
  proof (cases "n = 0")
    case True
    then show ?thesis using inv by (cases e) (simp_all add: s limit_inv_def limiter_try_acquire_def limiter_release_def)
  next
    case False
    then have l: "counts (cl_inner l) (count live)" "cl_max_per_user l = n" and le: "\<forall>u. count live u \<le> n"
      using inv by (simp_all add: limit_inv_def s)
    show ?thesis
    proof (cases e)
      case (Arrive u)
      show ?thesis
      proof (cases "count live u < n")
        case True
        obtain g where g: "limiter_try_acquire u l = (Acquired u, l\<lparr>cl_inner := g\<rparr>)" "counts g ((count live)(u := count live u + 1))"
          using acquire_counts(1) [OF l False True] by blast
        have add: "(count live)(u := count live u + 1) = count (add_mset u live)" by auto
        have "\<forall>v. count (add_mset u live) v \<le> n" using le True by (simp add: Suc_leI)
        then show ?thesis using g(1) g(2) [unfolded add] l(2) False by (simp add: Arrive s limit_inv_def)
      next
        case full: False
        obtain g where "limiter_try_acquire u l = (Rejected n, l\<lparr>cl_inner := g, cl_rejections := cl_rejections l + 1\<rparr>)" "counts g (count live)"
          using acquire_counts(2) [OF l False] full by (meson not_less)
        then show ?thesis using l(2) False le by (simp add: Arrive s limit_inv_def)
      qed
    next
      case (Leave u)
      show ?thesis
      proof (cases "u \<in># live")
        case True
        then obtain k where k: "count live u = Suc k" by (metis count_eq_zero_iff not0_implies_Suc)
        then have drop: "(count live)(u := k) = count (live - {#u#})" by auto
        obtain g where g: "limiter_release u l = l\<lparr>cl_inner := g\<rparr>" "counts g ((count live)(u := k))"
          using release_counts [OF l(1) _ k] l(2) False by blast
        have "\<forall>v. count (live - {#u#}) v \<le> n" using le by (simp add: le_diff_conv trans_le_add1)
        then show ?thesis using g(1) g(2) [unfolded drop] l(2) False True by (simp add: Leave s limit_inv_def)
      qed (use inv in \<open>simp add: Leave s\<close>)
    qed
  qed
qed

interpretation limit: invariant_machine limit_step "limit_inv n" for n
  by unfold_locales (rule limit_step_inv)

text \<open>
  C25. After any arrivals and departures, the next session of a user is refused exactly when the user already holds the maximum
  (never with a maximum of 0, which switches the limit off), and the number of users reported is the number
  of users with a live session.
\<close>

theorem conn_limit_exact:
  assumes "foldl limit_step (limiter_new n, {#}) es = (l, live)"
  shows "((\<exists>c. fst (limiter_try_acquire u l) = Rejected c) \<longleftrightarrow> n \<noteq> 0 \<and> count live u = n)
    \<and> (n \<noteq> 0 \<longrightarrow> count live u \<le> n \<and> active_users l = card (set_mset live))"
proof -
  have "limit_inv n (limiter_new n, {#})" by (simp add: limit_inv_def limiter_new_def counts_def)
  from limit.run_inv [OF this, of es] assms have inv: "limit_inv n (l, live)" by simp
  show ?thesis
  proof (cases "n = 0")
    case False
    then have l: "counts (cl_inner l) (count live)" "cl_max_per_user l = n" and le: "count live u \<le> n"
      using inv by (simp_all add: limit_inv_def)
    have "fst ` set (cl_inner l) = set_mset live"
    proof (rule set_eqI)
      fix v
      have "hm_get (cl_inner l) v = (if count live v = 0 then None else Some (count live v))" using l(1) by (simp only: counts_def)
      then show "v \<in> fst ` set (cl_inner l) \<longleftrightarrow> v \<in> set_mset live"
        using map_of_eq_None_iff [of "cl_inner l" v] by (cases "v \<in># live") (simp_all add: count_eq_zero_iff)
    qed
    moreover have "hm_len (cl_inner l) = card (fst ` set (cl_inner l))"
      using l(1) distinct_card [of "map fst (cl_inner l)"] by (simp add: counts_def hm_ok_def)
    ultimately have "active_users l = card (set_mset live)" by (simp add: active_users_def)
    moreover have "(\<exists>c. fst (limiter_try_acquire u l) = Rejected c) \<longleftrightarrow> n \<le> count live u"
      using acquire_counts [OF l False, of u] by (cases "count live u < n") auto
    ultimately show ?thesis using False le by auto
  qed (use inv in \<open>simp add: limit_inv_def limiter_try_acquire_def\<close>)
qed

lemma conn_limit_exact_witness:
  "\<exists>l live. foldl limit_step (limiter_new 1, {#}) [Arrive [7], Arrive [8], Leave [8]] = (l, live)
     \<and> (\<exists>c. fst (limiter_try_acquire [7] l) = Rejected c) \<and> active_users l = 1"
proof -
  have run: "foldl limit_step (limiter_new 1, {#}) [Arrive [7], Arrive [8], Leave [8]]
      = (\<lparr>cl_inner = [([7], 1)], cl_max_per_user = 1, cl_rejections = 0\<rparr>, {#[7]#})"
    by (simp add: limiter_new_def limiter_try_acquire_def limiter_release_def hm_insert_def hm_remove_def Let_def)
  from conn_limit_exact [OF run, of "[7]"] run show ?thesis by simp
qed

end
