(* ===== verification/Datagram.thy ===== *)
theory Datagram
  imports Session_Model
begin

text \<open>
  The unreliable side channel of the QUIC profile (\<open>proteus-transport-beta/src/datagram.rs\<close>): one key and one
  counter per direction, a counter in front of every datagram and a window of 64 counters against replays.

  The connection is an argument: whether it takes a datagram, and the list of datagrams that arrive before it is
  lost.  Shown: the window is exact, datagrams of an honest peer are delivered at most once under any loss, duplication
  and reordering, and what a single forged datagram does.
\<close>

section \<open>Operations\<close>

text \<open>The errors of the library carry no payload here.\<close>

datatype BetaError = BetaIo | QuinnConnect | QuinnConn | QuinnWrite | Rustls | BadServerName string | AlpnMismatch bytes bytes
  | Inner AlphaError | CryptoInstall

definition LABEL_KEY :: bytes where "LABEL_KEY = ascii ''proteus-beta-datagram-key-v1''"
definition LABEL_IV :: bytes where "LABEL_IV = ascii ''proteus-beta-datagram-iv-v1''"
definition DGRAM_KEY_LEN :: nat where "DGRAM_KEY_LEN = 32"
definition DGRAM_IV_LEN :: nat where "DGRAM_IV_LEN = 12"
definition DGRAM_REPLAY_WINDOW :: nat where "DGRAM_REPLAY_WINDOW = 64"

record DirectionState =
  ds_key :: bytes
  ds_iv :: bytes
  ds_counter :: u64
  ds_replay :: u64

definition direction_new :: "bytes \<Rightarrow> bytes \<Rightarrow> DirectionState" where
  "direction_new key iv = \<lparr>ds_key = key, ds_iv = iv, ds_counter = 0, ds_replay = 0\<rparr>"

text \<open>\<open>copy_from_slice\<close> panics when the lengths differ.\<close>

definition key_array :: "DirectionState \<Rightarrow> (BetaError, bytes) rust" where
  "key_array d = (if length (ds_key d) = DGRAM_KEY_LEN then Ok (ds_key d) else Panic)"

definition iv_array :: "DirectionState \<Rightarrow> (BetaError, bytes) rust" where
  "iv_array d = (if length (ds_iv d) = DGRAM_IV_LEN then Ok (ds_iv d) else Panic)"

definition check_replay :: "u64 \<Rightarrow> DirectionState \<Rightarrow> bool \<times> DirectionState" where
  "check_replay counter d =
     (let window = ds_replay d; highest = ds_counter d in
      if highest < counter then
        (let shift = counter - highest;
             window = (if 64 \<le> unat shift then 1 else push_bit (unat shift) window OR 1) in
         (True, d\<lparr>ds_replay := window, ds_counter := counter\<rparr>))
      else
        (let delta = highest - counter in
         if DGRAM_REPLAY_WINDOW \<le> unat delta then (False, d)
         else
           (let b = push_bit (unat delta) 1 in
            if window AND b \<noteq> 0 then (False, d) else (True, d\<lparr>ds_replay := window OR b\<rparr>))))"

record Channel =
  ch_send :: DirectionState
  ch_recv :: DirectionState

definition from_session :: "primitives \<Rightarrow> AlphaSender \<Rightarrow> AlphaReceiver \<Rightarrow> (BetaError, Channel) rust" where
  "from_session P sender receiver =
     rust_bind (rust_map_err Inner (sender_derive_subkey P sender LABEL_KEY DGRAM_KEY_LEN)) (\<lambda>send_key.
     rust_bind (rust_map_err Inner (sender_derive_subkey P sender LABEL_IV DGRAM_IV_LEN)) (\<lambda>send_iv.
     rust_bind (rust_map_err Inner (receiver_derive_subkey P receiver LABEL_KEY DGRAM_KEY_LEN)) (\<lambda>recv_key.
     rust_bind (rust_map_err Inner (receiver_derive_subkey P receiver LABEL_IV DGRAM_IV_LEN)) (\<lambda>recv_iv.
     Ok \<lparr>ch_send = direction_new send_key send_iv, ch_recv = direction_new recv_key recv_iv\<rparr>))))"

definition max_plaintext_size :: "nat option \<Rightarrow> nat option" where
  "max_plaintext_size max_datagram_size =
     (case max_datagram_size of Some n \<Rightarrow> if 24 \<le> n then Some (n - 24) else None | None \<Rightarrow> None)"

text \<open>The datagram handed to the connection; the counter is taken in any case.\<close>

definition try_send :: "primitives \<Rightarrow> (bytes \<Rightarrow> bool) \<Rightarrow> bytes \<Rightarrow> DirectionState \<Rightarrow> (BetaError, bytes) rust \<times> DirectionState" where
  "try_send P takes plaintext d =
     (let counter = ds_counter d in
      (rust_bind (key_array d) (\<lambda>key.
       rust_bind (iv_array d) (\<lambda>iv.
       rust_bind (rust_map_err (\<lambda>_. CryptoInstall) (seal P key iv counter [] plaintext)) (\<lambda>framed.
       let payload = be_bytes 8 (unat counter) @ framed in
       if takes payload then Ok payload else Err BetaIo))),
       d\<lparr>ds_counter := counter + 1\<rparr>))"

text \<open>One turn of the loop of \<open>recv\<close> on an arrived datagram: the plaintext, or nothing and the loop goes on.\<close>

definition recv_datagram :: "primitives \<Rightarrow> bytes \<Rightarrow> DirectionState \<Rightarrow> (BetaError, bytes option) rust \<times> DirectionState" where
  "recv_datagram P raw d =
     (if length raw < 8 + 16 then (Ok None, d)
      else
        (let counter = word_of_nat (be_val (take 8 raw)); ciphertext = drop 8 raw; (fresh, d) = check_replay counter d in
         if \<not> fresh then (Ok None, d)
         else
           (rust_bind (key_array d) (\<lambda>key.
            rust_bind (iv_array d) (\<lambda>iv.
            case aead_open P key iv counter [] ciphertext of
              Ok plain \<Rightarrow> Ok (Some plain)
            | Err e \<Rightarrow> Ok None
            | Panic \<Rightarrow> Panic)), d)))"

fun recv :: "primitives \<Rightarrow> bytes list \<Rightarrow> DirectionState \<Rightarrow> (BetaError, bytes) rust \<times> bytes list \<times> DirectionState" where
  "recv P [] d = (Err QuinnConn, [], d)"
| "recv P (raw # raws) d =
     (case recv_datagram P raw d of
        (Ok (Some plain), d) \<Rightarrow> (Ok plain, raws, d)
      | (Ok None, d) \<Rightarrow> recv P raws d
      | (Err e, d) \<Rightarrow> (Err e, raws, d)
      | (Panic, d) \<Rightarrow> (Panic, raws, d))"

section \<open>The window is exact\<close>

text \<open>
  The counters seen so far as a set of numbers: the highest, and of the 64 below it which were seen.
\<close>

definition window_of :: "nat set \<Rightarrow> DirectionState \<Rightarrow> bool" where
  "window_of seen d \<longleftrightarrow> finite seen \<and> unat (ds_counter d) = Max (insert 0 seen)
     \<and> (\<forall>b < 64. bit (ds_replay d) b \<longleftrightarrow> b \<le> unat (ds_counter d) \<and> unat (ds_counter d) - b \<in> seen)"

lemma window_of_empty: "window_of {} (direction_new key iv)"
  by (simp add: window_of_def direction_new_def)

lemma check_replay_newer:
  assumes w: "window_of seen d" and newer: "unat (ds_counter d) < unat c"
  shows "fst (check_replay c d)" and "window_of (insert (unat c) seen) (snd (check_replay c d))"
proof -
  let ?H = "unat (ds_counter d)" and ?C = "unat c"
  have fin: "finite seen" and max: "Max (insert 0 seen) = ?H" and bits: "\<And>b. b < 64 \<Longrightarrow> bit (ds_replay d) b \<longleftrightarrow> b \<le> ?H \<and> ?H - b \<in> seen"
    using w by (simp_all add: window_of_def)
  have le: "x \<le> ?H" if "x \<in> seen" for x using that fin max by (metis Max_ge finite_insert insertI2)
  have lt: "ds_counter d < c" using newer by (simp add: word_less_nat_alt)
  have s: "unat (c - ds_counter d) = ?C - ?H" using lt by (simp add: unat_sub less_imp_le)
  define win :: u64 where "win = (if 64 \<le> ?C - ?H then 1 else push_bit (?C - ?H) (ds_replay d) OR 1)"
  have r: "check_replay c d = (True, d\<lparr>ds_replay := win, ds_counter := c\<rparr>)"
    using lt by (simp add: check_replay_def Let_def s win_def)
  have top: "Max (insert 0 (insert ?C seen)) = ?C"
    using fin le newer by (intro Max_eqI) (auto dest: le)
  have "bit win b \<longleftrightarrow> b \<le> ?C \<and> ?C - b \<in> insert ?C seen" if "b < 64" for b
  proof (cases "b < ?C - ?H")
    case True
    then have "?C - b \<notin> seen" using le by fastforce
    moreover have "bit win b \<longleftrightarrow> b = 0"
      using True that by (auto simp: win_def bit_or_iff bit_push_bit_iff bit_1_iff)
    ultimately show ?thesis using newer True by auto
  next
    case False
    then have b: "bit win b \<longleftrightarrow> bit (ds_replay d) (b - (?C - ?H))"
      using that newer by (auto simp: win_def bit_or_iff bit_push_bit_iff bit_1_iff)
    have "?H - (b - (?C - ?H)) = ?C - b" "b - (?C - ?H) \<le> ?H \<longleftrightarrow> b \<le> ?C" using False newer by auto
    moreover have "?C - b \<noteq> ?C" using False newer by auto
    ultimately show ?thesis using b bits [of "b - (?C - ?H)"] that by simp
  qed
  then show "fst (check_replay c d)" and "window_of (insert (unat c) seen) (snd (check_replay c d))"
    using fin top by (simp_all add: r window_of_def)
qed

lemma check_replay_older:
  assumes w: "window_of seen d" and older: "unat c \<le> unat (ds_counter d)"
  shows "fst (check_replay c d) \<longleftrightarrow> unat c \<notin> seen \<and> unat (ds_counter d) < unat c + 64"
    and "window_of (insert (unat c) seen) (snd (check_replay c d))"
proof -
  let ?H = "unat (ds_counter d)" and ?C = "unat c"
  have fin: "finite seen" and max: "Max (insert 0 seen) = ?H" and bits: "\<And>b. b < 64 \<Longrightarrow> bit (ds_replay d) b \<longleftrightarrow> b \<le> ?H \<and> ?H - b \<in> seen"
    using w by (simp_all add: window_of_def)
  have nlt: "\<not> ds_counter d < c" using older by (simp add: word_less_nat_alt)
  have s: "unat (ds_counter d - c) = ?H - ?C" using nlt by (simp add: unat_sub not_less)
  have set: "ds_replay d AND push_bit (?H - ?C) 1 \<noteq> 0 \<longleftrightarrow> bit (ds_replay d) (?H - ?C)"
    by (simp add: bit_iff_and_push_bit_not_eq_0)
  have seen: "bit (ds_replay d) (?H - ?C) \<longleftrightarrow> ?C \<in> seen" if "?H - ?C < 64" using bits [OF that] older by simp
  have "Max (insert ?C (insert 0 seen)) = max ?C (Max (insert 0 seen))" using fin by (intro Max_insert) auto
  then have top: "Max (insert 0 (insert ?C seen)) = ?H" unfolding max insert_commute [of 0] using older by (simp add: max_def)
  have r: "check_replay c d = (if 64 \<le> ?H - ?C \<or> ?C \<in> seen then (False, d)
      else (True, d\<lparr>ds_replay := ds_replay d OR push_bit (?H - ?C) 1\<rparr>))"
    using nlt set seen by (cases "64 \<le> ?H - ?C") (auto simp: check_replay_def Let_def s DGRAM_REPLAY_WINDOW_def)
  have "64 \<le> ?H - ?C \<longleftrightarrow> \<not> ?H < ?C + 64" using older by auto
  then show "fst (check_replay c d) \<longleftrightarrow> unat c \<notin> seen \<and> unat (ds_counter d) < unat c + 64"
    using r by auto
  show "window_of (insert (unat c) seen) (snd (check_replay c d))"
  proof (cases "64 \<le> ?H - ?C \<or> ?C \<in> seen")
    case True
    then have "?H - b \<in> insert ?C seen \<longleftrightarrow> ?H - b \<in> seen" if "b < 64" for b using that older by auto
    then show ?thesis using True r bits top fin by (auto simp: window_of_def)
  next
    case False
    have "bit (ds_replay d OR push_bit (?H - ?C) 1) b \<longleftrightarrow> b \<le> ?H \<and> ?H - b \<in> insert ?C seen" if "b < 64" for b
      using bits [OF that] that older by (auto simp: bit_or_iff bit_exp_iff)
    then show ?thesis using False r top fin by (auto simp: window_of_def)
  qed
qed

lemma check_replay_exact:
  assumes "window_of seen d"
  shows "fst (check_replay c d) \<longleftrightarrow> unat c \<notin> seen \<and> Max (insert 0 seen) < unat c + 64"
    and "window_of (insert (unat c) seen) (snd (check_replay c d))"
proof -
  have fin: "finite seen" and max: "Max (insert 0 seen) = unat (ds_counter d)" using assms by (simp_all add: window_of_def)
  have "unat c \<notin> seen" if "unat (ds_counter d) < unat c" using that fin max by (metis Max_ge finite_insert insertI2 not_less)
  then show "fst (check_replay c d) \<longleftrightarrow> unat c \<notin> seen \<and> Max (insert 0 seen) < unat c + 64"
    using check_replay_newer(1) [OF assms] check_replay_older(1) [OF assms] max by (cases "unat (ds_counter d) < unat c") auto
  show "window_of (insert (unat c) seen) (snd (check_replay c d))"
    using check_replay_newer(2) [OF assms] check_replay_older(2) [OF assms] by (cases "unat (ds_counter d) < unat c") auto
qed

lemma check_replay_keys [simp]:
  "ds_key (snd (check_replay c d)) = ds_key d" "ds_iv (snd (check_replay c d)) = ds_iv d"
  by (simp_all add: check_replay_def Let_def)

section \<open>Both ends\<close>

fun send_run :: "primitives \<Rightarrow> bytes list \<Rightarrow> DirectionState \<Rightarrow> (BetaError, bytes) rust list" where
  "send_run P [] d = []"
| "send_run P (m # ms) d = (case try_send P (\<lambda>_. True) m d of (r, d) \<Rightarrow> r # send_run P ms d)"

fun recv_run :: "primitives \<Rightarrow> bytes list \<Rightarrow> DirectionState \<Rightarrow> (BetaError, bytes option) rust list \<times> DirectionState" where
  "recv_run P [] d = ([], d)"
| "recv_run P (raw # raws) d =
     (case recv_datagram P raw d of (r, d) \<Rightarrow> case recv_run P raws d of (rs, d) \<Rightarrow> (r # rs, d))"

text \<open>\<open>recv\<close> returns at the first datagram that delivers.\<close>

lemma recv_first:
  "\<forall>r \<in> set (fst (recv_run P xs d)). r = Ok None \<Longrightarrow> fst (recv_datagram P raw (snd (recv_run P xs d))) = Ok (Some m) \<Longrightarrow>
     recv P (xs @ raw # raws) d = (Ok m, raws, snd (recv_datagram P raw (snd (recv_run P xs d))))"
proof (induction xs arbitrary: d)
  case Nil then show ?case by (cases "recv_datagram P raw d") simp
next
  case (Cons x xs)
  then show ?case by (cases "recv_datagram P x d") (auto simp: case_prod_beta)
qed

lemma recv_run_snoc:
  "recv_run P (xs @ [x]) d = (fst (recv_run P xs d) @ [fst (recv_datagram P x (snd (recv_run P xs d)))], snd (recv_datagram P x (snd (recv_run P xs d))))"
  by (induction xs arbitrary: d) (simp_all add: case_prod_beta)

definition direction_ok :: "DirectionState \<Rightarrow> bool" where
  "direction_ok d \<longleftrightarrow> length (ds_key d) = 32 \<and> length (ds_iv d) = 12"

lemma from_session_Ok:
  assumes "prims_ok P" and "length (tx_secret s) = 32" and "length (rx_secret r) = 32"
  shows "\<exists>sk si rk ri. from_session P s r = Ok \<lparr>ch_send = direction_new sk si, ch_recv = direction_new rk ri\<rparr>
    \<and> direction_ok (direction_new sk si) \<and> direction_ok (direction_new rk ri)
    \<and> expand_label P (tx_secret s) LABEL_KEY [] 32 = Ok sk \<and> expand_label P (tx_secret s) LABEL_IV [] 12 = Ok si
    \<and> expand_label P (rx_secret r) LABEL_KEY [] 32 = Ok rk \<and> expand_label P (rx_secret r) LABEL_IV [] 12 = Ok ri"
proof -
  have len: "length LABEL_KEY = 28" "length LABEL_IV = 27" by (simp_all add: LABEL_KEY_def LABEL_IV_def ascii_def)
  have ex: "\<exists>bs. expand_label P secret l [] n = Ok bs \<and> length bs = n"
    if "length secret = 32" "length l < 245" "n \<le> 255 * 32" for secret l n
  proof -
    have "\<exists>bs. p_expand P secret i n = Some bs \<and> length bs = n" for i
      using assms(1) that by (simp add: prims_ok_def)
    then obtain bs where "p_expand P secret (be_bytes 2 n @ [word_of_nat (11 + length l)] @ PROTEUS_LABEL_PREFIX @ l @ [word_of_nat 0] @ []) n
        = Some bs" "length bs = n" by blast
    then show ?thesis using that by (simp add: expand_label_def expand_label_info_Ok del: be_bytes.simps)
  qed
  show ?thesis
    using ex [OF assms(2), of LABEL_KEY 32] ex [OF assms(2), of LABEL_IV 12] ex [OF assms(3), of LABEL_KEY 32] ex [OF assms(3), of LABEL_IV 12]
    by (auto simp: len from_session_def sender_derive_subkey_def receiver_derive_subkey_def DGRAM_KEY_LEN_def DGRAM_IV_LEN_def
        direction_ok_def direction_new_def)
qed

text \<open>The \<open>i\<close>-th datagram of a direction.\<close>

definition datagram_of :: "primitives \<Rightarrow> DirectionState \<Rightarrow> nat \<Rightarrow> bytes \<Rightarrow> bytes" where
  "datagram_of P d i m = be_bytes 8 i @ (case seal P (ds_key d) (ds_iv d) (word_of_nat i) [] m of Ok c \<Rightarrow> c | _ \<Rightarrow> [])"

lemma datagram_of_counter [simp]: "datagram_of P (d\<lparr>ds_counter := c\<rparr>) i m = datagram_of P d i m"
  by (simp add: datagram_of_def)

lemma unat_word_of_nat: "n < 2 ^ 64 \<Longrightarrow> unat (word_of_nat n :: u64) = n"
  by (simp add: unat_of_nat take_bit_nat_eq_self)

lemma send_run_datagrams:
  assumes "prims_ok P" and "direction_ok d" and "ds_counter d = word_of_nat n" and "n + length ms \<le> 2 ^ 64"
    and "\<forall>m \<in> set ms. length m < 2 ^ 38 - 64"
  shows "send_run P ms d = map (\<lambda>i. Ok (datagram_of P d (n + i) (ms ! i))) [0..<length ms]"
  using assms(2-)
proof (induction ms arbitrary: d n)
  case (Cons m ms)
  have n: "n < 2 ^ 64" using Cons.prems(3) by simp
  have len: "length m < 2 ^ 38 - 64" using Cons.prems(4) by simp
  obtain c where c: "seal P (ds_key d) (ds_iv d) (word_of_nat n) [] m = Ok c" using open_seal [OF assms(1) len] by blast
  let ?d = "d\<lparr>ds_counter := word_of_nat (Suc n)\<rparr>"
  have step: "try_send P (\<lambda>_. True) m d = (Ok (datagram_of P d n m), ?d)"
    using Cons.prems(1,2) c unat_word_of_nat [OF n]
    by (simp add: try_send_def key_array_def iv_array_def direction_ok_def DGRAM_KEY_LEN_def DGRAM_IV_LEN_def datagram_of_def Let_def
        add.commute del: be_bytes.simps)
  have "send_run P ms ?d = map (\<lambda>i. Ok (datagram_of P ?d (Suc n + i) (ms ! i))) [0..<length ms]"
    using Cons.prems by (intro Cons.IH) (simp_all add: direction_ok_def)
  moreover have "[0..<length (m # ms)] = 0 # map Suc [0..<length ms]" by (simp add: upt_conv_Cons map_Suc_upt del: upt_Suc)
  ultimately show ?case by (simp add: step del: upt_Suc)
qed simp

text \<open>A datagram of the peer is delivered exactly when its counter passes the window.\<close>

lemma recv_datagram_of:
  assumes "prims_ok P" and "direction_ok d" and "ds_key d = ds_key e" and "ds_iv d = ds_iv e" and "length m < 2 ^ 38 - 64" and "i < 2 ^ 64"
  shows "recv_datagram P (datagram_of P e i m) d
    = (Ok (if fst (check_replay (word_of_nat i) d) then Some m else None), snd (check_replay (word_of_nat i) d))"
proof -
  obtain c where c: "seal P (ds_key e) (ds_iv e) (word_of_nat i) [] m = Ok c" "length c = length m + 16"
      "aead_open P (ds_key e) (ds_iv e) (word_of_nat i) [] c = Ok m"
    using open_seal [OF assms(1,5)] by metis
  have g: "datagram_of P e i m = be_bytes 8 i @ c" by (simp add: datagram_of_def c del: be_bytes.simps)
  have "be_val (be_bytes 8 i) = i" using assms(6) by (simp del: be_bytes.simps)
  then show ?thesis using assms(2-4) c
    by (simp add: g recv_datagram_def key_array_def iv_array_def direction_ok_def DGRAM_KEY_LEN_def DGRAM_IV_LEN_def Let_def
        case_prod_beta del: be_bytes.simps)
qed

text \<open>
  C36. Between two ends of a session the datagram channels agree on their keys, and whatever the network does with the datagrams (\<open>js\<close> lists
  which one arrives, in what order and how often), each arrival is delivered exactly when its number has not
  arrived before and lies less than 64 below the highest that has; what is delivered is the message that was sent under that number.
\<close>

theorem datagram_delivery:
  assumes "prims_ok P" and "length (tx_secret sa) = 32" and "length (rx_secret ra) = 32" and "length (tx_secret sb) = 32"
    and "rx_secret rb = tx_secret sa" and "\<forall>m \<in> set ms. length m < 2 ^ 38 - 64" and "length ms < 2 ^ 64" and "\<forall>j \<in> set js. j < length ms"
  shows "\<exists>a b datagrams. from_session P sa ra = Ok a \<and> from_session P sb rb = Ok b
    \<and> send_run P ms (ch_send a) = map Ok datagrams
    \<and> fst (recv_run P (map ((!) datagrams) js) (ch_recv b))
       = map (\<lambda>k. Ok (if js ! k \<notin> set (take k js) \<and> Max (insert 0 (set (take k js))) < js ! k + 64 then Some (ms ! (js ! k)) else None))
           [0..<length js]"
proof -
  have rb: "length (rx_secret rb) = 32" using assms(2,5) by simp
  obtain sk si rk ri where a': "from_session P sa ra = Ok \<lparr>ch_send = direction_new sk si, ch_recv = direction_new rk ri\<rparr>"
      "direction_ok (direction_new sk si)" "expand_label P (tx_secret sa) LABEL_KEY [] 32 = Ok sk" "expand_label P (tx_secret sa) LABEL_IV [] 12 = Ok si"
    using from_session_Ok [OF assms(1-3)] by blast
  obtain tk ti uk ui where b': "from_session P sb rb = Ok \<lparr>ch_send = direction_new tk ti, ch_recv = direction_new uk ui\<rparr>"
      "expand_label P (rx_secret rb) LABEL_KEY [] 32 = Ok uk" "expand_label P (rx_secret rb) LABEL_IV [] 12 = Ok ui"
    using from_session_Ok [OF assms(1,4) rb] by blast
  define a b where "a = \<lparr>ch_send = direction_new sk si, ch_recv = direction_new rk ri\<rparr>"
    and "b = \<lparr>ch_send = direction_new tk ti, ch_recv = direction_new uk ui\<rparr>"
  have a: "from_session P sa ra = Ok a" and b: "from_session P sb rb = Ok b" using a'(1) b'(1) by (simp_all add: a_def b_def)
  have "uk = sk" "ui = si" using a'(3,4) b'(2,3) by (simp_all add: assms(5))
  then have same: "ch_recv b = ch_send a" and ok: "direction_ok (ch_send a)" and fresh: "\<exists>k i. ch_send a = direction_new k i"
    using a'(2) by (auto simp: a_def b_def)
  let ?d = "ch_send a" and ?g = "map (\<lambda>i. datagram_of P (ch_send a) i (ms ! i)) [0..<length ms]"
  have zero: "ds_counter ?d = word_of_nat 0" "window_of {} ?d" using fresh window_of_empty by (auto simp: direction_new_def)
  have "send_run P ms ?d = map Ok ?g"
    using send_run_datagrams [OF assms(1) ok zero(1), of ms] assms(6,7) by (simp add: comp_def)
  moreover have "fst (recv_run P (map ((!) ?g) js) ?d)
       = map (\<lambda>k. Ok (if js ! k \<notin> set (take k js) \<and> Max (insert 0 (set (take k js))) < js ! k + 64 then Some (ms ! (js ! k)) else None))
           [0..<length js]
     \<and> window_of (set js) (snd (recv_run P (map ((!) ?g) js) ?d))
     \<and> ds_key (snd (recv_run P (map ((!) ?g) js) ?d)) = ds_key ?d \<and> ds_iv (snd (recv_run P (map ((!) ?g) js) ?d)) = ds_iv ?d"
    using assms(8)
  proof (induction js rule: rev_induct)
    case (snoc j js)
    let ?r = "recv_run P (map ((!) ?g) js) ?d"
    have IH: "fst ?r = map (\<lambda>k. Ok (if js ! k \<notin> set (take k js) \<and> Max (insert 0 (set (take k js))) < js ! k + 64 then Some (ms ! (js ! k)) else None))
           [0..<length js]" and w: "window_of (set js) (snd ?r)" and key: "ds_key (snd ?r) = ds_key ?d" "ds_iv (snd ?r) = ds_iv ?d"
      using snoc by simp_all
    have j: "j < length ms" and j64: "j < 2 ^ 64" using snoc.prems assms(7) by simp_all
    have "recv_datagram P (?g ! j) (snd ?r) = (Ok (if fst (check_replay (word_of_nat j) (snd ?r)) then Some (ms ! j) else None),
        snd (check_replay (word_of_nat j) (snd ?r)))"
      using recv_datagram_of [OF assms(1), of "snd ?r" ?d "ms ! j" j] ok key assms(6) j j64 by (simp add: direction_ok_def)
    moreover note check_replay_exact [OF w, of "word_of_nat j", unfolded unat_word_of_nat [OF j64]]
    ultimately show ?case using key IH by (simp add: recv_run_snoc nth_append)
  qed (simp add: zero)
  ultimately show ?thesis using a b same by (intro exI [of _ a] exI [of _ b] exI [of _ ?g]) simp
qed

section \<open>A forged datagram\<close>

lemma check_replay_top:
  assumes "ds_counter e = - 1" and "unat c < 2 ^ 64 - 64"
  shows "check_replay c e = (False, e)"
proof -
  have "unat (- 1 - c) = 2 ^ 64 - 1 - unat c" by (subst unat_sub) (simp_all add: unsigned_minus_1_eq_mask mask_eq_exp_minus_1)
  then have "64 \<le> unat (- 1 - c)" using assms(2) by simp
  moreover have "\<not> - 1 < c" using word_order.extremum_strict by blast
  ultimately show ?thesis by (simp add: check_replay_def Let_def assms(1) DGRAM_REPLAY_WINDOW_def)
qed

text \<open>
  C37. The window moves before the datagram is authenticated: one datagram with the highest counter and any ciphertext is dropped, but after it
  every datagram whose counter is not among the last 64 of the counter range is dropped as too old, the authentic
  ones of the peer included, for the rest of the session.
\<close>

theorem forged_datagram_silences:
  assumes "direction_ok d" and "16 \<le> length garbage" and "\<forall>m. aead_open P (ds_key d) (ds_iv d) (- 1) [] garbage \<noteq> Ok m"
    and "aead_open P (ds_key d) (ds_iv d) (- 1) [] garbage \<noteq> Panic" and "ds_counter d < - 1"
    and "\<forall>raw \<in> set raws. be_val (take 8 raw) < 2 ^ 64 - 64"
  shows "fst (recv_run P ((be_bytes 8 (2 ^ 64 - 1) @ garbage) # raws) d) = replicate (length raws + 1) (Ok None)"
proof -
  let ?raw = "be_bytes 8 (2 ^ 64 - 1) @ garbage"
  have top: "word_of_nat (be_val (take 8 ?raw)) = (- 1 :: u64)" by (simp del: be_bytes.simps)
  have check: "fst (check_replay (- 1) d)" "ds_counter (snd (check_replay (- 1) d)) = - 1"
    using assms(5) by (simp_all add: check_replay_def Let_def)
  have first: "recv_datagram P ?raw d = (Ok None, snd (check_replay (- 1) d))"
    using assms(1-4) check(1) top
    by (cases "aead_open P (ds_key d) (ds_iv d) (- 1) [] garbage"; unfold recv_datagram_def top)
      (simp_all add: key_array_def iv_array_def direction_ok_def DGRAM_KEY_LEN_def DGRAM_IV_LEN_def Let_def case_prod_beta
        del: be_bytes.simps)
  have "recv_run P raws e = (replicate (length raws) (Ok None), e)" if "ds_counter e = - 1" for e
    using assms(6)
  proof (induction raws)
    case (Cons raw raws)
    let ?c = "word_of_nat (be_val (take 8 raw)) :: u64"
    have "be_val (take 8 raw) < 2 ^ 64 - 64" using Cons.prems by simp
    then have "unat ?c < 2 ^ 64 - 64" by (subst unat_word_of_nat) simp_all
    then have "check_replay ?c e = (False, e)" by (rule check_replay_top [OF that])
    then have "recv_datagram P raw e = (Ok None, e)" by (simp add: recv_datagram_def Let_def)
    then show ?case using Cons by simp
  qed simp
  then show ?thesis using first check(2) by (simp add: case_prod_beta)
qed

section \<open>Witnesses\<close>

lemma datagram_delivery_witness:
  "\<exists>a b datagrams. from_session toy_prims (sender_new \<lparr>dk_key = [], dk_iv = []\<rparr> (replicate 32 1)) (receiver_with_prefix \<lparr>dk_key = [], dk_iv = []\<rparr> (replicate 32 2) []) = Ok a
    \<and> from_session toy_prims (sender_new \<lparr>dk_key = [], dk_iv = []\<rparr> (replicate 32 2)) (receiver_with_prefix \<lparr>dk_key = [], dk_iv = []\<rparr> (replicate 32 1) []) = Ok b
    \<and> send_run toy_prims [[10], [20], [30]] (ch_send a) = map Ok datagrams
    \<and> fst (recv_run toy_prims (map ((!) datagrams) [2, 0, 2]) (ch_recv b)) = [Ok (Some [30]), Ok (Some [10]), Ok None]"
  using datagram_delivery [OF toy_prims_ok, of "sender_new \<lparr>dk_key = [], dk_iv = []\<rparr> (replicate 32 1)"
      "receiver_with_prefix \<lparr>dk_key = [], dk_iv = []\<rparr> (replicate 32 2) []" "sender_new \<lparr>dk_key = [], dk_iv = []\<rparr> (replicate 32 2)"
      "receiver_with_prefix \<lparr>dk_key = [], dk_iv = []\<rparr> (replicate 32 1) []" "[[10], [20], [30]]" "[2, 0, 2]"]
  by (simp add: sender_new_def receiver_with_prefix_def upt_conv_Cons)

lemma forged_datagram_silences_witness:
  "fst (recv_run (toy_prims\<lparr>p_decrypt := (\<lambda>k n a c. if last c = 0 then Some (take (length c - 16) c) else None)\<rparr>)
       ((be_bytes 8 (2 ^ 64 - 1) @ replicate 16 1) # [be_bytes 8 0 @ replicate 16 0]) (direction_new (replicate 32 0) (replicate 12 0)))
     = [Ok None, Ok None]"
proof -
  let ?P = "toy_prims\<lparr>p_decrypt := (\<lambda>k n a c. if last c = 0 then Some (take (length c - 16) c) else None)\<rparr>"
  let ?d = "direction_new (replicate 32 0) (replicate 12 0)" and ?late = "be_bytes 8 0 @ replicate 16 0"
  have "last (replicate 16 (1 :: u8)) = 1" by (rule last_replicate) simp
  then have forged: "aead_open ?P (ds_key ?d) (ds_iv ?d) (- 1) [] (replicate 16 1) = Err AeadAuth" by (simp add: aead_open_def)
  have "\<forall>raw \<in> set [?late]. be_val (take 8 raw) < 2 ^ 64 - 64" by (simp del: be_bytes.simps)
  moreover have "(0 :: u64) < - 1" by (simp add: word_neq_0_conv [symmetric])
  then have "direction_ok ?d" "ds_counter ?d < - 1" by (simp_all add: direction_ok_def direction_new_def)
  ultimately show ?thesis
    using forged_datagram_silences [of ?d "replicate 16 1" ?P "[?late]"] forged by (simp add: numeral_2_eq_2 del: be_bytes.simps recv_run.simps)
qed

end
