(* ===== verification/Quota_File.thy ===== *)
theory Quota_File
  imports User_Quota
begin

text \<open>
  The file of the quota tracker (\<open>user_quota.rs\<close>): what a written line is read back as, what survives a
  restart, and what an edit of the file can change in a running server.
\<close>

section \<open>Lines\<close>

abbreviation key_used :: bytes where "key_used \<equiv> ascii ''used_bytes''"
abbreviation key_started :: bytes where "key_started \<equiv> ascii ''period_started_unix''"
abbreviation key_cap :: bytes where "key_cap \<equiv> ascii ''cap_override''"

definition cap_field :: "u64 option \<Rightarrow> bytes" where
  "cap_field c = (case c of Some c \<Rightarrow> 44 # 34 # key_cap @ 34 # 58 # show_radix 10 (uint c) | None \<Rightarrow> [])"

lemma quota_line_tokens:
  "quota_line uid u s c = 123 # 34 # key_uid @ 34 # 58 # 34 # render_user_id uid @ 34 # 44 # 34 # key_used @ 34 # 58 # show_radix 10 (uint u)
     @ 44 # 34 # key_started @ 34 # 58 # show_radix 10 (uint s) @ cap_field c @ [125]"
  by (simp add: quota_line_def cap_field_def ascii_def split: option.split)

lemma quota_keys:
  "34 \<notin> set key_used" "34 \<notin> set key_started" "34 \<notin> set key_cap" "key_used \<noteq> []" "key_started \<noteq> []" "key_cap \<noteq> []"
  "hd key_used = 117" "hd key_started = 112" "hd key_cap = 99"
  "key_uid \<noteq> key_used" "key_uid \<noteq> key_started" "key_uid \<noteq> key_cap" "key_used \<noteq> key_started" "key_used \<noteq> key_cap" "key_started \<noteq> key_cap"
  "length key_used = 10" "length key_started = 19" "length key_cap = 12"
  by (simp_all add: ascii_def)

lemma rendered_length:
  assumes "length uid = 8"
  shows "length (render_user_id uid) \<le> 8 \<or> length (render_user_id uid) = 20 \<or> render_user_id uid = ascii ''__overflow__''"
proof -
  have "length (ascii ''hex:'') = 4" by (simp add: ascii_def)
  then show ?thesis using id_trimmed_length [OF assms] assms by (auto simp: render_user_id_def)
qed

lemma rendered_not_quota_key:
  assumes "length uid = 8"
  shows "render_user_id uid \<noteq> key_used" "render_user_id uid \<noteq> key_started" "render_user_id uid \<noteq> key_cap"
proof -
  have o: "ascii ''__overflow__'' \<noteq> key_used" "ascii ''__overflow__'' \<noteq> key_started" "ascii ''__overflow__'' \<noteq> key_cap"
    by (simp_all add: ascii_def)
  show "render_user_id uid \<noteq> key_used" "render_user_id uid \<noteq> key_started" "render_user_id uid \<noteq> key_cap"
    using rendered_length [OF assms] quota_keys(16-18) o by auto
qed

lemma quota_fields:
  assumes "length uid = 8"
  shows "extract_string_field (quota_line uid u s c) key_uid = Some (render_user_id uid)"
    and "extract_u64_field (quota_line uid u s c) key_used = Some u"
    and "extract_u64_field (quota_line uid u s c) key_started = Some s"
    and "extract_u64_field (quota_line uid u s c) key_cap = c"
proof -
  let ?v = "render_user_id uid" and ?U = "show_radix 10 (uint u)" and ?S = "show_radix 10 (uint s)"
  let ?R = "cap_field c @ [125]"
  let ?E = "34 # key_used @ 34 # 58 # ?U @ 44 # 34 # key_started @ 34 # 58 # ?S @ ?R"
  have v: "34 \<notin> set ?v" using rendered_chars by blast
  have ne: "(123::u8) \<noteq> 34" "(58::u8) \<noteq> 34" "(44::u8) \<noteq> 34" "(125::u8) \<noteq> 34" by simp_all
  have dig: "is_ascii_digit x" if "x \<in> set (show_radix 10 (uint n))" for x and n :: u64 using digit_ascii [OF that] by simp
  have d: "34 \<notin> set (show_radix 10 (uint n))" for n :: u64 using dig [of 34] by (auto simp: is_ascii_digit_def)
  note k = keys_quote(1,4,7) quota_keys and r = rendered_not_quota_key [OF assms]
  have skips: "after_sub (34 # n @ 34 # t) (123 # s') = after_sub (34 # n @ 34 # t) s'" "after_sub (34 # n @ 34 # t) (58 # s') = after_sub (34 # n @ 34 # t) s'"
    "after_sub (34 # n @ 34 # t) (44 # s') = after_sub (34 # n @ 34 # t) s'" "after_sub (34 # n @ 34 # t) (125 # s') = after_sub (34 # n @ 34 # t) s'"
    for n t s' by (simp_all add: after_sub_skip)
  have empty: "after_sub (34 # n @ 34 # t) [] = None" for n t by (simp add: after_sub_def)
  have take: "takeWhile (\<lambda>x. x \<noteq> 34) (w @ 34 # s') = w" if "34 \<notin> set w" for w s' :: bytes
    using that by (auto simp: takeWhile_append)
  have digits: "takeWhile is_ascii_digit (show_radix 10 (uint n) @ x # s') = show_radix 10 (uint n)" if "x = 44 \<or> x = 125" for n :: u64 and x s'
    using that dig by (auto simp: takeWhile_append is_ascii_digit_def)
  have R: "\<exists>x s'. ?R = x # s' \<and> (x = 44 \<or> x = 125)" by (cases c) (simp_all add: cap_field_def)
  show "extract_string_field (quota_line uid u s c) key_uid = Some ?v"
    unfolding extract_string_after quota_line_tokens
    using after_sub_hit [of 34 "key_uid @ [34, 58, 34]"] take [OF v] by (simp add: after_sub_skip)
  have "after_sub (34 # key_used @ 34 # [58]) (quota_line uid u s c) = after_sub (34 # key_used @ 34 # [58]) ?E"
    unfolding quota_line_tokens using k r v by (simp add: skips after_sub_word)
  then show "extract_u64_field (quota_line uid u s c) key_used = Some u"
    unfolding extract_u64_after using after_sub_hit [of 34 "key_used @ [34, 58]"] by (simp add: parse_show_u64 digits)
  have "after_sub (34 # key_started @ 34 # [58]) (quota_line uid u s c) = after_sub (34 # key_started @ 34 # [58]) (34 # key_started @ 34 # 58 # ?S @ ?R)"
    unfolding quota_line_tokens using k r v d by (simp add: skips after_sub_word after_sub_skips)
  then show "extract_u64_field (quota_line uid u s c) key_started = Some s"
    unfolding extract_u64_after using after_sub_hit [of 34 "key_started @ [34, 58]"] R digits by (auto simp: parse_show_u64)
  have "after_sub (34 # key_cap @ 34 # [58]) (quota_line uid u s c) = after_sub (34 # key_cap @ 34 # [58]) ?R"
    unfolding quota_line_tokens using k r v d by (simp add: skips after_sub_word after_sub_skips)
  then show "extract_u64_field (quota_line uid u s c) key_cap = c"
    unfolding extract_u64_after using after_sub_hit [of 34 "key_cap @ [34, 58]"]
    by (cases c) (simp_all add: cap_field_def skips empty parse_show_u64 digits)
qed

text \<open>Every line the tracker writes for an id that survives is read back.\<close>

lemma quota_parse_written:
  assumes "length uid = 8" and "id_survives uid"
  shows "quota_parse_entry_line (quota_line uid u s c)
    = Ok \<lparr>pe_user_id = uid, pe_used_bytes = u, pe_period_started_unix = s, pe_cap_override = c\<rparr>"
  using decode_rendered_iff [OF assms(1)] assms(2)
  by (simp add: quota_parse_entry_line_def quota_fields [OF assms(1)] quota_decode_user_id_def)

lemma quota_line_facts:
  assumes "length uid = 8"
  shows "trim (quota_line uid u s c) = quota_line uid u s c" and "\<not> passed_over (quota_line uid u s c)"
    and "10 \<notin> set (quota_line uid u s c) \<and> quota_line uid u s c \<noteq> [] \<and> last (quota_line uid u s c) \<noteq> 13"
proof -
  define t where "t = 34 # key_uid @ 34 # 58 # 34 # render_user_id uid @ 34 # 44 # 34 # key_used @ 34 # 58 # show_radix 10 (uint u)
     @ 44 # 34 # key_started @ 34 # 58 # show_radix 10 (uint s) @ cap_field c"
  have t: "quota_line uid u s c = 123 # t @ [125]" by (simp add: quota_line_tokens t_def)
  show "trim (quota_line uid u s c) = quota_line uid u s c" unfolding t by (rule trim_fixed)
  let ?h = \<open>ascii ''{"kind":"header"''\<close>
  have "take 3 (quota_line uid u s c) = [123, 34, 117]" by (simp add: quota_line_tokens ascii_def)
  moreover have h: "take 3 ?h = [123, 34, 107]" "3 \<le> length ?h" by (simp_all add: ascii_def)
  moreover have "take 3 (quota_line uid u s c) = take 3 ?h" if "starts_with (quota_line uid u s c) ?h"
  proof -
    have "take 3 (take (length ?h) (quota_line uid u s c)) = take 3 ?h" using that by (simp add: starts_with_def)
    then show ?thesis by (simp only: take_take min_absorb1 [OF h(2)])
  qed
  ultimately have "\<not> starts_with (quota_line uid u s c) ?h" by auto
  then show "\<not> passed_over (quota_line uid u s c)" unfolding passed_over_def by (simp add: t starts_with_def)
  have k: "10 \<notin> set key_uid" "10 \<notin> set key_used" "10 \<notin> set key_started" "10 \<notin> set key_cap" by (simp_all add: ascii_def)
  have d: "10 \<notin> set (show_radix 10 (uint n))" for n :: u64 using digit_ascii [of 10 "uint n"] by (auto simp: is_ascii_digit_def)
  have r: "10 \<notin> set (render_user_id uid)" using rendered_chars [of 10 uid] by auto
  have "10 \<notin> set (quota_line uid u s c)" using k d r by (auto simp: quota_line_tokens cap_field_def split: option.splits)
  then show "10 \<notin> set (quota_line uid u s c) \<and> quota_line uid u s c \<noteq> [] \<and> last (quota_line uid u s c) \<noteq> 13" by (simp add: t)
qed

section \<open>A restart\<close>

definition quota_text :: "quota_host \<Rightarrow> bytes \<times> UserBucket \<Rightarrow> bytes" where
  "quota_text ho = (\<lambda>(uid, b). quota_line uid (ub_used_bytes b) (started_unix ho b) (ub_cap_override b))"

text \<open>The bucket that the line of another one becomes.\<close>

definition parsed_of :: "quota_host \<Rightarrow> bytes \<times> UserBucket \<Rightarrow> ParsedEntry" where
  "parsed_of ho = (\<lambda>(uid, b). \<lparr>pe_user_id = uid, pe_used_bytes = ub_used_bytes b, pe_period_started_unix = started_unix ho b,
     pe_cap_override = ub_cap_override b\<rparr>)"

definition reread :: "quota_host \<Rightarrow> quota_host \<Rightarrow> bytes \<times> UserBucket \<Rightarrow> UserBucket" where
  "reread ho ho' ub = (snd ub)\<lparr>ub_period_started_at := line_start ho' (parsed_of ho ub)\<rparr>"

definition quota_writable :: "bytes \<times> UserBucket \<Rightarrow> bool" where
  "quota_writable ub \<longleftrightarrow> length (fst ub) = 8 \<and> id_survives (fst ub)"

lemma line_start_le: "line_start ho p \<le> qh_now ho"
  by (simp add: line_start_def at_checked_sub_def)

lemma quota_load_entries:
  assumes "\<forall>ub \<in> set es. quota_writable ub" and "distinct (map fst es)" and "hm_len g + length es \<le> cap"
    and "qh_now ho' + int P < int (from_secs (2 ^ 63))"
  shows "\<exists>g' n'. quota_load_lines ho' P cap (map (quota_text ho) es) g n = Ok (g', n')
    \<and> (\<forall>u. hm_get g' u = (case map_of es u of
         Some b \<Rightarrow> if line_start ho' (parsed_of ho (u, b)) + int P \<le> qh_now ho' then hm_get g u else Some (reread ho ho' (u, b))
       | None \<Rightarrow> hm_get g u))"
  using assms(1-3)
proof (induction es arbitrary: g n)
  case (Cons ub es)
  obtain v b where ub: "ub = (v, b)" by fastforce
  have v: "length v = 8" "id_survives v" using Cons.prems(1) ub by (simp_all add: quota_writable_def)
  have line: "quota_text ho ub = quota_line v (ub_used_bytes b) (started_unix ho b) (ub_cap_override b)" by (simp add: quota_text_def ub)
  have parsed: "quota_parse_entry_line (quota_text ho ub) = Ok (parsed_of ho ub)" "trim (quota_text ho ub) = quota_text ho ub" "\<not> passed_over (quota_text ho ub)"
    unfolding line by (simp_all add: quota_parse_written [OF v] quota_line_facts [OF v(1)] parsed_of_def ub)
  let ?s = "line_start ho' (parsed_of ho ub)"
  have sum: "at_plus ?s P = (Ok (?s + int P) :: (unit, int) rust)"
    using assms(4) line_start_le [of ho' "parsed_of ho ub"] by (simp add: at_plus_def)
  have fresh: "map_of es v = None" using Cons.prems(2) ub by (simp add: map_of_eq_None_iff)
  show ?case
  proof (cases "?s + int P \<le> qh_now ho'")
    case True
    then have "quota_load_lines ho' P cap (map (quota_text ho) (ub # es)) g n = quota_load_lines ho' P cap (map (quota_text ho) es) g n"
      by (simp add: parsed sum)
    then show ?thesis using Cons.IH [of g n] Cons.prems True ub fresh by (fastforce split: option.splits)
  next
    case False
    let ?g = "hm_insert v (reread ho ho' (v, b)) g"
    have l: "hm_len ?g + length es \<le> cap" using Cons.prems(3) hm_len_insert_le [of v "reread ho ho' (v, b)" g] by simp
    have "pe_user_id (parsed_of ho ub) = v" "\<lparr>ub_used_bytes = pe_used_bytes (parsed_of ho ub), ub_period_started_at = ?s, ub_cap_override = pe_cap_override (parsed_of ho ub)\<rparr> = reread ho ho' (v, b)"
      by (simp_all add: parsed_of_def reread_def ub)
    then have "quota_load_lines ho' P cap (map (quota_text ho) (ub # es)) g n =
        (if cap \<le> hm_len ?g then Ok (?g, n + 1) else quota_load_lines ho' P cap (map (quota_text ho) es) ?g (n + 1))"
      using False by (simp add: parsed sum Let_def)
    moreover have "quota_load_lines ho' P cap (map (quota_text ho) es) ?g (n + 1) = Ok (?g, n + 1)" if "cap \<le> hm_len ?g"
    proof -
      have "length es = 0" using l that by linarith
      then show ?thesis by simp
    qed
    ultimately have "quota_load_lines ho' P cap (map (quota_text ho) (ub # es)) g n = quota_load_lines ho' P cap (map (quota_text ho) es) ?g (n + 1)"
      by simp
    then show ?thesis using Cons.IH [OF _ _ l, of "n + 1"] Cons.prems(1,2) False ub fresh
      by (fastforce simp: hm_get_insert split: option.splits)
  qed
qed simp

lemma quota_header_facts:
  "quota_load_lines ho P cap (quota_header # ls) g n = quota_load_lines ho P cap ls g n"
  "10 \<notin> set quota_header \<and> quota_header \<noteq> [] \<and> last quota_header \<noteq> 13"
  "quota_merge_lines ho P (quota_header # ls) s = quota_merge_lines ho P ls s"
proof -
  have h: "quota_header = 123 # butlast (tl quota_header) @ [125]" "passed_over quota_header" by code_simp+
  then have "trim quota_header = quota_header" using trim_fixed [of "butlast (tl quota_header)"] by simp
  then show "quota_load_lines ho P cap (quota_header # ls) g n = quota_load_lines ho P cap ls g n"
    "quota_merge_lines ho P (quota_header # ls) s = quota_merge_lines ho P ls s" using h(2) by simp_all
  show "10 \<notin> set quota_header \<and> quota_header \<noteq> [] \<and> last quota_header \<noteq> 13" by code_simp
qed

text \<open>A walk over the map meets every entry once.\<close>

definition quota_walks :: "quota_host \<Rightarrow> buckets \<Rightarrow> bool" where
  "quota_walks ho m \<longleftrightarrow> distinct (qh_order ho m) \<and> set (qh_order ho m) = set m"

lemma quota_walks_facts:
  assumes "quota_walks ho m" and "hm_ok m"
  shows "hm_ok (qh_order ho m) \<and> map_of (qh_order ho m) = map_of m \<and> length (qh_order ho m) = length m"
proof -
  let ?m = "qh_order ho m"
  have m: "distinct ?m" "set ?m = set m" using assms(1) by (simp_all add: quota_walks_def)
  have "inj_on fst (set m)" "distinct m" using assms(2) by (simp_all add: hm_ok_def distinct_map)
  then have "hm_ok ?m" "length ?m = length m" using m distinct_card [of ?m] distinct_card [of m] by (simp_all add: hm_ok_def distinct_map)
  then show ?thesis using assms(2) m(2) by (simp add: hm_ok_def map_of_inject_set)
qed

text \<open>Where the start of a period lands on the wall clock, \<open>c\<close> and \<open>c'\<close> being what the two processes' clocks are behind it.\<close>

lemma reread_start:
  assumes "ub_period_started_at b \<le> qh_now ho" and "0 \<le> ub_period_started_at b + c"
    and "int (unat (qh_unix ho)) = (qh_now ho + c) div 1000000000" and "int (unat (qh_unix ho')) = (qh_now ho' + c') div 1000000000"
    and "qh_now ho + c \<le> qh_now ho' + c'" and "c' < int (from_secs (2 ^ 63))"
  shows "ub_period_started_at b + c - 1000000000 < ub_period_started_at (reread ho ho' (u, b)) + c'
    \<and> ub_period_started_at (reread ho ho' (u, b)) + c' < ub_period_started_at b + c + 2000000000"
proof -
  let ?G = "1000000000 :: int"
  define s w w' where "s = ub_period_started_at b + c" and "w = qh_now ho + c" and "w' = qh_now ho' + c'"
  have s: "0 \<le> s" "s \<le> w" "w \<le> w'" using assms by (simp_all add: s_def w_def w'_def)
  define n where "n = nat (qh_now ho - ub_period_started_at b) div from_secs 1"
  have n: "int n = (w - s) div ?G" using assms(1) by (simp add: n_def from_secs_def zdiv_int w_def s_def)
  have le: "(w - s) div ?G \<le> w div ?G" using s by (intro zdiv_mono1) auto
  have wall: "int (unat (qh_unix ho)) = w div ?G" "int (unat (qh_unix ho')) = w' div ?G" using assms(3,4) by (simp_all only: w_def w'_def)
  have "int n \<le> int (unat (qh_unix ho))" using n le wall(1) by linarith
  then have nle: "n \<le> unat (qh_unix ho)" by (simp only: of_nat_le_iff)
  then have "unat (qh_unix ho - word_of_nat n) = unat (qh_unix ho) - n"
    using unat_u64_less [of "qh_unix ho"]
    by (subst unat_sub) (simp_all add: word_le_nat_alt unsigned_of_nat take_bit_nat_eq_self)
  then have st: "int (unat (started_unix ho b)) = w div ?G - (w - s) div ?G"
    using nle n wall(1) assms(1) by (simp add: started_unix_def Let_def n_def [symmetric] of_nat_diff del: of_nat_unat One_nat_def)
  have lo: "s - ?G < ?G * int (unat (started_unix ho b))" and hi: "?G * int (unat (started_unix ho b)) < s + ?G"
    unfolding st right_diff_distrib
    using mult_div_mod_eq [of ?G w] mult_div_mod_eq [of ?G "w - s"] pos_mod_bound [of ?G w] pos_mod_bound [of ?G "w - s"]
      pos_mod_sign [of ?G w] pos_mod_sign [of ?G "w - s"] by linarith+
  have w'le: "w div ?G \<le> w' div ?G" using s by (intro zdiv_mono1) auto
  have "int (unat (started_unix ho b)) \<le> int (unat (qh_unix ho'))"
    using st w'le wall(2) s pos_imp_zdiv_nonneg_iff [of ?G "w - s"] by linarith
  then have before: "started_unix ho b \<le> qh_unix ho'" unfolding word_le_nat_alt by (simp only: of_nat_le_iff)
  then have "int (unat (qh_unix ho' - started_unix ho b)) = w' div ?G - int (unat (started_unix ho b))"
    using wall(2) by (simp add: unat_sub word_le_nat_alt of_nat_diff del: of_nat_unat)
  then have d: "int (from_secs (unat (qh_unix ho' - started_unix ho b))) = ?G * (w' div ?G) - ?G * int (unat (started_unix ho b))"
    by (simp add: from_secs_def right_diff_distrib mult.commute)
  have again: "qh_now ho' - int (from_secs (unat (qh_unix ho' - started_unix ho b))) + c' = w' mod ?G + ?G * int (unat (started_unix ho b))"
    unfolding d by (simp add: w'_def minus_mult_div_eq_mod [symmetric])
  moreover have "0 \<le> w' mod ?G" "w' mod ?G < ?G" by simp_all
  moreover have "- int (from_secs (2 ^ 63)) \<le> qh_now ho' - int (from_secs (unat (qh_unix ho' - started_unix ho b)))"
    using again assms(6) calculation by linarith
  then have "ub_period_started_at (reread ho ho' (u, b)) = qh_now ho' - int (from_secs (unat (qh_unix ho' - started_unix ho b)))"
    using before by (simp add: reread_def line_start_def parsed_of_def at_checked_sub_def)
  ultimately show ?thesis using lo hi unfolding s_def [symmetric] by linarith
qed

lemma quota_file_lines:
  assumes "\<forall>ub \<in> set (qh_order ho g). quota_writable ub"
  shows "text_lines (quota_body ho g) = quota_header # map (quota_text ho) (qh_order ho g)"
  unfolding quota_body_def quota_text_def [symmetric]
proof (rule text_lines_body)
  have "10 \<notin> set (quota_text ho ub) \<and> quota_text ho ub \<noteq> [] \<and> last (quota_text ho ub) \<noteq> 13" if "quota_writable ub" for ub
    using that quota_line_facts(3) by (auto simp: quota_text_def quota_writable_def case_prod_beta)
  then show "\<forall>l \<in> set (quota_header # map (quota_text ho) (qh_order ho g)). 10 \<notin> set l \<and> l \<noteq> [] \<and> last l \<noteq> 13"
    using assms quota_header_facts(2) by auto
qed


section \<open>A reload\<close>

text \<open>What a line does to the bucket of a user.\<close>

definition bucket_moves :: "quota_host \<Rightarrow> nat \<Rightarrow> bytes \<Rightarrow> ParsedEntry set \<Rightarrow> UserBucket \<Rightarrow> UserBucket \<Rightarrow> bool" where
  "bucket_moves ho P u ps b b' \<longleftrightarrow> ub_used_bytes b \<le> ub_used_bytes b' \<and> ub_period_started_at b' = ub_period_started_at b
     \<and> (ub_cap_override b' = ub_cap_override b
        \<or> (\<exists>p \<in> ps. pe_user_id p = u \<and> qh_now ho < line_start ho p + int P \<and> ub_cap_override b' = pe_cap_override p))"

lemma bucket_moves_refl: "bucket_moves ho P u ps b b"
  by (simp add: bucket_moves_def)

lemma bucket_moves_trans: "bucket_moves ho P u ps a b \<Longrightarrow> bucket_moves ho P u ps b c \<Longrightarrow> bucket_moves ho P u ps a c"
  by (auto simp: bucket_moves_def)

lemma quota_merge_entry_moves:
  assumes "quota_merge_entry ho P p (g, n) = Ok (g', n')" and "hm_get g u = Some b" and "p \<in> ps"
  shows "\<exists>b'. hm_get g' u = Some b' \<and> bucket_moves ho P u ps b b'"
proof -
  have sum: "at_plus (line_start ho p) P = (Ok (line_start ho p + int P) :: (unit, int) rust)"
    using assms(1) by (cases "line_start ho p + int P < int (from_secs (2 ^ 63))") (simp_all add: at_plus_def quota_merge_entry_def)
  show ?thesis
  proof (cases "line_start ho p + int P \<le> qh_now ho")
    case True
    then show ?thesis using assms(1,2) bucket_moves_refl by (simp add: quota_merge_entry_def sum)
  next
    case False
    define e where "e = (case hm_get g (pe_user_id p) of Some b \<Rightarrow> b | None \<Rightarrow> \<lparr>ub_used_bytes = 0, ub_period_started_at = line_start ho p, ub_cap_override = pe_cap_override p\<rparr>)"
    have "(if max (ub_used_bytes e) (pe_used_bytes p) \<noteq> ub_used_bytes e \<or> pe_cap_override p \<noteq> ub_cap_override e
        then (Ok (hm_insert (pe_user_id p) (e\<lparr>ub_used_bytes := max (ub_used_bytes e) (pe_used_bytes p), ub_cap_override := pe_cap_override p\<rparr>) g, n + 1) :: (unit, buckets \<times> u64) rust)
        else Ok (hm_insert (pe_user_id p) e g, n)) = Ok (g', n')"
      using assms(1) False by (simp only: quota_merge_entry_def sum Let_def e_def rust_bind.simps case_prod_conv if_False)
    moreover have "e\<lparr>ub_used_bytes := ub_used_bytes e, ub_cap_override := ub_cap_override e\<rparr> = e" by simp
    ultimately have "g' = hm_insert (pe_user_id p) (e\<lparr>ub_used_bytes := max (ub_used_bytes e) (pe_used_bytes p), ub_cap_override := pe_cap_override p\<rparr>) g"
      by (cases "max (ub_used_bytes e) (pe_used_bytes p) = ub_used_bytes e \<and> pe_cap_override p = ub_cap_override e") auto
    moreover have "pe_user_id p = u \<Longrightarrow> e = b" using assms(2) by (simp add: e_def)
    ultimately show ?thesis using assms(2,3) False by (auto simp: hm_get_insert bucket_moves_def)
  qed
qed

definition parsed_lines :: "bytes \<Rightarrow> ParsedEntry set" where
  "parsed_lines raw = {p. \<exists>l \<in> set (text_lines raw). quota_parse_entry_line (trim l) = Ok p}"

lemma quota_merge_lines_moves:
  assumes "quota_merge_lines ho P ls (g, n) = Ok (g', n')" and "hm_get g u = Some b"
    and "\<forall>l \<in> set ls. \<forall>p. quota_parse_entry_line (trim l) = Ok p \<longrightarrow> p \<in> ps"
  shows "\<exists>b'. hm_get g' u = Some b' \<and> bucket_moves ho P u ps b b'"
  using assms
proof (induction ls arbitrary: g n b)
  case Nil
  then show ?case using bucket_moves_refl by simp
next
  case (Cons l ls)
  have ps: "\<forall>l \<in> set ls. \<forall>p. quota_parse_entry_line (trim l) = Ok p \<longrightarrow> p \<in> ps" using Cons.prems(3) by simp
  show ?case
  proof (cases "\<exists>p. \<not> passed_over (trim l) \<and> quota_parse_entry_line (trim l) = Ok p")
    case True
    then obtain p where p: "\<not> passed_over (trim l)" "quota_parse_entry_line (trim l) = Ok p" by blast
    then obtain g1 n1 where g1: "quota_merge_entry ho P p (g, n) = Ok (g1, n1)" "quota_merge_lines ho P ls (g1, n1) = Ok (g', n')"
      using Cons.prems(1) by (cases "quota_merge_entry ho P p (g, n)") auto
    obtain b1 where b1: "hm_get g1 u = Some b1" "bucket_moves ho P u ps b b1"
      using quota_merge_entry_moves [OF g1(1) Cons.prems(2), of ps] Cons.prems(3) p(2) by auto
    show ?thesis using Cons.IH [OF g1(2) b1(1) ps] bucket_moves_trans [OF b1(2)] by blast
  next
    case False
    then have "quota_merge_lines ho P ls (g, n) = Ok (g', n')"
      using Cons.prems(1) by (cases "quota_parse_entry_line (trim l)") (auto simp: Let_def split: if_splits)
    then show ?thesis using Cons.IH Cons.prems(2) ps by blast
  qed
qed

text \<open>
  C24. A reload cannot grant a fresh allotment.  Whatever the operator wrote into the file, the bytes of a user in the map never go down and its
  period does not start anew; only its cap can change, and only through a line whose period is still running (the
  edit of the line of a user who was not seen for a period is dropped).
\<close>

theorem reload_grants_nothing:
  assumes "quota_reload_from_disk ho (q, File raw) = Ok (Inr n, q', fl')" and "hm_get (pq_inner q) u = Some b"
  shows "\<exists>b'. hm_get (pq_inner q') u = Some b' \<and> ub_used_bytes b \<le> ub_used_bytes b' \<and> ub_period_started_at b' = ub_period_started_at b
    \<and> (ub_cap_override b' = ub_cap_override b
       \<or> (\<exists>p \<in> parsed_lines raw. pe_user_id p = u \<and> qh_now ho < line_start ho p + int (pq_period q) \<and> ub_cap_override b' = pe_cap_override p))"
proof (cases "pq_persistence_path q")
  case None
  then have "pq_inner q' = pq_inner q" using assms(1) by (auto simp: quota_reload_from_disk_def)
  then show ?thesis using assms(2) by simp
next
  case (Some path)
  then obtain g m where g: "quota_merge_lines ho (pq_period q) (text_lines raw) (pq_inner q, 0) = Ok (g, m)"
      "quota_persist ho (q\<lparr>pq_reload_attempts_total := pq_reload_attempts_total q + 1, pq_inner := g\<rparr>, File raw) = (q', fl')"
    using assms(1) by (auto simp: quota_reload_from_disk_def rust_bind_Ok_iff)
  then have "pq_inner q' = g" by (auto simp: quota_persist_def Let_def split: option.splits if_splits)
  moreover have "\<exists>b'. hm_get g u = Some b' \<and> bucket_moves ho (pq_period q) u (parsed_lines raw) b b'"
    by (rule quota_merge_lines_moves [OF g(1) assms(2)]) (auto simp: parsed_lines_def)
  ultimately show ?thesis by (simp add: bucket_moves_def)
qed

section \<open>Witnesses\<close>

definition alice :: bytes where "alice = ascii ''alice001''"

lemma alice_writable: "length alice = 8" "id_survives alice"
  by (unfold alice_def; code_simp)+

text \<open>Alice has used 70 bytes of the period of an hour that began one second after the first boot.\<close>

definition alice_tracker :: PerUserQuotaTracker where
  "alice_tracker = (quota_new (from_secs 3600) 50 4 0)
     \<lparr>pq_persistence_path := Some [47], pq_inner := [(alice, \<lparr>ub_used_bytes = 70, ub_period_started_at = 1000000000, ub_cap_override = None\<rparr>)]\<rparr>"


text \<open>The operator has set her bytes to zero in the file.\<close>

lemma reload_grants_nothing_witness:
  "\<exists>n q' fl' b'. quota_reload_from_disk (plain_host 6000000000 1006)
       (alice_tracker, File (quota_body (plain_host 5000000000 1005) [(alice, \<lparr>ub_used_bytes = 0, ub_period_started_at = 4000000000, ub_cap_override = None\<rparr>)]))
       = Ok (Inr n, q', fl')
     \<and> hm_get (pq_inner q') alice = Some b' \<and> 70 \<le> ub_used_bytes b' \<and> ub_period_started_at b' = 1000000000"
proof -
  let ?ho = "plain_host 5000000000 1005" and ?ho' = "plain_host 6000000000 1006"
  let ?ub = "(alice, \<lparr>ub_used_bytes = 0, ub_period_started_at = 4000000000, ub_cap_override = None\<rparr>)"
  let ?raw = "quota_body ?ho [?ub]"
  have "text_lines ?raw = [quota_header, quota_text ?ho ?ub]"
    using quota_file_lines [of ?ho "[?ub]"] alice_writable by (simp add: quota_writable_def)
  moreover have "trim (quota_text ?ho ?ub) = quota_text ?ho ?ub" "\<not> passed_over (quota_text ?ho ?ub)"
    "quota_parse_entry_line (quota_text ?ho ?ub) = Ok (parsed_of ?ho ?ub)"
    by (simp_all add: quota_text_def parsed_of_def quota_line_facts [OF alice_writable(1)] quota_parse_written [OF alice_writable])
  moreover have "\<exists>s. quota_merge_entry ?ho' (from_secs 3600) (parsed_of ?ho ?ub) (pq_inner alice_tracker, 0) = Ok s"
  proof -
    have "at_plus (line_start ?ho' (parsed_of ?ho ?ub)) (from_secs 3600) = (Ok (line_start ?ho' (parsed_of ?ho ?ub) + int (from_secs 3600)) :: (unit, int) rust)"
      using line_start_le [of ?ho' "parsed_of ?ho ?ub"] by (simp add: at_plus_def from_secs_def)
    then show ?thesis by (simp add: quota_merge_entry_def Let_def)
  qed
  ultimately obtain s where "quota_merge_lines ?ho' (from_secs 3600) (text_lines ?raw) (pq_inner alice_tracker, 0) = Ok s"
    by (auto simp: quota_header_facts(3) simp del: quota_merge_lines.simps(2)) (simp add: quota_merge_lines.simps(2))
  then obtain n q' fl' where r: "quota_reload_from_disk ?ho' (alice_tracker, File ?raw) = Ok (Inr n, q', fl')"
    by (cases s) (auto simp: quota_reload_from_disk_def alice_tracker_def quota_new_def, metis surj_pair)
  have "hm_get (pq_inner alice_tracker) alice = Some \<lparr>ub_used_bytes = 70, ub_period_started_at = 1000000000, ub_cap_override = None\<rparr>"
    by (simp add: alice_tracker_def quota_new_def)
  from reload_grants_nothing [OF r this] r show ?thesis by auto
qed

end
