(* ===== verification/Log_Throttle.thy ===== *)
theory Log_Throttle
  imports Proteus_Prelude
begin

text \<open>
  The token bucket in front of the log lines of hot paths (\<open>transport-alpha/src/log_throttle.rs\<close>).  Tokens are counted in
  millionths and times in microseconds since the throttle was made.  The calls are taken one after the
  other, so a compare-and-exchange succeeds; the refill rate is given as the constructor has rounded it.
\<close>

section \<open>Operations\<close>

record Throttle =
  th_burst :: u64
  th_refill_micros_per_sec :: u64
  th_tokens_micro :: u64
  th_last_refill_micros :: u64
  th_suppressed_since_rollup :: u64
  th_total_suppressed :: u64
  th_total_allowed :: u64

datatype AcquireResult = LineAllowed | Suppressed u64

definition to_u64 :: "nat \<Rightarrow> u64" where
  "to_u64 n = word_of_nat (min n u64_max)"

definition throttle_new :: "u64 \<Rightarrow> u64 \<Rightarrow> Throttle" where
  "throttle_new burst refill_micros =
     \<lparr>th_burst = burst, th_refill_micros_per_sec = refill_micros, th_tokens_micro = to_u64 (unat burst * 1000000),
      th_last_refill_micros = 0, th_suppressed_since_rollup = 0, th_total_suppressed = 0, th_total_allowed = 0\<rparr>"

definition refill :: "nat \<Rightarrow> Throttle \<Rightarrow> Throttle" where
  "refill elapsed th =
     (let now_micros = to_u64 elapsed; last = th_last_refill_micros th in
      if now_micros \<le> last then th
      else
        (let elapsed_micros = now_micros - last;
             to_add = to_u64 (unat (th_refill_micros_per_sec th) * unat elapsed_micros div 1000000) in
         if to_add = 0 then th
         else
           (let cap = to_u64 (unat (th_burst th) * 1000000); cur = th_tokens_micro th in
            th\<lparr>th_last_refill_micros := now_micros, th_tokens_micro := min (to_u64 (unat cur + unat to_add)) cap\<rparr>)))"

definition try_acquire :: "nat \<Rightarrow> Throttle \<Rightarrow> AcquireResult \<times> Throttle" where
  "try_acquire elapsed th =
     (let th = refill elapsed th; cur = th_tokens_micro th in
      if 1000000 \<le> cur then
        (LineAllowed, th\<lparr>th_tokens_micro := cur - 1000000, th_total_allowed := th_total_allowed th + 1\<rparr>)
      else
        (let n = th_suppressed_since_rollup th + 1 in
         (Suppressed n, th\<lparr>th_suppressed_since_rollup := n, th_total_suppressed := th_total_suppressed th + 1\<rparr>)))"

definition roll_up :: "Throttle \<Rightarrow> u64 \<times> Throttle" where
  "roll_up th = (th_suppressed_since_rollup th, th\<lparr>th_suppressed_since_rollup := 0\<rparr>)"

section \<open>The rate\<close>

fun throttle_run :: "nat list \<Rightarrow> Throttle \<Rightarrow> AcquireResult list \<times> Throttle" where
  "throttle_run [] th = ([], th)"
| "throttle_run (t # ts) th = (case try_acquire t th of (r, th) \<Rightarrow> case throttle_run ts th of (rs, th) \<Rightarrow> (r # rs, th))"

abbreviation allowed :: "AcquireResult list \<Rightarrow> nat" where
  "allowed rs \<equiv> length (filter (\<lambda>r. r = LineAllowed) rs)"

text \<open>
  What the bucket holds and what the time since the last refill is worth, in millionths of a millionth of a token.
\<close>

definition credit :: "nat \<Rightarrow> Throttle \<Rightarrow> nat" where
  "credit t th = unat (th_tokens_micro th) * 1000000 + unat (th_refill_micros_per_sec th) * (t - unat (th_last_refill_micros th))"

definition throttle_ok :: "Throttle \<Rightarrow> bool" where
  "throttle_ok th \<longleftrightarrow> unat (th_tokens_micro th) \<le> unat (th_burst th) * 1000000"

lemma unat_to_u64 [simp]: "unat (to_u64 n) = min n u64_max"
  by (simp add: to_u64_def u64_max_def unsigned_of_nat take_bit_nat_eq_self)

lemma to_u64_0_iff: "to_u64 n = 0 \<longleftrightarrow> n = 0"
proof -
  have "to_u64 n = 0 \<longleftrightarrow> min n u64_max = 0" by (simp only: unat_to_u64 [symmetric] unat_eq_zero)
  then show ?thesis by (simp add: u64_max_def min_def)
qed

lemma throttle_new_ok: "throttle_ok (throttle_new burst r)"
  by (simp add: throttle_ok_def throttle_new_def)

lemma unat_min: "unat (min a b) = min (unat a) (unat b)" for a b :: "'a::len word"
  by (simp add: min_def word_le_nat_alt)

text \<open>A refill creates no credit, and leaves at most a full bucket and the rest of a division.\<close>

lemma refill_credit:
  assumes "throttle_ok th" and "t \<le> u64_max"
  shows "throttle_ok (refill t th)" and "credit t (refill t th) \<le> credit t th"
    and "credit t (refill t th) \<le> unat (th_burst th) * 1000000 * 1000000 + 1000000"
    and "th_burst (refill t th) = th_burst th" and "th_refill_micros_per_sec (refill t th) = th_refill_micros_per_sec th"
proof -
  let ?r = "unat (th_refill_micros_per_sec th)" and ?l = "unat (th_last_refill_micros th)" and ?c = "unat (th_tokens_micro th)"
  let ?cap = "unat (th_burst th) * 1000000" and ?add = "?r * (t - ?l) div 1000000"
  have t: "unat (to_u64 t) = t" using assms(2) by simp
  have cap: "?c \<le> ?cap" using assms(1) by (simp add: throttle_ok_def)
  have same: "throttle_ok (refill t th) \<and> credit t (refill t th) \<le> credit t th \<and> credit t (refill t th) \<le> ?cap * 1000000 + 1000000"
  proof (cases "t \<le> ?l")
    case True
    then have "refill t th = th" using t by (simp add: refill_def Let_def word_le_nat_alt)
    then show ?thesis using True assms(1) cap by (simp add: credit_def)
  next
    case False
    then have e: "unat (to_u64 t - th_last_refill_micros th) = t - ?l" using t by (simp add: unat_sub word_le_nat_alt)
    have div: "?add * 1000000 \<le> ?r * (t - ?l)" "?r * (t - ?l) < ?add * 1000000 + 1000000"
      using div_mult_mod_eq [of "?r * (t - ?l)" 1000000] mod_less_divisor [of 1000000 "?r * (t - ?l)"] by linarith+
    show ?thesis
    proof (cases "?add = 0")
      case True
      then have "refill t th = th" using e by (auto simp: refill_def Let_def to_u64_def)
      then show ?thesis using True assms(1) cap div by (simp add: credit_def)
    next
      case some: False
      then have "to_u64 ?add \<noteq> 0" by (simp only: to_u64_0_iff) simp
      then have r: "refill t th = th\<lparr>th_last_refill_micros := to_u64 t,
          th_tokens_micro := min (to_u64 (?c + min ?add u64_max)) (to_u64 ?cap)\<rparr>"
        using False e t by (simp add: refill_def Let_def word_le_nat_alt)
      have c: "credit t (refill t th) = min (min (?c + min ?add u64_max) u64_max) (min ?cap u64_max) * 1000000"
        using t by (simp add: r credit_def unat_min)
      have "min (min (?c + min ?add u64_max) u64_max) (min ?cap u64_max) \<le> ?c + ?add"
        by (rule le_trans [OF min.cobounded1 le_trans [OF min.cobounded1 add_left_mono [OF min.cobounded1]]])
      then have "credit t (refill t th) \<le> ?c * 1000000 + ?add * 1000000" unfolding c add_mult_distrib [symmetric] by (rule mult_le_mono1)
      moreover have "credit t th = ?c * 1000000 + ?r * (t - ?l)" by (simp add: credit_def)
      ultimately have "credit t (refill t th) \<le> credit t th" using div(1) by linarith
      moreover have le: "min (min (?c + min ?add u64_max) u64_max) (min ?cap u64_max) \<le> ?cap" by (rule le_trans [OF min.cobounded2 min.cobounded1])
      then have "credit t (refill t th) \<le> ?cap * 1000000 + 1000000" unfolding c using mult_le_mono1 [OF le, of 1000000] by linarith
      moreover have "unat (th_tokens_micro (refill t th)) \<le> ?cap" "th_burst (refill t th) = th_burst th" using le by (simp_all add: r unat_min)
      ultimately show ?thesis by (simp add: throttle_ok_def)
    qed
  qed
  then show "throttle_ok (refill t th)" "credit t (refill t th) \<le> credit t th"
    "credit t (refill t th) \<le> unat (th_burst th) * 1000000 * 1000000 + 1000000" by simp_all
  show "th_burst (refill t th) = th_burst th" "th_refill_micros_per_sec (refill t th) = th_refill_micros_per_sec th"
    by (simp_all add: refill_def Let_def)
qed

lemma try_acquire_credit:
  assumes "throttle_ok th" and "t \<le> u64_max"
  shows "throttle_ok (snd (try_acquire t th))"
    and "credit t (snd (try_acquire t th)) + (if fst (try_acquire t th) = LineAllowed then 1000000 * 1000000 else 0) = credit t (refill t th)"
    and "th_burst (snd (try_acquire t th)) = th_burst th" and "th_refill_micros_per_sec (snd (try_acquire t th)) = th_refill_micros_per_sec th"
proof -
  have sub: "unat (c - 1000000) = unat c - 1000000" "1000000 \<le> unat c" if "1000000 \<le> c" for c :: u64
    using that by (simp_all add: unat_sub word_le_nat_alt)
  show "throttle_ok (snd (try_acquire t th))"
    using refill_credit(1) [OF assms] by (auto simp: try_acquire_def Let_def throttle_ok_def sub)
  show "credit t (snd (try_acquire t th)) + (if fst (try_acquire t th) = LineAllowed then 1000000 * 1000000 else 0) = credit t (refill t th)"
    using sub [of "th_tokens_micro (refill t th)"] by (auto simp: try_acquire_def Let_def credit_def diff_mult_distrib)
  show "th_burst (snd (try_acquire t th)) = th_burst th" "th_refill_micros_per_sec (snd (try_acquire t th)) = th_refill_micros_per_sec th"
    using refill_credit(4,5) [OF assms] by (simp_all add: try_acquire_def Let_def)
qed

lemma credit_later: "t \<le> t' \<Longrightarrow> credit t' th \<le> credit t th + unat (th_refill_micros_per_sec th) * (t' - t)"
proof -
  assume "t \<le> t'"
  then have "t' - unat (th_last_refill_micros th) \<le> (t - unat (th_last_refill_micros th)) + (t' - t)" by simp
  then have "unat (th_refill_micros_per_sec th) * (t' - unat (th_last_refill_micros th))
      \<le> unat (th_refill_micros_per_sec th) * ((t - unat (th_last_refill_micros th)) + (t' - t))" by (rule mult_le_mono2)
  then show ?thesis by (simp add: credit_def distrib_left)
qed

lemma throttle_run_credit:
  assumes "throttle_ok th" and "\<forall>t \<in> set (t0 # ts). t \<le> u64_max" and "sorted (t0 # ts)"
  shows "1000000 * 1000000 * allowed (fst (throttle_run ts th)) \<le> credit t0 th + unat (th_refill_micros_per_sec th) * (last (t0 # ts) - t0)"
  using assms
proof (induction ts arbitrary: th t0)
  case (Cons t ts)
  let ?th = "snd (try_acquire t th)" and ?r = "unat (th_refill_micros_per_sec th)"
  have t: "t \<le> u64_max" "t0 \<le> t" using Cons.prems by simp_all
  note a = try_acquire_credit [OF Cons.prems(1) t(1)]
  have IH: "1000000 * 1000000 * allowed (fst (throttle_run ts ?th)) \<le> credit t ?th + ?r * (last (t # ts) - t)"
    using Cons.IH [of ?th t] Cons.prems a by simp
  have "credit t ?th + (if fst (try_acquire t th) = LineAllowed then 1000000 * 1000000 else 0) \<le> credit t0 th + ?r * (t - t0)"
    unfolding a(2) using refill_credit(2) [OF Cons.prems(1) t(1)] credit_later [OF t(2), of th] by linarith
  moreover have "t \<le> last (t # ts)" using Cons.prems(3) by (auto simp: last_in_set)
  then have "?r * (t - t0) + ?r * (last (t # ts) - t) = ?r * (last (t0 # t # ts) - t0)" using t(2) by (simp add: distrib_left [symmetric])
  ultimately show ?case using IH by (auto simp: case_prod_beta split: if_splits)
qed (simp add: credit_def)


text \<open>A throttle that was left alone for the time of a token lets the next line through.\<close>

lemma throttle_recovers:
  assumes "throttle_ok th" and "t \<le> u64_max" and "1 \<le> th_burst th"
    and "10 ^ 12 \<le> unat (th_refill_micros_per_sec th) * (t - unat (th_last_refill_micros th))"
  shows "fst (try_acquire t th) = LineAllowed"
proof -
  let ?l = "unat (th_last_refill_micros th)" and ?add = "unat (th_refill_micros_per_sec th) * (t - unat (th_last_refill_micros th)) div 1000000"
  have later: "?l < t" using assms(4) by (cases "?l < t") simp_all
  have tt: "unat (to_u64 t) = t" using assms(2) by simp
  then have e: "unat (to_u64 t - th_last_refill_micros th) = t - ?l" using later by (simp add: unat_sub word_le_nat_alt)
  have add: "1000000 \<le> ?add" using assms(4) by simp
  then have "to_u64 ?add \<noteq> 0" by (simp only: to_u64_0_iff)
  then have "th_tokens_micro (refill t th) = min (to_u64 (unat (th_tokens_micro th) + min ?add u64_max)) (to_u64 (unat (th_burst th) * 1000000))"
    using later e tt by (simp add: refill_def Let_def word_le_nat_alt)
  moreover have "1 \<le> unat (th_burst th)" using assms(3) by (simp add: word_le_nat_alt)
  ultimately have "1000000 \<le> unat (th_tokens_micro (refill t th))" using add by (simp add: unat_min u64_max_def)
  then show ?thesis by (simp add: try_acquire_def Let_def word_le_nat_alt)
qed

text \<open>No suppressed line is lost: the rollups and what is pending add up to the total, modulo the width of the counters.\<close>

datatype throttle_event = Line nat | RollUp

fun throttle_events :: "throttle_event list \<Rightarrow> Throttle \<Rightarrow> u64 list \<times> Throttle" where
  "throttle_events [] th = ([], th)"
| "throttle_events (Line t # es) th = throttle_events es (snd (try_acquire t th))"
| "throttle_events (RollUp # es) th = (case roll_up th of (n, th) \<Rightarrow> case throttle_events es th of (ns, th) \<Rightarrow> (n # ns, th))"

lemma rollups_complete:
  "throttle_events es th = (ns, th') \<Longrightarrow>
     sum_list ns + th_suppressed_since_rollup th' - th_suppressed_since_rollup th = th_total_suppressed th' - th_total_suppressed th"
proof (induction es th arbitrary: ns rule: throttle_events.induct)
  case (2 t es th)
  have "th_suppressed_since_rollup (snd (try_acquire t th)) - th_suppressed_since_rollup th = th_total_suppressed (snd (try_acquire t th)) - th_total_suppressed th"
    by (simp add: try_acquire_def refill_def Let_def)
  moreover have "sum_list ns + th_suppressed_since_rollup th' - th_suppressed_since_rollup (snd (try_acquire t th))
      = th_total_suppressed th' - th_total_suppressed (snd (try_acquire t th))" using 2 by simp
  ultimately have "(sum_list ns + th_suppressed_since_rollup th' - th_suppressed_since_rollup (snd (try_acquire t th)))
      + (th_suppressed_since_rollup (snd (try_acquire t th)) - th_suppressed_since_rollup th)
    = (th_total_suppressed th' - th_total_suppressed (snd (try_acquire t th))) + (th_total_suppressed (snd (try_acquire t th)) - th_total_suppressed th)"
    by (simp only:)
  then show ?case by (simp only: diff_add_eq diff_add_cancel add_diff_eq add_diff_cancel_right')
next
  case (3 es th)
  obtain ms where ms: "throttle_events es (th\<lparr>th_suppressed_since_rollup := 0\<rparr>) = (ms, th')" "ns = th_suppressed_since_rollup th # ms"
    using 3(2) by (cases "throttle_events es (th\<lparr>th_suppressed_since_rollup := 0\<rparr>)") (auto simp: roll_up_def)
  have "sum_list ms + th_suppressed_since_rollup th' = th_total_suppressed th' - th_total_suppressed th"
    using 3(1) [OF _ ms(1)] by (simp add: roll_up_def)
  then show ?case by (simp add: ms(2) algebra_simps)
qed simp


end
