(* ===== verification/Spec2Isabelle.thy ===== *)
theory Spec2Isabelle
  imports Handshake_Paths Knock_Stream Client_Dispatch Admission Conn_Limit Datagram Quota_File Log_Throttle
begin

text \<open>
  A verification development for the Proteus transport (\<open>projects/proteus/crates\<close>, Rust).

  \<^bold>\<open>The program.\<close>  A client program on the user's machine takes requests of local applications
  (SOCKS5), picks a server and a carrier, and runs a handshake with it over TLS/TCP (the alpha
  profile) or QUIC (beta).  The server looks at the ClientHello before TLS (the knock), checks an
  authentication extension, a puzzle and a replay window, and answers only a peer it has
  authenticated; anything else is handed to a cover web site.  Established sessions carry records
  under a ratchet, in cells of a fixed size if shaping is on.  The server reads the destination
  from the first record, filters it and dials it.  Around this stand a firewall, limits on
  connections and users, and lists of denied prefixes and quarantined users.

  \<^bold>\<open>Theories and sources.\<close>

  \<^item> \<open>Proteus_Prelude\<close>: machine integers, Rust results with panics as values, slices, big-endian
    bytes, hash maps, and the interfaces shared by components (\<open>prefix_codec\<close>,
    \<open>invariant_machine\<close>, \<open>bounded_machine\<close>).
  \<^item> \<open>Proteus_Spec\<close>: the constants (\<open>proteus-spec/src/lib.rs\<close>).
  \<^item> \<open>Wire_Varint\<close>, \<open>Wire_Frame\<close>, \<open>Wire_Auth\<close>: the wire format (\<open>proteus-wire/src\<close>: \<open>varint.rs\<close>,
    \<open>alpha.rs\<close>, \<open>lib.rs\<close>).  Encoders and decoders are functions on byte lists; round trips in both
    directions, no panic, at any width of \<open>usize\<close>.
  \<^item> \<open>Crypto\<close>: key derivation, hybrid key exchange, key schedule, record protection, ratchet,
    signatures, authentication tag (\<open>proteus-crypto/src\<close>, \<open>proteus-handshake/src/auth_tag.rs\<close>).  The
    third-party ciphers are the record \<open>primitives\<close>; \<open>prims_ok\<close> and \<open>kem_pair\<close> are what is relied on
    (sizes, decryption inverts encryption, agreement), and \<open>toy_prims\<close> satisfies them.  No claim
    here is one of secrecy: the theorems say when the code calls a cipher with which nonce and
    that it acts only on what verified.
  \<^item> \<open>Pow\<close>: the puzzle (\<open>transport-alpha/src/pow.rs\<close>).  \<open>Shape\<close>: cell sizes and the schedule of cover
    shapes (\<open>proteus-shape/src\<close>).  \<open>Replay_Window\<close>, \<open>Handshake_State\<close>: \<open>proteus-handshake/src/replay.rs\<close>
    and \<open>state.rs\<close>, the latter an inductive set of reachable states with their traces.
  \<^item> \<open>Session_Model\<close>, \<open>Session_Sender\<close>, \<open>Session_Delivery\<close>, \<open>Session_Receive\<close>, \<open>Session_Guarantees\<close>: the
    established session (\<open>transport-alpha/src/session.rs\<close>).  The records \<open>sender\<close> and \<open>receiver\<close> hold the
    fields of the two halves; a call returns its outcome and the state it leaves, early returns
    included.
  \<^item> \<open>Handshake_Model\<close>, \<open>Handshake_Run\<close>, \<open>Handshake_Theorems\<close>, \<open>Handshake_Paths\<close>: the handshake of both
    ends and both server entry points (\<open>transport-alpha/src/client.rs\<close>, \<open>server.rs\<close>).
  \<^item> \<open>Client_Hello\<close>: the ClientHello parser and JA4 fingerprint (\<open>proteus-fingerprint/src/ja4.rs\<close>).
    \<open>Knock\<close>, \<open>Knock_Gate\<close>, \<open>Knock_Stream\<close>: the knock token (\<open>proteus-handshake/src/knock.rs\<close>,
    \<open>knock_wire.rs\<close>), the server's gate and the client's rewriting stream
    (\<open>transport-alpha/src/clienthello_sniffer.rs\<close>, \<open>knock_gate.rs\<close>, \<open>knock_rewriter.rs\<close>).
  \<^item> \<open>Net_Addr\<close>, \<open>Firewall\<close>, \<open>Outbound_Filter\<close>: addresses as text, the address firewall and the filter of
    destinations (\<open>transport-alpha/src/firewall.rs\<close>, \<open>outbound_filter.rs\<close>).  \<open>Relay_Target\<close>: a destination
    from the SOCKS request over the connect record to the dial (\<open>proteus-client/src/socks.rs\<close>,
    \<open>proteus-server/src/relay.rs\<close>).
  \<^item> \<open>Endpoint_Health\<close>, \<open>Bootstrap\<close>, \<open>Client_Dispatch\<close>: circuit breakers, resolution of server names,
    the pool and the dispatch of a request (\<open>proteus-client/src/carrier_health.rs\<close>, \<open>bootstrap.rs\<close>,
    \<open>endpoint_pool.rs\<close>, \<open>socks.rs\<close>).
  \<^item> \<open>User_Id\<close>, \<open>User_Quarantine\<close>: the text of user ids and the quarantine with its file
    (\<open>transport-alpha/src/per_user_bandwidth.rs\<close>, \<open>user_quarantine.rs\<close>).
\<close>

end
